(* ===== verification/Prelude.thy ===== *)
theory Prelude
  imports Main "HOL-Library.Char_ord" "HOL-Library.List_Lexorder" "HOL-Library.Product_Lexorder"
begin

text \<open>
  What the components share: the names of the program's basic types, the lookups and loops of
  JavaScript arrays and maps that the model uses everywhere, and the generic lemmas about them.
\<close>

type_synonym ident = string  \<comment> \<open>a row id: an opaque string\<close>
type_synonym instant = int   \<comment> \<open>a JavaScript time value: milliseconds since 1970-01-01T00:00Z\<close>
type_synonym day = int       \<comment> \<open>whole days since 1970-01-01\<close>

section \<open>Results\<close>

text \<open>
  A call that may throw returns a sum, the error on the left. \<open>andThen\<close> is the sequencing of
  statements: the rest runs only when the call before it returned.
\<close>

fun andThen :: "'e + 'a \<Rightarrow> ('a \<Rightarrow> 'e + 'b) \<Rightarrow> 'e + 'b" where
  "andThen (Inl e) f = Inl e"
| "andThen (Inr a) f = f a"

lemma andThen_Inr [simp]: "andThen r f = Inr b \<longleftrightarrow> (\<exists>a. r = Inr a \<and> f a = Inr b)"
  by (cases r) auto

lemma andThen_Inl [simp]: "andThen r f = Inl e \<longleftrightarrow> r = Inl e \<or> (\<exists>a. r = Inr a \<and> f a = Inl e)"
  by (cases r) auto

section \<open>Arrays\<close>

text \<open>\<open>dedup\<close> is \<open>[...new Set(xs)]\<close>: the first copy of each element, in order.\<close>

fun dedup :: "'a list \<Rightarrow> 'a list" where
  "dedup [] = []"
| "dedup (x # xs) = x # filter (\<lambda>y. y \<noteq> x) (dedup xs)"

lemma set_dedup [simp]: "set (dedup xs) = set xs"
  by (induction xs) auto

lemma distinct_dedup [simp]: "distinct (dedup xs)"
  by (induction xs) auto

lemma dedup_id: "distinct xs \<Longrightarrow> dedup xs = xs"
  by (induction xs) (auto simp: filter_id_conv)

lemma length_filter_less: "x \<in> set xs \<Longrightarrow> \<not> P x \<Longrightarrow> length (filter P xs) < length xs"
  by (rule length_filter_less)

lemma image_notD: "y \<notin> f ` A \<Longrightarrow> x \<in> A \<Longrightarrow> f x \<noteq> y"
  by blast

lemma find_mem: "find P xs = Some x \<Longrightarrow> x \<in> set xs \<and> P x"
  by (induction xs) (auto split: if_splits)

end
