(* ===== verification/JsNumber.thy ===== *)
theory JsNumber
  imports Prelude
begin

text \<open>
  The arithmetic of JavaScript numbers (IEEE 754 doubles) behind a percentage, on counts: the quotient
  \<open>done / total\<close> rounded to 53 bits, the product with 100 rounded again, and \<open>Math.round\<close> of that. A
  number is kept as \<open>m / 2 ^ k\<close>.
\<close>

section \<open>Rounding to 53 bits\<close>

text \<open>\<open>n / d\<close> to the nearest whole number, halves to the even one.\<close>

definition roundEven :: "int \<Rightarrow> int \<Rightarrow> int" where
  "roundEven n d = (let q = n div d; r = n mod d in if 2 * r < d \<or> (2 * r = d \<and> even q) then q else q + 1)"

function bitLength :: "int \<Rightarrow> nat" where
  "bitLength n = (if n \<le> 0 then 0 else Suc (bitLength (n div 2)))"
  by auto
termination by (relation "measure nat") auto

declare bitLength.simps [simp del]

text \<open>
  The exponent that puts \<open>d * 2 ^ k / t\<close> between \<open>2 ^ 52\<close> and \<open>2 ^ 53\<close> (\<open>0 < d \<le> t\<close>), and the double
  nearest to \<open>d / t\<close> as \<open>m / 2 ^ k\<close>.
\<close>

definition quotientScale :: "int \<Rightarrow> int \<Rightarrow> nat" where
  "quotientScale d t = (let k = 52 + bitLength t - bitLength d in if d * 2 ^ k < 2 ^ 52 * t then k + 1 else k)"

definition quotient :: "int \<Rightarrow> int \<Rightarrow> int \<times> nat" where
  "quotient d t = (let k = quotientScale d t in (roundEven (d * 2 ^ k) t, k))"

text \<open>A whole number kept to 53 bits.\<close>

definition keepBits :: "int \<Rightarrow> int" where
  "keepBits n = (let s = bitLength n - 53 in roundEven n (2 ^ s) * 2 ^ s)"

text \<open>\<open>Math.round((d / t) * 100)\<close>: halves go up.\<close>

definition roundedPercent :: "int \<Rightarrow> int \<Rightarrow> int" where
  "roundedPercent d t = (case quotient d t of (m, k) \<Rightarrow> (2 * keepBits (100 * m) + 2 ^ k) div 2 ^ (k + 1))"

section \<open>A percentage is one\<close>

lemma int_div_less_iff:
  assumes "0 < d"
  shows "n div d < c \<longleftrightarrow> n < c * (d :: int)"
proof
  have n: "n = n div d * d + n mod d" "0 \<le> n mod d" "n mod d < d" using assms by simp_all
  show "n < c * d" if "n div d < c"
  proof -
    have "(n div d + 1) * d \<le> c * d" using that assms by (intro mult_right_mono) simp_all
    then show ?thesis using n unfolding distrib_right by linarith
  qed
  show "n div d < c" if "n < c * d"
    using n mult_right_mono[of c "n div d" d] that assms by linarith
qed

lemma roundEven_exact: "0 < d \<Longrightarrow> roundEven (c * d) d = c"
  by (simp add: roundEven_def Let_def)

lemma roundEven_nonneg: "0 \<le> n \<Longrightarrow> 0 < d \<Longrightarrow> 0 \<le> roundEven n d"
  by (simp add: roundEven_def Let_def pos_imp_zdiv_nonneg_iff)

lemma roundEven_le:
  assumes "0 < d" "n \<le> c * d"
  shows "roundEven n d \<le> c"
proof (cases "n < c * d")
  case True
  then have "n div d < c" using assms(1) by (simp add: int_div_less_iff)
  then show ?thesis by (simp add: roundEven_def Let_def)
next
  case False
  then have "n = c * d" using assms(2) by simp
  then show ?thesis using roundEven_exact[OF assms(1)] by simp
qed

lemma bitLength_le: "n < 2 ^ b \<Longrightarrow> bitLength n \<le> b"
proof (induction b arbitrary: n)
  case 0
  then show ?case by (simp add: bitLength.simps[of n])
next
  case (Suc b)
  then have "n div 2 < 2 ^ b" by (simp add: int_div_less_iff mult.commute)
  then have "bitLength (n div 2) \<le> b" by (rule Suc.IH)
  then show ?case by (simp add: bitLength.simps[of n])
qed

lemma bitLength_mono: "m \<le> n \<Longrightarrow> bitLength m \<le> bitLength n"
proof (induction n arbitrary: m rule: bitLength.induct)
  case (1 n)
  show ?case
  proof (cases "m \<le> 0")
    case True
    then show ?thesis by (simp add: bitLength.simps[of m])
  next
    case False
    then have "bitLength (m div 2) \<le> bitLength (n div 2)" using 1 by (simp add: zdiv_mono1)
    then show ?thesis using False 1(2) by (simp add: bitLength.simps[of n] bitLength.simps[of m])
  qed
qed

lemma quotientScale_ge: "d \<le> t \<Longrightarrow> 52 \<le> quotientScale d t"
proof -
  assume "d \<le> t"
  then have "52 \<le> 52 + bitLength t - bitLength d" using bitLength_mono[of d t] by linarith
  then show ?thesis unfolding quotientScale_def Let_def by (simp only: le_SucI Suc_eq_plus1[symmetric] split: if_split) simp
qed

text \<open>The low bits that are cut are no more than the scale has.\<close>

lemma cut_parts:
  assumes "52 \<le> k" "n \<le> 100 * 2 ^ k"
  shows "(100 * 2 ^ k :: int) = 100 * 2 ^ (k - (bitLength n - 53)) * 2 ^ (bitLength n - 53)"
proof -
  have "(128 * 2 ^ k :: int) = 2 ^ (k + 7)" by (simp add: power_add)
  moreover have "(100 * 2 ^ k :: int) < 128 * 2 ^ k" by simp
  ultimately have "n < 2 ^ (k + 7)" using assms(2) by linarith
  then have "bitLength n - 53 \<le> k" using bitLength_le[of n "k + 7"] by linarith
  then have "(2 ^ k :: int) = 2 ^ (k - (bitLength n - 53)) * 2 ^ (bitLength n - 53)" by (simp flip: power_add)
  then show ?thesis by (simp only: mult.assoc)
qed

lemma keepBits_le:
  assumes "52 \<le> k" "n \<le> 100 * 2 ^ k"
  shows "keepBits n \<le> 100 * 2 ^ k"
proof -
  have "roundEven n (2 ^ (bitLength n - 53)) \<le> 100 * 2 ^ (k - (bitLength n - 53))"
    by (rule roundEven_le) (use assms(2) in \<open>simp_all only: cut_parts[OF assms, symmetric] zero_less_power zero_less_numeral\<close>)
  then have "roundEven n (2 ^ (bitLength n - 53)) * 2 ^ (bitLength n - 53) \<le> 100 * 2 ^ (k - (bitLength n - 53)) * 2 ^ (bitLength n - 53)"
    by (rule mult_right_mono) simp
  then show ?thesis unfolding keepBits_def Let_def cut_parts[OF assms, symmetric] .
qed

lemma keepBits_nonneg: "0 \<le> n \<Longrightarrow> 0 \<le> keepBits n"
  unfolding keepBits_def Let_def by (intro mult_nonneg_nonneg roundEven_nonneg) simp_all

lemma keepBits_full:
  assumes "52 \<le> k"
  shows "keepBits (100 * 2 ^ k) = 100 * 2 ^ k"
proof -
  let ?s = "bitLength (100 * 2 ^ k) - 53"
  have "roundEven (100 * 2 ^ k) (2 ^ ?s) = 100 * 2 ^ (k - ?s)"
    by (subst cut_parts[OF assms order_refl]) (rule roundEven_exact, simp)
  then show ?thesis using cut_parts[OF assms order_refl] by (simp only: keepBits_def Let_def)
qed

lemma percent_halves: "(2 * (100 * 2 ^ k) + 2 ^ k) div 2 ^ (k + 1) = (100 :: int)"
proof -
  have "2 * (100 * 2 ^ k) + 2 ^ k = 2 ^ k + 100 * (2 ^ (k + 1) :: int)" by simp
  then show ?thesis by (simp only: div_mult_self1) simp
qed

lemma roundedPercent_bounds:
  assumes "0 \<le> d" "d \<le> t" "0 < t"
  shows "0 \<le> roundedPercent d t" "roundedPercent d t \<le> 100"
proof -
  let ?k = "quotientScale d t"
  let ?m = "roundEven (d * 2 ^ ?k) t"
  have r: "roundedPercent d t = (2 * keepBits (100 * ?m) + 2 ^ ?k) div 2 ^ (?k + 1)"
    by (simp add: roundedPercent_def quotient_def Let_def)
  have "0 \<le> keepBits (100 * ?m)" using assms by (intro keepBits_nonneg mult_nonneg_nonneg roundEven_nonneg) simp_all
  then show "0 \<le> roundedPercent d t" unfolding r by (simp add: pos_imp_zdiv_nonneg_iff)
  have "?m \<le> 2 ^ ?k" using assms by (intro roundEven_le) (simp_all add: mult.commute)
  then have "keepBits (100 * ?m) \<le> 100 * 2 ^ ?k" by (intro keepBits_le quotientScale_ge[OF assms(2)]) simp
  then have "(2 * keepBits (100 * ?m) + 2 ^ ?k) div 2 ^ (?k + 1) \<le> (2 * (100 * 2 ^ ?k) + 2 ^ ?k) div 2 ^ (?k + 1)"
    by (intro zdiv_mono1) simp_all
  then show "roundedPercent d t \<le> 100" unfolding percent_halves r .
qed

lemma roundedPercent_all: "0 < t \<Longrightarrow> roundedPercent t t = 100"
  using roundEven_exact[of t "2 ^ quotientScale t t"] keepBits_full[OF quotientScale_ge[of t t]] percent_halves
  by (simp add: roundedPercent_def quotient_def Let_def mult.commute)

lemma roundedPercent_none: "0 < t \<Longrightarrow> roundedPercent 0 t = 0"
  by (simp add: roundedPercent_def quotient_def keepBits_def roundEven_def Let_def)

text \<open>Doubles put 23 of 40 (57.5) below the half and 29 of 200 (14.5) too; 1 of 8 (12.5) is exact and goes up.\<close>

lemma sample_percents: "roundedPercent 23 40 = 57" "roundedPercent 29 200 = 14" "roundedPercent 1 8 = 13" "roundedPercent 2 3 = 67"
  by code_simp+

end
