(* ===== verification/ChecklistRows.thy ===== *)
theory ChecklistRows
  imports JsNumber "HOL-Library.Multiset"
begin

text \<open>
  \<open>modules/tasks/checklist-tree.ts\<close>, the first half: the rows of a task's checklists, the order
  they are shown in, the tree of the live ones (\<open>arrange\<close>) and the counts.
\<close>

section \<open>Rows\<close>

record listRow =
  listId :: ident
  listTask :: ident
  listTitle :: string
  listPos :: int
  listCreatedBy :: "ident option"
  listCreatedAt :: instant
  listUpdatedAt :: instant
  listDeletedAt :: "instant option"
  listDeletedBy :: "ident option"
  listBatch :: "ident option"

record itemRow =
  itemId :: ident
  itemTask :: ident
  itemList :: "ident option"
  itemParent :: "ident option"
  itemText :: string
  itemDone :: bool
  itemPos :: int
  itemCreatedAt :: instant
  itemUpdatedAt :: instant
  itemAssignee :: "ident option"
  itemDue :: "instant option"
  itemCompletedAt :: "instant option"
  itemCompletedBy :: "ident option"
  itemDeletedAt :: "instant option"
  itemDeletedBy :: "ident option"
  itemBatch :: "ident option"

definition MAX_DEPTH :: nat where "MAX_DEPTH = 20"
definition MAX_ITEMS :: nat where "MAX_ITEMS = 500"
definition MAX_LISTS :: nat where "MAX_LISTS = 50"
definition TEXT_MAX :: nat where "TEXT_MAX = 191"
definition DEFAULT_LIST_TITLE :: string where "DEFAULT_LIST_TITLE = ''Checklist''"

text \<open>An arranged item carries its level, its live direct sub-items and the leaves below it.\<close>

record arrangedItem =
  ai_row :: itemRow
  ai_depth :: nat
  ai_childCount :: nat
  ai_subDone :: nat
  ai_subTotal :: nat

record arrangedList =
  al_row :: listRow
  al_done :: nat
  al_total :: nat

record arranged =
  ar_lists :: "arrangedList list"
  ar_items :: "arrangedItem list"
  ar_done :: nat
  ar_total :: nat
  ar_percent :: int

section \<open>Order\<close>

text \<open>\<open>byOrder\<close>: by position, then by creation, then by id; JavaScript's sort is stable.\<close>

definition itemOrder :: "itemRow \<Rightarrow> int \<times> instant \<times> ident" where
  "itemOrder i = (itemPos i, itemCreatedAt i, itemId i)"

definition listOrder :: "listRow \<Rightarrow> int \<times> instant \<times> ident" where
  "listOrder l = (listPos l, listCreatedAt l, listId l)"

definition isLive :: "itemRow \<Rightarrow> bool" where "isLive i = (itemDeletedAt i = None)"
definition isLiveList :: "listRow \<Rightarrow> bool" where "isLiveList l = (listDeletedAt l = None)"

definition liveLists :: "listRow list \<Rightarrow> listRow list" where
  "liveLists ls = sort_key listOrder (filter isLiveList ls)"

section \<open>The live tree\<close>

definition liveItems :: "listRow list \<Rightarrow> itemRow list \<Rightarrow> itemRow list" where
  "liveItems ls is =
     (let listIds = map listId (liveLists ls)
      in filter (\<lambda>i. isLive i \<and> (case itemList i of None \<Rightarrow> False | Some l \<Rightarrow> l \<in> set listIds)) is)"

text \<open>\<open>new Map(rows.map((i) => [i.id, i]))\<close>: the last row of an id wins.\<close>

definition byId :: "itemRow list \<Rightarrow> ident \<rightharpoonup> itemRow" where
  "byId is = map_of (rev (map (\<lambda>i. (itemId i, i)) is))"

text \<open>A parent id counts when it is not null (nor empty) and names a row of the same list, not itself.\<close>

definition parentOf :: "itemRow list \<Rightarrow> itemRow \<Rightarrow> ident option" where
  "parentOf live i =
     (case itemParent i of
        None \<Rightarrow> None
      | Some p \<Rightarrow>
          if p = [] then None
          else (case byId live p of
                  None \<Rightarrow> None
                | Some q \<Rightarrow> if itemList q = itemList i \<and> itemId q \<noteq> itemId i then Some (itemId q) else None))"

text \<open>
  The walk up from an item: false when it meets an id again. Each turn sees one more of the live
  ids; every id it comes to is one of them, so the middle case of a missing row never happens.
\<close>

function chainOk :: "itemRow list \<Rightarrow> ident list \<Rightarrow> ident option \<Rightarrow> bool" where
  "chainOk live seen None = True"
| "chainOk live seen (Some cur) =
     (if cur \<in> set seen then False
      else (case byId live cur of
              None \<Rightarrow> True
            | Some row \<Rightarrow> chainOk live (cur # seen) (parentOf live row)))"
  by pat_completeness auto

lemma byId_mem: "byId is k = Some i \<Longrightarrow> i \<in> set is \<and> itemId i = k"
  unfolding byId_def by (drule map_of_SomeD) auto

lemma filter_shrinks: "(\<And>y. Q y \<Longrightarrow> P y) \<Longrightarrow> x \<in> set xs \<Longrightarrow> P x \<Longrightarrow> \<not> Q x \<Longrightarrow> length (filter Q xs) < length (filter P xs)"
proof (induction xs)
  case Nil
  then show ?case by simp
next
  case (Cons a xs)
  have le: "length (filter Q xs) \<le> length (filter P xs)"
    using Cons.prems(1) by (induction xs) auto
  show ?case using Cons le by (auto simp: less_Suc_eq_le)
qed

termination chainOk
proof (relation "measure (\<lambda>(live, seen, cur). length (filter (\<lambda>i. itemId i \<notin> set seen) live))", goal_cases)
  case 1
  show ?case by simp
next
  case (2 live seen cur row)
  then show ?case using byId_mem [of live cur row] by (auto intro!: filter_shrinks)
qed

declare chainOk.simps(2) [simp del]

lemma chainOk_seen: "cur \<in> set seen \<Longrightarrow> \<not> chainOk live seen (Some cur)"
  by (simp add: chainOk.simps(2))

lemma chainOk_row:
  "byId live cur = Some row \<Longrightarrow> chainOk live seen (Some cur) \<longleftrightarrow> cur \<notin> set seen \<and> chainOk live (cur # seen) (parentOf live row)"
  by (simp add: chainOk.simps(2))

definition effectiveParent :: "itemRow list \<Rightarrow> itemRow \<Rightarrow> ident option" where
  "effectiveParent live i = (if chainOk live [itemId i] (parentOf live i) then parentOf live i else None)"

text \<open>
  \<open>effectiveParent.set(i.id, ...)\<close> is keyed by the id; the key of an item's group of siblings is its
  parent's id, or \<open>list:\<close> and the id of its list at the top level.
\<close>

definition groupKey :: "itemRow list \<Rightarrow> itemRow \<Rightarrow> string" where
  "groupKey live i =
     (case effectiveParent live i of
        Some p \<Rightarrow> p
      | None \<Rightarrow> ''list:'' @ (case itemList i of Some l \<Rightarrow> l | None \<Rightarrow> []))"

definition childrenOf :: "itemRow list \<Rightarrow> string \<Rightarrow> itemRow list" where
  "childrenOf live key = sort_key itemOrder (filter (\<lambda>i. groupKey live i = key) live)"

section \<open>A home for items in no checklist\<close>

definition STAND_IN_LIST_ID :: ident where "STAND_IN_LIST_ID = ''~checklist''"

definition isLost :: "listRow list \<Rightarrow> itemRow \<Rightarrow> bool" where
  "isLost ls i \<longleftrightarrow> isLive i \<and>
     (case itemList i of None \<Rightarrow> True | Some l \<Rightarrow> l = [] \<or> l \<notin> set (map listId (liveLists ls)))"

definition withHome :: "listRow list \<Rightarrow> itemRow list \<Rightarrow> listRow list \<times> itemRow list" where
  "withHome ls is =
     (case filter (isLost ls) is of
        [] \<Rightarrow> (ls, is)
      | first # rest \<Rightarrow>
          (let lost = first # rest;
               standIn = \<lparr>listId = STAND_IN_LIST_ID, listTask = itemTask first, listTitle = DEFAULT_LIST_TITLE,
                 listPos = 0, listCreatedBy = None, listCreatedAt = itemCreatedAt first,
                 listUpdatedAt = itemUpdatedAt first, listDeletedAt = None, listDeletedBy = None, listBatch = None\<rparr>;
               (home, out) = (case liveLists ls of h # _ \<Rightarrow> (h, ls) | [] \<Rightarrow> (standIn, ls @ [standIn]));
               lostIds = map itemId lost
           in (out, map (\<lambda>i. if itemId i \<in> set lostIds then i\<lparr>itemList := Some (listId home)\<rparr> else i) is)))"

section \<open>The walk\<close>

text \<open>
  The depth-first walk of \<open>arrange\<close>: the entries it pushes, with the done and total leaves under the
  row. The fuel bounds the depth; \<open>None\<close> is a walk that is deeper.
\<close>

fun walkAll :: "(itemRow \<Rightarrow> (arrangedItem list \<times> nat \<times> nat) option) \<Rightarrow> itemRow list
    \<Rightarrow> (arrangedItem list \<times> nat \<times> nat) option" where
  "walkAll w [] = Some ([], 0, 0)"
| "walkAll w (k # ks) =
     (case w k of
        None \<Rightarrow> None
      | Some (es, d, t) \<Rightarrow>
          (case walkAll w ks of None \<Rightarrow> None | Some (es', d', t') \<Rightarrow> Some (es @ es', d + d', t + t')))"

definition shownRow :: "itemRow \<Rightarrow> nat \<Rightarrow> itemRow" where
  "shownRow row depth = row\<lparr>itemParent := (if depth = 0 then None else itemParent row)\<rparr>"

fun walk :: "nat \<Rightarrow> itemRow list \<Rightarrow> nat \<Rightarrow> itemRow \<Rightarrow> (arrangedItem list \<times> nat \<times> nat) option" where
  "walk 0 live depth row = None"
| "walk (Suc fuel) live depth row =
     (let kids = childrenOf live (itemId row) in
      if kids = []
      then Some ([\<lparr>ai_row = shownRow row depth, ai_depth = depth, ai_childCount = 0, ai_subDone = 0, ai_subTotal = 0\<rparr>],
                 if itemDone row then 1 else 0, 1)
      else (case walkAll (walk fuel live (depth + 1)) kids of
              None \<Rightarrow> None
            | Some (es, d, t) \<Rightarrow>
                Some (\<lparr>ai_row = shownRow row depth, ai_depth = depth, ai_childCount = length kids,
                        ai_subDone = d, ai_subTotal = t\<rparr> # es, d, t)))"

text \<open>\<open>Math.round((done / total) * 100)\<close> of two counts, as doubles compute it.\<close>

definition percentOf :: "nat \<Rightarrow> nat \<Rightarrow> int" where
  "percentOf d t = (if t = 0 then 0 else roundedPercent (int d) (int t))"

fun arrangeLists :: "nat \<Rightarrow> itemRow list \<Rightarrow> listRow list
    \<Rightarrow> (arrangedList list \<times> arrangedItem list \<times> nat \<times> nat) option" where
  "arrangeLists fuel live [] = Some ([], [], 0, 0)"
| "arrangeLists fuel live (l # ls) =
     (case walkAll (walk fuel live 0) (childrenOf live (''list:'' @ listId l)) of
        None \<Rightarrow> None
      | Some (es, d, t) \<Rightarrow>
          (case arrangeLists fuel live ls of
             None \<Rightarrow> None
           | Some (als, es', d', t') \<Rightarrow>
               Some (\<lparr>al_row = l, al_done = d, al_total = t\<rparr> # als, es @ es', d + d', t + t')))"

text \<open>The fuel is one more than the number of live items.\<close>

definition arrange :: "listRow list \<Rightarrow> itemRow list \<Rightarrow> arranged option" where
  "arrange allLists allItems =
     (let (ls, is) = withHome allLists allItems;
          live = liveItems ls is
      in case arrangeLists (Suc (length live)) live (liveLists ls) of
           None \<Rightarrow> None
         | Some (als, es, d, t) \<Rightarrow>
             Some \<lparr>ar_lists = als, ar_items = es, ar_done = d, ar_total = t, ar_percent = percentOf d t\<rparr>)"

section \<open>Counts\<close>

definition leafCounts :: "itemRow list \<Rightarrow> nat \<times> nat" where
  "leafCounts is =
     (let parents = set (List.map_filter itemParent is);
          leaves = filter (\<lambda>i. itemId i \<notin> parents) is
      in (length (filter itemDone leaves), length leaves))"

definition leafPercent :: "itemRow list \<Rightarrow> int" where
  "leafPercent is = (case leafCounts is of (d, t) \<Rightarrow> percentOf d t)"

section \<open>The tree has no loops\<close>

text \<open>
  \<open>hasDepth live k n\<close>: following \<open>parentOf\<close> from the row with id \<open>k\<close> ends after \<open>n\<close> steps. The walk
  of \<open>chainOk\<close> succeeds exactly for the ids that have a depth.
\<close>

inductive hasDepth :: "itemRow list \<Rightarrow> ident \<Rightarrow> nat \<Rightarrow> bool" for live where
  top: "byId live k = Some i \<Longrightarrow> parentOf live i = None \<Longrightarrow> hasDepth live k 0"
| below: "byId live k = Some i \<Longrightarrow> parentOf live i = Some p \<Longrightarrow> hasDepth live p n \<Longrightarrow> hasDepth live k (Suc n)"

lemma hasDepth_row: "hasDepth live k n \<Longrightarrow> \<exists>i. byId live k = Some i"
  by (cases rule: hasDepth.cases) auto

lemma hasDepth_at_top: "hasDepth live k n \<Longrightarrow> byId live k = Some i \<Longrightarrow> parentOf live i = None \<Longrightarrow> n = 0"
  by (cases rule: hasDepth.cases) auto

lemma hasDepth_at_below:
  "hasDepth live k n \<Longrightarrow> byId live k = Some i \<Longrightarrow> parentOf live i = Some p \<Longrightarrow> \<exists>m. n = Suc m \<and> hasDepth live p m"
  by (cases rule: hasDepth.cases) auto

lemma hasDepth_unique: "hasDepth live k n \<Longrightarrow> hasDepth live k m \<Longrightarrow> n = m"
proof (induction arbitrary: m rule: hasDepth.induct)
  case (top k i)
  then show ?case using hasDepth_at_top by metis
next
  case (below k i p n)
  then show ?case using hasDepth_at_below by metis
qed

lemma parentOf_Some:
  assumes "parentOf live i = Some p"
  obtains q where "byId live p = Some q" "q \<in> set live" "itemId q = p" "itemList q = itemList i" "p \<noteq> itemId i"
    "itemParent i = Some p"
  using assms byId_mem unfolding parentOf_def by (fastforce split: option.splits if_splits)

lemma chainOk_depth: "chainOk live seen (Some k) \<Longrightarrow> byId live k \<noteq> None \<Longrightarrow> \<exists>n. hasDepth live k n"
proof (induction live seen "Some k" arbitrary: k rule: chainOk.induct)
  case (2 live seen cur)
  then obtain row where row: "byId live cur = Some row" by blast
  show ?case
  proof (cases "parentOf live row")
    case None
    then show ?thesis using row hasDepth.top by blast
  next
    case (Some p)
    have c: "cur \<notin> set seen" "chainOk live (cur # seen) (Some p)"
      using "2.prems"(1) Some by (simp_all add: chainOk_row [OF row])
    obtain q where "byId live p = Some q" using parentOf_Some [OF Some] by blast
    then have "\<exists>n. hasDepth live p n"
      using "2.hyps" [OF c(1) row Some] c(2) by simp
    then show ?thesis using row Some hasDepth.below by blast
  qed
qed

lemma depth_chainOk:
  "hasDepth live k n \<Longrightarrow> (\<And>x. x \<in> set seen \<Longrightarrow> \<exists>m > n. hasDepth live x m) \<Longrightarrow> chainOk live seen (Some k)"
proof (induction arbitrary: seen rule: hasDepth.induct)
  case (top k i)
  have "k \<notin> set seen"
    using top.prems [of k] hasDepth_unique [OF hasDepth.top [OF top(1,2)]] by auto
  then show ?case using top by (simp add: chainOk_row)
next
  case (below k i p n)
  have k: "hasDepth live k (Suc n)" using below hasDepth.below by blast
  have "k \<notin> set seen" using below.prems [of k] hasDepth_unique [OF k] by auto
  moreover have "\<exists>m > n. hasDepth live x m" if "x \<in> set (k # seen)" for x
  proof (cases "x = k")
    case True
    then show ?thesis using k by blast
  next
    case False
    then have "x \<in> set seen" using that by simp
    then obtain m where "m > Suc n" "hasDepth live x m" using below.prems by blast
    then show ?thesis by (meson Suc_lessD)
  qed
  then have "chainOk live (k # seen) (Some p)" by (rule below.IH)
  ultimately show ?case using below.hyps by (simp add: chainOk_row)
qed

text \<open>
  The depth in the tree that is shown: a row whose walk up would not end is at the top. It is less
  than the number of rows.
\<close>

inductive effDepth :: "itemRow list \<Rightarrow> itemRow \<Rightarrow> nat \<Rightarrow> bool" for live where
  top: "effectiveParent live i = None \<Longrightarrow> effDepth live i 0"
| below: "effectiveParent live i = Some p \<Longrightarrow> byId live p = Some q \<Longrightarrow> effDepth live q n \<Longrightarrow> effDepth live i (Suc n)"

lemma effectiveParent_Some:
  "effectiveParent live i = Some p \<longleftrightarrow> parentOf live i = Some p \<and> chainOk live [itemId i] (Some p)"
  by (auto simp: effectiveParent_def)

lemma depth_effDepth: "hasDepth live k n \<Longrightarrow> byId live k = Some q \<Longrightarrow> effDepth live q n"
proof (induction arbitrary: q rule: hasDepth.induct)
  case (top k i)
  then show ?case by (auto intro!: effDepth.top simp: effectiveParent_def)
next
  case (below k i p n)
  have "hasDepth live k (Suc n)" using below hasDepth.below by blast
  moreover have k: "itemId q = k" using below.prems by (rule byId_mem [THEN conjunct2])
  ultimately have "\<And>x. x \<in> set [itemId q] \<Longrightarrow> \<exists>m > n. hasDepth live x m" by auto
  then have "chainOk live [itemId q] (Some p)" by (rule depth_chainOk [OF below.hyps(3)])
  then have "effectiveParent live q = Some p" using below by (simp add: effectiveParent_Some)
  moreover obtain r where "byId live p = Some r" using hasDepth_row [OF below.hyps(3)] by blast
  ultimately show ?case using below.IH effDepth.below by blast
qed

lemma effDepth_exists: "\<exists>n. effDepth live i n"
proof (cases "effectiveParent live i")
  case None
  then show ?thesis using effDepth.top by blast
next
  case (Some p)
  then have "parentOf live i = Some p" "chainOk live [itemId i] (Some p)" by (simp_all add: effectiveParent_Some)
  moreover then obtain q where q: "byId live p = Some q" using parentOf_Some by blast
  ultimately obtain n where "hasDepth live p n" using chainOk_depth by blast
  then show ?thesis using depth_effDepth [OF _ q] Some q effDepth.below by blast
qed

lemma effDepth_unique: "effDepth live i n \<Longrightarrow> effDepth live i m \<Longrightarrow> n = m"
proof (induction arbitrary: m rule: effDepth.induct)
  case (top i)
  from top(2) show ?case by (cases rule: effDepth.cases) (use top(1) in auto)
next
  case (below i p q n)
  from below.prems show ?case
  proof (cases rule: effDepth.cases)
    case top
    then show ?thesis using below.hyps(1) by simp
  next
    case (below p' q' n')
    then show ?thesis using below.hyps below.IH \<open>effectiveParent live i = Some p\<close> \<open>byId live p = Some q\<close> by simp
  qed
qed

text \<open>A row at depth \<open>n\<close> comes with the rows of every smaller depth above it, so \<open>n\<close> is bounded.\<close>

lemma effDepth_levels:
  "effDepth live i n \<Longrightarrow> i \<in> set live \<Longrightarrow> \<forall>k \<le> n. \<exists>j \<in> set live. effDepth live j k"
proof (induction rule: effDepth.induct)
  case (top i)
  then show ?case using effDepth.top by auto
next
  case (below i p q n)
  have "q \<in> set live" using byId_mem [OF below.hyps(2)] by blast
  then have "\<forall>k \<le> n. \<exists>j \<in> set live. effDepth live j k" using below.IH by blast
  moreover have "effDepth live i (Suc n)" using below.hyps effDepth.below by blast
  ultimately show ?case using below.prems by (metis le_Suc_eq)
qed

lemma effDepth_bound:
  assumes "effDepth live i n" "i \<in> set live"
  shows "n < length live"
proof -
  have "\<forall>k \<le> n. \<exists>j. j \<in> set live \<and> effDepth live j k" using effDepth_levels [OF assms] by blast
  then obtain f where f: "\<And>k. k \<le> n \<Longrightarrow> f k \<in> set live \<and> effDepth live (f k) k" by metis
  then have "inj_on f {..n}" by (intro inj_onI) (metis atMost_iff effDepth_unique)
  moreover have "f ` {..n} \<subseteq> set live" using f by auto
  ultimately have "card {..n} \<le> card (set live)"
    by (metis card_image card_mono finite_set)
  then show ?thesis using card_length [of live] by simp
qed

section \<open>The walk returns\<close>

definition wellKeyed :: "itemRow list \<Rightarrow> bool" where
  "wellKeyed is \<longleftrightarrow> distinct (map itemId is) \<and> (\<forall>i \<in> set is. take 5 (itemId i) \<noteq> ''list:'')"

lemma wellKeyed_ids:
  "wellKeyed is \<longleftrightarrow> distinct (map itemId is) \<and> (\<forall>k \<in> set (map itemId is). take 5 k \<noteq> ''list:'')"
  by (simp add: wellKeyed_def)

lemma byId_distinct: "distinct (map itemId is) \<Longrightarrow> i \<in> set is \<Longrightarrow> byId is (itemId i) = Some i"
  unfolding byId_def by (rule map_of_is_SomeI) (auto simp: rev_map [symmetric] comp_def)

lemma childrenOf_row:
  assumes "wellKeyed live" "k \<in> set (childrenOf live (itemId row))" "row \<in> set live"
  shows "k \<in> set live" "effectiveParent live k = Some (itemId row)"
proof -
  show "k \<in> set live" using assms(2) by (simp add: childrenOf_def)
  have g: "groupKey live k = itemId row" using assms(2) by (simp add: childrenOf_def)
  show "effectiveParent live k = Some (itemId row)"
  proof (cases "effectiveParent live k")
    case None
    then have "take 5 (itemId row) = ''list:''" using g [symmetric] by (simp add: groupKey_def)
    then show ?thesis using assms(1,3) by (auto simp: wellKeyed_def)
  next
    case (Some p)
    then show ?thesis using g by (simp add: groupKey_def)
  qed
qed

lemma childrenOf_list:
  assumes "wellKeyed live" "k \<in> set (childrenOf live (''list:'' @ l))"
  shows "k \<in> set live" "effectiveParent live k = None"
proof -
  show "k \<in> set live" using assms(2) by (auto simp: childrenOf_def)
  show "effectiveParent live k = None"
  proof (cases "effectiveParent live k")
    case None
    then show ?thesis .
  next
    case (Some p)
    then obtain q where "q \<in> set live" "itemId q = p" using parentOf_Some by (metis effectiveParent_Some)
    moreover have "p = ''list:'' @ l" using assms(2) Some by (auto simp: childrenOf_def groupKey_def)
    ultimately show ?thesis using assms(1) by (auto simp: wellKeyed_def)
  qed
qed

lemma walkAll_returns: "(\<And>k. k \<in> set ks \<Longrightarrow> w k \<noteq> None) \<Longrightarrow> walkAll w ks \<noteq> None"
  by (induction ks) (fastforce split: option.splits)+

lemma walk_returns:
  assumes "wellKeyed live" "row \<in> set live" "effDepth live row depth" "length live < fuel + depth"
  shows "walk fuel live depth row \<noteq> None"
  using assms(2-4)
proof (induction fuel arbitrary: depth row)
  case 0
  then show ?case using effDepth_bound by fastforce
next
  case (Suc fuel)
  have "walk fuel live (depth + 1) k \<noteq> None" if k: "k \<in> set (childrenOf live (itemId row))" for k
  proof (rule Suc.IH)
    note c = childrenOf_row [OF assms(1) k Suc.prems(1)]
    show "k \<in> set live" by (rule c)
    have "byId live (itemId row) = Some row"
      using assms(1) Suc.prems(1) byId_distinct by (simp add: wellKeyed_def)
    then show "effDepth live k (depth + 1)" using c(2) Suc.prems(2) effDepth.below by simp
    show "length live < fuel + (depth + 1)" using Suc.prems(3) by simp
  qed
  then have "walkAll (walk fuel live (depth + 1)) (childrenOf live (itemId row)) \<noteq> None"
    by (rule walkAll_returns)
  then show ?case by (auto simp: Let_def)
qed

lemma arrangeLists_returns:
  assumes "wellKeyed live"
  shows "arrangeLists (Suc (length live)) live ls \<noteq> None"
proof (induction ls)
  case Nil
  then show ?case by simp
next
  case (Cons l ls)
  have "walk (Suc (length live)) live 0 k \<noteq> None" if "k \<in> set (childrenOf live (''list:'' @ listId l))" for k
    using childrenOf_list [OF assms that] assms by (intro walk_returns effDepth.top) simp_all
  then have "walkAll (walk (Suc (length live)) live 0) (childrenOf live (''list:'' @ listId l)) \<noteq> None"
    by (rule walkAll_returns)
  then show ?case using Cons by (auto split: option.splits)
qed

lemma wellKeyed_live:
  assumes "wellKeyed is"
  shows "wellKeyed (liveItems ls (snd (withHome ls' is)))"
proof -
  have "map itemId (snd (withHome ls' is)) = map itemId is"
    by (simp add: withHome_def Let_def split: list.splits)
  then have "wellKeyed (snd (withHome ls' is))"
    using assms unfolding wellKeyed_ids by simp
  then show ?thesis unfolding liveItems_def Let_def wellKeyed_def by (simp add: distinct_map_filter)
qed

lemma arrange_returns:
  assumes "wellKeyed is"
  shows "\<exists>a. arrange ls is = Some a"
proof -
  obtain ls' is' where h: "withHome ls is = (ls', is')" by fastforce
  have "wellKeyed (liveItems ls' is')" using wellKeyed_live [OF assms, of ls' ls] h by simp
  from arrangeLists_returns [OF this, of "liveLists ls'"] show ?thesis
    by (auto simp: arrange_def h Let_def split: option.splits)
qed

section \<open>Every live item is shown once\<close>

definition shownIds :: "arrangedItem list \<Rightarrow> ident multiset" where
  "shownIds es = mset (map (\<lambda>e. itemId (ai_row e)) es)"

definition kidIds :: "itemRow list \<Rightarrow> string \<Rightarrow> ident multiset" where
  "kidIds live key = mset (map itemId (childrenOf live key))"

lemma shownIds_simps [simp]:
  "shownIds [] = {#}"
  "shownIds (e # es) = {#itemId (ai_row e)#} + shownIds es"
  "shownIds (es @ es') = shownIds es + shownIds es'"
  by (simp_all add: shownIds_def)

lemma shownRow_id [simp]: "itemId (shownRow row depth) = itemId row"
  by (simp add: shownRow_def)

lemma walkAll_Some:
  "walkAll w (k # ks) = Some (es, d, t) \<longleftrightarrow>
     (\<exists>es1 d1 t1 es2 d2 t2. w k = Some (es1, d1, t1) \<and> walkAll w ks = Some (es2, d2, t2)
        \<and> es = es1 @ es2 \<and> d = d1 + d2 \<and> t = t1 + t2)"
  by (auto split: option.splits)

lemma sum_parts:
  fixes a b :: "'a multiset"
  assumes "a = x + \<Sum>\<^sub># (image_mset f a)" "b = y + \<Sum>\<^sub># (image_mset f b)" "z = x + y" "c = a + b"
  shows "c = z + \<Sum>\<^sub># (image_mset f c)"
proof -
  have "a + b = (x + \<Sum>\<^sub># (image_mset f a)) + (y + \<Sum>\<^sub># (image_mset f b))"
    by (rule arg_cong2 [OF assms(1,2)])
  also have "\<dots> = z + \<Sum>\<^sub># (image_mset f (a + b))"
    unfolding assms(3) by (simp add: ac_simps)
  finally show ?thesis unfolding assms(4) .
qed

lemma walkAll_shown:
  assumes "\<And>k es d t. k \<in> set ks \<Longrightarrow> w k = Some (es, d, t) \<Longrightarrow>
      shownIds es = {#itemId k#} + (\<Sum>x \<in># shownIds es. kidIds live x)"
    and "walkAll w ks = Some (es, d, t)"
  shows "shownIds es = mset (map itemId ks) + (\<Sum>x \<in># shownIds es. kidIds live x)"
  using assms
proof (induction ks arbitrary: es d t)
  case Nil
  then show ?case by simp
next
  case (Cons k ks)
  from Cons.prems(2) obtain es1 d1 t1 es2 d2 t2 where
    w: "w k = Some (es1, d1, t1)" "walkAll w ks = Some (es2, d2, t2)" "es = es1 @ es2"
    by (auto simp: walkAll_Some simp del: walkAll.simps)
  have "shownIds es1 = {#itemId k#} + (\<Sum>x \<in># shownIds es1. kidIds live x)"
    using Cons.prems(1) w(1) by simp
  moreover have "shownIds es2 = mset (map itemId ks) + (\<Sum>x \<in># shownIds es2. kidIds live x)"
    using Cons.IH [OF _ w(2)] Cons.prems(1) by simp
  ultimately show ?case by (rule sum_parts) (use w(3) in simp_all)
qed

lemma walk_shown:
  "walk fuel live depth row = Some (es, d, t) \<Longrightarrow>
     shownIds es = {#itemId row#} + (\<Sum>x \<in># shownIds es. kidIds live x)"
proof (induction fuel arbitrary: depth row es d t)
  case 0
  then show ?case by simp
next
  case (Suc fuel)
  let ?kids = "childrenOf live (itemId row)"
  show ?case
  proof (cases "?kids = []")
    case True
    then show ?thesis using Suc.prems by (auto simp: kidIds_def)
  next
    case False
    then obtain e es' where w: "walkAll (walk fuel live (depth + 1)) ?kids = Some (es', d, t)"
        and es: "es = e # es'" "itemId (ai_row e) = itemId row"
      using Suc.prems by (auto simp: Let_def split: option.splits)
    have "shownIds es' = kidIds live (itemId row) + (\<Sum>x \<in># shownIds es'. kidIds live x)"
      unfolding kidIds_def [of live "itemId row"] by (rule walkAll_shown [OF Suc.IH w])
    then show ?thesis using es by simp
  qed
qed

lemma arrangeLists_shown:
  "arrangeLists fuel live ls = Some (als, es, d, t) \<Longrightarrow>
     shownIds es = (\<Sum>l \<in># mset ls. kidIds live (''list:'' @ listId l)) + (\<Sum>x \<in># shownIds es. kidIds live x)"
proof (induction ls arbitrary: als es d t)
  case Nil
  then show ?case by simp
next
  case (Cons l ls)
  let ?key = "''list:'' @ listId l"
  from Cons.prems obtain es1 d1 t1 als2 es2 d2 t2 where
    w: "walkAll (walk fuel live 0) (childrenOf live ?key) = Some (es1, d1, t1)"
       "arrangeLists fuel live ls = Some (als2, es2, d2, t2)" "es = es1 @ es2"
    by (auto split: option.splits)
  have "shownIds es1 = kidIds live ?key + (\<Sum>x \<in># shownIds es1. kidIds live x)"
    unfolding kidIds_def [of live ?key] by (rule walkAll_shown [OF walk_shown w(1)])
  from sum_parts [OF this Cons.IH [OF w(2)]] show ?case by this (use w(3) in simp_all)
qed

lemma count_kidIds:
  assumes "distinct (map itemId live)" "k \<in> set live"
  shows "count (kidIds live key) (itemId k) = (if groupKey live k = key then 1 else 0)"
proof -
  have "distinct (map itemId (filter (\<lambda>i. groupKey live i = key) live))"
    using assms(1) by (rule distinct_map_filter)
  moreover have "itemId k \<in> set (map itemId (filter (\<lambda>i. groupKey live i = key) live)) \<longleftrightarrow> groupKey live k = key"
    using assms by (auto dest: inj_onD [OF conjunct2 [OF distinct_map [THEN iffD1]]])
  moreover have "kidIds live key = mset (map itemId (filter (\<lambda>i. groupKey live i = key) live))"
    by (simp add: kidIds_def childrenOf_def)
  ultimately show ?thesis by (simp add: distinct_count_atmost_1 del: mset_map flip: set_mset_mset)
qed

lemma walkAll_ids:
  assumes "\<And>k es d t. k \<in> set ks \<Longrightarrow> w k = Some (es, d, t) \<Longrightarrow> set_mset (shownIds es) \<subseteq> A"
    and "walkAll w ks = Some (es, d, t)"
  shows "set_mset (shownIds es) \<subseteq> A"
  using assms
proof (induction ks arbitrary: es d t)
  case Nil
  then show ?case by simp
next
  case (Cons k ks)
  from Cons.prems(2) obtain es1 d1 t1 es2 d2 t2 where
    w: "w k = Some (es1, d1, t1)" "walkAll w ks = Some (es2, d2, t2)" "es = es1 @ es2"
    by (auto simp: walkAll_Some simp del: walkAll.simps)
  have "set_mset (shownIds es1) \<subseteq> A" using Cons.prems(1) [OF _ w(1)] by simp
  moreover have "set_mset (shownIds es2) \<subseteq> A" by (rule Cons.IH [OF Cons.prems(1) w(2)]) auto
  ultimately show ?case using w(3) by simp
qed

lemma childrenOf_subset: "set (childrenOf live key) \<subseteq> set live"
  by (auto simp: childrenOf_def)

lemma walk_ids:
  "walk fuel live depth row = Some (es, d, t) \<Longrightarrow> row \<in> set live \<Longrightarrow> set_mset (shownIds es) \<subseteq> itemId ` set live"
proof (induction fuel arbitrary: depth row es d t)
  case 0
  then show ?case by simp
next
  case (Suc fuel)
  let ?kids = "childrenOf live (itemId row)"
  show ?case
  proof (cases "?kids = []")
    case True
    then show ?thesis using Suc.prems by auto
  next
    case False
    then obtain e es' where w: "walkAll (walk fuel live (depth + 1)) ?kids = Some (es', d, t)"
        and es: "es = e # es'" "itemId (ai_row e) = itemId row"
      using Suc.prems by (auto simp: Let_def split: option.splits)
    have "set_mset (shownIds es') \<subseteq> itemId ` set live"
      by (rule walkAll_ids [OF Suc.IH w]) (use childrenOf_subset in auto)
    then show ?thesis using es Suc.prems(2) by simp
  qed
qed

lemma arrangeLists_ids:
  "arrangeLists fuel live ls = Some (als, es, d, t) \<Longrightarrow> set_mset (shownIds es) \<subseteq> itemId ` set live"
proof (induction ls arbitrary: als es d t)
  case Nil
  then show ?case by simp
next
  case (Cons l ls)
  let ?key = "''list:'' @ listId l"
  from Cons.prems obtain es1 d1 t1 als2 es2 d2 t2 where
    w: "walkAll (walk fuel live 0) (childrenOf live ?key) = Some (es1, d1, t1)"
       "arrangeLists fuel live ls = Some (als2, es2, d2, t2)" "es = es1 @ es2"
    by (auto split: option.splits)
  have "set_mset (shownIds es1) \<subseteq> itemId ` set live"
    by (rule walkAll_ids [OF walk_ids w(1)]) (use childrenOf_subset in auto)
  then show ?case using Cons.IH [OF w(2)] w(3) by simp
qed

lemma count_Sum: "count (\<Sum>\<^sub># M) x = (\<Sum>Y \<in># M. count Y x)"
  by (induction M) auto

lemma effectiveParent_live:
  assumes "effectiveParent live k = Some p"
  shows "\<exists>q \<in> set live. itemId q = p \<and> byId live p = Some q"
  using assms parentOf_Some [of live k p] by (metis effectiveParent_Some)

lemma groupKey_row:
  assumes "wellKeyed live" "x \<in> itemId ` set live"
  shows "groupKey live k = x \<longleftrightarrow> effectiveParent live k = Some x"
proof (cases "effectiveParent live k")
  case None
  have "take 5 x \<noteq> ''list:''" using assms by (auto simp: wellKeyed_def)
  then show ?thesis using None by (auto simp: groupKey_def)
next
  case (Some p)
  then show ?thesis by (simp add: groupKey_def)
qed

lemma groupKey_list:
  assumes "wellKeyed live" "itemList k = Some h"
  shows "groupKey live k = ''list:'' @ l \<longleftrightarrow> effectiveParent live k = None \<and> l = h"
proof (cases "effectiveParent live k")
  case None
  then show ?thesis using assms by (auto simp: groupKey_def)
next
  case (Some p)
  then have "take 5 p \<noteq> ''list:''" using effectiveParent_live [OF Some] assms(1) by (auto simp: wellKeyed_def)
  then show ?thesis using Some by (auto simp: groupKey_def)
qed

lemma sum_list_once: "distinct (map f xs) \<Longrightarrow> (\<Sum>x \<leftarrow> xs. if f x = k then 1 else (0::nat)) = (if k \<in> f ` set xs then 1 else 0)"
  by (induction xs) auto

lemma arrangeLists_once:
  assumes wk: "wellKeyed live" and ls: "distinct (map listId ls)"
    and a: "arrangeLists fuel live ls = Some (als, es, d, t)"
    and k: "k \<in> set live" "itemList k = Some h" "h \<in> listId ` set ls"
    and homes: "\<And>i. i \<in> set live \<Longrightarrow> \<exists>h \<in> listId ` set ls. itemList i = Some h"
  shows "count (shownIds es) (itemId k) = 1"
proof -
  let ?M = "shownIds es"
  have dist: "distinct (map itemId live)" using wk by (simp add: wellKeyed_def)
  have one: "count ?M (itemId i) = (if effectiveParent live i = None then 1 else 0)
      + (case effectiveParent live i of None \<Rightarrow> 0 | Some p \<Rightarrow> count ?M p)" if i: "i \<in> set live" for i
  proof -
    obtain g where g: "itemList i = Some g" "g \<in> listId ` set ls" using homes [OF i] by blast
    have "(\<Sum>l \<in># mset ls. count (kidIds live (''list:'' @ listId l)) (itemId i))
        = (\<Sum>l \<leftarrow> ls. if listId l = g then (if effectiveParent live i = None then 1 else 0) else 0)"
      unfolding count_kidIds [OF dist i] groupKey_list [OF wk g(1)]
      unfolding sum_mset_sum_list [symmetric] mset_map
      by (rule arg_cong [where f = sum_mset], rule image_mset_cong) auto
    also have "\<dots> = (if effectiveParent live i = None then 1 else 0)"
      using sum_list_once [OF ls, of g] g(2) by simp
    finally have tops: "count (\<Sum>l \<in># mset ls. kidIds live (''list:'' @ listId l)) (itemId i)
        = (if effectiveParent live i = None then 1 else 0)"
      by (simp add: count_Sum image_mset.compositionality comp_def)
    have "(\<Sum>x \<in># ?M. count (kidIds live x) (itemId i)) = (\<Sum>x \<in># ?M. if effectiveParent live i = Some x then 1 else 0)"
      by (rule arg_cong [where f = sum_mset], rule image_mset_cong)
        (use arrangeLists_ids [OF a] in \<open>simp add: count_kidIds [OF dist i] groupKey_row [OF wk] subset_iff\<close>)
    also have "\<dots> = (case effectiveParent live i of None \<Rightarrow> 0 | Some p \<Rightarrow> count ?M p)"
      by (cases "effectiveParent live i") (simp_all add: sum_mset_delta')
    finally have "count (\<Sum>x \<in># ?M. kidIds live x) (itemId i)
        = (case effectiveParent live i of None \<Rightarrow> 0 | Some p \<Rightarrow> count ?M p)"
      by (simp add: count_Sum image_mset.compositionality comp_def)
    then show ?thesis using tops arg_cong [OF arrangeLists_shown [OF a], of "\<lambda>m. count m (itemId i)"] by simp
  qed
  obtain n where "effDepth live k n" using effDepth_exists by blast
  then show ?thesis using k(1)
  proof (induction rule: effDepth.induct)
    case (top i)
    then show ?case using one by simp
  next
    case (below i p q n)
    then show ?case using one [of i] byId_mem [of live p q] by simp
  qed
qed

section \<open>The counts\<close>

definition leavesOf :: "arrangedItem list \<Rightarrow> arrangedItem list" where
  "leavesOf = filter (\<lambda>e. ai_childCount e = 0)"

definition countsOf :: "arrangedItem list \<Rightarrow> nat \<times> nat" where
  "countsOf es = (length (filter (\<lambda>e. itemDone (ai_row e)) (leavesOf es)), length (leavesOf es))"

lemma countsOf_append: "countsOf (es @ es') = (fst (countsOf es) + fst (countsOf es'), snd (countsOf es) + snd (countsOf es'))"
  by (simp add: countsOf_def leavesOf_def)

lemma walkAll_counts:
  assumes "\<And>k es d t. k \<in> set ks \<Longrightarrow> w k = Some (es, d, t) \<Longrightarrow> countsOf es = (d, t)"
    and "walkAll w ks = Some (es, d, t)"
  shows "countsOf es = (d, t)"
  using assms
proof (induction ks arbitrary: es d t)
  case Nil
  then show ?case by (simp add: countsOf_def leavesOf_def)
next
  case (Cons k ks)
  from Cons.prems(2) obtain es1 d1 t1 es2 d2 t2 where
    w: "w k = Some (es1, d1, t1)" "walkAll w ks = Some (es2, d2, t2)"
       "es = es1 @ es2" "d = d1 + d2" "t = t1 + t2"
    by (auto simp: walkAll_Some simp del: walkAll.simps)
  have "countsOf es2 = (d2, t2)" by (rule Cons.IH [OF Cons.prems(1) w(2)]) auto
  then show ?case using Cons.prems(1) [OF _ w(1)] w(3-5) by (simp add: countsOf_append)
qed

lemma walk_counts: "walk fuel live depth row = Some (es, d, t) \<Longrightarrow> countsOf es = (d, t)"
proof (induction fuel arbitrary: depth row es d t)
  case 0
  then show ?case by simp
next
  case (Suc fuel)
  let ?kids = "childrenOf live (itemId row)"
  show ?case
  proof (cases "?kids = []")
    case True
    then show ?thesis using Suc.prems by (auto simp: countsOf_def leavesOf_def shownRow_def)
  next
    case False
    then obtain e es' where w: "walkAll (walk fuel live (depth + 1)) ?kids = Some (es', d, t)"
        and es: "es = e # es'" "ai_childCount e = length ?kids"
      using Suc.prems by (auto simp: Let_def split: option.splits)
    have "countsOf es' = (d, t)" by (rule walkAll_counts [OF Suc.IH w])
    then show ?thesis using es False by (simp add: countsOf_def leavesOf_def)
  qed
qed

lemma arrangeLists_counts: "arrangeLists fuel live ls = Some (als, es, d, t) \<Longrightarrow> countsOf es = (d, t)"
proof (induction ls arbitrary: als es d t)
  case Nil
  then show ?case by (simp add: countsOf_def leavesOf_def)
next
  case (Cons l ls)
  from Cons.prems obtain es1 d1 t1 als2 es2 d2 t2 where
    w: "walkAll (walk fuel live 0) (childrenOf live (''list:'' @ listId l)) = Some (es1, d1, t1)"
       "arrangeLists fuel live ls = Some (als2, es2, d2, t2)" "es = es1 @ es2" "d = d1 + d2" "t = t1 + t2"
    by (auto split: option.splits)
  have "countsOf es1 = (d1, t1)" by (rule walkAll_counts [OF walk_counts w(1)])
  then show ?case using Cons.IH [OF w(2)] w(3-5) by (simp add: countsOf_append)
qed

lemma percentOf_bounds:
  assumes "d \<le> t"
  shows "0 \<le> percentOf d t" "percentOf d t \<le> 100" "d = 0 \<Longrightarrow> percentOf d t = 0" "d = t \<Longrightarrow> 0 < t \<Longrightarrow> percentOf d t = 100"
  using assms roundedPercent_bounds[of "int d" "int t"] roundedPercent_all[of "int t"] roundedPercent_none[of "int t"] by (simp_all add: percentOf_def)

section \<open>Everything has a home\<close>

lemma liveLists_nil: "liveLists ls = [] \<longleftrightarrow> filter isLiveList ls = []"
  unfolding liveLists_def by (metis length_0_conv length_sort)

lemma withHome_lists:
  assumes "distinct (map listId (liveLists ls))" "withHome ls is = (ls', is')"
  shows "distinct (map listId (liveLists ls'))"
proof (cases "liveLists ls")
  case Nil
  then have "liveLists (ls @ [s]) = [s]" if "isLiveList s" for s
    using that by (simp add: liveLists_nil) (simp add: liveLists_def)
  then show ?thesis using assms Nil
    by (auto simp: withHome_def Let_def isLiveList_def split: list.splits)
next
  case (Cons h t)
  then show ?thesis using assms by (auto simp: withHome_def Let_def split: list.splits)
qed

lemma withHome_shape:
  assumes h: "withHome ls is = (ls', is')" and lost: "filter (isLost ls) is = f # r"
  shows "\<exists>home \<in> set (liveLists ls'). set (liveLists ls) \<subseteq> set (liveLists ls')
    \<and> is' = map (\<lambda>i. if itemId i \<in> set (map itemId (f # r)) then i\<lparr>itemList := Some (listId home)\<rparr> else i) is"
proof (cases "liveLists ls")
  case Nil
  define standIn where "standIn = \<lparr>listId = STAND_IN_LIST_ID, listTask = itemTask f, listTitle = DEFAULT_LIST_TITLE,
    listPos = 0, listCreatedBy = None, listCreatedAt = itemCreatedAt f, listUpdatedAt = itemUpdatedAt f,
    listDeletedAt = None, listDeletedBy = None, listBatch = None\<rparr>"
  have "ls' = ls @ [standIn]" "is' = map (\<lambda>i. if itemId i \<in> set (map itemId (f # r)) then i\<lparr>itemList := Some (listId standIn)\<rparr> else i) is"
    using h lost Nil unfolding withHome_def Let_def standIn_def by simp_all
  moreover have "standIn \<in> set (liveLists (ls @ [standIn]))" by (simp add: liveLists_def isLiveList_def standIn_def)
  ultimately show ?thesis using Nil by auto
next
  case (Cons a l)
  then have "ls' = ls" "is' = map (\<lambda>i. if itemId i \<in> set (map itemId (f # r)) then i\<lparr>itemList := Some (listId a)\<rparr> else i) is"
    using h lost by (simp_all add: withHome_def Let_def)
  then show ?thesis using Cons by auto
qed

lemma withHome_homes:
  assumes h: "withHome ls is = (ls', is')" and i: "i \<in> set is'" "isLive i"
  shows "\<exists>h \<in> listId ` set (liveLists ls'). itemList i = Some h"
proof -
  have kept: "\<exists>h \<in> listId ` set (liveLists ls). itemList j = Some h" if "isLive j" "\<not> isLost ls j" for j
    using that by (auto simp: isLost_def split: option.splits)
  show ?thesis
  proof (cases "filter (isLost ls) is")
    case Nil
    then have "ls' = ls" "is' = is" using h by (auto simp: withHome_def)
    moreover have "\<not> isLost ls i" using Nil i(1) calculation by (auto simp: filter_empty_conv)
    ultimately show ?thesis using kept i(2) by simp
  next
    case (Cons f r)
    let ?lost = "map itemId (f # r)"
    obtain home where home: "home \<in> set (liveLists ls')" "set (liveLists ls) \<subseteq> set (liveLists ls')"
      and is': "is' = map (\<lambda>i. if itemId i \<in> set ?lost then i\<lparr>itemList := Some (listId home)\<rparr> else i) is"
      using withHome_shape [OF h Cons] by (elim bexE conjE)
    obtain j where j: "j \<in> set is" "i = (if itemId j \<in> set ?lost then j\<lparr>itemList := Some (listId home)\<rparr> else j)"
      using i(1) is' by auto
    show ?thesis
    proof (cases "itemId j \<in> set ?lost")
      case True
      then show ?thesis using j home by auto
    next
      case False
      then have "j \<notin> set (filter (isLost ls) is)" using Cons by auto
      then have "\<not> isLost ls j" using j(1) by simp
      then show ?thesis using kept [of j] False j(2) i(2) home(2) by auto
    qed
  qed
qed

lemma withHome_live_ids:
  assumes "withHome ls is = (ls', is')"
  shows "map itemId (filter isLive is') = map itemId (filter isLive is)"
proof -
  have *: "map itemId (filter isLive (map f is)) = map itemId (filter isLive is)"
    if "\<And>i. itemId (f i) = itemId i" "\<And>i. isLive (f i) = isLive i" for f
    using that by (induction "is") auto
  show ?thesis
  proof (cases "filter (isLost ls) is")
    case Nil
    then show ?thesis using assms by (simp add: withHome_def)
  next
    case (Cons f r)
    from withHome_shape [OF assms this] obtain home :: listRow where
      "is' = map (\<lambda>i. if itemId i \<in> set (map itemId (f # r)) then i\<lparr>itemList := Some (listId home)\<rparr> else i) is"
      by blast
    then show ?thesis by (simp only:) (rule *; simp add: isLive_def)
  qed
qed

lemma liveItems_withHome:
  assumes "withHome ls is = (ls', is')"
  shows "liveItems ls' is' = filter isLive is'"
  unfolding liveItems_def Let_def
  by (rule filter_cong) (use withHome_homes [OF assms] in fastforce)+

section \<open>The arranged checklists\<close>

lemma arrange_shown:
  assumes wk: "wellKeyed is" and dl: "distinct (map listId (liveLists ls))" and a: "arrange ls is = Some a"
  shows "shownIds (ar_items a) = mset (map itemId (filter isLive is))"
proof -
  obtain ls' is' where h: "withHome ls is = (ls', is')" by fastforce
  define live where "live = liveItems ls' is'"
  have wkl: "wellKeyed live" using wellKeyed_live [OF wk, of ls' ls] h by (simp add: live_def)
  have homes: "\<exists>h \<in> listId ` set (liveLists ls'). itemList i = Some h" if "i \<in> set live" for i
    using withHome_homes [OF h] that by (auto simp: live_def liveItems_withHome [OF h])
  obtain als es d t where al: "arrangeLists (Suc (length live)) live (liveLists ls') = Some (als, es, d, t)"
      and es: "ar_items a = es"
    using a by (auto simp: arrange_def h Let_def live_def split: option.splits)
  have once: "count (shownIds es) (itemId k) = 1" if k: "k \<in> set live" for k
    using homes [OF k] arrangeLists_once [OF wkl withHome_lists [OF dl h] al k _ _ homes] by blast
  have "shownIds es = mset (map itemId live)"
  proof (rule multiset_eqI)
    fix x
    have "count (mset (map itemId live)) x = (if x \<in> itemId ` set live then 1 else 0)"
      using wkl by (simp add: wellKeyed_def distinct_count_atmost_1 del: mset_map)
    moreover have "count (shownIds es) x = 0" if "x \<notin> itemId ` set live"
      using arrangeLists_ids [OF al] that by (meson not_in_iff subsetD)
    ultimately show "count (shownIds es) x = count (mset (map itemId live)) x" using once by auto
  qed
  then show ?thesis
    using withHome_live_ids [OF h] by (simp add: es live_def liveItems_withHome [OF h] del: mset_map)
qed

lemma arrange_counts:
  assumes "arrange ls is = Some a"
  shows "countsOf (ar_items a) = (ar_done a, ar_total a)" "ar_percent a = percentOf (ar_done a) (ar_total a)"
proof -
  show "countsOf (ar_items a) = (ar_done a, ar_total a)"
    using assms arrangeLists_counts by (fastforce simp: arrange_def Let_def split: option.splits prod.splits)
  show "ar_percent a = percentOf (ar_done a) (ar_total a)"
    using assms by (auto simp: arrange_def Let_def split: option.splits prod.splits)
qed

lemma countsOf_le: "countsOf es = (d, t) \<Longrightarrow> d \<le> t"
  by (auto simp: countsOf_def)

section \<open>Properties\<close>

text \<open>
  C11. The checklists of a task always arrange: whatever parents and lists the rows name (missing,
  deleted, in another checklist or in a loop), every live item is shown exactly once, the totals count
  exactly the shown items without sub-items, and the percentage, computed in the doubles of the language,
  is between 0 and 100, 0 when none of them is done and 100 when all are.
\<close>

theorem arrange_shows_every_live_item:
  assumes "wellKeyed is" "distinct (map listId (liveLists ls))"
  shows "\<exists>a. arrange ls is = Some a
    \<and> shownIds (ar_items a) = mset (map itemId (filter isLive is))
    \<and> ar_total a = length (leavesOf (ar_items a))
    \<and> ar_done a = length (filter (\<lambda>e. itemDone (ai_row e)) (leavesOf (ar_items a)))
    \<and> 0 \<le> ar_percent a \<and> ar_percent a \<le> 100
    \<and> (ar_done a = 0 \<longrightarrow> ar_percent a = 0) \<and> (0 < ar_total a \<and> ar_done a = ar_total a \<longrightarrow> ar_percent a = 100)"
proof -
  obtain a where a: "arrange ls is = Some a" using arrange_returns [OF assms(1)] by blast
  note c = arrange_counts [OF a]
  have "0 \<le> ar_percent a" "ar_percent a \<le> 100" "ar_done a = 0 \<longrightarrow> ar_percent a = 0"
    "0 < ar_total a \<and> ar_done a = ar_total a \<longrightarrow> ar_percent a = 100"
    using percentOf_bounds [OF countsOf_le [OF c(1)]] c(2) by simp_all
  then show ?thesis using a arrange_shown [OF assms a] c(1) by (simp add: countsOf_def)
qed

definition sampleItem :: "ident \<Rightarrow> ident option \<Rightarrow> ident option \<Rightarrow> bool \<Rightarrow> int \<Rightarrow> itemRow" where
  "sampleItem k l p dn pos = \<lparr>itemId = k, itemTask = ''t'', itemList = l, itemParent = p, itemText = k, itemDone = dn,
     itemPos = pos, itemCreatedAt = 0, itemUpdatedAt = 0, itemAssignee = None, itemDue = None, itemCompletedAt = None,
     itemCompletedBy = None, itemDeletedAt = None, itemDeletedBy = None, itemBatch = None\<rparr>"

definition sampleList :: "ident \<Rightarrow> int \<Rightarrow> listRow" where
  "sampleList k pos = \<lparr>listId = k, listTask = ''t'', listTitle = k, listPos = pos, listCreatedBy = None, listCreatedAt = 0,
     listUpdatedAt = 0, listDeletedAt = None, listDeletedBy = None, listBatch = None\<rparr>"

text \<open>Two lists; \<open>a\<close> over \<open>b\<close> and \<open>c\<close>, a loop \<open>d\<close>--\<open>e\<close>, \<open>f\<close> in no list, \<open>g\<close> deleted with \<open>h\<close> under it.\<close>

definition sampleLists :: "listRow list" where
  "sampleLists = [sampleList ''L2'' 1, sampleList ''L1'' 0]"

definition sampleItems :: "itemRow list" where
  "sampleItems =
     [sampleItem ''a'' (Some ''L1'') None False 0,
      sampleItem ''c'' (Some ''L1'') (Some ''a'') False 1,
      sampleItem ''b'' (Some ''L1'') (Some ''a'') True 0,
      sampleItem ''d'' (Some ''L2'') (Some ''e'') True 0,
      sampleItem ''e'' (Some ''L2'') (Some ''d'') False 1,
      sampleItem ''f'' None None True 1,
      (sampleItem ''g'' (Some ''L2'') None False 2)\<lparr>itemDeletedAt := Some 5\<rparr>,
      sampleItem ''h'' (Some ''L2'') (Some ''g'') False 3]"

lemmas sample_rows = sampleItem_def sampleList_def sampleLists_def sampleItems_def

lemma sample_wellKeyed: "wellKeyed sampleItems"
  by (simp add: wellKeyed_def sample_rows)

lemma sample_lists_distinct: "distinct (map listId (liveLists sampleLists))"
  by (simp add: liveLists_def isLiveList_def listOrder_def sample_rows)

theorem arrange_shows_every_live_item_witness:
  "\<exists>a. arrange sampleLists sampleItems = Some a
    \<and> shownIds (ar_items a) = mset [''a'', ''c'', ''b'', ''d'', ''e'', ''f'', ''h'']
    \<and> ar_total a = length (leavesOf (ar_items a)) \<and> ar_percent a \<le> 100"
  using arrange_shows_every_live_item [OF sample_wellKeyed sample_lists_distinct]
  by (auto simp: sample_rows isLive_def)

lemma sample_arranged:
  "map_option (\<lambda>a. (map (\<lambda>e. (itemId (ai_row e), ai_depth e)) (ar_items a), ar_done a, ar_total a))
     (arrange sampleLists sampleItems)
   = Some ([(''a'', 0), (''b'', 1), (''c'', 1), (''f'', 0), (''d'', 0), (''e'', 0), (''h'', 0)], 3, 6)"
  by code_simp

end
