(* ===== verification/ChecklistRules.thy ===== *)
theory ChecklistRules
  imports ChecklistRows
begin

text \<open>
  \<open>modules/tasks/checklist-tree.ts\<close>, the rules: a parent follows its sub-items (\<open>settleParents\<close>),
  sub-trees and loops (\<open>descendantIds\<close>, \<open>wouldCycle\<close>, \<open>subtreeHeight\<close>, \<open>depthOf\<close>), and moving items
  among their siblings (\<open>siblingsOf\<close>, \<open>planMove\<close>, \<open>placeInGroup\<close>).
\<close>

section \<open>The parent rule\<close>

text \<open>\<open>if (!i.parentId)\<close> is true for null and for the empty string.\<close>

definition isUnder :: "ident \<Rightarrow> itemRow \<Rightarrow> bool" where
  "isUnder k i \<longleftrightarrow> k \<noteq> [] \<and> itemParent i = Some k"

definition kidsOf :: "itemRow list \<Rightarrow> itemRow \<Rightarrow> itemRow list" where
  "kidsOf live row = filter (\<lambda>c. isUnder (itemId row) c \<and> itemList c = itemList row) live"

definition hasKids :: "itemRow list \<Rightarrow> itemRow \<Rightarrow> bool" where
  "hasKids live row = list_ex (isUnder (itemId row)) live"

text \<open>
  \<open>doneOf\<close> with its memo passed along and \<open>visiting\<close> as the rows the calls below a row see. Each
  deeper call adds an id that has sub-items, so fewer rows are left whose parent is not being visited.
  The rows' own \<open>done\<close> is read as it was: a row is only written after its id is in the memo.
\<close>

function (sequential) doneOf :: "itemRow list \<Rightarrow> ident list \<Rightarrow> (ident \<rightharpoonup> bool) \<Rightarrow> itemRow \<Rightarrow> bool \<times> (ident \<rightharpoonup> bool)"
  and everyDone :: "itemRow list \<Rightarrow> ident list \<Rightarrow> (ident \<rightharpoonup> bool) \<Rightarrow> itemRow list \<Rightarrow> bool \<times> (ident \<rightharpoonup> bool)" where
  "doneOf live visiting memo row =
     (case memo (itemId row) of
        Some known \<Rightarrow> (known, memo)
      | None \<Rightarrow>
          (if kidsOf live row = [] \<or> itemId row \<in> set visiting
           then (itemDone row, memo(itemId row \<mapsto> itemDone row))
           else (case everyDone live (itemId row # visiting) memo (kidsOf live row) of
                   (all, memo') \<Rightarrow> (all, memo'(itemId row \<mapsto> all)))))"
| "everyDone live visiting memo [] = (True, memo)"
| "everyDone live visiting memo (c # cs) =
     (case doneOf live visiting memo c of
        (d, memo') \<Rightarrow> (if d then everyDone live visiting memo' cs else (False, memo')))"
  by pat_completeness auto

definition unvisited :: "itemRow list \<Rightarrow> ident list \<Rightarrow> nat" where
  "unvisited live visiting = length (filter (\<lambda>i. \<forall>p \<in> set visiting. itemParent i \<noteq> Some p) live)"

lemma unvisited_less:
  assumes "kidsOf live row \<noteq> []" "itemId row \<notin> set visiting"
  shows "unvisited live (itemId row # visiting) < unvisited live visiting"
proof -
  obtain c where "c \<in> set live" "itemParent c = Some (itemId row)"
    using assms(1) by (auto simp: kidsOf_def isUnder_def filter_empty_conv)
  then show ?thesis unfolding unvisited_def using assms(2)
    by (intro filter_shrinks [of _ _ c]) auto
qed

termination doneOf
  by (relation "measures
      [\<lambda>x. case x of Inl (live, v, m, row) \<Rightarrow> unvisited live v | Inr (live, v, m, cs) \<Rightarrow> unvisited live v,
       \<lambda>x. case x of Inl (live, v, m, row) \<Rightarrow> 0 | Inr (live, v, m, cs) \<Rightarrow> Suc (length cs)]")
    (auto intro: unvisited_less)

declare doneOf.simps [simp del]

lemma doneOf_known: "memo (itemId row) = Some known \<Longrightarrow> doneOf live visiting memo row = (known, memo)"
  by (simp add: doneOf.simps)

lemma doneOf_leaf:
  "memo (itemId row) = None \<Longrightarrow> kidsOf live row = []
    \<Longrightarrow> doneOf live visiting memo row = (itemDone row, memo(itemId row \<mapsto> itemDone row))"
  by (simp add: doneOf.simps)

lemma doneOf_parent:
  "memo (itemId row) = None \<Longrightarrow> kidsOf live row \<noteq> [] \<Longrightarrow> itemId row \<notin> set visiting
    \<Longrightarrow> everyDone live (itemId row # visiting) memo (kidsOf live row) = (all, m)
    \<Longrightarrow> doneOf live visiting memo row = (all, m(itemId row \<mapsto> all))"
  by (simp add: doneOf.simps)

definition settledRow :: "instant \<Rightarrow> ident option \<Rightarrow> bool \<Rightarrow> itemRow \<Rightarrow> itemRow" where
  "settledRow now actor want row =
     row\<lparr>itemDone := want, itemCompletedAt := (if want then Some now else None),
         itemCompletedBy := (if want then actor else None), itemUpdatedAt := now\<rparr>"

text \<open>The loop over the rows, the deleted ones passed by; the rows after it and the ids it changed.\<close>

fun settleLoop :: "itemRow list \<Rightarrow> instant \<Rightarrow> ident option \<Rightarrow> (ident \<rightharpoonup> bool) \<Rightarrow> itemRow list
    \<Rightarrow> itemRow list \<times> ident list" where
  "settleLoop live now actor memo [] = ([], [])"
| "settleLoop live now actor memo (row # rows) =
     (if \<not> isLive row \<or> \<not> hasKids live row
      then (case settleLoop live now actor memo rows of (rows', ch) \<Rightarrow> (row # rows', ch))
      else (case doneOf live [] memo row of
              (want, memo') \<Rightarrow>
                (case settleLoop live now actor memo' rows of
                   (rows', ch) \<Rightarrow>
                     if want = itemDone row then (row # rows', ch)
                     else (settledRow now actor want row # rows', itemId row # ch))))"

definition settleParents :: "itemRow list \<Rightarrow> instant \<Rightarrow> ident option \<Rightarrow> itemRow list \<times> ident list" where
  "settleParents is now actor = settleLoop (filter isLive is) now actor Map.empty is"

subsection \<open>What it computes\<close>

text \<open>Done by the leaves: a row without sub-items by its own tick, a parent when all below it are.\<close>

inductive doneByLeaves :: "itemRow list \<Rightarrow> itemRow \<Rightarrow> bool" for live where
  leaf: "kidsOf live r = [] \<Longrightarrow> itemDone r \<Longrightarrow> doneByLeaves live r"
| parent: "kidsOf live r \<noteq> [] \<Longrightarrow> (\<And>c. c \<in> set (kidsOf live r) \<Longrightarrow> doneByLeaves live c) \<Longrightarrow> doneByLeaves live r"

lemma doneByLeaves_iff:
  "doneByLeaves live r \<longleftrightarrow> (if kidsOf live r = [] then itemDone r else (\<forall>c \<in> set (kidsOf live r). doneByLeaves live c))"
  by (subst doneByLeaves.simps) auto

text \<open>The pairs (sub-item, parent) of the parent rule.\<close>

definition underRel :: "itemRow list \<Rightarrow> (ident \<times> ident) set" where
  "underRel live = {(itemId c, itemId r) | c r. r \<in> set live \<and> c \<in> set (kidsOf live r)}"

definition memoOk :: "itemRow list \<Rightarrow> (ident \<rightharpoonup> bool) \<Rightarrow> bool" where
  "memoOk live memo \<longleftrightarrow> (\<forall>r \<in> set live. \<forall>b. memo (itemId r) = Some b \<longrightarrow> b = doneByLeaves live r)"

lemma memoOk_update:
  "distinct (map itemId live) \<Longrightarrow> r \<in> set live \<Longrightarrow> memoOk live memo \<Longrightarrow> b = doneByLeaves live r
    \<Longrightarrow> memoOk live (memo(itemId r \<mapsto> b))"
  by (auto simp: memoOk_def distinct_map dest: inj_onD)

lemma kidsOf_live: "set (kidsOf live r) \<subseteq> set live"
  by (auto simp: kidsOf_def)

lemma doneOf_correct:
  assumes "distinct (map itemId live)" "acyclic (underRel live)"
  shows "row \<in> set live \<Longrightarrow> memoOk live memo \<Longrightarrow> \<forall>v \<in> set visiting. (itemId row, v) \<in> (underRel live)\<^sup>+
      \<Longrightarrow> doneOf live visiting memo row = (b, memo') \<Longrightarrow> b = doneByLeaves live row \<and> memoOk live memo'"
    and "set cs \<subseteq> set live \<Longrightarrow> memoOk live memo \<Longrightarrow> \<forall>c \<in> set cs. \<forall>v \<in> set visiting. (itemId c, v) \<in> (underRel live)\<^sup>+
      \<Longrightarrow> everyDone live visiting memo cs = (b, memo') \<Longrightarrow> b = (\<forall>c \<in> set cs. doneByLeaves live c) \<and> memoOk live memo'"
  using assms
proof (induction live visiting memo row and live visiting memo cs arbitrary: b memo' and b memo' rule: doneOf_everyDone.induct)
  case (1 live visiting memo row)
  show ?case
  proof (cases "memo (itemId row)")
    case (Some known)
    then show ?thesis using "1.prems"(1,2,4) by (auto simp: memoOk_def doneOf_known)
  next
    case None
    have nv: "itemId row \<notin> set visiting" using "1.prems"(3,6) by (auto simp: acyclic_def)
    show ?thesis
    proof (cases "kidsOf live row = []")
      case True
      then have dn: "itemDone row = doneByLeaves live row" by (simp add: doneByLeaves_iff [of live row])
      have res: "b = itemDone row" "memo' = memo(itemId row \<mapsto> itemDone row)"
        using "1.prems"(4) unfolding doneOf_leaf [of memo, OF None True] prod.inject by blast+
      show ?thesis using memoOk_update [OF "1.prems"(5,1,2) dn] dn unfolding res by blast
    next
      case False
      obtain all m where e: "everyDone live (itemId row # visiting) memo (kidsOf live row) = (all, m)" by fastforce
      have up: "(itemId c, itemId row) \<in> underRel live" if "c \<in> set (kidsOf live row)" for c
        using that "1.prems"(1) by (auto simp: underRel_def)
      have "all = (\<forall>c \<in> set (kidsOf live row). doneByLeaves live c) \<and> memoOk live m"
      proof (rule "1.IH" [OF None _ kidsOf_live "1.prems"(2) _ e "1.prems"(5,6)])
        show "\<not> (kidsOf live row = [] \<or> itemId row \<in> set visiting)" using False nv by simp
        show "\<forall>c \<in> set (kidsOf live row). \<forall>v \<in> set (itemId row # visiting). (itemId c, v) \<in> (underRel live)\<^sup>+"
          using up "1.prems"(3) by (auto intro: trancl_into_trancl2)
      qed
      then have ok: "all = doneByLeaves live row" "memoOk live m" using False by (auto simp: doneByLeaves_iff [of live row])
      have res: "b = all" "memo' = m(itemId row \<mapsto> all)" using "1.prems"(4) unfolding doneOf_parent [of memo, OF None False nv e] prod.inject by blast+
      show ?thesis using memoOk_update [OF "1.prems"(5,1) ok(2,1)] ok(1) unfolding res by blast
    qed
  qed
next
  case (2 live visiting memo)
  then show ?case by simp
next
  case (3 live visiting memo c cs)
  obtain d m where d: "doneOf live visiting memo c = (d, m)" by fastforce
  have dm: "d = doneByLeaves live c" "memoOk live m"
    using "3.IH"(1) [OF _ "3.prems"(2) _ d "3.prems"(5,6)] "3.prems"(1,3) by simp_all
  show ?case
  proof (cases d)
    case True
    then have "everyDone live visiting m cs = (b, memo')" using "3.prems"(4) d by simp
    then have "b = (\<forall>c \<in> set cs. doneByLeaves live c) \<and> memoOk live memo'"
      using "3.IH"(2) [OF d [symmetric] True _ dm(2) _ _ "3.prems"(5,6)] "3.prems"(1,3) by simp
    then show ?thesis using True dm(1) by simp
  next
    case False
    then show ?thesis using "3.prems"(4) d dm by auto
  qed
qed

lemma hasKids_kidsOf: "\<not> hasKids live r \<Longrightarrow> kidsOf live r = []"
  by (auto simp: hasKids_def kidsOf_def list_ex_iff filter_empty_conv)

definition settledBy :: "itemRow list \<Rightarrow> instant \<Rightarrow> ident option \<Rightarrow> itemRow \<Rightarrow> itemRow" where
  "settledBy live now actor r =
     (if isLive r \<and> doneByLeaves live r \<noteq> itemDone r then settledRow now actor (doneByLeaves live r) r else r)"

lemma settleLoop_correct:
  assumes "distinct (map itemId live)" "acyclic (underRel live)"
  shows "memoOk live memo \<Longrightarrow> set (filter isLive rows) \<subseteq> set live \<Longrightarrow>
    settleLoop live now actor memo rows
      = (map (settledBy live now actor) rows,
         map itemId (filter (\<lambda>r. isLive r \<and> doneByLeaves live r \<noteq> itemDone r) rows))"
proof (induction rows arbitrary: memo)
  case Nil
  then show ?case by simp
next
  case (Cons r rows)
  have rows: "set (filter isLive rows) \<subseteq> set live" using Cons.prems(2) by (auto split: if_splits)
  show ?case
  proof (cases "\<not> isLive r \<or> \<not> hasKids live r")
    case True
    then have "isLive r \<Longrightarrow> doneByLeaves live r = itemDone r"
      using hasKids_kidsOf doneByLeaves_iff [of live r] by auto
    then show ?thesis using True Cons.IH [OF Cons.prems(1) rows] by (auto simp: settledBy_def)
  next
    case False
    obtain want m where d: "doneOf live [] memo r = (want, m)" by fastforce
    have "r \<in> set live" using False Cons.prems(2) by auto
    then have "want = doneByLeaves live r \<and> memoOk live m"
      using doneOf_correct(1) [OF assms(1,2) _ Cons.prems(1) _ d] by simp
    then show ?thesis using False Cons.IH [OF _ rows] d by (auto simp: settledBy_def)
  qed
qed

lemma settleParents_eq:
  assumes "distinct (map itemId (filter isLive is))" "acyclic (underRel (filter isLive is))"
  shows "settleParents is now actor =
      (map (settledBy (filter isLive is) now actor) is,
       map itemId (filter (\<lambda>r. isLive r \<and> doneByLeaves (filter isLive is) r \<noteq> itemDone r) is))"
  unfolding settleParents_def by (rule settleLoop_correct [OF assms]) (simp_all add: memoOk_def)

lemma settledBy_fields [simp]:
  "itemId (settledBy live now actor r) = itemId r"
  "itemList (settledBy live now actor r) = itemList r"
  "itemParent (settledBy live now actor r) = itemParent r"
  "isLive (settledBy live now actor r) = isLive r"
  by (simp_all add: settledBy_def settledRow_def isLive_def)

lemma isUnder_settledBy [simp]: "isUnder k (settledBy live now actor c) = isUnder k c"
  by (simp add: isUnder_def)

lemma kidsOf_settled:
  "kidsOf (filter isLive (map (settledBy live now actor) is)) (settledBy live now actor r)
     = map (settledBy live now actor) (kidsOf (filter isLive is) r)"
  by (simp add: kidsOf_def filter_map comp_def)

lemma itemDone_settled: "isLive r \<Longrightarrow> itemDone (settledBy live now actor r) = doneByLeaves live r"
  by (simp add: settledBy_def settledRow_def)

lemma underRel_UN: "underRel live = (\<Union>r \<in> set live. (\<lambda>c. (itemId c, itemId r)) ` set (kidsOf live r))"
  by (auto simp: underRel_def)

lemma finite_underRel: "finite (underRel live)"
proof -
  have "underRel live \<subseteq> itemId ` set live \<times> itemId ` set live" using kidsOf_live by (auto simp: underRel_def)
  then show ?thesis by (rule finite_subset) simp
qed

lemma wf_underRel: "acyclic (underRel live) \<Longrightarrow> wf (underRel live)"
  by (simp add: finite_acyclic_wf finite_underRel)

lemma changed_ids:
  "map itemId (filter (\<lambda>r. isLive r \<and> doneByLeaves live r \<noteq> itemDone r) rs)
     = map itemId (map fst (filter (\<lambda>(r, r'). itemDone r' \<noteq> itemDone r) (zip rs (map (settledBy live now actor) rs))))"
  by (induction rs) (auto simp: settledBy_def settledRow_def)

lemma kidsOf_settled_live:
  "filter isLive (map (settledBy live now actor) is) = map (settledBy live now actor) (filter isLive is)"
  by (simp add: filter_map comp_def)

text \<open>After the rule the leaves say of every row what they said before.\<close>

lemma doneByLeaves_settled:
  fixes now :: instant and actor :: "ident option"
  assumes "acyclic (underRel (filter isLive is))" "r \<in> set (filter isLive is)"
  defines "f \<equiv> settledBy (filter isLive is) now actor"
  shows "doneByLeaves (filter isLive (map f is)) (f r) = doneByLeaves (filter isLive is) r"
proof -
  let ?live = "filter isLive is"
  let ?live' = "filter isLive (map f is)"
  have kids: "kidsOf ?live' (f r) = map f (kidsOf ?live r)" for r unfolding f_def by (rule kidsOf_settled)
  have "\<forall>r \<in> set ?live. itemId r = k \<longrightarrow> doneByLeaves ?live' (f r) = doneByLeaves ?live r" for k
  proof (induction k rule: wf_induct_rule [OF wf_underRel [OF assms(1)]])
    case (1 k)
    have "doneByLeaves ?live' (f r) = doneByLeaves ?live r" if r: "r \<in> set ?live" "itemId r = k" for r
    proof -
      have "doneByLeaves ?live' (f c) = doneByLeaves ?live c" if "c \<in> set (kidsOf ?live r)" for c
        using 1 [of "itemId c"] that r kidsOf_live [of ?live r] unfolding underRel_def by blast
      moreover have "itemDone (f r) = doneByLeaves ?live r" unfolding f_def by (rule itemDone_settled) (use r in simp)
      ultimately show ?thesis using doneByLeaves_iff [of ?live' "f r"] doneByLeaves_iff [of ?live r]
        unfolding kids by auto
    qed
    then show ?case by blast
  qed
  then show ?thesis using assms(2) by blast
qed

lemma settleParents_again:
  fixes now :: instant and actor :: "ident option"
  assumes "distinct (map itemId (filter isLive is))" "acyclic (underRel (filter isLive is))"
  defines "is' \<equiv> map (settledBy (filter isLive is) now actor) is"
  shows "settleParents is' now2 actor2 = (is', [])"
proof -
  have live': "filter isLive is' = map (settledBy (filter isLive is) now actor) (filter isLive is)"
    unfolding is'_def by (rule kidsOf_settled_live)
  have "underRel (filter isLive is') = underRel (filter isLive is)"
    using kidsOf_settled [of "filter isLive is" now actor "is"] unfolding underRel_UN live' kidsOf_settled_live by (simp add: image_image)
  then have "acyclic (underRel (filter isLive is'))" using assms(2) by simp
  moreover have "distinct (map itemId (filter isLive is'))" using assms(1) live' by (simp add: comp_def)
  moreover have settled: "doneByLeaves (filter isLive is') r = itemDone r" if "r \<in> set is'" "isLive r" for r
    using that doneByLeaves_settled [OF assms(2)] itemDone_settled unfolding is'_def by auto
  then have "map (settledBy (filter isLive is') now2 actor2) is' = is'"
    unfolding settledBy_def by (intro map_idI) auto
  ultimately show ?thesis using settleParents_eq settled by (simp add: filter_empty_conv)
qed

lemma parent_follows:
  fixes now :: instant and actor :: "ident option"
  assumes "acyclic (underRel (filter isLive is))"
  defines "is' \<equiv> map (settledBy (filter isLive is) now actor) is"
  assumes "r \<in> set (filter isLive is')" "kidsOf (filter isLive is') r \<noteq> []"
  shows "itemDone r \<longleftrightarrow> (\<forall>c \<in> set (kidsOf (filter isLive is') r). itemDone c)"
proof -
  let ?live = "filter isLive is"
  let ?f = "settledBy ?live now actor"
  obtain q where q: "q \<in> set ?live" "r = ?f q" using assms(3) by (auto simp: is'_def)
  have kids: "kidsOf (filter isLive is') (?f q) = map ?f (kidsOf ?live q)" unfolding is'_def by (rule kidsOf_settled)
  have "itemDone (?f c) = doneByLeaves ?live c" if "c \<in> set (kidsOf ?live q)" for c
    using that kidsOf_live [of ?live q] by (intro itemDone_settled) auto
  moreover have "itemDone (?f q) = doneByLeaves ?live q" by (rule itemDone_settled) (use q in simp)
  moreover have "kidsOf ?live q \<noteq> []" using assms(4) q(2) kids by auto
  ultimately show ?thesis using doneByLeaves_iff [of ?live q] unfolding q(2) kids by auto
qed

text \<open>
  C32. After the parent rule, when no item is below itself, every live item that has live sub-items of
  its checklist is done exactly when all of them are, items without sub-items keep their tick, the ids
  reported are exactly the live rows whose tick changed, and running the rule again changes nothing.
\<close>

theorem settleParents_parent_follows:
  assumes "distinct (map itemId (filter isLive is))" "acyclic (underRel (filter isLive is))"
    and "settleParents is now actor = (is', changed)"
  shows "length is' = length is
    \<and> (\<forall>r \<in> set (filter isLive is').
         kidsOf (filter isLive is') r \<noteq> [] \<longrightarrow> (itemDone r \<longleftrightarrow> (\<forall>c \<in> set (kidsOf (filter isLive is') r). itemDone c)))
    \<and> (\<forall>n < length is. (\<not> isLive (is ! n) \<or> kidsOf (filter isLive is) (is ! n) = []) \<longrightarrow> is' ! n = is ! n)
    \<and> changed = map itemId (map fst (filter (\<lambda>(r, r'). itemDone r' \<noteq> itemDone r) (zip is is')))
    \<and> settleParents is' now2 actor2 = (is', [])"
proof -
  let ?live = "filter isLive is"
  have is': "is' = map (settledBy ?live now actor) is"
    and ch: "changed = map itemId (filter (\<lambda>r. isLive r \<and> doneByLeaves ?live r \<noteq> itemDone r) is)"
    using assms(3) settleParents_eq [OF assms(1,2)] by simp_all
  have "is' ! n = is ! n" if "n < length is" "\<not> isLive (is ! n) \<or> kidsOf ?live (is ! n) = []" for n
    using that doneByLeaves_iff [of ?live "is ! n"] by (auto simp: is' settledBy_def)
  moreover have "changed = map itemId (map fst (filter (\<lambda>(r, r'). itemDone r' \<noteq> itemDone r) (zip is is')))"
    unfolding ch is' by (rule changed_ids)
  ultimately show ?thesis
    using settleParents_again [OF assms(1,2)] parent_follows [OF assms(2)] unfolding is' by simp
qed

lemma acyclic_rank: "(\<And>x y. (x, y) \<in> R \<Longrightarrow> rank y < (rank x :: nat)) \<Longrightarrow> acyclic R"
  by (rule acyclic_subset [of "converse (measure rank)"])
    (auto simp: acyclic_converse intro!: wf_acyclic)

text \<open>\<open>a\<close> over \<open>b\<close> and \<open>c\<close>, \<open>b\<close> over \<open>d\<close>; \<open>e\<close> names a parent in another checklist.\<close>

definition treeItems :: "itemRow list" where
  "treeItems =
     [sampleItem ''a'' (Some ''L1'') None True 0,
      sampleItem ''b'' (Some ''L1'') (Some ''a'') False 0,
      sampleItem ''c'' (Some ''L1'') (Some ''a'') True 1,
      sampleItem ''d'' (Some ''L1'') (Some ''b'') True 0,
      sampleItem ''e'' (Some ''L2'') (Some ''a'') False 0]"

lemma treeItems_rel: "underRel (filter isLive treeItems) = {(''b'', ''a''), (''c'', ''a''), (''d'', ''b'')}"
  unfolding underRel_UN by (auto simp: treeItems_def sample_rows kidsOf_def isUnder_def isLive_def)

lemma treeItems_ok: "distinct (map itemId (filter isLive treeItems))" "acyclic (underRel (filter isLive treeItems))"
proof -
  show "distinct (map itemId (filter isLive treeItems))" by (simp add: treeItems_def sample_rows isLive_def)
  show "acyclic (underRel (filter isLive treeItems))" unfolding treeItems_rel
    by (rule acyclic_rank [of _ "\<lambda>k. if k = ''a'' then 0 else if k = ''b'' then 1 else 2"]) auto
qed

lemma treeItems_settled: "snd (settleParents (treeItems[3 := (treeItems ! 3)\<lparr>itemDone := False\<rparr>]) 7 None) = [''a'']"
  by code_simp

theorem settleParents_parent_follows_witness:
  "\<exists>is'. settleParents treeItems 7 (Some ''u'') = (is', [''b'']) \<and> settleParents is' 8 None = (is', [])"
proof -
  obtain is' changed where s: "settleParents treeItems 7 (Some ''u'') = (is', changed)" by fastforce
  moreover have "snd (settleParents treeItems 7 (Some ''u'')) = [''b'']" by code_simp
  ultimately show ?thesis using settleParents_parent_follows [OF treeItems_ok s, of 8 None] by auto
qed

section \<open>Sub-trees\<close>

text \<open>
  The search of \<open>descendantIds\<close>: the inner loop over the rows adds unseen sub-items of \<open>cur\<close>, and the
  rows it adds are queued. \<open>subItems\<close> is the inner loop: the ids it adds, in order.
\<close>

fun subItems :: "ident \<Rightarrow> ident list \<Rightarrow> itemRow list \<Rightarrow> ident list" where
  "subItems cur seen [] = []"
| "subItems cur seen (i # is) =
     (if itemParent i = Some cur \<and> itemId i \<notin> set seen
      then itemId i # subItems cur (itemId i # seen) is
      else subItems cur seen is)"

lemma subItems_set: "set (subItems cur seen is) = {itemId i | i. i \<in> set is \<and> itemParent i = Some cur} - set seen"
  by (induction cur seen "is" rule: subItems.induct) auto

lemma subItems_distinct: "distinct (subItems cur seen is)"
  by (induction cur seen "is" rule: subItems.induct) (auto simp: subItems_set)

function (sequential) descend :: "itemRow list \<Rightarrow> ident list \<Rightarrow> ident list \<Rightarrow> ident list" where
  "descend live [] seen = []"
| "descend live (cur # queue) seen =
     (let new = subItems cur seen live in new @ descend live (queue @ new) (new @ seen))"
  by pat_completeness auto

lemma descend_less:
  assumes "subItems cur seen live \<noteq> []"
  shows "length (filter (\<lambda>i. itemId i \<notin> set (subItems cur seen live @ seen)) live) < length (filter (\<lambda>i. itemId i \<notin> set seen) live)"
proof -
  obtain k where "k \<in> set (subItems cur seen live)" using assms by (metis list.set_intros(1) neq_Nil_conv)
  then obtain i where "i \<in> set live" "itemId i = k" "k \<notin> set seen" by (auto simp: subItems_set)
  then show ?thesis using \<open>k \<in> _\<close> by (intro filter_shrinks [of _ _ i]) auto
qed

termination descend
proof (relation "measures
    [\<lambda>(live, queue, seen). length (filter (\<lambda>i. itemId i \<notin> set seen) live), \<lambda>(live, queue, seen). length queue]", goal_cases)
  case 1
  show ?case by simp
next
  case (2 live cur queue seen new)
  then show ?case using descend_less [of cur seen live] by (cases "new = []") simp_all
qed

definition descendantIds :: "itemRow list \<Rightarrow> ident \<Rightarrow> bool \<Rightarrow> ident list" where
  "descendantIds is k withDeleted = descend (if withDeleted then is else filter isLive is) [k] [k]"

definition wouldCycle :: "itemRow list \<Rightarrow> ident \<Rightarrow> ident option \<Rightarrow> bool" where
  "wouldCycle is k newParent =
     (case newParent of
        None \<Rightarrow> False
      | Some p \<Rightarrow> p = k \<or> p \<in> set (descendantIds is k False))"

definition parentRel :: "itemRow list \<Rightarrow> (ident \<times> ident) set" where
  "parentRel is = {(itemId i, p) | i p. i \<in> set is \<and> itemParent i = Some p}"

lemma parentRel_UN: "parentRel is = (\<Union>i \<in> set is. case itemParent i of None \<Rightarrow> {} | Some p \<Rightarrow> {(itemId i, p)})"
  by (force simp: parentRel_def split: option.splits)

lemma subItems_rel: "set (subItems cur seen live) = {k. (k, cur) \<in> parentRel live} - set seen"
  by (auto simp: subItems_set parentRel_def)

lemma descend_disjoint: "set (descend live queue seen) \<inter> set seen = {} \<and> distinct (descend live queue seen)"
proof (induction live queue seen rule: descend.induct)
  case (1 live seen)
  then show ?case by simp
next
  case (2 live cur queue seen)
  then show ?case using subItems_distinct [of cur seen live] by (auto simp: Let_def subItems_set)
qed

lemma descend_reached:
  "set queue \<subseteq> set seen \<Longrightarrow> k \<in> set (descend live queue seen) \<Longrightarrow> \<exists>q \<in> set queue. (k, q) \<in> (parentRel live)\<^sup>+"
proof (induction live queue seen rule: descend.induct)
  case (1 live seen)
  then show ?case by simp
next
  case (2 live cur queue seen)
  let ?new = "subItems cur seen live"
  have new: "(n, cur) \<in> parentRel live" if "n \<in> set ?new" for n using that by (simp add: subItems_rel)
  from "2.prems"(2) consider "k \<in> set ?new" | "k \<in> set (descend live (queue @ ?new) (?new @ seen))"
    by (auto simp: Let_def)
  then show ?case
  proof cases
    case 1
    then show ?thesis using new by auto
  next
    case 2
    moreover have "set (queue @ ?new) \<subseteq> set (?new @ seen)" using "2.prems"(1) by auto
    ultimately obtain q where "q \<in> set (queue @ ?new)" "(k, q) \<in> (parentRel live)\<^sup>+" using "2.IH" [OF refl] by blast
    then show ?thesis using new by (auto intro: trancl_into_trancl)
  qed
qed

lemma descend_closed:
  assumes "set queue \<subseteq> set seen" "\<And>k q. q \<in> set seen - set queue \<Longrightarrow> (k, q) \<in> parentRel live \<Longrightarrow> k \<in> set seen"
  shows "q \<in> set seen \<union> set (descend live queue seen) \<Longrightarrow> (k, q) \<in> parentRel live
      \<Longrightarrow> k \<in> set seen \<union> set (descend live queue seen)"
  using assms
proof (induction live queue seen rule: descend.induct)
  case (1 live seen)
  then show ?case by auto
next
  case (2 live cur queue seen)
  let ?new = "subItems cur seen live"
  have "k \<in> set (?new @ seen) \<union> set (descend live (queue @ ?new) (?new @ seen))"
  proof (rule "2.IH" [OF refl])
    show "q \<in> set (?new @ seen) \<union> set (descend live (queue @ ?new) (?new @ seen))" using "2.prems"(1) by (auto simp: Let_def)
    show "set (queue @ ?new) \<subseteq> set (?new @ seen)" using "2.prems"(3) by auto
    show "k' \<in> set (?new @ seen)" if "q' \<in> set (?new @ seen) - set (queue @ ?new)" "(k', q') \<in> parentRel live" for k' q'
    proof (cases "q' = cur")
      case True
      then show ?thesis using that by (auto simp: subItems_rel)
    next
      case False
      then show ?thesis using that "2.prems"(4) [of q' k'] by auto
    qed
  qed (rule "2.prems")
  then show ?case by (auto simp: Let_def)
qed

lemma descendantIds_set:
  "set (descendantIds is k wd) = {d. (d, k) \<in> (parentRel (if wd then is else filter isLive is))\<^sup>+} - {k}"
proof -
  let ?live = "if wd then is else filter isLive is"
  let ?S = "insert k (set (descend ?live [k] [k]))"
  have "d \<in> ?S" if "(d, k) \<in> (parentRel ?live)\<^sup>+" for d
    using that
  proof (induction rule: converse_trancl_induct)
    case (base y)
    then show ?case using descend_closed [of "[k]" "[k]" ?live k y] by simp
  next
    case (step y z)
    then show ?case using descend_closed [of "[k]" "[k]" ?live z y] by simp
  qed
  moreover have "(d, k) \<in> (parentRel ?live)\<^sup>+" if "d \<in> set (descend ?live [k] [k])" for d
    using descend_reached [of "[k]" "[k]", OF _ that] by simp
  moreover have "k \<notin> set (descend ?live [k] [k])"
    using descend_disjoint [of ?live "[k]" "[k]"] by auto
  ultimately show ?thesis unfolding descendantIds_def by blast
qed

definition moveUnder :: "itemRow list \<Rightarrow> ident \<Rightarrow> ident option \<Rightarrow> itemRow list" where
  "moveUnder is k newParent = map (\<lambda>i. if itemId i = k then i\<lparr>itemParent := newParent\<rparr> else i) is"

lemma moveUnder_rel:
  "(d, q) \<in> parentRel (filter isLive (moveUnder is k np)) \<longleftrightarrow>
     (\<exists>i \<in> set (filter isLive is). itemId i = d \<and> (if d = k then np else itemParent i) = Some q)"
proof -
  let ?f = "\<lambda>i. if itemId i = k then i\<lparr>itemParent := np\<rparr> else i"
  have "filter isLive (moveUnder is k np) = map ?f (filter isLive is)"
    unfolding moveUnder_def by (induction "is") (auto simp: isLive_def)
  then have "(d, q) \<in> parentRel (filter isLive (moveUnder is k np)) \<longleftrightarrow>
      (\<exists>i \<in> set (filter isLive is). itemId (?f i) = d \<and> itemParent (?f i) = Some q)"
    unfolding parentRel_def by (simp only: set_map) blast
  also have "\<dots> \<longleftrightarrow> (\<exists>i \<in> set (filter isLive is). itemId i = d \<and> (if d = k then np else itemParent i) = Some q)"
    by (intro bex_cong refl) auto
  finally show ?thesis .
qed

lemma parentRel_iff: "(d, q) \<in> parentRel is \<longleftrightarrow> (\<exists>i \<in> set is. itemId i = d \<and> itemParent i = Some q)"
  by (auto simp: parentRel_def)

lemma parentRel_moveUnder:
  assumes "distinct (map itemId (filter isLive is))" "k \<in> itemId ` set (filter isLive is)"
  shows "parentRel (filter isLive (moveUnder is k (Some p))) = insert (k, p) {(d, q). (d, q) \<in> parentRel (filter isLive is) \<and> d \<noteq> k}"
proof -
  obtain i where "i \<in> set (filter isLive is)" "itemId i = k" using assms(2) by auto
  then show ?thesis unfolding set_eq_iff split_paired_all
    by (auto simp: moveUnder_rel parentRel_iff [of _ _ "filter isLive is"] simp del: set_filter split: if_splits) 
qed

text \<open>
  C33. \<open>descendantIds\<close> lists, each once, exactly the items below an item at any depth (and never the item
  itself, even in a loop). \<open>wouldCycle\<close> decides whether a move makes a loop: when no live item is below
  itself, putting a live item under a parent keeps it so exactly when \<open>wouldCycle\<close> answers no.
\<close>

theorem wouldCycle_decides:
  assumes "distinct (map itemId (filter isLive is))" "acyclic (parentRel (filter isLive is))"
    and "k \<in> itemId ` set (filter isLive is)"
  shows "(acyclic (parentRel (filter isLive (moveUnder is k newParent))) \<longleftrightarrow> \<not> wouldCycle is k newParent)
    \<and> distinct (descendantIds is k wd)
    \<and> set (descendantIds is k wd) = {d. (d, k) \<in> (parentRel (if wd then is else filter isLive is))\<^sup>+} - {k}"
proof (intro conjI)
  show "distinct (descendantIds is k wd)"
    unfolding descendantIds_def by (rule descend_disjoint [THEN conjunct2])
  show "set (descendantIds is k wd) = {d. (d, k) \<in> (parentRel (if wd then is else filter isLive is))\<^sup>+} - {k}"
    by (rule descendantIds_set)
  show "acyclic (parentRel (filter isLive (moveUnder is k newParent))) \<longleftrightarrow> \<not> wouldCycle is k newParent"
proof (cases newParent)
  case None
  have "parentRel (filter isLive (moveUnder is k None)) \<subseteq> parentRel (filter isLive is)"
    by (auto simp: moveUnder_rel parentRel_iff [of _ _ "filter isLive is"] simp del: set_filter split: if_splits)
  then show ?thesis using None assms(2) acyclic_subset by (auto simp: wouldCycle_def)
next
  case (Some p)
  let ?R = "parentRel (filter isLive is)"
  let ?R' = "{(d, q). (d, q) \<in> ?R \<and> d \<noteq> k}"
  have "(p, k) \<in> ?R'\<^sup>* \<longleftrightarrow> (p, k) \<in> ?R\<^sup>*"
  proof
    show "(p, k) \<in> ?R'\<^sup>* \<Longrightarrow> (p, k) \<in> ?R\<^sup>*" by (rule rtrancl_mono [THEN subsetD, rotated]) auto
    show "(p, k) \<in> ?R\<^sup>* \<Longrightarrow> (p, k) \<in> ?R'\<^sup>*"
    proof (induction rule: converse_rtrancl_induct)
      case base
      then show ?case by simp
    next
      case (step y z)
      then show ?case by (cases "y = k") (auto intro: converse_rtrancl_into_rtrancl)
    qed
  qed
  moreover have "acyclic ?R'" using assms(2) by (rule acyclic_subset) auto
  ultimately have "acyclic (insert (k, p) ?R') \<longleftrightarrow> (p, k) \<notin> ?R\<^sup>*" by (simp add: acyclic_insert)
  moreover have "(p, k) \<in> ?R\<^sup>* \<longleftrightarrow> wouldCycle is k (Some p)"
    by (auto simp: wouldCycle_def descendantIds_set rtrancl_eq_or_trancl)
  ultimately show ?thesis using Some by (simp add: parentRel_moveUnder [OF assms(1,3)])
qed
qed

theorem wouldCycle_decides_witness:
  "\<not> acyclic (parentRel (filter isLive (moveUnder treeItems ''a'' (Some ''d''))))"
proof -
  have rel: "parentRel (filter isLive treeItems) = {(''b'', ''a''), (''c'', ''a''), (''d'', ''b''), (''e'', ''a'')}"
    unfolding parentRel_UN by (auto simp: treeItems_def sample_rows isLive_def)
  have "acyclic (parentRel (filter isLive treeItems))"
    unfolding rel by (rule acyclic_rank [of _ "\<lambda>k. if k = ''a'' then 0 else if k = ''b'' then 1 else 2"]) auto
  moreover have "''a'' \<in> itemId ` set (filter isLive treeItems)" by (simp add: treeItems_def sample_rows isLive_def)
  moreover have "wouldCycle treeItems ''a'' (Some ''d'')" by code_simp
  ultimately show ?thesis using wouldCycle_decides [OF treeItems_ok(1), of "''a''" "Some ''d''"] by blast
qed

section \<open>Heights and levels\<close>

text \<open>\<open>Math.max\<close> of the sub-items' heights; past the guard the height is the guard itself.\<close>

function heightAt :: "itemRow list \<Rightarrow> ident \<Rightarrow> nat \<Rightarrow> nat" where
  "heightAt live cur guard =
     (if guard > MAX_DEPTH + 5 then guard
      else 1 + foldr max (map (\<lambda>k. heightAt live (itemId k) (guard + 1)) (filter (\<lambda>i. itemParent i = Some cur) live)) 0)"
  by pat_completeness auto

termination heightAt by (relation "measure (\<lambda>(live, cur, guard). MAX_DEPTH + 6 - guard)") auto

definition subtreeHeight :: "itemRow list \<Rightarrow> ident \<Rightarrow> nat" where
  "subtreeHeight is k = heightAt (filter isLive is) k 0"

text \<open>The loop of \<open>depthOf\<close> at the row with id \<open>k\<close>.\<close>

function depthFrom :: "itemRow list \<Rightarrow> ident list \<Rightarrow> int \<Rightarrow> ident \<Rightarrow> int" where
  "depthFrom live seen depth k =
     (case byId live k of
        None \<Rightarrow> depth
      | Some cur \<Rightarrow>
          (case itemParent cur of
             None \<Rightarrow> depth
           | Some p \<Rightarrow>
               if p \<noteq> [] \<and> byId live p \<noteq> None \<and> itemId cur \<notin> set seen
               then depthFrom live (itemId cur # seen) (depth + 1) p
               else depth))"
  by pat_completeness auto

termination depthFrom
proof (relation "measure (\<lambda>(live, seen, depth, k). length (filter (\<lambda>i. itemId i \<notin> set seen) live))", goal_cases)
  case 1
  show ?case by simp
next
  case (2 live seen depth k cur p)
  then show ?case using byId_mem [OF 2(1)] by (auto intro!: filter_shrinks [of _ _ cur])
qed

definition depthOf :: "itemRow list \<Rightarrow> ident option \<Rightarrow> int" where
  "depthOf is k =
     (case k of
        None \<Rightarrow> -1
      | Some j \<Rightarrow> if j = [] then -1 else depthFrom (filter isLive is) [] 0 j)"

section \<open>Moving\<close>

datatype moveAction = Indent | Outdent | Up | Down

record moveTarget =
  mt_list :: ident
  mt_parent :: "ident option"
  mt_after :: "ident option"

definition siblingsOf :: "itemRow list \<Rightarrow> ident \<Rightarrow> ident option \<Rightarrow> itemRow list" where
  "siblingsOf is l p = sort_key itemOrder (filter (\<lambda>i. isLive i \<and> itemList i = Some l \<and> itemParent i = p) is)"

fun findIndex :: "('a \<Rightarrow> bool) \<Rightarrow> 'a list \<Rightarrow> nat option" where
  "findIndex P [] = None"
| "findIndex P (x # xs) = (if P x then Some 0 else map_option Suc (findIndex P xs))"

definition planMove :: "itemRow list \<Rightarrow> ident \<Rightarrow> moveAction \<Rightarrow> moveTarget option" where
  "planMove is k action =
     (case find (\<lambda>i. itemId i = k \<and> isLive i) is of
        None \<Rightarrow> None
      | Some row \<Rightarrow>
          (case itemList row of
             None \<Rightarrow> None
           | Some l \<Rightarrow>
               if l = [] then None
               else
                 (let sibs = siblingsOf is l (itemParent row);
                      index = findIndex (\<lambda>s. itemId s = itemId row) sibs
                  in case action of
                       Indent \<Rightarrow>
                         (case index of
                            None \<Rightarrow> None
                          | Some 0 \<Rightarrow> None
                          | Some (Suc n) \<Rightarrow>
                              (let before = sibs ! n; kids = siblingsOf is l (Some (itemId before))
                               in Some \<lparr>mt_list = l, mt_parent = Some (itemId before),
                                    mt_after = (if kids = [] then None else Some (itemId (last kids)))\<rparr>))
                     | Outdent \<Rightarrow>
                         (case itemParent row of
                            None \<Rightarrow> None
                          | Some q \<Rightarrow>
                              if q = [] then None
                              else (case find (\<lambda>i. itemId i = q) is of
                                      None \<Rightarrow> None
                                    | Some parent \<Rightarrow>
                                        Some \<lparr>mt_list = l, mt_parent = itemParent parent, mt_after = Some (itemId parent)\<rparr>))
                     | Up \<Rightarrow>
                         (case index of
                            None \<Rightarrow> None
                          | Some n \<Rightarrow>
                              if n = 0 then None
                              else Some \<lparr>mt_list = l, mt_parent = itemParent row,
                                     mt_after = (if n \<ge> 2 then Some (itemId (sibs ! (n - 2))) else None)\<rparr>)
                     | Down \<Rightarrow>
                         (case index of
                            None \<Rightarrow> None
                          | Some n \<Rightarrow>
                              if n + 1 \<ge> length sibs then None
                              else Some \<lparr>mt_list = l, mt_parent = itemParent row,
                                     mt_after = Some (itemId (sibs ! (n + 1)))\<rparr>))))"

text \<open>
  The renumbering of \<open>placeInGroup\<close>: each id of the order, with its place. Ids are unique among the rows
  (the primary key), so the row an id stands for is the only one written.
\<close>

definition setPosition :: "ident \<Rightarrow> int \<Rightarrow> instant \<Rightarrow> itemRow list \<Rightarrow> itemRow list" where
  "setPosition k pos now is = map (\<lambda>i. if itemId i = k then i\<lparr>itemPos := pos, itemUpdatedAt := now\<rparr> else i) is"

fun renumber :: "itemRow list \<Rightarrow> instant \<Rightarrow> int \<Rightarrow> ident list \<Rightarrow> itemRow list \<times> ident list" where
  "renumber is now pos [] = (is, [])"
| "renumber is now pos (k # ks) =
     (case byId is k of
        None \<Rightarrow> renumber is now (pos + 1) ks
      | Some r \<Rightarrow>
          if itemPos r = pos then renumber is now (pos + 1) ks
          else (case renumber (setPosition k pos now is) now (pos + 1) ks of (is', ch) \<Rightarrow> (is', k # ch)))"

text \<open>\<open>findIndex(...) + 1 || rest.length\<close>: a row that is not found goes last.\<close>

definition placedOrder :: "itemRow list \<Rightarrow> ident \<Rightarrow> ident option \<Rightarrow> ident list \<Rightarrow> ident option \<Rightarrow> ident list" where
  "placedOrder is l p ids after =
     (let rest = filter (\<lambda>s. itemId s \<notin> set ids) (siblingsOf is l p);
          cut = (case after of
                   None \<Rightarrow> 0
                 | Some a \<Rightarrow> (case findIndex (\<lambda>s. itemId s = a) rest of None \<Rightarrow> length rest | Some n \<Rightarrow> n + 1))
      in map itemId (take cut rest) @ ids @ map itemId (drop cut rest))"

definition placeInGroup :: "itemRow list \<Rightarrow> ident \<Rightarrow> ident option \<Rightarrow> ident list \<Rightarrow> ident option \<Rightarrow> instant
    \<Rightarrow> itemRow list \<times> ident list" where
  "placeInGroup is l p ids after now = renumber is now 0 (placedOrder is l p ids after)"

subsection \<open>What placing does\<close>

fun placed :: "instant \<Rightarrow> int \<Rightarrow> ident list \<Rightarrow> itemRow \<Rightarrow> itemRow" where
  "placed now pos [] i = i"
| "placed now pos (k # ks) i =
     (if itemId i = k then (if itemPos i = pos then i else i\<lparr>itemPos := pos, itemUpdatedAt := now\<rparr>)
      else placed now (pos + 1) ks i)"

lemma placed_fields [simp]:
  "itemId (placed now pos ks i) = itemId i" "itemList (placed now pos ks i) = itemList i"
  "itemParent (placed now pos ks i) = itemParent i" "isLive (placed now pos ks i) = isLive i"
  by (induction now pos ks i rule: placed.induct) (auto simp: isLive_def)

lemma placed_pos: "distinct ks \<Longrightarrow> n < length ks \<Longrightarrow> itemId i = ks ! n \<Longrightarrow> itemPos (placed now pos ks i) = pos + int n"
proof (induction ks arbitrary: pos n)
  case Nil
  then show ?case by simp
next
  case (Cons k ks)
  then show ?case by (cases n) auto
qed

lemma placed_other: "itemId i \<notin> set ks \<Longrightarrow> placed now pos ks i = i"
  by (induction ks arbitrary: pos) auto

lemma renumber_placed:
  "distinct (map itemId is) \<Longrightarrow> distinct ks \<Longrightarrow> fst (renumber is now pos ks) = map (placed now pos ks) is"
proof (induction "is" now pos ks rule: renumber.induct)
  case (1 "is" now pos)
  then show ?case by simp
next
  case (2 "is" now pos k ks)
  have rest: "map f is = map g is" if "\<And>i. i \<in> set is \<Longrightarrow> f i = g i" for f g :: "itemRow \<Rightarrow> itemRow"
    using that by simp
  show ?case
  proof (cases "byId is k")
    case None
    then have "itemId i \<noteq> k" if "i \<in> set is" for i using byId_distinct [OF "2.prems"(1) that] by auto
    then show ?thesis using "2.IH"(1) [OF None] "2.prems" None by auto
  next
    case (Some r)
    have r: "itemPos i = itemPos r" if "i \<in> set is" "itemId i = k" for i
      using byId_distinct [OF "2.prems"(1) that(1)] that(2) Some by simp
    show ?thesis
    proof (cases "itemPos r = pos")
      case True
      have "placed now (pos + 1) ks i = placed now pos (k # ks) i" if "i \<in> set is" for i
        using r [OF that] True "2.prems"(2) placed_other [of i ks] by auto
      then show ?thesis using "2.IH"(2) [OF Some True] "2.prems" Some True by simp
    next
      case False
      have d: "distinct (map itemId (setPosition k pos now is))"
        using "2.prems"(1) by (simp add: setPosition_def comp_def if_distrib [of itemId] cong: if_cong)
      have "map (placed now (pos + 1) ks) (setPosition k pos now is) = map (placed now pos (k # ks)) is"
        unfolding setPosition_def map_map
        by (rule rest) (use r False "2.prems"(2) placed_other in auto)
      then show ?thesis using "2.IH"(3) [OF Some False d] "2.prems"(2) Some False by (simp add: case_prod_unfold)
    qed
  qed
qed

lemma siblingsOf_ids: "itemId ` set (siblingsOf is l p) = itemId ` {i \<in> set is. isLive i \<and> itemList i = Some l \<and> itemParent i = p}"
  by (simp add: siblingsOf_def)

lemma distinct_siblings:
  assumes "distinct (map itemId is)"
  shows "distinct (map itemId (siblingsOf is l p))"
proof -
  have "distinct (map itemId (filter (\<lambda>i. isLive i \<and> itemList i = Some l \<and> itemParent i = p) is))"
    using assms by (rule distinct_map_filter)
  then show ?thesis unfolding siblingsOf_def distinct_map by simp
qed

lemma itemOrder_by_pos: "itemPos a < itemPos b \<Longrightarrow> itemOrder a \<le> itemOrder b"
  by (simp add: itemOrder_def less_eq_prod_simp)

lemma sort_numbered:
  assumes "set ys = set xs" "distinct (map itemId xs)" "distinct (map itemId ys)"
    and pos: "map itemPos ys = map int [0..<length ys]"
  shows "sort_key itemOrder xs = ys"
proof (rule sort_key_inj_key_eq)
  show "mset xs = mset ys"
    using assms(1-3) by (simp add: distinct_map set_eq_iff_mset_eq_distinct)
  show "inj_on itemOrder (set xs)"
    using assms(2) by (auto simp: distinct_map inj_on_def itemOrder_def)
  have "itemPos (ys ! n) = int n" if "n < length ys" for n
    using arg_cong [OF pos, of "\<lambda>l. l ! n"] that by simp
  then show "sorted (map itemOrder ys)"
    by (auto simp: sorted_iff_nth_mono_less intro!: itemOrder_by_pos)
qed

lemma siblings_placed:
  assumes "distinct (map itemId is)" "distinct ks" "set ks = itemId ` set (siblingsOf is l p)"
  shows "map itemId (siblingsOf (map (placed now 0 ks) is) l p) = ks
    \<and> map itemPos (siblingsOf (map (placed now 0 ks) is) l p) = map int [0..<length ks]"
proof -
  let ?f = "placed now 0 ks"
  define grp where "grp = filter (\<lambda>i. isLive i \<and> itemList i = Some l \<and> itemParent i = p) is"
  have f: "siblingsOf (map ?f is) l p = sort_key itemOrder (map ?f grp)"
    by (simp add: siblingsOf_def filter_map comp_def grp_def)
  have dg: "distinct (map itemId grp)" unfolding grp_def using assms(1) by (rule distinct_map_filter)
  have ids: "set ks = itemId ` set grp" using assms(3) by (simp add: siblingsOf_def grp_def)
  define row where "row k = the (find (\<lambda>i. itemId i = k) grp)" for k
  have row: "row (itemId i) = i" if i: "i \<in> set grp" for i
  proof -
    obtain j where "find (\<lambda>j. itemId j = itemId i) grp = Some j"
      using i by (cases "find (\<lambda>j. itemId j = itemId i) grp") (auto simp: find_None_iff)
    moreover then have "j \<in> set grp" "itemId j = itemId i" by (auto simp: find_Some_iff)
    ultimately show ?thesis using dg i by (auto simp: row_def distinct_map dest: inj_onD)
  qed
  have rowId: "itemId (row k) = k" if "k \<in> set ks" for k using that row ids by auto
  let ?out = "map (\<lambda>k. ?f (row k)) ks"
  have outIds: "map itemId ?out = ks" by (simp add: rowId comp_def map_idI)
  have outPos: "map itemPos ?out = map int [0..<length ks]"
    by (rule nth_equalityI) (simp_all add: placed_pos [OF assms(2)] rowId)
  have "set ?out = ?f ` set grp" using row by (auto simp: ids image_image)
  then have "sort_key itemOrder (map ?f grp) = ?out"
    using dg assms(2) outPos outIds by (intro sort_numbered) (simp_all add: comp_def)
  then show ?thesis using outIds outPos by (simp only: f)
qed

lemma placedOrder_perm:
  assumes "distinct (map itemId is)" "distinct ids" "set ids \<subseteq> itemId ` set (siblingsOf is l p)"
  shows "distinct (placedOrder is l p ids after)" "set (placedOrder is l p ids after) = itemId ` set (siblingsOf is l p)"
proof -
  define rest where "rest = filter (\<lambda>s. itemId s \<notin> set ids) (siblingsOf is l p)"
  obtain cut where o: "placedOrder is l p ids after = map itemId (take cut rest) @ ids @ map itemId (drop cut rest)"
    unfolding placedOrder_def Let_def rest_def by blast
  have d: "distinct (map itemId rest)" unfolding rest_def
    by (rule distinct_map_filter [OF distinct_siblings [OF assms(1)]])
  have m: "mset (placedOrder is l p ids after) = mset (map itemId rest) + mset ids"
    using arg_cong [OF append_take_drop_id [of cut rest], of "\<lambda>xs. mset (map itemId xs)"]
    unfolding o map_append mset_append by (simp only: ac_simps)
  have disj: "itemId ` set rest \<inter> set ids = {}" by (auto simp: rest_def)
  show "distinct (placedOrder is l p ids after)"
    using d assms(2) disj mset_eq_imp_distinct_iff [of "placedOrder is l p ids after" "map itemId rest @ ids"] m by auto
  have "set (placedOrder is l p ids after) = itemId ` set rest \<union> set ids"
    using m by (metis list.set_map mset_append set_append set_mset_mset)
  then show "set (placedOrder is l p ids after) = itemId ` set (siblingsOf is l p)"
    using assms(3) by (auto simp: rest_def)
qed

lemma placeInGroup_placed:
  assumes "distinct (map itemId is)" "distinct ids" "set ids \<subseteq> itemId ` set (siblingsOf is l p)"
  shows "fst (placeInGroup is l p ids after now) = map (placed now 0 (placedOrder is l p ids after)) is"
  unfolding placeInGroup_def by (rule renumber_placed [OF assms(1) placedOrder_perm(1) [OF assms]])

lemma placeInGroup_ids:
  assumes "distinct (map itemId is)" "distinct ids" "set ids \<subseteq> itemId ` set (siblingsOf is l p)"
  shows "map itemId (siblingsOf (fst (placeInGroup is l p ids after now)) l p) = placedOrder is l p ids after"
    and "map itemPos (siblingsOf (fst (placeInGroup is l p ids after now)) l p) = map int [0..<length (placedOrder is l p ids after)]"
  using siblings_placed [OF assms(1) placedOrder_perm [OF assms], of now after]
  by (simp_all add: placeInGroup_placed [OF assms])

lemma findIndex_map: "findIndex P (map f xs) = findIndex (P \<circ> f) xs"
  by (induction xs) simp_all

lemma findIndex_at: "x \<notin> set xs \<Longrightarrow> findIndex (\<lambda>k. k = x) (xs @ x # ys) = Some (length xs)"
  by (induction xs) auto

lemma placedOrder_ids:
  "placedOrder is l p ids after =
     (let rest = filter (\<lambda>k. k \<notin> set ids) (map itemId (siblingsOf is l p));
          cut = (case after of
                   None \<Rightarrow> 0
                 | Some a \<Rightarrow> (case findIndex (\<lambda>k. k = a) rest of None \<Rightarrow> length rest | Some n \<Rightarrow> n + 1))
      in take cut rest @ ids @ drop cut rest)"
  by (simp add: placedOrder_def Let_def filter_map findIndex_map comp_def take_map drop_map split: option.split)

lemma findIndex_none: "x \<notin> set xs \<Longrightarrow> findIndex (\<lambda>k. k = x) xs = None"
  by (induction xs) auto

text \<open>
  C34. Placing rows in a group of siblings. The siblings are then, in order: the others as they were, with the
  placed rows in their own order first (placed after nobody), right after the sibling named, or last (when
  the row named is not one of the others). They are numbered \<open>0\<close> to \<open>n - 1\<close>, and the rows outside
  the group are untouched.
\<close>

theorem placeInGroup_orders:
  assumes "distinct (map itemId is)" "distinct ids" "set ids \<subseteq> itemId ` set (siblingsOf is l p)"
  shows "let others = filter (\<lambda>k. k \<notin> set ids) (map itemId (siblingsOf is l p));
             group = siblingsOf (fst (placeInGroup is l p ids after now)) l p
    in (case after of
           None \<Rightarrow> map itemId group = ids @ others
         | Some a \<Rightarrow> if a \<in> set others then \<exists>xs ys. others = xs @ [a] @ ys \<and> map itemId group = xs @ [a] @ ids @ ys
                    else map itemId group = others @ ids)
    \<and> map itemPos group = map int [0..<length (siblingsOf is l p)]
    \<and> (\<forall>n < length is. itemId (is ! n) \<notin> itemId ` set (siblingsOf is l p)
         \<longrightarrow> fst (placeInGroup is l p ids after now) ! n = is ! n)"
proof -
  define others where "others = filter (\<lambda>k. k \<notin> set ids) (map itemId (siblingsOf is l p))"
  define group where "group = siblingsOf (fst (placeInGroup is l p ids after now)) l p"
  note o = placedOrder_perm [OF assms(1-3), of after]
  have len: "length (placedOrder is l p ids after) = length (siblingsOf is l p)"
    using o distinct_siblings [OF assms(1), of l p] by (metis distinct_card length_map list.set_map)
  have ord: "map itemId group = placedOrder is l p ids after" and pos: "map itemPos group = map int [0..<length (siblingsOf is l p)]"
    unfolding group_def using placeInGroup_ids [OF assms(1-3), of after now] len by simp_all
  have d: "distinct others" unfolding others_def by (intro distinct_filter distinct_siblings [OF assms(1)])
  have "case after of
           None \<Rightarrow> map itemId group = ids @ others
         | Some a \<Rightarrow> if a \<in> set others then \<exists>xs ys. others = xs @ [a] @ ys \<and> map itemId group = xs @ [a] @ ids @ ys
                    else map itemId group = others @ ids"
  proof (cases after)
    case None
    then show ?thesis by (simp add: ord placedOrder_ids others_def)
  next
    case (Some a)
    show ?thesis
    proof (cases "a \<in> set others")
      case True
      then obtain xs ys where xy: "others = xs @ a # ys" by (meson split_list)
      then have "findIndex (\<lambda>k. k = a) others = Some (length xs)" using d findIndex_at [of a xs ys] by simp
      then have "map itemId group = xs @ [a] @ ids @ ys"
        unfolding ord placedOrder_ids Let_def others_def [symmetric] using xy by (simp add: Some)
      then show ?thesis using True xy by (auto simp: Some)
    next
      case False
      then show ?thesis unfolding ord placedOrder_ids Let_def others_def [symmetric] by (simp add: Some findIndex_none)
    qed
  qed
  then show ?thesis using pos unfolding Let_def others_def [symmetric] group_def [symmetric]
    by (simp add: placeInGroup_placed [OF assms(1-3)] placed_other o(2))
qed

theorem placeInGroup_orders_witness:
  "map itemId (siblingsOf (fst (placeInGroup treeItems ''L1'' (Some ''a'') [''b''] (Some ''c'') 9)) ''L1'' (Some ''a'')) = [''c'', ''b'']"
proof -
  have d: "distinct (map itemId treeItems)" by (simp add: treeItems_def sample_rows)
  have s: "map itemId (siblingsOf treeItems ''L1'' (Some ''a'')) = [''b'', ''c'']" by code_simp
  then have m: "set [''b''] \<subseteq> itemId ` set (siblingsOf treeItems ''L1'' (Some ''a''))"
    by (metis list.set_map list.set_intros(1) empty_set empty_subsetI insert_subset list.simps(15))
  show ?thesis using placeInGroup_orders [OF d _ m, of "Some ''c''" 9] unfolding s by (auto simp: Cons_eq_append_conv Let_def)
qed

subsection \<open>Move up and down\<close>

lemma find_sibling:
  assumes "distinct (map itemId is)" "k \<in> itemId ` set (siblingsOf is l p)"
  obtains row where "find (\<lambda>i. itemId i = k \<and> isLive i) is = Some row" "itemList row = Some l" "itemParent row = p"
    "itemId row = k"
proof -
  obtain j where j: "j \<in> set is" "isLive j" "itemList j = Some l" "itemParent j = p" "itemId j = k"
    using assms(2) unfolding siblingsOf_ids by auto
  then obtain row where row: "find (\<lambda>i. itemId i = k \<and> isLive i) is = Some row"
    by (cases "find (\<lambda>i. itemId i = k \<and> isLive i) is") (auto simp: find_None_iff)
  then have "row \<in> set is" "itemId row = k" by (auto simp: find_Some_iff)
  then have "row = j" using assms(1) j by (auto simp: distinct_map dest: inj_onD)
  then show ?thesis using that row j by simp
qed

definition beforeLast :: "ident list \<Rightarrow> ident option" where
  "beforeLast xs = (if xs = [] then None else Some (last xs))"

lemma planMove_up_down:
  assumes "distinct (map itemId is)" "l \<noteq> []" "map itemId (siblingsOf is l p) = xs @ [a, b] @ ys"
  shows "planMove is b Up = Some \<lparr>mt_list = l, mt_parent = p, mt_after = beforeLast xs\<rparr>"
    and "planMove is a Down = Some \<lparr>mt_list = l, mt_parent = p, mt_after = Some b\<rparr>"
    and "xs = [] \<Longrightarrow> planMove is a Up = None" and "ys = [] \<Longrightarrow> planMove is b Down = None"
proof -
  let ?s = "siblingsOf is l p"
  have d: "distinct (xs @ [a, b] @ ys)" using distinct_siblings [OF assms(1), of l p] assms(3) by simp
  have mem: "itemId ` set ?s = set (xs @ [a, b] @ ys)" using assms(3) by (metis list.set_map)
  have len: "length ?s = length xs + 2 + length ys" using arg_cong [OF assms(3), of length] by simp
  have nth: "itemId (?s ! n) = (xs @ [a, b] @ ys) ! n" if "n < length ?s" for n
    using that assms(3) by (metis nth_map)
  obtain ra where ra: "find (\<lambda>i. itemId i = a \<and> isLive i) is = Some ra" "itemList ra = Some l" "itemParent ra = p" "itemId ra = a"
    by (rule find_sibling [OF assms(1), of a l p]) (use mem in auto)
  obtain rb where rb: "find (\<lambda>i. itemId i = b \<and> isLive i) is = Some rb" "itemList rb = Some l" "itemParent rb = p" "itemId rb = b"
    by (rule find_sibling [OF assms(1), of b l p]) (use mem in auto)
  have ia: "findIndex (\<lambda>s. itemId s = a) ?s = Some (length xs)"
    using findIndex_at [of a xs "b # ys"] d findIndex_map [of "\<lambda>k. k = a" itemId ?s] by (simp add: assms(3) comp_def)
  have ib: "findIndex (\<lambda>s. itemId s = b) ?s = Some (Suc (length xs))"
    using findIndex_at [of b "xs @ [a]" ys] d findIndex_map [of "\<lambda>k. k = b" itemId ?s] by (auto simp: assms(3) comp_def)
  have after: "itemId (?s ! (length xs - 1)) = last xs" if "xs \<noteq> []"
    using that nth [of "length xs - 1"] len by (simp add: nth_append last_conv_nth)
  show "planMove is b Up = Some \<lparr>mt_list = l, mt_parent = p, mt_after = beforeLast xs\<rparr>"
    using assms(2) after by (auto simp: planMove_def rb ib Let_def beforeLast_def Suc_le_eq)
  show "planMove is a Down = Some \<lparr>mt_list = l, mt_parent = p, mt_after = Some b\<rparr>"
    using assms(2) nth [of "Suc (length xs)"] by (simp add: planMove_def ra ia Let_def len nth_append)
  show "xs = [] \<Longrightarrow> planMove is a Up = None" using assms(2) by (simp add: planMove_def ra ia Let_def)
  show "ys = [] \<Longrightarrow> planMove is b Down = None" using assms(2) by (simp add: planMove_def rb ib Let_def len)
qed

lemma placedOrder_neighbours:
  assumes "distinct (xs @ [a, b] @ ys)" "map itemId (siblingsOf is l p) = xs @ [a, b] @ ys"
  shows "placedOrder is l p [b] (beforeLast xs) = xs @ [b, a] @ ys" "placedOrder is l p [a] (Some b) = xs @ [b, a] @ ys"
proof -
  have f: "filter (\<lambda>k. k \<noteq> c) zs = zs" if "c \<notin> set zs" for c :: ident and zs using that by (induction zs) auto
  have rest: "filter (\<lambda>k. k \<notin> set [b]) (xs @ [a, b] @ ys) = xs @ a # ys" "filter (\<lambda>k. k \<notin> set [a]) (xs @ [a, b] @ ys) = xs @ b # ys"
    using assms(1) f by auto
  have pb: "placedOrder is l p [b] after = (let cut = (case after of None \<Rightarrow> 0 | Some c \<Rightarrow>
        (case findIndex (\<lambda>k. k = c) (xs @ a # ys) of None \<Rightarrow> length (xs @ a # ys) | Some n \<Rightarrow> n + 1))
      in take cut (xs @ a # ys) @ [b] @ drop cut (xs @ a # ys))" for after
    by (simp only: placedOrder_ids assms(2) rest Let_def)
  show "placedOrder is l p [b] (beforeLast xs) = xs @ [b, a] @ ys"
  proof (cases xs rule: rev_cases)
    case Nil
    then show ?thesis by (simp add: pb beforeLast_def)
  next
    case (snoc zs z)
    have "findIndex (\<lambda>k. k = z) (zs @ z # a # ys) = Some (length zs)"
      by (rule findIndex_at) (use assms(1) snoc in auto)
    then show ?thesis using snoc by (simp add: pb beforeLast_def)
  qed
  show "placedOrder is l p [a] (Some b) = xs @ [b, a] @ ys"
    using findIndex_at [of b xs ys] assms(1) by (simp only: placedOrder_ids assms(2) rest Let_def) simp
qed

text \<open>
  C35. Move up and Move down exchange an item with its neighbour: planned by \<open>planMove\<close> and carried out by
  \<open>placeInGroup\<close>, both turn the siblings \<open>xs, a, b, ys\<close> into \<open>xs, b, a, ys\<close>; the first sibling cannot
  move up and the last cannot move down.
\<close>

theorem move_up_down_swaps:
  assumes "distinct (map itemId is)" "l \<noteq> []" "map itemId (siblingsOf is l p) = xs @ [a, b] @ ys"
  shows "(\<exists>t. planMove is b Up = Some t \<and> mt_list t = l \<and> mt_parent t = p
      \<and> map itemId (siblingsOf (fst (placeInGroup is l p [b] (mt_after t) now)) l p) = xs @ [b, a] @ ys)
    \<and> (\<exists>t. planMove is a Down = Some t \<and> mt_list t = l \<and> mt_parent t = p
      \<and> map itemId (siblingsOf (fst (placeInGroup is l p [a] (mt_after t) now)) l p) = xs @ [b, a] @ ys)
    \<and> (xs = [] \<longrightarrow> planMove is a Up = None) \<and> (ys = [] \<longrightarrow> planMove is b Down = None)"
proof -
  have d: "distinct (xs @ [a, b] @ ys)" using distinct_siblings [OF assms(1), of l p] assms(3) by simp
  have mem: "itemId ` set (siblingsOf is l p) = set (xs @ [a, b] @ ys)" using assms(3) by (metis list.set_map)
  have "map itemId (siblingsOf (fst (placeInGroup is l p [b] (beforeLast xs) now)) l p) = xs @ [b, a] @ ys"
    using placeInGroup_ids(1) [OF assms(1), of "[b]" l p] placedOrder_neighbours(1) [OF d assms(3)] mem by simp
  moreover have "map itemId (siblingsOf (fst (placeInGroup is l p [a] (Some b) now)) l p) = xs @ [b, a] @ ys"
    using placeInGroup_ids(1) [OF assms(1), of "[a]" l p] placedOrder_neighbours(2) [OF d assms(3)] mem by simp
  ultimately show ?thesis using planMove_up_down [OF assms] by simp
qed

theorem move_up_down_swaps_witness:
  "planMove treeItems ''b'' Up = None \<and>
   (\<exists>t. planMove treeItems ''c'' Up = Some t \<and>
      map itemId (siblingsOf (fst (placeInGroup treeItems ''L1'' (Some ''a'') [''c''] (mt_after t) 9)) ''L1'' (Some ''a'')) = [''c'', ''b''])"
proof -
  have d: "distinct (map itemId treeItems)" by (simp add: treeItems_def sample_rows)
  have "map itemId (siblingsOf treeItems ''L1'' (Some ''a'')) = [] @ [''b'', ''c''] @ []" by code_simp
  from move_up_down_swaps [OF d _ this, of 9] show ?thesis by auto
qed

end
