(* ===== verification/ChecklistStore.thy ===== *)
theory ChecklistStore
  imports ChecklistRules
begin

text \<open>
  \<open>modules/tasks/checklist-store.ts\<close> and \<open>prisma-checklist-store.ts\<close>: where a task's checklists are kept.
  A change runs on a copy of the task's rows; what it did is found by comparing the copies (\<open>diffRows\<close>)
  and written to the tables, in memory row by row and in the database by grouped writes.
\<close>

section \<open>Outcomes of a call\<close>

text \<open>
  The errors of \<open>checklist-service.ts\<close>, one constructor for each place that throws (the wording of some
  messages uses typographic quotes and is left out), with the class and code each is sent as.
\<close>

datatype checklistError =
    TaskNotFound | ItemNotFound | ListNotFound | NoLongerRestorable
  | EmptyText string | TextTooLong string | NoItems | NotAssignable | OtherChecklist | CantMoveThatWay | NotSameLevel
  | SubItemsOpen nat | SubItemsAllDone
  | CircularMove
  | TooManyItems | TooManyLists | TooManyLevels
  | InternalError  \<comment> \<open>a TypeError: something the code takes for present is not\<close>

fun errorCode :: "checklistError \<Rightarrow> string \<times> nat" where
  "errorCode (SubItemsOpen n) = (''CHECKLIST_PARENT'', 400)"
| "errorCode SubItemsAllDone = (''CHECKLIST_PARENT'', 400)"
| "errorCode CircularMove = (''CHECKLIST_CIRCULAR'', 400)"
| "errorCode TooManyItems = (''CHECKLIST_LIMIT'', 400)"
| "errorCode TooManyLists = (''CHECKLIST_LIMIT'', 400)"
| "errorCode TooManyLevels = (''CHECKLIST_LIMIT'', 400)"
| "errorCode InternalError = (''INTERNAL'', 500)"
| "errorCode TaskNotFound = (''NOT_FOUND'', 404)"
| "errorCode ItemNotFound = (''NOT_FOUND'', 404)"
| "errorCode ListNotFound = (''NOT_FOUND'', 404)"
| "errorCode NoLongerRestorable = (''NOT_FOUND'', 404)"
| "errorCode e = (''VALIDATION'', 400)"

text \<open>A call returns, throws, or (a \<open>while\<close> loop that does not end) never returns.\<close>

datatype 'a outcome = Ok 'a | Thrown checklistError | Endless

fun thenDo :: "'a outcome \<Rightarrow> ('a \<Rightarrow> 'b outcome) \<Rightarrow> 'b outcome" where
  "thenDo (Ok a) f = f a"
| "thenDo (Thrown e) f = Thrown e"
| "thenDo Endless f = Endless"

lemma thenDo_Ok [simp]: "thenDo r f = Ok b \<longleftrightarrow> (\<exists>a. r = Ok a \<and> f a = Ok b)"
  by (cases r) auto

lemma thenDo_Endless: "thenDo r f = Endless \<longleftrightarrow> r = Endless \<or> (\<exists>a. r = Ok a \<and> f a = Endless)"
  by (cases r) auto

fun require :: "bool \<Rightarrow> checklistError \<Rightarrow> unit outcome" where
  "require ok e = (if ok then Ok () else Thrown e)"

section \<open>The rows and the tables\<close>

text \<open>
  The rows of one task, as a change holds them; \<open>cr_fresh\<close> counts the row ids drawn (the ids themselves
  are a parameter of the operations: \<open>newRowId\<close> makes them of the time, a counter and random bytes).
\<close>

record checklistRows =
  cr_lists :: "listRow list"
  cr_items :: "itemRow list"
  cr_fresh :: nat

record checklistDb =
  cdb_lists :: "listRow list"
  cdb_items :: "itemRow list"
  cdb_fresh :: nat
  cdb_liveTasks :: "ident list"  \<comment> \<open>tasks that are not deleted or merged, in a project that is not deleted\<close>

section \<open>What changed between two copies\<close>

text \<open>The values of the columns; two are \<open>same\<close> when they are equal (dates by their time).\<close>

datatype fieldValue = NullV | StrV string | IntV int | BoolV bool | DateV instant

fun optStr :: "string option \<Rightarrow> fieldValue" where
  "optStr None = NullV"
| "optStr (Some s) = StrV s"

fun optDate :: "instant option \<Rightarrow> fieldValue" where
  "optDate None = NullV"
| "optDate (Some t) = DateV t"

fun strOf :: "fieldValue \<Rightarrow> string" where "strOf (StrV s) = s" | "strOf v = []"
fun intOf :: "fieldValue \<Rightarrow> int" where "intOf (IntV n) = n" | "intOf v = 0"
fun boolOf :: "fieldValue \<Rightarrow> bool" where "boolOf (BoolV b) = b" | "boolOf v = False"
fun dateOf :: "fieldValue \<Rightarrow> instant" where "dateOf (DateV t) = t" | "dateOf v = 0"
fun strOptOf :: "fieldValue \<Rightarrow> string option" where "strOptOf (StrV s) = Some s" | "strOptOf v = None"
fun dateOptOf :: "fieldValue \<Rightarrow> instant option" where "dateOptOf (DateV t) = Some t" | "dateOptOf v = None"

datatype listField = LTask | LTitle | LPosition | LCreatedBy | LCreatedAt | LUpdatedAt | LDeletedAt | LDeletedBy | LBatch

datatype itemField = ITask | IList | IParent | IText | IDone | IPosition | ICreatedAt | IUpdatedAt | IAssignee | IDue
  | ICompletedAt | ICompletedBy | IDeletedAt | IDeletedBy | IBatch

definition FIELDS_LIST :: "listField list" where
  "FIELDS_LIST = [LTask, LTitle, LPosition, LCreatedBy, LCreatedAt, LUpdatedAt, LDeletedAt, LDeletedBy, LBatch]"

definition FIELDS_ITEM :: "itemField list" where
  "FIELDS_ITEM = [ITask, IList, IParent, IText, IDone, IPosition, ICreatedAt, IUpdatedAt, IAssignee, IDue,
     ICompletedAt, ICompletedBy, IDeletedAt, IDeletedBy, IBatch]"

fun getList :: "listField \<Rightarrow> listRow \<Rightarrow> fieldValue" where
  "getList LTask r = StrV (listTask r)"
| "getList LTitle r = StrV (listTitle r)"
| "getList LPosition r = IntV (listPos r)"
| "getList LCreatedBy r = optStr (listCreatedBy r)"
| "getList LCreatedAt r = DateV (listCreatedAt r)"
| "getList LUpdatedAt r = DateV (listUpdatedAt r)"
| "getList LDeletedAt r = optDate (listDeletedAt r)"
| "getList LDeletedBy r = optStr (listDeletedBy r)"
| "getList LBatch r = optStr (listBatch r)"

fun putList :: "listField \<Rightarrow> fieldValue \<Rightarrow> listRow \<Rightarrow> listRow" where
  "putList LTask v r = r\<lparr>listTask := strOf v\<rparr>"
| "putList LTitle v r = r\<lparr>listTitle := strOf v\<rparr>"
| "putList LPosition v r = r\<lparr>listPos := intOf v\<rparr>"
| "putList LCreatedBy v r = r\<lparr>listCreatedBy := strOptOf v\<rparr>"
| "putList LCreatedAt v r = r\<lparr>listCreatedAt := dateOf v\<rparr>"
| "putList LUpdatedAt v r = r\<lparr>listUpdatedAt := dateOf v\<rparr>"
| "putList LDeletedAt v r = r\<lparr>listDeletedAt := dateOptOf v\<rparr>"
| "putList LDeletedBy v r = r\<lparr>listDeletedBy := strOptOf v\<rparr>"
| "putList LBatch v r = r\<lparr>listBatch := strOptOf v\<rparr>"

fun getItemField :: "itemField \<Rightarrow> itemRow \<Rightarrow> fieldValue" where
  "getItemField ITask r = StrV (itemTask r)"
| "getItemField IList r = optStr (itemList r)"
| "getItemField IParent r = optStr (itemParent r)"
| "getItemField IText r = StrV (itemText r)"
| "getItemField IDone r = BoolV (itemDone r)"
| "getItemField IPosition r = IntV (itemPos r)"
| "getItemField ICreatedAt r = DateV (itemCreatedAt r)"
| "getItemField IUpdatedAt r = DateV (itemUpdatedAt r)"
| "getItemField IAssignee r = optStr (itemAssignee r)"
| "getItemField IDue r = optDate (itemDue r)"
| "getItemField ICompletedAt r = optDate (itemCompletedAt r)"
| "getItemField ICompletedBy r = optStr (itemCompletedBy r)"
| "getItemField IDeletedAt r = optDate (itemDeletedAt r)"
| "getItemField IDeletedBy r = optStr (itemDeletedBy r)"
| "getItemField IBatch r = optStr (itemBatch r)"

fun putItemField :: "itemField \<Rightarrow> fieldValue \<Rightarrow> itemRow \<Rightarrow> itemRow" where
  "putItemField ITask v r = r\<lparr>itemTask := strOf v\<rparr>"
| "putItemField IList v r = r\<lparr>itemList := strOptOf v\<rparr>"
| "putItemField IParent v r = r\<lparr>itemParent := strOptOf v\<rparr>"
| "putItemField IText v r = r\<lparr>itemText := strOf v\<rparr>"
| "putItemField IDone v r = r\<lparr>itemDone := boolOf v\<rparr>"
| "putItemField IPosition v r = r\<lparr>itemPos := intOf v\<rparr>"
| "putItemField ICreatedAt v r = r\<lparr>itemCreatedAt := dateOf v\<rparr>"
| "putItemField IUpdatedAt v r = r\<lparr>itemUpdatedAt := dateOf v\<rparr>"
| "putItemField IAssignee v r = r\<lparr>itemAssignee := strOptOf v\<rparr>"
| "putItemField IDue v r = r\<lparr>itemDue := dateOptOf v\<rparr>"
| "putItemField ICompletedAt v r = r\<lparr>itemCompletedAt := dateOptOf v\<rparr>"
| "putItemField ICompletedBy v r = r\<lparr>itemCompletedBy := strOptOf v\<rparr>"
| "putItemField IDeletedAt v r = r\<lparr>itemDeletedAt := dateOptOf v\<rparr>"
| "putItemField IDeletedBy v r = r\<lparr>itemDeletedBy := strOptOf v\<rparr>"
| "putItemField IBatch v r = r\<lparr>itemBatch := strOptOf v\<rparr>"

type_synonym ('f) fieldData = "('f \<times> fieldValue) list"

text \<open>\<open>pick\<close>: the rows to add, and per row the fields to change; \<open>changedFields\<close> is its inner loop.\<close>

definition changedFields :: "('f \<Rightarrow> 'r \<Rightarrow> fieldValue) \<Rightarrow> 'f list \<Rightarrow> 'r \<Rightarrow> 'r \<Rightarrow> 'f fieldData" where
  "changedFields get cols old r = map (\<lambda>f. (f, get f r)) (filter (\<lambda>f. get f r \<noteq> get f old) cols)"

fun pick :: "('r \<Rightarrow> ident) \<Rightarrow> ('f \<Rightarrow> 'r \<Rightarrow> fieldValue) \<Rightarrow> 'f list \<Rightarrow> (ident \<rightharpoonup> 'r) \<Rightarrow> 'r list
    \<Rightarrow> 'r list \<times> (ident \<times> 'f fieldData) list" where
  "pick idOf get cols old [] = ([], [])"
| "pick idOf get cols old (r # rows) =
     (case pick idOf get cols old rows of
        (added, changed) \<Rightarrow>
          (case old (idOf r) of
             None \<Rightarrow> (r # added, changed)
           | Some before \<Rightarrow>
               (let data = changedFields get cols before r
                in (added, if data = [] then changed else (idOf r, data) # changed))))"

definition byIdOf :: "('r \<Rightarrow> ident) \<Rightarrow> 'r list \<Rightarrow> ident \<rightharpoonup> 'r" where
  "byIdOf idOf rows = map_of (rev (map (\<lambda>r. (idOf r, r)) rows))"

definition diffLists :: "listRow list \<Rightarrow> listRow list \<Rightarrow> listRow list \<times> (ident \<times> listField fieldData) list" where
  "diffLists before after = pick listId getList FIELDS_LIST (byIdOf listId before) after"

definition diffItems :: "itemRow list \<Rightarrow> itemRow list \<Rightarrow> itemRow list \<times> (ident \<times> itemField fieldData) list" where
  "diffItems before after = pick itemId getItemField FIELDS_ITEM (byIdOf itemId before) after"

text \<open>\<open>Object.assign(row, data)\<close>.\<close>

definition assignData :: "('f \<Rightarrow> fieldValue \<Rightarrow> 'r \<Rightarrow> 'r) \<Rightarrow> 'f fieldData \<Rightarrow> 'r \<Rightarrow> 'r" where
  "assignData put data r = fold (\<lambda>(f, v) r. put f v r) data r"

section \<open>The store in memory\<close>

definition taskRows :: "checklistDb \<Rightarrow> ident \<Rightarrow> checklistRows" where
  "taskRows db t = \<lparr>cr_lists = filter (\<lambda>l. listTask l = t) (cdb_lists db),
     cr_items = filter (\<lambda>i. itemTask i = t) (cdb_items db), cr_fresh = cdb_fresh db\<rparr>"

definition memRead :: "checklistDb \<Rightarrow> ident \<Rightarrow> checklistRows option" where
  "memRead db t = (if t \<in> set (cdb_liveTasks db) then Some (taskRows db t) else None)"

text \<open>\<open>Object.assign(rows.find((r) => r.id === c.id)!, c.data)\<close>: the first row of the id.\<close>

fun assignFirst :: "('r \<Rightarrow> ident) \<Rightarrow> ('f \<Rightarrow> fieldValue \<Rightarrow> 'r \<Rightarrow> 'r) \<Rightarrow> ident \<Rightarrow> 'f fieldData \<Rightarrow> 'r list \<Rightarrow> 'r list" where
  "assignFirst idOf put k data [] = []"
| "assignFirst idOf put k data (r # rs) =
     (if idOf r = k then assignData put data r # rs else r # assignFirst idOf put k data rs)"

definition memSaveLists :: "listRow list \<Rightarrow> listRow list \<Rightarrow> listRow list \<Rightarrow> listRow list" where
  "memSaveLists table before after =
     (case diffLists before after of
        (added, changed) \<Rightarrow> fold (\<lambda>(k, data) rs. assignFirst listId putList k data rs) changed (table @ added))"

definition memSaveItems :: "itemRow list \<Rightarrow> itemRow list \<Rightarrow> itemRow list \<Rightarrow> itemRow list" where
  "memSaveItems table before after =
     (case diffItems before after of
        (added, changed) \<Rightarrow> fold (\<lambda>(k, data) rs. assignFirst itemId putItemField k data rs) changed (table @ added))"

text \<open>\<open>edit\<close>: nothing (\<open>null\<close>) when the task is gone; a throw saves nothing.\<close>

type_synonym 'a change = "checklistRows \<Rightarrow> ('a \<times> checklistRows) outcome"

definition memEdit :: "checklistDb \<Rightarrow> ident \<Rightarrow> 'a change \<Rightarrow> ('a option \<times> checklistDb) outcome" where
  "memEdit db t change =
     (if t \<notin> set (cdb_liveTasks db) then Ok (None, db)
      else (let mine = taskRows db t in
            thenDo (change mine) (\<lambda>(v, draft).
              Ok (Some v, db\<lparr>cdb_lists := memSaveLists (cdb_lists db) (cr_lists mine) (cr_lists draft),
                             cdb_items := memSaveItems (cdb_items db) (cr_items mine) (cr_items draft),
                             cdb_fresh := cr_fresh draft\<rparr>))))"

definition memTaskOfItem :: "checklistDb \<Rightarrow> ident \<Rightarrow> ident option" where
  "memTaskOfItem db k =
     (case find (\<lambda>i. itemId i = k \<and> isLive i) (cdb_items db) of
        None \<Rightarrow> None
      | Some i \<Rightarrow> if itemTask i \<in> set (cdb_liveTasks db) then Some (itemTask i) else None)"

definition memTaskOfList :: "checklistDb \<Rightarrow> ident \<Rightarrow> ident option" where
  "memTaskOfList db k =
     (case find (\<lambda>l. listId l = k \<and> isLiveList l) (cdb_lists db) of
        None \<Rightarrow> None
      | Some l \<Rightarrow> if listTask l \<in> set (cdb_liveTasks db) then Some (listTask l) else None)"

definition keepItem :: "instant \<Rightarrow> itemRow \<Rightarrow> bool" where
  "keepItem before i = (case itemDeletedAt i of None \<Rightarrow> True | Some d \<Rightarrow> \<not> d < before)"

definition keepList :: "instant \<Rightarrow> listRow \<Rightarrow> bool" where
  "keepList before l = (case listDeletedAt l of None \<Rightarrow> True | Some d \<Rightarrow> \<not> d < before)"

definition memPurgeRows :: "checklistDb \<Rightarrow> instant \<Rightarrow> nat \<times> checklistDb" where
  "memPurgeRows db before =
     (let n = length (cdb_items db) + length (cdb_lists db);
          gone = map listId (filter (\<lambda>l. \<not> keepList before l) (cdb_lists db));
          unlinked = map (\<lambda>i. if keepItem before i \<and> (case itemList i of None \<Rightarrow> False | Some l \<Rightarrow> l \<noteq> [] \<and> l \<in> set gone)
                              then i\<lparr>itemList := None\<rparr> else i) (cdb_items db);
          db' = db\<lparr>cdb_items := filter (keepItem before) unlinked, cdb_lists := filter (keepList before) (cdb_lists db)\<rparr>
      in (n - length (cdb_items db') - length (cdb_lists db'), db'))"

section \<open>The store in the database\<close>

definition prismaRead :: "checklistDb \<Rightarrow> ident \<Rightarrow> checklistRows option" where
  "prismaRead db t = (if t \<in> set (cdb_liveTasks db) then Some (taskRows db t) else None)"

text \<open>
  \<open>grouped\<close>: the rows with the same change, in the order the changes first come. The key is the change
  written as JSON; each field has one type, so two changes have the same key exactly when they are equal.
\<close>

fun addToGroup :: "('f fieldData \<times> ident list) list \<Rightarrow> ident \<times> 'f fieldData \<Rightarrow> ('f fieldData \<times> ident list) list" where
  "addToGroup [] (k, data) = [(data, [k])]"
| "addToGroup ((d, ks) # gs) (k, data) = (if d = data then (d, ks @ [k]) # gs else (d, ks) # addToGroup gs (k, data))"

definition grouped :: "(ident \<times> 'f fieldData) list \<Rightarrow> ('f fieldData \<times> ident list) list" where
  "grouped changes = foldl addToGroup [] changes"

text \<open>\<open>updateMany({ where: { id: { in: ids } }, data })\<close>.\<close>

definition updateMany :: "('r \<Rightarrow> ident) \<Rightarrow> ('f \<Rightarrow> fieldValue \<Rightarrow> 'r \<Rightarrow> 'r) \<Rightarrow> ident list \<Rightarrow> 'f fieldData \<Rightarrow> 'r list \<Rightarrow> 'r list" where
  "updateMany idOf put ids data table = map (\<lambda>r. if idOf r \<in> set ids then assignData put data r else r) table"

definition prismaSaveLists :: "listRow list \<Rightarrow> listRow list \<Rightarrow> listRow list \<Rightarrow> listRow list" where
  "prismaSaveLists table before after =
     (case diffLists before after of
        (added, changed) \<Rightarrow> fold (\<lambda>(data, ids) rs. updateMany listId putList ids data rs) (grouped changed) (table @ added))"

definition prismaSaveItems :: "itemRow list \<Rightarrow> itemRow list \<Rightarrow> itemRow list \<Rightarrow> itemRow list" where
  "prismaSaveItems table before after =
     (case diffItems before after of
        (added, changed) \<Rightarrow> fold (\<lambda>(data, ids) rs. updateMany itemId putItemField ids data rs) (grouped changed) (table @ added))"

text \<open>The transaction holds the task's row (\<open>LOCK_TASK_SQL\<close>) from before the rows are read until they are saved.\<close>

definition prismaEdit :: "checklistDb \<Rightarrow> ident \<Rightarrow> 'a change \<Rightarrow> ('a option \<times> checklistDb) outcome" where
  "prismaEdit db t change =
     (if t \<notin> set (cdb_liveTasks db) then Ok (None, db)
      else (let before = taskRows db t in
            thenDo (change before) (\<lambda>(v, draft).
              Ok (Some v, db\<lparr>cdb_lists := prismaSaveLists (cdb_lists db) (cr_lists before) (cr_lists draft),
                             cdb_items := prismaSaveItems (cdb_items db) (cr_items before) (cr_items draft),
                             cdb_fresh := cr_fresh draft\<rparr>))))"

definition prismaTaskOfItem :: "checklistDb \<Rightarrow> ident \<Rightarrow> ident option" where
  "prismaTaskOfItem db k =
     map_option itemTask (find (\<lambda>i. itemId i = k \<and> isLive i \<and> itemTask i \<in> set (cdb_liveTasks db)) (cdb_items db))"

definition prismaTaskOfList :: "checklistDb \<Rightarrow> ident \<Rightarrow> ident option" where
  "prismaTaskOfList db k =
     map_option listTask (find (\<lambda>l. listId l = k \<and> isLiveList l \<and> listTask l \<in> set (cdb_liveTasks db)) (cdb_lists db))"

text \<open>The links to old checklists go 500 checklists at a time.\<close>

function unlinkOld :: "ident list \<Rightarrow> itemRow list \<Rightarrow> itemRow list" where
  "unlinkOld old is =
     (if old = [] then is
      else unlinkOld (drop 500 old)
             (map (\<lambda>i. case itemList i of None \<Rightarrow> i | Some l \<Rightarrow> if l \<in> set (take 500 old) then i\<lparr>itemList := None\<rparr> else i) is))"
  by pat_completeness auto
termination unlinkOld by (relation "measure (\<lambda>(old, is). length old)") auto

declare unlinkOld.simps [simp del]

definition prismaPurge :: "checklistDb \<Rightarrow> instant \<Rightarrow> nat \<times> checklistDb" where
  "prismaPurge db before =
     (let kept = filter (keepItem before) (cdb_items db);
          gone = length (cdb_items db) - length kept;
          old = map listId (filter (\<lambda>l. \<not> keepList before l) (cdb_lists db))
      in if old = [] then (gone, db\<lparr>cdb_items := kept\<rparr>)
         else (let lists = filter (\<lambda>l. \<not> (listId l \<in> set old \<and> \<not> keepList before l)) (cdb_lists db)
               in (gone + (length (cdb_lists db) - length lists),
                   db\<lparr>cdb_items := unlinkOld old kept, cdb_lists := lists\<rparr>)))"

text \<open>\<open>checklistPercentOf\<close>: a task's checklist progress from its live items.\<close>

definition checklistPercentOf :: "checklistDb \<Rightarrow> ident \<Rightarrow> int" where
  "checklistPercentOf db t = leafPercent (filter (\<lambda>i. itemTask i = t \<and> isLive i) (cdb_items db))"

section \<open>The columns of a row\<close>

definition saved :: "('r \<Rightarrow> ident) \<Rightarrow> ('f \<Rightarrow> fieldValue \<Rightarrow> 'r \<Rightarrow> 'r) \<Rightarrow> (ident \<times> 'f fieldData) list \<Rightarrow> 'r \<Rightarrow> 'r" where
  "saved idOf put changed r = (case map_of changed (idOf r) of None \<Rightarrow> r | Some data \<Rightarrow> assignData put data r)"

definition ungrouped :: "('f fieldData \<times> ident list) list \<Rightarrow> (ident \<times> 'f fieldData) list" where
  "ungrouped gs = concat (map (\<lambda>(data, ks). map (\<lambda>k. (k, data)) ks) gs)"

lemma ungrouped_add: "mset (ungrouped (addToGroup gs c)) = mset (ungrouped gs) + {#c#}"
  by (induction gs c rule: addToGroup.induct) (auto simp: ungrouped_def)

lemma ungrouped_grouped: "mset (ungrouped (grouped changes)) = mset changes"
proof -
  have "mset (ungrouped (foldl addToGroup gs changes)) = mset (ungrouped gs) + mset changes" for gs :: "('a fieldData \<times> ident list) list"
    by (induction changes arbitrary: gs) (auto simp: ungrouped_add)
  then show ?thesis by (simp add: grouped_def ungrouped_def)
qed

lemma map_of_mset: "mset xs = mset ys \<Longrightarrow> distinct (map fst xs) \<Longrightarrow> map_of xs = map_of ys"
  by (metis (no_types) distinct_map_filter map_of_eqI mset_map set_mset_mset set_map mset_eq_imp_distinct_iff map_of_inject_set)

text \<open>
  What \<open>diffRows\<close> relies on: the columns and the id make up the whole row, writing a column writes that
  column only, and writing the value another row has there gives that value.
\<close>

locale columns =
  fixes idOf :: "'r \<Rightarrow> ident" and get :: "'f \<Rightarrow> 'r \<Rightarrow> fieldValue" and put :: "'f \<Rightarrow> fieldValue \<Rightarrow> 'r \<Rightarrow> 'r" and cols :: "'f list"
  assumes put_get: "get f (put f (get f s) r) = get f s"
    and put_other: "f \<noteq> g \<Longrightarrow> get g (put f v r) = get g r"
    and put_id: "idOf (put f v r) = idOf r"
    and row_eqI: "idOf r = idOf s \<Longrightarrow> (\<And>f. f \<in> set cols \<Longrightarrow> get f r = get f s) \<Longrightarrow> r = s"
begin

lemma assign_id: "idOf (assignData put data r) = idOf r"
  unfolding assignData_def by (induction data arbitrary: r) (auto simp: put_id)

lemma assign_get:
  "get g (assignData put (map (\<lambda>f. (f, get f s)) fs) r) = (if g \<in> set fs then get g s else get g r)"
proof (induction fs arbitrary: r)
  case Nil
  then show ?case by (simp add: assignData_def)
next
  case (Cons f fs)
  have "get g (put f (get f s) r) = (if g = f then get g s else get g r)"
    using put_get [of f s r] put_other [of f g] by auto
  then show ?case using Cons [of "put f (get f s) r"] by (auto simp: assignData_def)
qed

lemma assign_changed: "idOf old = idOf r \<Longrightarrow> assignData put (changedFields get cols old r) old = r"
  by (rule row_eqI) (auto simp: assign_id changedFields_def assign_get)

lemma nothing_changed: "idOf old = idOf r \<Longrightarrow> changedFields get cols old r = [] \<Longrightarrow> old = r"
  using assign_changed [of old r] by (simp add: assignData_def)

lemma saved_id [simp]: "idOf (saved idOf put changed r) = idOf r"
  by (simp add: saved_def assign_id split: option.split)

lemma assignFirst_map:
  "distinct (map idOf rs) \<Longrightarrow> assignFirst idOf put k data rs = map (\<lambda>r. if idOf r = k then assignData put data r else r) rs"
proof (induction rs)
  case Nil
  then show ?case by simp
next
  case (Cons r rs)
  have "map (\<lambda>s. if idOf s = idOf r then assignData put data s else s) rs = rs"
    using Cons.prems by (intro map_idI) (metis distinct.simps(2) list.simps(9) image_eqI list.set_map)
  then show ?case using Cons by auto
qed

lemma fold_assignFirst:
  "distinct (map idOf rs) \<Longrightarrow> distinct (map fst changed)
    \<Longrightarrow> fold (\<lambda>(k, data) rs. assignFirst idOf put k data rs) changed rs = map (saved idOf put changed) rs"
proof (induction changed arbitrary: rs)
  case Nil
  then show ?case by (simp add: saved_def map_idI)
next
  case (Cons c changed)
  obtain k data where c: "c = (k, data)" by fastforce
  define upd where "upd = (\<lambda>r. if idOf r = k then assignData put data r else r)"
  have i: "idOf (upd r) = idOf r" for r by (simp add: upd_def assign_id)
  have s: "saved idOf put changed (upd r) = saved idOf put (c # changed) r" for r
  proof (cases "idOf r = k")
    case True
    have "map_of changed k = None" using Cons.prems(2) by (simp add: c map_of_eq_None_iff)
    then show ?thesis using True by (simp add: upd_def c saved_def assign_id)
  next
    case False
    then show ?thesis by (simp add: upd_def c saved_def)
  qed
  have "fold (\<lambda>(k, data) rs. assignFirst idOf put k data rs) changed (map upd rs) = map (saved idOf put changed) (map upd rs)"
    using Cons.prems by (intro Cons.IH) (simp_all add: i comp_def)
  then show ?case using assignFirst_map [of rs k data] Cons.prems(1) by (simp add: c s [unfolded c] comp_def upd_def [symmetric])
qed

lemma fold_updateMany:
  "distinct (map fst (ungrouped gs))
    \<Longrightarrow> fold (\<lambda>(data, ids) rs. updateMany idOf put ids data rs) gs rs = map (saved idOf put (ungrouped gs)) rs"
proof (induction gs arbitrary: rs)
  case Nil
  then show ?case by (simp add: saved_def ungrouped_def map_idI)
next
  case (Cons g gs)
  obtain data ids where g: "g = (data, ids)" by fastforce
  define upd where "upd = (\<lambda>r. if idOf r \<in> set ids then assignData put data r else r)"
  have u: "ungrouped (g # gs) = map (\<lambda>k. (k, data)) ids @ ungrouped gs" by (simp add: ungrouped_def g)
  have m: "map_of (map (\<lambda>k. (k, data)) ids) k = (if k \<in> set ids then Some data else None)" for k by (induction ids) auto
  have s: "saved idOf put (ungrouped gs) (upd r) = saved idOf put (ungrouped (g # gs)) r" for r
  proof (cases "idOf r \<in> set ids")
    case True
    have "map_of (ungrouped gs) (idOf r) = None" using Cons.prems True unfolding u by (auto simp: map_of_eq_None_iff)
    then show ?thesis using True by (simp add: upd_def saved_def assign_id u m map_add_def)
  next
    case False
    then show ?thesis by (simp add: upd_def saved_def u m map_add_def split: option.split)
  qed
  have "distinct (map fst (ungrouped gs))" using Cons.prems unfolding u by simp
  then show ?case using Cons.IH [of "map upd rs"] by (simp add: g s [unfolded g] comp_def updateMany_def upd_def [symmetric])
qed

lemma pick_ids: "set (map fst (snd (pick idOf get cols old rows))) \<subseteq> set (map idOf rows)"
proof (induction rows)
  case (Cons r rows)
  obtain added changed where p: "pick idOf get cols old rows = (added, changed)" by fastforce
  have "set (map fst changed) \<subseteq> set (map idOf rows)" using Cons p by simp
  then show ?case by (cases "old (idOf r)") (auto simp: p Let_def image_iff)
qed simp

lemma pick_distinct: "distinct (map idOf rows) \<Longrightarrow> distinct (map fst (snd (pick idOf get cols old rows)))"
proof (induction rows)
  case (Cons r rows)
  obtain added changed where p: "pick idOf get cols old rows = (added, changed)" by fastforce
  have "idOf r \<notin> fst ` set changed" using Cons.prems pick_ids [of old rows] by (auto simp: p)
  then show ?case using Cons p by (cases "old (idOf r)") (auto simp: Let_def)
qed simp

lemma pick_split:
  "set (map idOf olds) \<subseteq> dom old \<Longrightarrow> set (map idOf news) \<inter> dom old = {}
    \<Longrightarrow> pick idOf get cols old (olds @ news) = (news, snd (pick idOf get cols old olds))"
proof (induction olds)
  case Nil
  then show ?case
  proof (induction news)
    case (Cons n news)
    then have "old (idOf n) = None" by auto
    then show ?case using Cons by auto
  qed simp
next
  case (Cons r olds)
  then obtain before where "old (idOf r) = Some before" by auto
  then show ?case using Cons by (auto split: prod.splits simp: Let_def)
qed

lemma pick_saved:
  "distinct (map idOf rows) \<Longrightarrow> r \<in> set rows \<Longrightarrow> old (idOf r) = Some before \<Longrightarrow> idOf before = idOf r
    \<Longrightarrow> saved idOf put (snd (pick idOf get cols old rows)) before = r"
proof (induction rows)
  case (Cons s rows)
  show ?case
  proof (cases "r = s")
    case True
    have "idOf s \<notin> set (map fst (snd (pick idOf get cols old rows)))" using Cons.prems(1) pick_ids [of old rows] by auto
    then have "map_of (snd (pick idOf get cols old rows)) (idOf s) = None" by (simp add: map_of_eq_None_iff)
    then show ?thesis using Cons.prems True assign_changed [of before s] nothing_changed [of before s]
      by (auto simp: saved_def Let_def split: prod.split)
  next
    case False
    then have "r \<in> set rows" "idOf s \<noteq> idOf r" using Cons.prems(1,2) by auto
    then show ?thesis using Cons by (auto simp: saved_def Let_def split: prod.splits option.splits)
  qed
qed simp

text \<open>
  What both stores come to: when the draft has the task's rows in their order and then new ones, the table
  afterwards has the draft's rows for the task, and the other rows as they were.
\<close>

lemma saved_table:
  assumes table: "distinct (map idOf table)" and ids: "map idOf draft = map idOf (filter P table) @ map idOf news"
    and news: "drop (length (filter P table)) draft = news" "set (map idOf news) \<inter> set (map idOf table) = {}" "distinct (map idOf news)"
    and P: "list_all P draft"
    and pk: "pick idOf get cols (byIdOf idOf (filter P table)) draft = (added, changed)"
  shows "filter P (map (saved idOf put changed) (table @ added)) = draft"
    and "filter (\<lambda>r. \<not> P r) (map (saved idOf put changed) (table @ added)) = filter (\<lambda>r. \<not> P r) table"
    and "distinct (map fst changed)" and "distinct (map idOf (table @ added))"
proof -
  define olds where "olds = take (length (filter P table)) draft"
  have draft: "draft = olds @ news" unfolding olds_def news(1) [symmetric] by simp
  have oids: "map idOf olds = map idOf (filter P table)" using ids unfolding draft by simp
  let ?old = "byIdOf idOf (filter P table)"
  have dom: "dom ?old = set (map idOf (filter P table))"
    by (force simp: byIdOf_def dom_map_of_conv_image_fst image_image)
  have dold: "distinct (map idOf (filter P table))" by (rule distinct_map_filter [OF table])
  have old: "?old (idOf r) = Some r" if "r \<in> set (filter P table)" for r
    using dold that unfolding byIdOf_def by (intro map_of_is_SomeI) (simp_all add: rev_map [symmetric] comp_def)
  have a: "added = news" and c: "changed = snd (pick idOf get cols ?old olds)"
    using pk pick_split [of olds ?old news] news(2) unfolding draft dom oids by auto
  show dc: "distinct (map fst changed)" unfolding c by (rule pick_distinct) (use dold oids in simp)
  show "distinct (map idOf (table @ added))" using table news a by auto
  have ck: "set (map fst changed) \<subseteq> set (map idOf (filter P table))" unfolding c using pick_ids [of ?old olds] oids by simp
  have upd: "map (saved idOf put changed) (filter P table) = olds"
  proof (rule nth_equalityI)
    show "length (map (saved idOf put changed) (filter P table)) = length olds" using arg_cong [OF oids, of length] by simp
    fix n assume "n < length (map (saved idOf put changed) (filter P table))"
    then have n: "n < length (filter P table)" "n < length olds" using arg_cong [OF oids, of length] by simp_all
    have i: "idOf (olds ! n) = idOf (filter P table ! n)" using arg_cong [OF oids, of "\<lambda>l. l ! n"] n by simp
    have o: "?old (idOf (olds ! n)) = Some (filter P table ! n)" using old [OF nth_mem [OF n(1)]] i by simp
    have "saved idOf put changed (filter P table ! n) = olds ! n" unfolding c
      by (rule pick_saved [where old = ?old]) (use dold oids i o nth_mem [OF n(2)] in simp_all)
    then show "map (saved idOf put changed) (filter P table) ! n = olds ! n" using n by simp
  qed
  have same: "saved idOf put changed r = r" if "idOf r \<notin> set (map idOf (filter P table))" for r
    using that ck by (auto simp: saved_def map_of_eq_None_iff split: option.split dest!: map_of_SomeD)
  have other: "idOf r \<notin> set (map idOf (filter P table))" if "r \<in> set table" "\<not> P r" for r
    using that table by (auto simp: distinct_map dest: inj_onD)
  have PT: "P (saved idOf put changed r) \<longleftrightarrow> P r" if r: "r \<in> set table" for r
  proof (cases "P r")
    case True
    then have "saved idOf put changed r \<in> set olds" unfolding upd [symmetric] using r by simp
    then show ?thesis using True P unfolding draft list_all_iff by auto
  qed (use same other r in simp)
  have snew: "map (saved idOf put changed) news = news"
    using news(2) by (intro map_idI same) auto
  have "filter P (map (saved idOf put changed) table) = map (saved idOf put changed) (filter P table)"
    using PT by (induction table) (auto)
  moreover have "filter P news = news" using P unfolding draft list_all_iff by simp
  ultimately show "filter P (map (saved idOf put changed) (table @ added)) = draft"
    using upd snew unfolding a draft by simp
  have "filter (\<lambda>r. \<not> P r) (map (saved idOf put changed) table) = map (saved idOf put changed) (filter (\<lambda>r. \<not> P r) table)"
    using PT by (induction table) (auto)
  also have "\<dots> = filter (\<lambda>r. \<not> P r) table" by (rule map_idI) (use same other in auto)
  moreover have "filter (\<lambda>r. \<not> P r) news = []" using P unfolding draft list_all_iff by (simp add: filter_empty_conv)
  ultimately show "filter (\<lambda>r. \<not> P r) (map (saved idOf put changed) (table @ added)) = filter (\<lambda>r. \<not> P r) table"
    using snew unfolding a by simp
qed

end

interpretation listColumns: columns listId getList putList FIELDS_LIST
proof unfold_locales
  fix f g :: listField and v and r s :: listRow
  show "getList f (putList f (getList f s) r) = getList f s"
    by (cases f; cases "listCreatedBy s"; cases "listDeletedAt s"; cases "listDeletedBy s"; cases "listBatch s") simp_all
  show "f \<noteq> g \<Longrightarrow> getList g (putList f v r) = getList g r" by (cases f; cases g) simp_all
  show "listId (putList f v r) = listId r" by (cases f) simp_all
  assume "listId r = listId s" and *: "\<And>f. f \<in> set FIELDS_LIST \<Longrightarrow> getList f r = getList f s"
  have inj: "a = b" if "optStr a = optStr b" for a b using that by (cases a; cases b) simp_all
  have injd: "a = b" if "optDate a = optDate b" for a b using that by (cases a; cases b) simp_all
  have "getList f r = getList f s" for f by (rule *) (cases f; simp add: FIELDS_LIST_def)
  from this [of LTask] this [of LTitle] this [of LPosition] this [of LCreatedBy] this [of LCreatedAt]
    this [of LUpdatedAt] this [of LDeletedAt] this [of LDeletedBy] this [of LBatch]
  show "r = s" using \<open>listId r = listId s\<close> by (cases r; cases s) (auto dest: inj injd)
qed

interpretation itemColumns: columns itemId getItemField putItemField FIELDS_ITEM
proof unfold_locales
  fix f g :: itemField and v and r s :: itemRow
  have o: "optStr (strOptOf (optStr x)) = optStr x" "optDate (dateOptOf (optDate d)) = optDate d" for x d
    by (cases x; cases d; simp)+
  show "getItemField f (putItemField f (getItemField f s) r) = getItemField f s" by (cases f) (simp_all add: o)
  show "f \<noteq> g \<Longrightarrow> getItemField g (putItemField f v r) = getItemField g r" by (cases f; cases g) simp_all
  show "itemId (putItemField f v r) = itemId r" by (cases f) simp_all
  assume "itemId r = itemId s" and *: "\<And>f. f \<in> set FIELDS_ITEM \<Longrightarrow> getItemField f r = getItemField f s"
  have inj: "a = b" if "optStr a = optStr b" for a b using that by (cases a; cases b) simp_all
  have injd: "a = b" if "optDate a = optDate b" for a b using that by (cases a; cases b) simp_all
  have "getItemField f r = getItemField f s" for f by (rule *) (cases f; simp add: FIELDS_ITEM_def)
  from this [of ITask] this [of IList] this [of IParent] this [of IText] this [of IDone] this [of IPosition]
    this [of ICreatedAt] this [of IUpdatedAt] this [of IAssignee] this [of IDue] this [of ICompletedAt]
    this [of ICompletedBy] this [of IDeletedAt] this [of IDeletedBy] this [of IBatch]
  show "r = s" using \<open>itemId r = itemId s\<close> by (cases r; cases s) (auto dest: inj injd)
qed

section \<open>Saving a change\<close>

definition uniqueRowIds :: "checklistDb \<Rightarrow> bool" where
  "uniqueRowIds db \<longleftrightarrow> distinct (map listId (cdb_lists db)) \<and> distinct (map itemId (cdb_items db))"

text \<open>
  What a change may do to the rows it was given: change them where they stand, and push new ones of the
  task with ids that no row of the table has.
\<close>

definition grownFrom :: "('r \<Rightarrow> ident) \<Rightarrow> 'r list \<Rightarrow> 'r list \<Rightarrow> 'r list \<Rightarrow> bool" where
  "grownFrom idOf table before after \<longleftrightarrow>
     take (length before) (map idOf after) = map idOf before
     \<and> distinct (map idOf (drop (length before) after))
     \<and> list_all (\<lambda>r. idOf r \<notin> set (map idOf table)) (drop (length before) after)"

definition goodDraft :: "checklistDb \<Rightarrow> ident \<Rightarrow> checklistRows \<Rightarrow> bool" where
  "goodDraft db t draft \<longleftrightarrow>
     grownFrom listId (cdb_lists db) (cr_lists (taskRows db t)) (cr_lists draft)
     \<and> grownFrom itemId (cdb_items db) (cr_items (taskRows db t)) (cr_items draft)
     \<and> list_all (\<lambda>l. listTask l = t) (cr_lists draft) \<and> list_all (\<lambda>i. itemTask i = t) (cr_items draft)"

text \<open>The contract of the store, on what it keeps for each task.\<close>

definition keptRows :: "checklistDb \<Rightarrow> ident \<Rightarrow> listRow list \<times> itemRow list" where
  "keptRows db t = (filter (\<lambda>l. listTask l = t) (cdb_lists db), filter (\<lambda>i. itemTask i = t) (cdb_items db))"

lemma grownFrom_split:
  assumes "grownFrom idOf table (filter P table) draft"
  shows "map idOf draft = map idOf (filter P table) @ map idOf (drop (length (filter P table)) draft)"
    and "set (map idOf (drop (length (filter P table)) draft)) \<inter> set (map idOf table) = {}"
    and "distinct (map idOf (drop (length (filter P table)) draft))"
proof -
  have "map idOf draft = take (length (filter P table)) (map idOf draft) @ drop (length (filter P table)) (map idOf draft)" by simp
  then show "map idOf draft = map idOf (filter P table) @ map idOf (drop (length (filter P table)) draft)"
    using assms by (simp add: grownFrom_def drop_map)
  show "set (map idOf (drop (length (filter P table)) draft)) \<inter> set (map idOf table) = {}"
    and "distinct (map idOf (drop (length (filter P table)) draft))"
    using assms by (auto simp: grownFrom_def list_all_iff)
qed

lemma other_rows: "t \<noteq> u \<Longrightarrow> filter (\<lambda>r. taskOf r = u) xs = filter (\<lambda>r. taskOf r = u) (filter (\<lambda>r. \<not> taskOf r = t) xs)"
  by (induction xs) auto

context columns
begin

lemma both_save:
  assumes "distinct (map idOf table)" "grownFrom idOf table (filter P table) draft" "list_all P draft"
    and "pick idOf get cols (byIdOf idOf (filter P table)) draft = (added, changed)"
  shows "fold (\<lambda>(k, data) rs. assignFirst idOf put k data rs) changed (table @ added) = map (saved idOf put changed) (table @ added)"
    and "fold (\<lambda>(data, ids) rs. updateMany idOf put ids data rs) (grouped changed) (table @ added) = map (saved idOf put changed) (table @ added)"
proof -
  note s = saved_table [OF assms(1) grownFrom_split(1) [OF assms(2)] refl grownFrom_split(2,3) [OF assms(2)] assms(3,4)]
  show "fold (\<lambda>(k, data) rs. assignFirst idOf put k data rs) changed (table @ added) = map (saved idOf put changed) (table @ added)"
    by (rule fold_assignFirst [OF s(4,3)])
  have m: "mset (ungrouped (grouped changed)) = mset changed" by (rule ungrouped_grouped)
  then have d: "distinct (map fst (ungrouped (grouped changed)))"
    using s(3) by (metis mset_eq_imp_distinct_iff mset_map)
  have "map_of (ungrouped (grouped changed)) = map_of changed" by (rule map_of_mset [OF m d])
  then show "fold (\<lambda>(data, ids) rs. updateMany idOf put ids data rs) (grouped changed) (table @ added) = map (saved idOf put changed) (table @ added)"
    by (simp add: fold_updateMany [OF d] saved_def)
qed

lemma saved_distinct: "distinct (map idOf table) \<Longrightarrow> distinct (map idOf (map (saved idOf put changed) table))"
  by (simp add: comp_def)

end

lemma saveLists:
  assumes "distinct (map listId table)" "grownFrom listId table (filter (\<lambda>l. listTask l = t) table) draft" "list_all (\<lambda>l. listTask l = t) draft"
  defines "out \<equiv> memSaveLists table (filter (\<lambda>l. listTask l = t) table) draft"
  shows "prismaSaveLists table (filter (\<lambda>l. listTask l = t) table) draft = out" "distinct (map listId out)"
    "filter (\<lambda>l. listTask l = u) out = (if u = t then draft else filter (\<lambda>l. listTask l = u) table)"
proof -
  let ?P = "\<lambda>l. listTask l = t"
  obtain added changed where pk: "pick listId getList FIELDS_LIST (byIdOf listId (filter ?P table)) draft = (added, changed)" by fastforce
  note b = listColumns.both_save [OF assms(1-3) pk]
    and s = listColumns.saved_table [OF assms(1) grownFrom_split(1) [OF assms(2)] refl grownFrom_split(2,3) [OF assms(2)] assms(3) pk]
  have out: "out = map (saved listId putList changed) (table @ added)"
    by (simp add: out_def memSaveLists_def diffLists_def pk b(1))
  show "prismaSaveLists table (filter ?P table) draft = out" by (simp add: out prismaSaveLists_def diffLists_def pk b(2))
  show "distinct (map listId out)" unfolding out by (rule listColumns.saved_distinct [OF s(4)])
  show "filter (\<lambda>l. listTask l = u) out = (if u = t then draft else filter (\<lambda>l. listTask l = u) table)"
    using s(1,2) other_rows [of t u listTask out] other_rows [of t u listTask table] by (auto simp: out)
qed

lemma saveItems:
  assumes "distinct (map itemId table)" "grownFrom itemId table (filter (\<lambda>i. itemTask i = t) table) draft" "list_all (\<lambda>i. itemTask i = t) draft"
  defines "out \<equiv> memSaveItems table (filter (\<lambda>i. itemTask i = t) table) draft"
  shows "prismaSaveItems table (filter (\<lambda>i. itemTask i = t) table) draft = out" "distinct (map itemId out)"
    "filter (\<lambda>i. itemTask i = u) out = (if u = t then draft else filter (\<lambda>i. itemTask i = u) table)"
proof -
  let ?P = "\<lambda>i. itemTask i = t"
  obtain added changed where pk: "pick itemId getItemField FIELDS_ITEM (byIdOf itemId (filter ?P table)) draft = (added, changed)" by fastforce
  note b = itemColumns.both_save [OF assms(1-3) pk]
    and s = itemColumns.saved_table [OF assms(1) grownFrom_split(1) [OF assms(2)] refl grownFrom_split(2,3) [OF assms(2)] assms(3) pk]
  have out: "out = map (saved itemId putItemField changed) (table @ added)"
    by (simp add: out_def memSaveItems_def diffItems_def pk b(1))
  show "prismaSaveItems table (filter ?P table) draft = out" by (simp add: out prismaSaveItems_def diffItems_def pk b(2))
  show "distinct (map itemId out)" unfolding out by (rule itemColumns.saved_distinct [OF s(4)])
  show "filter (\<lambda>i. itemTask i = u) out = (if u = t then draft else filter (\<lambda>i. itemTask i = u) table)"
    using s(1,2) other_rows [of t u itemTask out] other_rows [of t u itemTask table] by (auto simp: out)
qed

section \<open>The store's contract\<close>

definition stored :: "checklistDb \<Rightarrow> ident \<Rightarrow> checklistRows \<Rightarrow> checklistDb \<Rightarrow> bool" where
  "stored db t draft db' \<longleftrightarrow> uniqueRowIds db' \<and> cdb_liveTasks db' = cdb_liveTasks db \<and> cdb_fresh db' = cr_fresh draft
     \<and> keptRows db' = (keptRows db)(t := (cr_lists draft, cr_items draft))"

text \<open>
  What the checklist service relies on: a task that is gone is left alone, a throw saves nothing, and what
  a change made of the rows is what the task has afterwards, the other tasks' rows untouched.
\<close>

locale checklist_store =
  fixes readRows :: "checklistDb \<Rightarrow> ident \<Rightarrow> checklistRows option"
    and editTask :: "checklistDb \<Rightarrow> ident \<Rightarrow> 'a change \<Rightarrow> ('a option \<times> checklistDb) outcome"
  assumes reads: "readRows db t = (if t \<in> set (cdb_liveTasks db) then Some (taskRows db t) else None)"
    and edit_gone: "readRows db t = None \<Longrightarrow> editTask db t c = Ok (None, db)"
    and edit_thrown: "readRows db t = Some rows \<Longrightarrow> c rows = Thrown e \<Longrightarrow> editTask db t c = Thrown e"
    and edit_endless: "readRows db t = Some rows \<Longrightarrow> c rows = Endless \<Longrightarrow> editTask db t c = Endless"
    and edit_saves: "uniqueRowIds db \<Longrightarrow> readRows db t = Some rows \<Longrightarrow> c rows = Ok (v, draft) \<Longrightarrow> goodDraft db t draft
      \<Longrightarrow> \<exists>db'. editTask db t c = Ok (Some v, db') \<and> stored db t draft db'"
begin

lemma edit_outcome:
  assumes "uniqueRowIds db" "editTask db t c = Ok (res, db')"
    and "\<And>rows v draft. readRows db t = Some rows \<Longrightarrow> c rows = Ok (v, draft) \<Longrightarrow> goodDraft db t draft"
  shows "(t \<notin> set (cdb_liveTasks db) \<and> res = None \<and> db' = db)
    \<or> (\<exists>v draft. t \<in> set (cdb_liveTasks db) \<and> c (taskRows db t) = Ok (v, draft) \<and> res = Some v \<and> stored db t draft db')"
proof (cases "t \<in> set (cdb_liveTasks db)")
  case True
  then have r: "readRows db t = Some (taskRows db t)" by (simp add: reads)
  show ?thesis
  proof (cases "c (taskRows db t)")
    case (Ok x)
    then obtain v draft where c: "c (taskRows db t) = Ok (v, draft)" by (cases x) simp
    obtain db1 where "editTask db t c = Ok (Some v, db1)" "stored db t draft db1"
      using edit_saves [where c = c, OF assms(1) r c assms(3) [OF r c]] by blast
    then show ?thesis using assms(2) True c by auto
  qed (use edit_thrown [OF r, of c] edit_endless [OF r, of c] assms(2) in auto)
qed (use edit_gone [of db t c] assms(2) reads in auto)

lemma edit_then_read:
  assumes "uniqueRowIds db" "editTask db t c = Ok (Some v, db')"
    and "\<And>rows v draft. readRows db t = Some rows \<Longrightarrow> c rows = Ok (v, draft) \<Longrightarrow> goodDraft db t draft"
  shows "\<exists>rows draft. readRows db t = Some rows \<and> c rows = Ok (v, draft) \<and> readRows db' t = Some draft
    \<and> (u \<noteq> t \<longrightarrow> map_option cr_items (readRows db' u) = map_option cr_items (readRows db u))"
proof -
  obtain draft where t: "t \<in> set (cdb_liveTasks db)" and c: "c (taskRows db t) = Ok (v, draft)" and s: "stored db t draft db'"
    using edit_outcome [OF assms(1,2)] assms(3) by blast
  have k: "keptRows db' x = ((keptRows db)(t := (cr_lists draft, cr_items draft))) x" for x using s by (simp add: stored_def)
  have "taskRows db' t = draft" using k [of t] s by (simp add: taskRows_def keptRows_def stored_def)
  moreover have "cr_items (taskRows db' u) = cr_items (taskRows db u)" if "u \<noteq> t"
    using k [of u] that by (simp add: taskRows_def keptRows_def)
  ultimately show ?thesis using t c s by (auto simp: reads stored_def)
qed

end

lemma mem_stored:
  assumes "uniqueRowIds db" "goodDraft db t draft"
  defines "mine \<equiv> taskRows db t"
  shows "stored db t draft (db\<lparr>cdb_lists := memSaveLists (cdb_lists db) (cr_lists mine) (cr_lists draft),
      cdb_items := memSaveItems (cdb_items db) (cr_items mine) (cr_items draft), cdb_fresh := cr_fresh draft\<rparr>)"
  using assms saveLists(2,3) [of "cdb_lists db" t "cr_lists draft"] saveItems(2,3) [of "cdb_items db" t "cr_items draft"]
  by (auto simp: stored_def uniqueRowIds_def goodDraft_def taskRows_def keptRows_def fun_eq_iff)

lemma prisma_saves_alike:
  assumes "uniqueRowIds db" "goodDraft db t draft"
  defines "mine \<equiv> taskRows db t"
  shows "prismaSaveLists (cdb_lists db) (cr_lists mine) (cr_lists draft) = memSaveLists (cdb_lists db) (cr_lists mine) (cr_lists draft)"
    and "prismaSaveItems (cdb_items db) (cr_items mine) (cr_items draft) = memSaveItems (cdb_items db) (cr_items mine) (cr_items draft)"
  using assms saveLists(1) [of "cdb_lists db" t "cr_lists draft"] saveItems(1) [of "cdb_items db" t "cr_items draft"]
  by (simp_all add: uniqueRowIds_def goodDraft_def taskRows_def)

interpretation memStore: checklist_store memRead memEdit
proof unfold_locales
  fix db t and rows draft :: checklistRows and c :: "'a change" and v
  show "memRead db t = (if t \<in> set (cdb_liveTasks db) then Some (taskRows db t) else None)" by (simp add: memRead_def)
  assume *: "uniqueRowIds db" "memRead db t = Some rows" "c rows = Ok (v, draft)" "goodDraft db t draft"
  show "\<exists>db'. memEdit db t c = Ok (Some v, db') \<and> stored db t draft db'"
    using * mem_stored [OF *(1,4)] by (auto simp: memEdit_def memRead_def Let_def split: if_splits)
qed (auto simp: memEdit_def memRead_def Let_def split: if_splits)

interpretation prismaStore: checklist_store prismaRead prismaEdit
proof unfold_locales
  fix db t and rows draft :: checklistRows and c :: "'a change" and v
  show "prismaRead db t = (if t \<in> set (cdb_liveTasks db) then Some (taskRows db t) else None)" by (simp add: prismaRead_def)
  assume *: "uniqueRowIds db" "prismaRead db t = Some rows" "c rows = Ok (v, draft)" "goodDraft db t draft"
  show "\<exists>db'. prismaEdit db t c = Ok (Some v, db') \<and> stored db t draft db'"
    using * mem_stored [OF *(1,4)] prisma_saves_alike [OF *(1,4)]
    by (auto simp: prismaEdit_def prismaRead_def Let_def split: if_splits)
qed (auto simp: prismaEdit_def prismaRead_def Let_def split: if_splits)

section \<open>Properties\<close>

text \<open>
  C10. Both stores implement "the change's rows replace the task's rows": comparing the copies and writing
  only what differs, row by row in memory and by grouped writes in the database, gives the same tables;
  the task then reads back as exactly the rows the change left, every other task's rows are what they were,
  and ids stay unique -- for every change that keeps the rows' order and gives new rows unused ids.
\<close>

theorem checklist_edit_replaces_rows:
  assumes "uniqueRowIds db" "t \<in> set (cdb_liveTasks db)" "change (taskRows db t) = Ok (v, draft)" "goodDraft db t draft"
  shows "\<exists>db'. memEdit db t change = Ok (Some v, db') \<and> prismaEdit db t change = Ok (Some v, db')
    \<and> uniqueRowIds db' \<and> memRead db' t = Some draft \<and> prismaRead db' t = Some draft
    \<and> keptRows db' = (keptRows db)(t := (cr_lists draft, cr_items draft))"
proof -
  have r: "memRead db t = Some (taskRows db t)" using assms(2) by (simp add: memRead_def)
  obtain db' where m: "memEdit db t change = Ok (Some v, db')" "stored db t draft db'"
    using memStore.edit_saves [where c = change, OF assms(1) r assms(3,4)] by blast
  have p: "prismaEdit db t change = Ok (Some v, db')"
    using m(1) assms prisma_saves_alike [OF assms(1,4)] by (simp add: memEdit_def prismaEdit_def Let_def)
  have "keptRows db' t = (cr_lists draft, cr_items draft)" using m(2) by (simp add: stored_def)
  then have "taskRows db' t = draft" using m(2) by (simp add: taskRows_def keptRows_def stored_def)
  then show ?thesis using m p assms(2) by (auto simp: stored_def memRead_def prismaRead_def)
qed

definition sampleDb :: checklistDb where
  "sampleDb = \<lparr>cdb_lists = [sampleList ''L1'' 0, (sampleList ''M'' 0)\<lparr>listTask := ''u''\<rparr>],
     cdb_items = [sampleItem ''a'' (Some ''L1'') None False 0, (sampleItem ''z'' (Some ''M'') None False 0)\<lparr>itemTask := ''u''\<rparr>,
       sampleItem ''b'' (Some ''L1'') None False 1], cdb_fresh = 0, cdb_liveTasks = [''t'', ''u'']\<rparr>"

text \<open>A change that ticks both items of the task and adds one.\<close>

definition sampleDraft :: "checklistRows \<Rightarrow> checklistRows" where
  "sampleDraft r = r\<lparr>cr_items := map (\<lambda>i. i\<lparr>itemDone := True, itemUpdatedAt := 5\<rparr>) (cr_items r) @ [sampleItem ''n'' (Some ''L1'') None False 2]\<rparr>"

definition sampleChange :: "nat change" where
  "sampleChange r = Ok (7, sampleDraft r)"

lemma sampleDraft_good: "goodDraft sampleDb ''t'' (sampleDraft (taskRows sampleDb ''t''))"
  by (simp add: goodDraft_def grownFrom_def taskRows_def sampleDb_def sampleDraft_def sample_rows)

lemma sampleDraft_ids:
  "map itemId (cr_items (sampleDraft (taskRows sampleDb ''t''))) = [''a'', ''b'', ''n'']"
  "map itemId (snd (keptRows sampleDb ''u'')) = [''z'']"
  by (simp_all add: sampleDraft_def taskRows_def keptRows_def sampleDb_def sample_rows)

lemma sampleDb_ok: "uniqueRowIds sampleDb" "''t'' \<in> set (cdb_liveTasks sampleDb)"
  by (simp_all add: uniqueRowIds_def sampleDb_def sample_rows)

theorem checklist_edit_replaces_rows_witness:
  "\<exists>db'. memEdit sampleDb ''t'' sampleChange = Ok (Some 7, db') \<and> prismaEdit sampleDb ''t'' sampleChange = Ok (Some 7, db')
    \<and> map itemId (snd (keptRows db' ''t'')) = [''a'', ''b'', ''n''] \<and> map itemId (snd (keptRows db' ''u'')) = [''z'']"
proof -
  obtain db' where *: "memEdit sampleDb ''t'' sampleChange = Ok (Some 7, db')" "prismaEdit sampleDb ''t'' sampleChange = Ok (Some 7, db')"
      and k: "keptRows db' = (keptRows sampleDb)(''t'' := (cr_lists (sampleDraft (taskRows sampleDb ''t'')), cr_items (sampleDraft (taskRows sampleDb ''t''))))"
    using checklist_edit_replaces_rows [where change = sampleChange, OF sampleDb_ok sampleChange_def sampleDraft_good] by (elim exE conjE) (rule that)
  have "map itemId (snd (keptRows db' ''t'')) = [''a'', ''b'', ''n'']" by (simp only: k fun_upd_same snd_conv sampleDraft_ids)
  moreover have "map itemId (snd (keptRows db' ''u'')) = [''z'']" by (simp add: k sampleDraft_ids)
  ultimately show ?thesis using * by (intro exI conjI)
qed

end
