(* ===== verification/JsText.thy ===== *)
theory JsText
  imports Prelude
begin

text \<open>
  JavaScript strings over Latin-1: white space, \<open>trim\<close>, \<open>toLowerCase\<close>, the searches and slices the
  components use, and the digits of \<open>/\d/\<close>. Characters above Latin-1 are not represented.
\<close>

definition isSpace :: "char \<Rightarrow> bool" where
  "isSpace c \<longleftrightarrow> (let n = (of_char c :: nat) in (9 \<le> n \<and> n \<le> 13) \<or> n = 32 \<or> n = 160)"

definition trimStart :: "string \<Rightarrow> string" where
  "trimStart s = dropWhile isSpace s"

definition trim :: "string \<Rightarrow> string" where
  "trim s = rev (trimStart (rev (trimStart s)))"

definition noSpaces :: "string \<Rightarrow> string" where
  "noSpaces s = filter (\<lambda>c. \<not> isSpace c) s"

definition lowerChar :: "char \<Rightarrow> char" where
  "lowerChar c =
     (let n = (of_char c :: nat)
      in if (65 \<le> n \<and> n \<le> 90) \<or> (192 \<le> n \<and> n \<le> 222 \<and> n \<noteq> 215) then char_of (n + 32) else c)"

definition toLowerCase :: "string \<Rightarrow> string" where
  "toLowerCase s = map lowerChar s"

definition isDigit :: "char \<Rightarrow> bool" where
  "isDigit c \<longleftrightarrow> (let n = (of_char c :: nat) in 48 \<le> n \<and> n \<le> 57)"

definition isHexLower :: "char \<Rightarrow> bool" where
  "isHexLower c \<longleftrightarrow> (let n = (of_char c :: nat) in (48 \<le> n \<and> n \<le> 57) \<or> (97 \<le> n \<and> n \<le> 102))"

text \<open>\<open>lastIndexOf\<close> of a character, -1 when there is none.\<close>

fun lastIndexFrom :: "nat \<Rightarrow> int \<Rightarrow> char \<Rightarrow> string \<Rightarrow> int" where
  "lastIndexFrom n best c [] = best"
| "lastIndexFrom n best c (x # xs) = lastIndexFrom (n + 1) (if x = c then int n else best) c xs"

definition lastIndexOf :: "char \<Rightarrow> string \<Rightarrow> int" where
  "lastIndexOf c s = lastIndexFrom 0 (-1) c s"

text \<open>A whole number as a template string writes it.\<close>

fun decimal :: "nat \<Rightarrow> string" where
  "decimal n = (let d = char_of (48 + n mod 10) in if n < 10 then [d] else decimal (n div 10) @ [d])"

declare decimal.simps [simp del]

definition showInt :: "int \<Rightarrow> string" where
  "showInt i = (if i < 0 then CHR ''-'' # decimal (nat (- i)) else decimal (nat i))"

text \<open>Different numbers are written differently, and with digits and a sign only.\<close>

definition digitsValue :: "string \<Rightarrow> nat" where
  "digitsValue = foldl (\<lambda>v c. 10 * v + (of_char c - 48)) 0"

lemma decimal_digit: "(of_char (char_of (48 + n mod 10 :: nat) :: char) :: nat) = 48 + n mod 10"
proof -
  have "48 + n mod 10 < 256" using mod_less_divisor[of 10 n] by linarith
  then show ?thesis by simp
qed

lemma digitsValue_decimal: "digitsValue (decimal n) = n"
proof (induction n rule: decimal.induct)
  case (1 n)
  show ?case
  proof (cases "n < 10")
    case True
    then show ?thesis by (simp add: decimal.simps[of n] Let_def digitsValue_def decimal_digit)
  next
    case False
    then have "digitsValue (decimal (n div 10)) = n div 10" using 1 by simp
    then show ?thesis using False by (simp add: decimal.simps[of n] Let_def digitsValue_def decimal_digit)
  qed
qed

lemma decimal_digits: "c \<in> set (decimal n) \<Longrightarrow> (48 :: nat) \<le> of_char c \<and> of_char c < (58 :: nat)"
proof (induction n rule: decimal.induct)
  case (1 n)
  have last: "(48 :: nat) \<le> of_char (char_of (48 + n mod 10 :: nat) :: char) \<and> of_char (char_of (48 + n mod 10 :: nat) :: char) < (58 :: nat)"
    unfolding decimal_digit using mod_less_divisor[of 10 n] by linarith
  show ?case using 1 last by (auto simp: decimal.simps[of n] Let_def split: if_splits)
qed

lemma decimal_marks: "CHR ''-'' \<notin> set (decimal n)" "CHR '':'' \<notin> set (decimal n)"
  using decimal_digits[of "CHR ''-''" n] decimal_digits[of "CHR '':''" n] by auto

lemma showInt_inject: "showInt i = showInt j \<longleftrightarrow> i = j"
proof
  assume e: "showInt i = showInt j"
  have d: "decimal m = decimal n \<Longrightarrow> m = n" for m n by (metis digitsValue_decimal)
  have m: "CHR ''-'' # xs \<noteq> decimal n" for xs n using decimal_marks(1)[of n] by (metis list.set_intros(1))
  show "i = j" using e d[of "nat (- i)" "nat (- j)"] d[of "nat i" "nat j"] m m[symmetric] by (auto simp: showInt_def split: if_splits)
qed simp

lemma showInt_mark: "CHR '':'' \<notin> set (showInt i)"
  using decimal_marks(2) by (simp add: showInt_def)

lemma set_trim: "set (trim s) \<subseteq> set s"
  unfolding trim_def trimStart_def by (auto dest!: set_dropWhileD)

end
