(* ===== verification/ChecklistEdits.thy ===== *)
theory ChecklistEdits
  imports ChecklistStore JsText
begin

text \<open>
  \<open>modules/tasks/checklist-service.ts\<close>, what each change does to the rows of a task while it is held: the
  home given to items in no checklist, the change itself, and the parents following their sub-items.
\<close>

section \<open>Texts and new rows\<close>

definition COPY_SUFFIX :: string where "COPY_SUFFIX = '' (copy)''"

definition withCopy :: "string \<Rightarrow> string" where
  "withCopy text =
     (if length text + length COPY_SUFFIX \<le> TEXT_MAX then text @ COPY_SUFFIX
      else take (TEXT_MAX - length COPY_SUFFIX) text @ COPY_SUFFIX)"

definition cleanText :: "string \<Rightarrow> string \<Rightarrow> string outcome" where
  "cleanText what text =
     (let t = trim text
      in if t = [] then Thrown (EmptyText what)
         else if length t > TEXT_MAX then Thrown (TextTooLong what)
         else Ok t)"

definition ITEM_TEXT :: string where "ITEM_TEXT = ''Checklist item text''"
definition LIST_TITLE :: string where "LIST_TITLE = ''A checklist title''"

definition newItemRow :: "ident \<Rightarrow> ident \<Rightarrow> ident \<Rightarrow> string \<Rightarrow> ident option \<Rightarrow> int \<Rightarrow> ident option \<Rightarrow> instant option \<Rightarrow> instant \<Rightarrow> itemRow" where
  "newItemRow rowId taskId l text parent pos assignee due now =
     \<lparr>itemId = rowId, itemTask = taskId, itemList = Some l, itemParent = parent, itemText = text, itemDone = False,
      itemPos = pos, itemCreatedAt = now, itemUpdatedAt = now, itemAssignee = assignee, itemDue = due,
      itemCompletedAt = None, itemCompletedBy = None, itemDeletedAt = None, itemDeletedBy = None, itemBatch = None\<rparr>"

definition newListRow :: "ident \<Rightarrow> ident \<Rightarrow> string \<Rightarrow> int \<Rightarrow> ident option \<Rightarrow> instant \<Rightarrow> listRow" where
  "newListRow rowId taskId title pos createdBy now =
     \<lparr>listId = rowId, listTask = taskId, listTitle = title, listPos = pos, listCreatedBy = createdBy,
      listCreatedAt = now, listUpdatedAt = now, listDeletedAt = None, listDeletedBy = None, listBatch = None\<rparr>"

text \<open>An id sent or stored counts when it is there and not empty (JavaScript's truth of a string).\<close>

fun given :: "ident option \<Rightarrow> ident option" where
  "given None = None"
| "given (Some k) = (if k = [] then None else Some k)"

lemma given_Some [simp]: "given x = Some k \<longleftrightarrow> x = Some k \<and> k \<noteq> []"
  by (cases x) auto

lemma given_None: "given x = None \<longleftrightarrow> x = None \<or> x = Some []"
  by (cases x) auto

text \<open>A list of ids turned into rows: the next ids drawn, in order.\<close>

definition drawn :: "(nat \<Rightarrow> ident) \<Rightarrow> nat \<Rightarrow> nat \<Rightarrow> ident list" where
  "drawn newId from n = map newId [from..<from + n]"

section \<open>A home for items in no checklist\<close>

definition liveListIds :: "listRow list \<Rightarrow> ident list" where
  "liveListIds ls = map listId (filter isLiveList ls)"

definition homeless :: "ident list \<Rightarrow> itemRow \<Rightarrow> bool" where
  "homeless ids i \<longleftrightarrow> isLive i \<and> (case given (itemList i) of None \<Rightarrow> True | Some l \<Rightarrow> l \<notin> set ids)"

lemma not_homeless: "\<not> homeless ids i \<Longrightarrow> isLive i \<Longrightarrow> \<exists>l \<in> set ids. itemList i = Some l"
  by (auto simp: homeless_def split: option.splits)

definition needsHome :: "checklistRows \<Rightarrow> bool" where
  "needsHome rows = list_ex (homeless (liveListIds (cr_lists rows))) (cr_items rows)"

text \<open>The first live checklist, or a new one pushed on the lists.\<close>

definition firstList :: "(nat \<Rightarrow> ident) \<Rightarrow> ident \<Rightarrow> ident option \<Rightarrow> instant \<Rightarrow> checklistRows \<Rightarrow> listRow \<times> checklistRows" where
  "firstList newId taskId actor at rows =
     (case liveLists (cr_lists rows) of
        l # _ \<Rightarrow> (l, rows)
      | [] \<Rightarrow>
          (let l = newListRow (newId (cr_fresh rows)) taskId DEFAULT_LIST_TITLE 0 actor at
           in (l, rows\<lparr>cr_lists := cr_lists rows @ [l], cr_fresh := Suc (cr_fresh rows)\<rparr>)))"

definition home :: "(nat \<Rightarrow> ident) \<Rightarrow> ident \<Rightarrow> ident option \<Rightarrow> instant \<Rightarrow> checklistRows \<Rightarrow> checklistRows" where
  "home newId taskId actor at rows =
     (if \<not> needsHome rows then rows
      else (case firstList newId taskId actor at rows of
              (l, rows') \<Rightarrow>
                (let ids = liveListIds (cr_lists rows')
                 in rows'\<lparr>cr_items := map (\<lambda>i. if homeless ids i
                      then i\<lparr>itemList := Some (listId l), itemParent := None, itemUpdatedAt := at\<rparr> else i) (cr_items rows')\<rparr>)))"

section \<open>The hold\<close>

text \<open>What \<open>edit\<close> runs with the task held: the home, the change, the parent rule.\<close>

definition heldEdit :: "(nat \<Rightarrow> ident) \<Rightarrow> ident \<Rightarrow> ident option \<Rightarrow> instant \<Rightarrow> 'a change \<Rightarrow> 'a change" where
  "heldEdit newId taskId actor at change rows =
     thenDo (change (home newId taskId actor at rows)) (\<lambda>(v, r).
       Ok (v, r\<lparr>cr_items := fst (settleParents (cr_items r) at actor)\<rparr>))"

definition liveItem :: "checklistRows \<Rightarrow> ident \<Rightarrow> itemRow outcome" where
  "liveItem rows k =
     (case find (\<lambda>r. itemId r = k \<and> isLive r) (cr_items rows) of None \<Rightarrow> Thrown ItemNotFound | Some i \<Rightarrow> Ok i)"

text \<open>\<open>liveList(rows, x!)\<close> of a missing id finds nothing.\<close>

definition liveList :: "checklistRows \<Rightarrow> ident option \<Rightarrow> listRow outcome" where
  "liveList rows k =
     (case find (\<lambda>r. Some (listId r) = k \<and> isLiveList r) (cr_lists rows) of None \<Rightarrow> Thrown ListNotFound | Some l \<Rightarrow> Ok l)"

definition roomFor :: "checklistRows \<Rightarrow> nat \<Rightarrow> unit outcome" where
  "roomFor rows adding = require (\<not> length (filter isLive (cr_items rows)) + adding > MAX_ITEMS) TooManyItems"

definition roomForList :: "checklistRows \<Rightarrow> unit outcome" where
  "roomForList rows = require (\<not> length (liveLists (cr_lists rows)) + 1 > MAX_LISTS) TooManyLists"

text \<open>\<open>orderLists\<close>: each list of the order gets its place (ids are unique, the primary key).\<close>

definition orderLists :: "ident list \<Rightarrow> instant \<Rightarrow> listRow list \<Rightarrow> listRow list" where
  "orderLists ids at ls =
     map (\<lambda>l. case findIndex (\<lambda>k. k = listId l) ids of
                None \<Rightarrow> l
              | Some n \<Rightarrow> if listPos l = int n then l else l\<lparr>listPos := int n, listUpdatedAt := at\<rparr>) ls"

text \<open>The items of \<open>arrange\<close>; it always returns when the ids of the items are distinct (C11).\<close>

definition arrangedItems :: "checklistRows \<Rightarrow> arrangedItem list" where
  "arrangedItems rows = (case arrange (cr_lists rows) (cr_items rows) of None \<Rightarrow> [] | Some a \<Rightarrow> ar_items a)"

definition arrangedLists :: "checklistRows \<Rightarrow> arrangedList list" where
  "arrangedLists rows = (case arrange (cr_lists rows) (cr_items rows) of None \<Rightarrow> [] | Some a \<Rightarrow> ar_lists a)"

section \<open>Adding items\<close>

text \<open>\<open>pl_after\<close> tells apart no \<open>afterId\<close> at all, null (first) and a sibling's id.\<close>

record checklistPlace =
  pl_list :: "ident option"
  pl_parent :: "ident option"
  pl_after :: "ident option option"

definition ANYWHERE :: checklistPlace where
  "ANYWHERE = \<lparr>pl_list = None, pl_parent = None, pl_after = None\<rparr>"

definition afterGiven :: "checklistPlace \<Rightarrow> ident option" where
  "afterGiven place = (case pl_after place of None \<Rightarrow> None | Some a \<Rightarrow> given a)"

definition placeParent :: "checklistRows \<Rightarrow> checklistPlace \<Rightarrow> itemRow option outcome" where
  "placeParent rows place =
     (case given (pl_parent place) of
        Some p \<Rightarrow> thenDo (liveItem rows p) (\<lambda>i. Ok (Some i))
      | None \<Rightarrow>
          (case afterGiven place of
             None \<Rightarrow> Ok None
           | Some a \<Rightarrow>
               thenDo (liveItem rows a) (\<lambda>after.
                 Ok (case given (itemParent after) of
                       None \<Rightarrow> None
                     | Some q \<Rightarrow> find (\<lambda>i. itemId i = q \<and> isLive i) (cr_items rows)))))"

definition placeFor :: "(nat \<Rightarrow> ident) \<Rightarrow> ident \<Rightarrow> ident option \<Rightarrow> instant \<Rightarrow> checklistPlace
    \<Rightarrow> (listRow \<times> itemRow option) change" where
  "placeFor newId taskId actor at place rows =
     thenDo (placeParent rows place) (\<lambda>parent.
     thenDo
       (case parent of
          Some p \<Rightarrow>
            thenDo (liveList rows (itemList p)) (\<lambda>l.
              (case given (pl_list place) of
                 None \<Rightarrow> Ok (l, rows)
               | Some k \<Rightarrow> if k \<noteq> listId l then Thrown OtherChecklist else Ok (l, rows)))
        | None \<Rightarrow>
            (case given (pl_list place) of
               Some k \<Rightarrow> thenDo (liveList rows (Some k)) (\<lambda>l. Ok (l, rows))
             | None \<Rightarrow>
                 (case afterGiven place of
                    Some a \<Rightarrow> thenDo (liveItem rows a) (\<lambda>after. thenDo (liveList rows (itemList after)) (\<lambda>l. Ok (l, rows)))
                  | None \<Rightarrow> Ok (firstList newId taskId actor at rows))))
       (\<lambda>(l, rows').
          (case parent of
             None \<Rightarrow> Ok ((l, None), rows')
           | Some p \<Rightarrow>
               if depthOf (cr_items rows') (Some (itemId p)) + 1 \<ge> int MAX_DEPTH then Thrown TooManyLevels
               else Ok ((l, Some p), rows'))))"

definition addChange :: "(nat \<Rightarrow> ident) \<Rightarrow> ident \<Rightarrow> ident option \<Rightarrow> instant \<Rightarrow> string list \<Rightarrow> ident option \<Rightarrow> instant option
    \<Rightarrow> checklistPlace \<Rightarrow> (ident list \<times> string \<times> string option) change" where
  "addChange newId taskId actor at texts assignee due place rows =
     thenDo (roomFor rows (length texts)) (\<lambda>_.
     thenDo (placeFor newId taskId actor at place rows) (\<lambda>((l, parent), rows').
       (let p = map_option itemId parent;
            grp = siblingsOf (cr_items rows') (listId l) p;
            ids = drawn newId (cr_fresh rows') (length texts);
            made = map2 (\<lambda>k text. newItemRow k taskId (listId l) text p 0 assignee due at) ids texts;
            afterId = (case pl_after place of
                         None \<Rightarrow> (if grp = [] then None else Some (itemId (last grp)))
                       | Some a \<Rightarrow> a)
        in Ok ((ids, listTitle l, map_option itemText parent),
               rows'\<lparr>cr_items := fst (placeInGroup (cr_items rows' @ made) (listId l) p ids afterId at),
                     cr_fresh := cr_fresh rows' + length texts\<rparr>))))"

section \<open>Changing an item\<close>

text \<open>Absent fields of the patch are left alone; a null assignee or due date clears it.\<close>

record itemPatch =
  ip_done :: "bool option"
  ip_text :: "string option"
  ip_assignee :: "ident option option"
  ip_due :: "instant option option"

definition NO_PATCH :: itemPatch where
  "NO_PATCH = \<lparr>ip_done = None, ip_text = None, ip_assignee = None, ip_due = None\<rparr>"

text \<open>\<open>toISOString().slice(0, 10)\<close>: the UTC day, as its number.\<close>

definition dayKey :: "instant option \<Rightarrow> day option" where
  "dayKey d = map_option (\<lambda>t. t div 86400000) d"

definition patchDone :: "ident option \<Rightarrow> instant \<Rightarrow> itemPatch \<Rightarrow> itemRow \<Rightarrow> itemRow" where
  "patchDone actor at patch row =
     (case ip_done patch of
        None \<Rightarrow> row
      | Some d \<Rightarrow>
          if d = itemDone row then row
          else row\<lparr>itemDone := d, itemCompletedAt := (if d then Some at else None),
                   itemCompletedBy := (if d then actor else None), itemUpdatedAt := at\<rparr>)"

definition patchText :: "instant \<Rightarrow> itemPatch \<Rightarrow> itemRow \<Rightarrow> itemRow" where
  "patchText at patch row =
     (case ip_text patch of None \<Rightarrow> row | Some t \<Rightarrow> if t = itemText row then row else row\<lparr>itemText := t, itemUpdatedAt := at\<rparr>)"

definition patchAssignee :: "instant \<Rightarrow> itemPatch \<Rightarrow> itemRow \<Rightarrow> itemRow" where
  "patchAssignee at patch row =
     (case ip_assignee patch of
        None \<Rightarrow> row
      | Some a \<Rightarrow> if a = itemAssignee row then row else row\<lparr>itemAssignee := a, itemUpdatedAt := at\<rparr>)"

definition patchDue :: "instant \<Rightarrow> itemPatch \<Rightarrow> itemRow \<Rightarrow> itemRow" where
  "patchDue at patch row =
     (case ip_due patch of
        None \<Rightarrow> row
      | Some d \<Rightarrow> if dayKey d = dayKey (itemDue row) then row else row\<lparr>itemDue := d, itemUpdatedAt := at\<rparr>)"

text \<open>The row's object changed in place: the row with its id (ids are unique).\<close>

definition updateItem :: "ident \<Rightarrow> (itemRow \<Rightarrow> itemRow) \<Rightarrow> itemRow list \<Rightarrow> itemRow list" where
  "updateItem k f is = map (\<lambda>i. if itemId i = k then f i else i) is"

text \<open>\<open>ip_text\<close> is the text already cleaned.\<close>

definition updateChange :: "ident option \<Rightarrow> instant \<Rightarrow> ident \<Rightarrow> itemPatch \<Rightarrow> arrangedItem change" where
  "updateChange actor at k patch rows =
     (case find (\<lambda>a. itemId (ai_row a) = k) (arrangedItems rows) of
        None \<Rightarrow> Thrown ItemNotFound
      | Some was \<Rightarrow>
          thenDo (liveItem rows k) (\<lambda>row.
            (case ip_done patch of
               Some d \<Rightarrow>
                 if d \<noteq> itemDone row \<and> ai_childCount was > 0
                 then Thrown (if d then SubItemsOpen (ai_subTotal was - ai_subDone was) else SubItemsAllDone)
                 else Ok (was, rows\<lparr>cr_items := updateItem k (patchDue at patch \<circ> patchAssignee at patch
                        \<circ> patchText at patch \<circ> patchDone actor at patch) (cr_items rows)\<rparr>)
             | None \<Rightarrow> Ok (was, rows\<lparr>cr_items := updateItem k (patchDue at patch \<circ> patchAssignee at patch
                        \<circ> patchText at patch) (cr_items rows)\<rparr>))))"

section \<open>Deleting an item\<close>

definition deletedRow :: "ident option \<Rightarrow> instant \<Rightarrow> ident \<Rightarrow> itemRow \<Rightarrow> itemRow" where
  "deletedRow actor at batch i =
     i\<lparr>itemDeletedAt := Some at, itemDeletedBy := actor, itemBatch := Some batch, itemUpdatedAt := at\<rparr>"

definition removeChange :: "ident option \<Rightarrow> instant \<Rightarrow> ident \<Rightarrow> ident \<Rightarrow> (nat \<times> string) change" where
  "removeChange actor at batch k rows =
     thenDo (liveItem rows k) (\<lambda>row.
       (let ids = itemId row # descendantIds (cr_items rows) (itemId row) False
        in Ok ((length ids, itemText row),
               rows\<lparr>cr_items := map (\<lambda>i. if itemId i \<in> set ids \<and> isLive i then deletedRow actor at batch i else i) (cr_items rows)\<rparr>)))"

section \<open>Copies\<close>

text \<open>
  The loop of \<open>copySubtree\<close> over the arranged items, with the map of new ids so far and the next id to
  draw; the copies it makes, the roots among them by their ids.
\<close>

fun copyLoop :: "(nat \<Rightarrow> ident) \<Rightarrow> ident list \<Rightarrow> ident list \<Rightarrow> ident \<Rightarrow> instant \<Rightarrow> (ident \<rightharpoonup> ident) \<Rightarrow> nat \<Rightarrow> arrangedItem list
    \<Rightarrow> ident list \<times> itemRow list \<times> nat" where
  "copyLoop newId wanted rootIds l at ids n [] = ([], [], n)"
| "copyLoop newId wanted rootIds l at ids n (a # rest) =
     (let i = ai_row a in
      if itemId i \<notin> set wanted then copyLoop newId wanted rootIds l at ids n rest
      else (let isRoot = (itemId i \<in> set rootIds);
                parent = (if isRoot then itemParent i else ids (case itemParent i of None \<Rightarrow> [] | Some p \<Rightarrow> p));
                copy = newItemRow (newId n) (itemTask i) l (itemText i) parent (itemPos i) (itemAssignee i) (itemDue i) at
            in case copyLoop newId wanted rootIds l at (ids(itemId i \<mapsto> itemId copy)) (Suc n) rest of
                 (roots, all, n') \<Rightarrow> (if isRoot then itemId copy # roots else roots, copy # all, n')))"

definition copySubtree :: "(nat \<Rightarrow> ident) \<Rightarrow> checklistRows \<Rightarrow> nat \<Rightarrow> ident list \<Rightarrow> ident \<Rightarrow> instant \<Rightarrow> ident list \<times> itemRow list \<times> nat" where
  "copySubtree newId rows n rootIds l at =
     (let wanted = concat (map (\<lambda>r. r # descendantIds (cr_items rows) r False) rootIds)
      in copyLoop newId wanted rootIds l at Map.empty n (arrangedItems rows))"

text \<open>\<open>roots[0]!\<close> of no root would be a TypeError; a live item is always arranged, so there is one (C11).\<close>

definition duplicateChange :: "(nat \<Rightarrow> ident) \<Rightarrow> instant \<Rightarrow> ident \<Rightarrow> (ident \<times> nat \<times> string) change" where
  "duplicateChange newId at k rows =
     thenDo (liveItem rows k) (\<lambda>row.
       (let l = (case itemList row of None \<Rightarrow> [] | Some x \<Rightarrow> x) in
        case copySubtree newId rows (cr_fresh rows) [itemId row] l at of
          (roots, all, n) \<Rightarrow>
            thenDo (roomFor rows (length all)) (\<lambda>_.
              (case roots of
                 [] \<Rightarrow> Thrown InternalError
               | root # _ \<Rightarrow>
                   (let named = updateItem root (\<lambda>i. i\<lparr>itemText := withCopy (itemText row)\<rparr>) all
                    in Ok ((root, length all, itemText row),
                           rows\<lparr>cr_items := fst (placeInGroup (cr_items rows @ named) l (itemParent row) [root] (Some (itemId row)) at),
                                cr_fresh := n\<rparr>))))))"

section \<open>Moving an item\<close>

text \<open>Indent, outdent, up and down, or a place: a checklist, a parent, after a sibling (null: first).\<close>

datatype checklistMove = ByAction moveAction | ToPlace "ident option" "ident option" "ident option"

definition moveTargetOf :: "checklistRows \<Rightarrow> ident \<Rightarrow> itemRow \<Rightarrow> checklistMove \<Rightarrow> moveTarget outcome" where
  "moveTargetOf rows k row move =
     (case move of
        ByAction action \<Rightarrow>
          (case planMove (cr_items rows) k action of None \<Rightarrow> Thrown CantMoveThatWay | Some t \<Rightarrow> Ok t)
      | ToPlace mList mParent mAfter \<Rightarrow>
          thenDo (require (\<not> wouldCycle (cr_items rows) k (given mParent)) CircularMove) (\<lambda>_.
          thenDo (case given mParent of None \<Rightarrow> Ok None | Some p \<Rightarrow> thenDo (liveItem rows p) (\<lambda>i. Ok (Some i))) (\<lambda>parent.
          (let l = (case parent of
                      Some p \<Rightarrow> itemList p
                    | None \<Rightarrow> (case mList of Some x \<Rightarrow> Some x | None \<Rightarrow> itemList row));
               into = map_option itemId parent in
           thenDo (liveList rows l) (\<lambda>_.
           thenDo (require (\<not> (parent \<noteq> None \<and> given mList \<noteq> None \<and> mList \<noteq> l)) OtherChecklist) (\<lambda>_.
           thenDo (case given mAfter of
                     None \<Rightarrow> Ok ()
                   | Some a \<Rightarrow>
                       if a = k then Ok ()
                       else thenDo (liveItem rows a) (\<lambda>after.
                              require (\<not> (itemParent after \<noteq> into \<or> itemList after \<noteq> l)) NotSameLevel)) (\<lambda>_.
           Ok \<lparr>mt_list = (case l of Some x \<Rightarrow> x | None \<Rightarrow> []), mt_parent = into, mt_after = mAfter\<rparr>)))))))"

text \<open>The rows of a group numbered from 0 in their order.\<close>

definition closeGaps :: "itemRow list \<Rightarrow> ident \<Rightarrow> ident option \<Rightarrow> instant \<Rightarrow> itemRow list" where
  "closeGaps is l p at = fst (renumber is at 0 (map itemId (siblingsOf is l p)))"

definition moveChange :: "instant \<Rightarrow> ident \<Rightarrow> checklistMove \<Rightarrow> string change" where
  "moveChange at k move rows =
     thenDo (liveItem rows k) (\<lambda>row.
     thenDo (moveTargetOf rows k row move) (\<lambda>target.
     thenDo (require (\<not> wouldCycle (cr_items rows) k (mt_parent target)) CircularMove) (\<lambda>_.
       (let newDepth = (case given (mt_parent target) of None \<Rightarrow> 0 | Some p \<Rightarrow> depthOf (cr_items rows) (Some p) + 1) in
        if newDepth + int (subtreeHeight (cr_items rows) k) - 1 \<ge> int MAX_DEPTH then Thrown TooManyLevels
        else if mt_after target = Some k then Ok (itemText row, rows)
        else
          (let oldList = (case itemList row of Some x \<Rightarrow> x | None \<Rightarrow> []);
               oldParent = itemParent row;
               tree = itemId row # descendantIds (cr_items rows) (itemId row) True;
               relisted = (if Some (mt_list target) \<noteq> itemList row
                           then map (\<lambda>i. if itemId i \<in> set tree then i\<lparr>itemList := Some (mt_list target), itemUpdatedAt := at\<rparr> else i) (cr_items rows)
                           else cr_items rows);
               moved = updateItem k (\<lambda>i. i\<lparr>itemParent := mt_parent target, itemUpdatedAt := at\<rparr>) relisted;
               placedRows = fst (placeInGroup moved (mt_list target) (mt_parent target) [itemId row] (mt_after target) at)
           in Ok (itemText row,
                  rows\<lparr>cr_items := (if oldParent \<noteq> mt_parent target \<or> oldList \<noteq> mt_list target
                                      then closeGaps placedRows oldList oldParent at else placedRows)\<rparr>)))))) "

section \<open>The old reorder\<close>

text \<open>
  The groups are read off strings \<open>listId|parentId\<close> and taken apart again (row ids have no bar); the rank
  of an id is its last place in the order given.
\<close>

definition groupsOf :: "itemRow list \<Rightarrow> (ident \<times> ident option) list" where
  "groupsOf is = dedup (map (\<lambda>i. (case itemList i of None \<Rightarrow> ''null'' | Some l \<Rightarrow> l, given (itemParent i))) (filter isLive is))"

definition rankOf :: "ident list \<Rightarrow> ident \<rightharpoonup> nat" where
  "rankOf ordered = map_of (rev (zip ordered [0..<length ordered]))"

definition reorderGroup :: "ident list \<Rightarrow> instant \<Rightarrow> ident \<times> ident option \<Rightarrow> itemRow list \<Rightarrow> itemRow list" where
  "reorderGroup ordered at g is =
     (let current = siblingsOf is (fst g) (snd g);
          named = sort_key (\<lambda>s. the (rankOf ordered (itemId s))) (filter (\<lambda>s. rankOf ordered (itemId s) \<noteq> None) current);
          rest = filter (\<lambda>s. rankOf ordered (itemId s) = None) current
      in fst (renumber is at 0 (map itemId (named @ rest))))"

definition reorderChange :: "instant \<Rightarrow> ident list \<Rightarrow> unit change" where
  "reorderChange at ordered rows =
     Ok ((), rows\<lparr>cr_items := fold (reorderGroup ordered at) (groupsOf (cr_items rows)) (cr_items rows)\<rparr>)"

section \<open>Checklists\<close>

definition insertAfter :: "(listRow \<Rightarrow> bool) \<Rightarrow> listRow \<Rightarrow> listRow list \<Rightarrow> ident list" where
  "insertAfter isIt l ordered =
     (let cut = (case findIndex isIt ordered of None \<Rightarrow> length ordered | Some n \<Rightarrow> n + 1)
      in map listId (take cut ordered @ l # drop cut ordered))"

definition addListChange :: "(nat \<Rightarrow> ident) \<Rightarrow> ident \<Rightarrow> ident option \<Rightarrow> instant \<Rightarrow> string \<Rightarrow> ident option \<Rightarrow> ident change" where
  "addListChange newId taskId actor at clean afterId rows =
     thenDo (roomForList rows) (\<lambda>_.
       (let ordered = liveLists (cr_lists rows);
            l = newListRow (newId (cr_fresh rows)) taskId clean (int (length ordered)) actor at
        in Ok (listId l,
               rows\<lparr>cr_lists := orderLists (insertAfter (\<lambda>x. given afterId = Some (listId x)) l ordered) at (cr_lists rows @ [l]),
                    cr_fresh := Suc (cr_fresh rows)\<rparr>)))"

definition updateListRow :: "ident \<Rightarrow> (listRow \<Rightarrow> listRow) \<Rightarrow> listRow list \<Rightarrow> listRow list" where
  "updateListRow k f ls = map (\<lambda>l. if listId l = k then f l else l) ls"

definition renameChange :: "instant \<Rightarrow> ident \<Rightarrow> string \<Rightarrow> string change" where
  "renameChange at k clean rows =
     thenDo (liveList rows (Some k)) (\<lambda>l.
       Ok (listTitle l,
           if listTitle l = clean then rows
           else rows\<lparr>cr_lists := updateListRow k (\<lambda>x. x\<lparr>listTitle := clean, listUpdatedAt := at\<rparr>) (cr_lists rows)\<rparr>))"

text \<open>\<open>findIndex(...) + 1\<close>: the copy goes first when the checklist is not among the live ones (it always is).\<close>

definition duplicateListChange :: "(nat \<Rightarrow> ident) \<Rightarrow> ident \<Rightarrow> ident option \<Rightarrow> instant \<Rightarrow> ident \<Rightarrow> (ident \<times> nat \<times> string) change" where
  "duplicateListChange newId taskId actor at k rows =
     thenDo (liveList rows (Some k)) (\<lambda>source.
     thenDo (roomForList rows) (\<lambda>_.
       (let ordered = liveLists (cr_lists rows);
            copy = newListRow (newId (cr_fresh rows)) taskId (withCopy (listTitle source)) (int (length ordered)) actor at
        in case copySubtree newId rows (Suc (cr_fresh rows)) (map itemId (siblingsOf (cr_items rows) k None)) (listId copy) at of
             (roots, all, n) \<Rightarrow>
               thenDo (roomFor rows (length all)) (\<lambda>_.
                 (let cut = (case findIndex (\<lambda>l. listId l = k) ordered of None \<Rightarrow> 0 | Some m \<Rightarrow> m + 1)
                  in Ok ((listId copy, length all, listTitle source),
                         rows\<lparr>cr_lists := orderLists (map listId (take cut ordered @ copy # drop cut ordered)) at (cr_lists rows @ [copy]),
                              cr_items := cr_items rows @ all, cr_fresh := n\<rparr>))))))"

definition deletedList :: "ident option \<Rightarrow> instant \<Rightarrow> ident \<Rightarrow> listRow \<Rightarrow> listRow" where
  "deletedList actor at batch l =
     l\<lparr>listDeletedAt := Some at, listDeletedBy := actor, listBatch := Some batch, listUpdatedAt := at\<rparr>"

definition removeListChange :: "ident option \<Rightarrow> instant \<Rightarrow> ident \<Rightarrow> ident \<Rightarrow> (nat \<times> string) change" where
  "removeListChange actor at batch k rows =
     thenDo (liveList rows (Some k)) (\<lambda>l.
       (let hit = (\<lambda>i. itemList i = Some k \<and> isLive i)
        in Ok ((length (filter hit (cr_items rows)), listTitle l),
               rows\<lparr>cr_lists := updateListRow k (deletedList actor at batch) (cr_lists rows),
                    cr_items := map (\<lambda>i. if hit i then deletedRow actor at batch i else i) (cr_items rows)\<rparr>)))"

section \<open>Restoring what was deleted\<close>

definition RESTORE_DAYS :: int where "RESTORE_DAYS = 30"
definition DAY_MS_cl :: int where "DAY_MS_cl = 86400000"

definition restorableItem :: "ident \<Rightarrow> instant \<Rightarrow> itemRow \<Rightarrow> bool" where
  "restorableItem batch since i \<longleftrightarrow> itemBatch i = Some batch \<and> (case itemDeletedAt i of None \<Rightarrow> False | Some d \<Rightarrow> d \<ge> since)"

definition restorableList :: "ident \<Rightarrow> instant \<Rightarrow> listRow \<Rightarrow> bool" where
  "restorableList batch since l \<longleftrightarrow> listBatch l = Some batch \<and> (case listDeletedAt l of None \<Rightarrow> False | Some d \<Rightarrow> d \<ge> since)"

definition restoredItem :: "instant \<Rightarrow> itemRow \<Rightarrow> itemRow" where
  "restoredItem at i = i\<lparr>itemDeletedAt := None, itemDeletedBy := None, itemBatch := None, itemUpdatedAt := at\<rparr>"

definition restoredList :: "instant \<Rightarrow> listRow \<Rightarrow> listRow" where
  "restoredList at l = l\<lparr>listDeletedAt := None, listDeletedBy := None, listBatch := None, listUpdatedAt := at\<rparr>"

text \<open>An item's row now; the parent's link of an item; the list of an item and of its live sub-items.\<close>

definition rowOf :: "itemRow list \<Rightarrow> ident \<Rightarrow> itemRow option" where
  "rowOf is k = find (\<lambda>x. itemId x = k) is"

definition setParent :: "ident \<Rightarrow> ident option \<Rightarrow> itemRow list \<Rightarrow> itemRow list" where
  "setParent k p is = updateItem k (\<lambda>i. i\<lparr>itemParent := p\<rparr>) is"

definition relistTree :: "ident \<Rightarrow> ident option \<Rightarrow> itemRow list \<Rightarrow> itemRow list" where
  "relistTree k l is =
     (let tree = k # descendantIds is k False
      in map (\<lambda>i. if itemId i \<in> set tree then i\<lparr>itemList := l\<rparr> else i) is)"

text \<open>
  The \<open>while\<close> loop that brings an item up until it is within the levels; \<open>None\<close> is a loop that does not
  end (which takes an item below itself).
\<close>

definition tooDeepUnder :: "itemRow list \<Rightarrow> ident \<Rightarrow> ident \<Rightarrow> bool" where
  "tooDeepUnder is k p \<longleftrightarrow> depthOf is (Some p) + int (subtreeHeight is k) \<ge> int MAX_DEPTH"

definition parentNow :: "itemRow list \<Rightarrow> ident \<Rightarrow> ident option" where
  "parentNow is k = (case rowOf is k of None \<Rightarrow> None | Some i \<Rightarrow> itemParent i)"

partial_function (option) climb :: "ident \<Rightarrow> itemRow list \<Rightarrow> itemRow list option" where
  "climb k is =
     (case given (parentNow is k) of
        None \<Rightarrow> Some is
      | Some p \<Rightarrow> if tooDeepUnder is k p then climb k (setParent k (parentNow is p) is) else Some is)"

text \<open>
  One turn of the loop over the restored items, for those whose parent was not restored with them: into
  the first checklist when theirs is gone, out from under a parent that is gone, along with a parent that
  was moved to another checklist; then up as far as needed. \<open>listIds\<close> are the live checklists.
\<close>

definition restoreRoot :: "(nat \<Rightarrow> ident) \<Rightarrow> ident \<Rightarrow> ident option \<Rightarrow> instant \<Rightarrow> ident list \<Rightarrow> itemRow
    \<Rightarrow> checklistRows \<times> ident list \<Rightarrow> checklistRows \<times> ident list" where
  "restoreRoot newId taskId actor at liveIds i st =
     (let rows = fst st; listIds = snd st; k = itemId i in
      if (case given (itemList i) of None \<Rightarrow> True | Some l \<Rightarrow> l \<notin> set listIds)
      then (case firstList newId taskId actor at rows of
              (l, rows') \<Rightarrow>
                (rows'\<lparr>cr_items := setParent k None (relistTree k (Some (listId l)) (cr_items rows'))\<rparr>,
                 if liveLists (cr_lists rows) = [] then listId l # listIds else listIds))
      else (case given (itemParent i) of
              None \<Rightarrow> st
            | Some p \<Rightarrow>
                if p \<notin> set liveIds then (rows\<lparr>cr_items := setParent k None (cr_items rows)\<rparr>, listIds)
                else (case rowOf (cr_items rows) p of
                        None \<Rightarrow> st
                      | Some parent \<Rightarrow>
                          if itemList parent \<noteq> itemList i
                          then (rows\<lparr>cr_items := relistTree k (itemList parent) (cr_items rows)\<rparr>, listIds)
                          else st)))"

fun restoreLoop :: "(nat \<Rightarrow> ident) \<Rightarrow> ident \<Rightarrow> ident option \<Rightarrow> instant \<Rightarrow> ident list \<Rightarrow> ident list \<Rightarrow> ident list
    \<Rightarrow> checklistRows \<times> ident list \<Rightarrow> (checklistRows \<times> ident list) option" where
  "restoreLoop newId taskId actor at ids liveIds [] st = Some st"
| "restoreLoop newId taskId actor at ids liveIds (k # ks) st =
     (case rowOf (cr_items (fst st)) k of
        None \<Rightarrow> restoreLoop newId taskId actor at ids liveIds ks st
      | Some i \<Rightarrow>
          if (case itemParent i of None \<Rightarrow> [] | Some p \<Rightarrow> p) \<in> set ids
          then restoreLoop newId taskId actor at ids liveIds ks st
          else (let st' = restoreRoot newId taskId actor at liveIds i st in
                case climb k (cr_items (fst st')) of
                  None \<Rightarrow> None
                | Some is \<Rightarrow> restoreLoop newId taskId actor at ids liveIds ks ((fst st')\<lparr>cr_items := is\<rparr>, snd st')))"

text \<open>Back where it was in its group: after the last of the others whose position is smaller.\<close>

definition backInGroup :: "ident \<Rightarrow> instant \<Rightarrow> itemRow list \<Rightarrow> itemRow list" where
  "backInGroup k at is =
     (case rowOf is k of
        None \<Rightarrow> is
      | Some root \<Rightarrow>
          (let l = (case itemList root of None \<Rightarrow> [] | Some x \<Rightarrow> x);
               grp = filter (\<lambda>s. itemId s \<noteq> k) (siblingsOf is l (itemParent root));
               before = filter (\<lambda>s. itemPos s < itemPos root) grp
           in fst (placeInGroup is l (itemParent root) [k] (if before = [] then None else Some (itemId (last before))) at)))"

record restoredView =
  rv_restored :: nat
  rv_count :: nat
  rv_isList :: bool
  rv_title :: string

definition isBatchRoot :: "ident list \<Rightarrow> itemRow \<Rightarrow> bool" where
  "isBatchRoot ids i \<longleftrightarrow> (case given (itemParent i) of None \<Rightarrow> True | Some p \<Rightarrow> p \<notin> set ids)"

definition restoreChange :: "(nat \<Rightarrow> ident) \<Rightarrow> ident \<Rightarrow> ident option \<Rightarrow> instant \<Rightarrow> instant \<Rightarrow> ident \<Rightarrow> restoredView change" where
  "restoreChange newId taskId actor at since batch rows =
     (let lists = filter (restorableList batch since) (cr_lists rows);
          items = filter (restorableItem batch since) (cr_items rows) in
      thenDo (require (lists \<noteq> [] \<or> items \<noteq> []) NoLongerRestorable) (\<lambda>_.
      thenDo (if lists \<noteq> [] then roomForList rows else Ok ()) (\<lambda>_.
      thenDo (roomFor rows (length items)) (\<lambda>_.
        (let ids = map itemId items;
             root = find (isBatchRoot ids) items;
             back = rows\<lparr>cr_lists := map (\<lambda>l. if restorableList batch since l then restoredList at l else l) (cr_lists rows),
                         cr_items := map (\<lambda>i. if restorableItem batch since i then restoredItem at i else i) (cr_items rows)\<rparr>;
             listIds = liveListIds (cr_lists back);
             liveIds = map itemId (filter isLive (cr_items back))
         in case restoreLoop newId taskId actor at ids liveIds ids (back, listIds) of
              None \<Rightarrow> Endless
            | Some (rows', _) \<Rightarrow>
                Ok (\<lparr>rv_restored = length items + length lists, rv_count = length items, rv_isList = (lists \<noteq> []),
                      rv_title = (case lists of l # _ \<Rightarrow> listTitle l
                                  | [] \<Rightarrow> (case root of Some i \<Rightarrow> itemText i | None \<Rightarrow> []))\<rparr>,
                    (case root of
                       Some i \<Rightarrow> if lists = [] then rows'\<lparr>cr_items := backInGroup (itemId i) at (cr_items rows')\<rparr> else rows'
                     | None \<Rightarrow> rows')))))))"

end
