(* ===== verification/ChecklistTree.thy ===== *)
theory ChecklistTree
  imports ChecklistEdits
begin

text \<open>
  What holds of the rows of a task between changes: the shape of the tree of live items, the levels, the
  batches of deleted items, and the limits. The tree is read off the nodes of the items: their id, parent,
  list, and whether they are deleted and in which batch.
\<close>

section \<open>Nodes\<close>

record node =
  nd_id :: ident
  nd_parent :: "ident option"
  nd_list :: "ident option"
  nd_gone :: "ident option option"  \<comment> \<open>\<open>None\<close>: live; else the batch it was deleted in\<close>

definition nodeOf :: "itemRow \<Rightarrow> node" where
  "nodeOf i = \<lparr>nd_id = itemId i, nd_parent = itemParent i, nd_list = itemList i,
     nd_gone = (if isLive i then None else Some (itemBatch i))\<rparr>"

definition nodes :: "itemRow list \<Rightarrow> node list" where
  "nodes is = map nodeOf is"

definition nodeLive :: "node \<Rightarrow> bool" where
  "nodeLive n \<longleftrightarrow> nd_gone n = None"

lemma nodeOf_fields [simp]:
  "nd_id (nodeOf i) = itemId i" "nd_parent (nodeOf i) = itemParent i" "nd_list (nodeOf i) = itemList i"
  "nodeLive (nodeOf i) = isLive i"
  by (simp_all add: nodeOf_def nodeLive_def)

lemma nodeOf_gone: "nd_gone (nodeOf i) = Some b \<longleftrightarrow> \<not> isLive i \<and> itemBatch i = b"
  by (simp add: nodeOf_def)

lemma nodes_ids [simp]: "map nd_id (nodes is) = map itemId is"
  by (simp add: nodes_def comp_def)

lemma nodes_append [simp]: "nodes (xs @ ys) = nodes xs @ nodes ys"
  by (simp add: nodes_def)

lemma set_nodes: "set (nodes is) = nodeOf ` set is"
  by (simp add: nodes_def)

lemma nodes_map: "(\<And>i. i \<in> set is \<Longrightarrow> nodeOf (f i) = nodeOf i) \<Longrightarrow> nodes (map f is) = nodes is"
  by (simp add: nodes_def)

text \<open>The links up, from live items; and those inside a batch of deleted ones.\<close>

definition liveRel :: "node list \<Rightarrow> (ident \<times> ident) set" where
  "liveRel ns = {(nd_id c, p) | c p. c \<in> set ns \<and> nodeLive c \<and> nd_parent c = Some p}"

definition batchRel :: "node list \<Rightarrow> ident \<Rightarrow> (ident \<times> ident) set" where
  "batchRel ns b = {(nd_id c, nd_id p) | c p. c \<in> set ns \<and> p \<in> set ns \<and> nd_gone c = Some (Some b)
     \<and> nd_gone p = Some (Some b) \<and> nd_parent c = Some (nd_id p)}"

lemma liveRel_nodes: "liveRel (nodes is) = parentRel (filter isLive is)"
  unfolding liveRel_def parentRel_def set_nodes by (rule set_eqI) (force simp: image_iff)

text \<open>
  A live item's parent is live and in the same checklist; so is, within a batch, a deleted one's. No chain
  of links is as long as the levels allowed (so no item is below itself either).
\<close>

definition treeOk :: "node list \<Rightarrow> bool" where
  "treeOk ns \<longleftrightarrow>
     distinct (map nd_id ns) \<and> [] \<notin> set (map nd_id ns) \<and> (\<forall>c \<in> set ns. nd_parent c \<noteq> Some [])
     \<and> (\<forall>c \<in> set ns. nodeLive c \<longrightarrow> (\<forall>p. nd_parent c = Some p \<longrightarrow>
          (\<exists>q \<in> set ns. nd_id q = p \<and> nodeLive q \<and> nd_list q = nd_list c)))
     \<and> (\<forall>c \<in> set ns. \<forall>p \<in> set ns. \<forall>b. nd_gone c = Some (Some b) \<and> nd_gone p = Some (Some b)
          \<and> nd_parent c = Some (nd_id p) \<longrightarrow> nd_list c = nd_list p)
     \<and> liveRel ns ^^ MAX_DEPTH = {}
     \<and> (\<forall>b. batchRel ns b ^^ MAX_DEPTH = {})"

lemma treeOkD:
  assumes "treeOk ns"
  shows "distinct (map nd_id ns)" "[] \<notin> set (map nd_id ns)" "liveRel ns ^^ MAX_DEPTH = {}" "batchRel ns b ^^ MAX_DEPTH = {}"
  using assms by (simp_all add: treeOk_def)

lemma live_parent:
  assumes "treeOk ns" "c \<in> set ns" "nodeLive c" "nd_parent c = Some p"
  obtains q where "q \<in> set ns" "nd_id q = p" "nodeLive q" "nd_list q = nd_list c"
  using assms unfolding treeOk_def by blast

section \<open>Chains of links\<close>

lemma relpow_mono_rel:
  fixes R S :: "('a \<times> 'a) set"
  shows "R \<subseteq> S \<Longrightarrow> R ^^ n \<subseteq> S ^^ n"
  by (induction n) (auto intro: relcomp_mono [THEN subsetD])

lemma shorter_chain:
  fixes R :: "('a \<times> 'a) set"
  shows "(x, a) \<in> R ^^ n \<Longrightarrow> m \<le> n \<Longrightarrow> \<exists>b. (x, b) \<in> R ^^ m"
proof -
  assume "(x, a) \<in> R ^^ n" "m \<le> n"
  then have "(x, a) \<in> R ^^ (m + (n - m))" by simp
  then show ?thesis unfolding relpow_add by (auto simp: relcomp_unfold)
qed

lemma chain_bound:
  fixes R :: "('a \<times> 'a) set"
  shows "R ^^ d = {} \<Longrightarrow> (x, a) \<in> R ^^ n \<Longrightarrow> n < d"
  using shorter_chain [of x a n R d] by (metis empty_iff leI)

lemma bound_acyclic:
  fixes R :: "('a \<times> 'a) set"
  shows "R ^^ d = {} \<Longrightarrow> acyclic R"
proof (rule acyclicI, intro allI notI)
  fix x assume d: "R ^^ d = {}" and "(x, x) \<in> R\<^sup>+"
  then obtain n where n: "0 < n" "(x, x) \<in> R ^^ n" by (auto simp: trancl_power)
  have "(x, x) \<in> R ^^ (n * k)" for k
  proof (induction k)
    case (Suc k)
    then show ?case using n(2) by (auto simp: relpow_add relcomp_unfold)
  qed simp
  from this [of d] have "n * d < d" using chain_bound [OF d] by blast
  then show False using n(1) by simp
qed

text \<open>A chain that starts in a part nothing outside leads into stays in it, or leaves it once.\<close>

lemma chain_split:
  fixes R :: "('a \<times> 'a) set"
  assumes out: "\<And>u v. (u, v) \<in> R \<Longrightarrow> u \<notin> L \<Longrightarrow> v \<notin> L"
  defines "B \<equiv> R \<inter> L \<times> L" and "A \<equiv> R \<inter> (- L) \<times> (- L)"
  shows "(x, a) \<in> R ^^ n \<Longrightarrow> x \<in> L
    \<Longrightarrow> (x, a) \<in> B ^^ n \<or> (\<exists>m j k p. n = m + 1 + j \<and> (x, k) \<in> B ^^ m \<and> (k, p) \<in> R \<and> k \<in> L \<and> p \<notin> L \<and> (p, a) \<in> A ^^ j)"
    and "(x, a) \<in> R ^^ n \<Longrightarrow> x \<notin> L \<Longrightarrow> (x, a) \<in> A ^^ n"
proof -
  show o: "(x, a) \<in> A ^^ n" if "(x, a) \<in> R ^^ n" "x \<notin> L" for x a n
    using that
  proof (induction n arbitrary: x)
    case (Suc n)
    obtain y where y: "(x, y) \<in> R" "(y, a) \<in> R ^^ n" using Suc.prems(1) by (blast elim: relpow_Suc_E2)
    then have "(x, y) \<in> A" "(y, a) \<in> A ^^ n" using Suc out A_def by auto
    then show ?case by (rule relpow_Suc_I2)
  qed simp
  show "(x, a) \<in> B ^^ n \<or> (\<exists>m j k p. n = m + 1 + j \<and> (x, k) \<in> B ^^ m \<and> (k, p) \<in> R \<and> k \<in> L \<and> p \<notin> L \<and> (p, a) \<in> A ^^ j)"
    if "(x, a) \<in> R ^^ n" "x \<in> L"
    using that
  proof (induction n arbitrary: x)
    case (Suc n)
    obtain y where y: "(x, y) \<in> R" "(y, a) \<in> R ^^ n" using Suc.prems(1) by (blast elim: relpow_Suc_E2)
    show ?case
    proof (cases "y \<in> L")
      case True
      then have xy: "(x, y) \<in> B" using y Suc.prems B_def by auto
      from Suc.IH [OF y(2) True] show ?thesis
      proof
        assume "(y, a) \<in> B ^^ n"
        then show ?thesis using relpow_Suc_I2 [OF xy] by blast
      next
        assume "\<exists>m j k p. n = m + 1 + j \<and> (y, k) \<in> B ^^ m \<and> (k, p) \<in> R \<and> k \<in> L \<and> p \<notin> L \<and> (p, a) \<in> A ^^ j"
        then obtain m j k p where *: "n = m + 1 + j" "(y, k) \<in> B ^^ m" "(k, p) \<in> R" "k \<in> L" "p \<notin> L" "(p, a) \<in> A ^^ j" by blast
        then have "Suc n = Suc m + 1 + j" "(x, k) \<in> B ^^ Suc m" using relpow_Suc_I2 [OF xy *(2)] by auto
        then show ?thesis using * by blast
      qed
    next
      case False
      then have "Suc n = 0 + 1 + n \<and> (x, x) \<in> B ^^ 0 \<and> (y, a) \<in> A ^^ n" using o [OF y(2)] by simp
      then show ?thesis using y(1) Suc.prems(2) False by blast
    qed
  qed simp
qed

lemma levels_ok:
  fixes R :: "('a \<times> 'a) set"
  assumes "\<And>u v. (u, v) \<in> R \<Longrightarrow> u \<notin> L \<Longrightarrow> v \<notin> L"
    and "(R \<inter> L \<times> L) ^^ d = {}" "(R \<inter> (- L) \<times> (- L)) ^^ d = {}"
    and "\<And>k p m j x a. (k, p) \<in> R \<Longrightarrow> k \<in> L \<Longrightarrow> p \<notin> L \<Longrightarrow> (x, k) \<in> (R \<inter> L \<times> L) ^^ m
      \<Longrightarrow> (p, a) \<in> (R \<inter> (- L) \<times> (- L)) ^^ j \<Longrightarrow> m + 1 + j < d"
  shows "R ^^ d = {}"
proof -
  have False if x: "(x, a) \<in> R ^^ d" for x a
  proof (cases "x \<in> L")
    case True
    from chain_split(1) [where L = L and R = R, OF _ x True] assms(1)
    have "(x, a) \<in> (R \<inter> L \<times> L) ^^ d \<or> (\<exists>m j k p. d = m + 1 + j \<and> (x, k) \<in> (R \<inter> L \<times> L) ^^ m \<and> (k, p) \<in> R
        \<and> k \<in> L \<and> p \<notin> L \<and> (p, a) \<in> (R \<inter> (- L) \<times> (- L)) ^^ j)" by blast
    then show ?thesis using assms(2,4) by blast
  next
    case False
    from chain_split(2) [where L = L and R = R, OF _ x False] assms(1) have "(x, a) \<in> (R \<inter> (- L) \<times> (- L)) ^^ d" by blast
    then show ?thesis using assms(3) by blast
  qed
  then show ?thesis by auto
qed

text \<open>Links carried over to others by a map of the ends have no longer chains.\<close>

lemma mapped_chain:
  assumes "\<And>u v. (u, v) \<in> S \<Longrightarrow> (f u, f v) \<in> R" "(x, a) \<in> S ^^ n"
  shows "(f x, f a) \<in> R ^^ n"
  using assms(2)
proof (induction n arbitrary: a)
  case (Suc n)
  then show ?case using assms(1) by (auto simp: relcomp_unfold)
qed simp

lemma mapped_levels: "(\<And>u v. (u, v) \<in> S \<Longrightarrow> (f u, f v) \<in> R) \<Longrightarrow> R ^^ d = {} \<Longrightarrow> S ^^ d = {}"
  using mapped_chain [of S f R] by fast

section \<open>Levels and heights\<close>

declare depthFrom.simps [simp del] heightAt.simps [simp del]

lemma depthFrom_ge: "d \<le> depthFrom live seen d k"
proof (induction live seen d k rule: depthFrom.induct)
  case (1 live seen depth k)
  show ?case
    using "1.IH" by (subst depthFrom.simps) (fastforce split: option.split)
qed

lemma byId_live:
  assumes "distinct (map itemId is)" "i \<in> set is" "isLive i"
  shows "byId (filter isLive is) (itemId i) = Some i"
  using byId_distinct [OF distinct_map_filter [OF assms(1)], of i isLive] assms by simp

lemma depthFrom_chain:
  assumes ok: "treeOk (nodes is)"
  defines "R \<equiv> parentRel (filter isLive is)"
  shows "(k, a) \<in> R ^^ n \<Longrightarrow> \<forall>y. (k, y) \<in> R\<^sup>* \<longrightarrow> y \<notin> set seen \<Longrightarrow> d + int n \<le> depthFrom (filter isLive is) seen d k"
proof (induction n arbitrary: k seen d)
  case 0
  then show ?case by (simp add: depthFrom_ge)
next
  case (Suc n)
  have R: "R = liveRel (nodes is)" by (simp add: R_def liveRel_nodes)
  have dist: "distinct (map itemId is)" using treeOkD(1) [OF ok] by simp
  obtain p where p: "(k, p) \<in> R" "(p, a) \<in> R ^^ n" using Suc.prems(1) by (blast elim: relpow_Suc_E2)
  then obtain c where c: "c \<in> set is" "isLive c" "itemId c = k" "itemParent c = Some p"
    by (auto simp: R_def parentRel_def)
  obtain m where m: "m \<in> set (nodes is)" "nd_id m = p" "nodeLive m"
    using live_parent [OF ok, of "nodeOf c" p] c by (simp add: set_nodes) blast
  then obtain q where q: "q \<in> set is" "itemId q = p" "isLive q" by (auto simp: set_nodes)
  have "p \<noteq> []" using treeOkD(2) [OF ok] q imageI [OF q(1), of itemId] by auto
  moreover have "byId (filter isLive is) p = Some q" using byId_live [OF dist q(1,3)] q(2) by simp
  moreover have b: "byId (filter isLive is) k = Some c" using byId_live [OF dist c(1,2)] c(3) by simp
  moreover have "k \<notin> set seen" using Suc.prems(2) by blast
  ultimately have step: "depthFrom (filter isLive is) seen d k = depthFrom (filter isLive is) (k # seen) (d + 1) p"
    using c by (subst depthFrom.simps) simp
  have "\<forall>y. (p, y) \<in> R\<^sup>* \<longrightarrow> y \<notin> set (k # seen)"
  proof (intro allI impI)
    fix y assume y: "(p, y) \<in> R\<^sup>*"
    have "(k, k) \<notin> R\<^sup>+" using bound_acyclic [OF treeOkD(3) [OF ok]] by (simp add: R acyclic_def)
    then have "y \<noteq> k" using rtrancl_into_trancl2 [OF p(1) y] by blast
    moreover have "(k, y) \<in> R\<^sup>*" using p(1) y by simp
    ultimately show "y \<notin> set (k # seen)" using Suc.prems(2) by auto
  qed
  then show ?case using Suc.IH [OF p(2), of "k # seen" "d + 1"] step by simp
qed

lemma depthOf_chain:
  assumes "treeOk (nodes is)" "(k, a) \<in> liveRel (nodes is) ^^ n" "k \<noteq> []"
  shows "int n \<le> depthOf is (Some k)"
  using depthFrom_chain [OF assms(1), of k a n "[]" 0] assms(2,3) by (simp add: depthOf_def liveRel_nodes)

lemma heightAt_pos: "guard \<le> MAX_DEPTH + 5 \<Longrightarrow> 1 \<le> heightAt live k guard"
  by (subst heightAt.simps) simp

lemma foldr_max_ge: "x \<in> set xs \<Longrightarrow> x \<le> foldr max xs (0 :: nat)"
  by (induction xs) (auto simp: le_max_iff_disj)

lemma heightAt_chain:
  "(x, k) \<in> parentRel live ^^ m \<Longrightarrow> guard + m \<le> MAX_DEPTH + 5 \<Longrightarrow> m + 1 \<le> heightAt live k guard"
proof (induction m arbitrary: k guard)
  case 0
  then show ?case using heightAt_pos [of guard live k] by simp
next
  case (Suc m)
  obtain c where c: "(x, c) \<in> parentRel live ^^ m" "(c, k) \<in> parentRel live" using Suc.prems(1) by auto
  then obtain i where i: "i \<in> set live" "itemId i = c" "itemParent i = Some k" by (auto simp: parentRel_def)
  have "m + 1 \<le> heightAt live c (guard + 1)" by (rule Suc.IH) (use c Suc.prems in simp_all)
  also have "\<dots> \<le> foldr max (map (\<lambda>k. heightAt live (itemId k) (guard + 1)) (filter (\<lambda>i. itemParent i = Some k) live)) 0"
    by (rule foldr_max_ge) (use i in force)
  finally show ?case using Suc.prems(2) by (subst heightAt.simps) simp
qed

lemma subtreeHeight_chain:
  assumes "(x, k) \<in> liveRel (nodes is) ^^ m" "m \<le> MAX_DEPTH"
  shows "m + 1 \<le> subtreeHeight is k"
  using heightAt_chain [of x k m "filter isLive is" 0] assms by (simp add: subtreeHeight_def liveRel_nodes)

section \<open>The rows between changes\<close>

text \<open>
  What the row ids are taken to be (\<open>newRowId\<close>): never drawn twice, and starting with a letter \<open>c\<close>, so
  neither empty nor with the prefix \<open>arrange\<close> uses for the top level of a checklist.
\<close>

definition goodIds :: "(nat \<Rightarrow> ident) \<Rightarrow> bool" where
  "goodIds newId \<longleftrightarrow> inj newId \<and> (\<forall>n. newId n \<noteq> [] \<and> take 5 (newId n) \<noteq> ''list:'')"

definition listBatches_of :: "listRow list \<Rightarrow> ident list" where
  "listBatches_of ls = List.map_filter (\<lambda>l. if isLiveList l then None else listBatch l) ls"

definition listsOk :: "listRow list \<Rightarrow> bool" where
  "listsOk ls \<longleftrightarrow> distinct (map listId ls) \<and> length (filter isLiveList ls) \<le> MAX_LISTS \<and> distinct (listBatches_of ls)"

definition usedIds :: "checklistRows \<Rightarrow> ident set" where
  "usedIds r = listId ` set (cr_lists r) \<union> itemId ` set (cr_items r)
     \<union> {b. \<exists>l \<in> set (cr_lists r). listBatch l = Some b} \<union> {b. \<exists>i \<in> set (cr_items r). itemBatch i = Some b}"

definition rowsOk :: "(nat \<Rightarrow> ident) \<Rightarrow> ident \<Rightarrow> checklistRows \<Rightarrow> bool" where
  "rowsOk newId t r \<longleftrightarrow>
     treeOk (nodes (cr_items r)) \<and> listsOk (cr_lists r) \<and> length (filter isLive (cr_items r)) \<le> MAX_ITEMS
     \<and> (\<forall>l \<in> set (cr_lists r). listTask l = t) \<and> (\<forall>i \<in> set (cr_items r). itemTask i = t)
     \<and> usedIds r \<subseteq> newId ` {..<cr_fresh r}"

lemma rowsOkD:
  assumes "rowsOk newId t r"
  shows "treeOk (nodes (cr_items r))" "listsOk (cr_lists r)" "length (filter isLive (cr_items r)) \<le> MAX_ITEMS"
    "usedIds r \<subseteq> newId ` {..<cr_fresh r}" "distinct (map itemId (cr_items r))"
  using assms treeOkD(1) [of "nodes (cr_items r)"] by (simp_all add: rowsOk_def)

text \<open>Every live item is in a live checklist.\<close>

definition homed :: "checklistRows \<Rightarrow> bool" where
  "homed r \<longleftrightarrow> (\<forall>i \<in> set (cr_items r). isLive i \<longrightarrow> (\<exists>l \<in> set (cr_lists r). isLiveList l \<and> itemList i = Some (listId l)))"

text \<open>What a change may do to the ids: keep them in their order, and draw new ones.\<close>

definition grown :: "(nat \<Rightarrow> ident) \<Rightarrow> checklistRows \<Rightarrow> checklistRows \<Rightarrow> bool" where
  "grown newId r r' \<longleftrightarrow> cr_fresh r \<le> cr_fresh r'
     \<and> (\<exists>ns. map itemId (cr_items r') = map itemId (cr_items r) @ map newId ns \<and> distinct ns \<and> set ns \<subseteq> {cr_fresh r..<cr_fresh r'})
     \<and> (\<exists>ns. map listId (cr_lists r') = map listId (cr_lists r) @ map newId ns \<and> distinct ns \<and> set ns \<subseteq> {cr_fresh r..<cr_fresh r'})"

lemma grownI:
  assumes "cr_fresh r \<le> cr_fresh r'"
    and "map itemId (cr_items r') = map itemId (cr_items r) @ map newId ni" "distinct ni" "set ni \<subseteq> {cr_fresh r..<cr_fresh r'}"
    and "map listId (cr_lists r') = map listId (cr_lists r) @ map newId nl" "distinct nl" "set nl \<subseteq> {cr_fresh r..<cr_fresh r'}"
  shows "grown newId r r'"
  unfolding grown_def using assms by blast

lemma grown_same: "map itemId (cr_items r') = map itemId (cr_items r) \<Longrightarrow> map listId (cr_lists r') = map listId (cr_lists r)
    \<Longrightarrow> cr_fresh r \<le> cr_fresh r' \<Longrightarrow> grown newId r r'"
  by (force simp: grown_def)

lemma grown_refl [simp]: "grown newId r r"
  by (simp add: grown_same)

lemma grown_trans:
  assumes "grown newId a b" "grown newId b c"
  shows "grown newId a c"
proof -
  from assms obtain ni ni' nl nl' where
    "map itemId (cr_items b) = map itemId (cr_items a) @ map newId ni" "distinct ni" "set ni \<subseteq> {cr_fresh a..<cr_fresh b}"
    "map listId (cr_lists b) = map listId (cr_lists a) @ map newId nl" "distinct nl" "set nl \<subseteq> {cr_fresh a..<cr_fresh b}"
    "map itemId (cr_items c) = map itemId (cr_items b) @ map newId ni'" "distinct ni'" "set ni' \<subseteq> {cr_fresh b..<cr_fresh c}"
    "map listId (cr_lists c) = map listId (cr_lists b) @ map newId nl'" "distinct nl'" "set nl' \<subseteq> {cr_fresh b..<cr_fresh c}"
    and le: "cr_fresh a \<le> cr_fresh b" "cr_fresh b \<le> cr_fresh c" unfolding grown_def by blast
  then have i: "map itemId (cr_items c) = map itemId (cr_items a) @ map newId (ni @ ni') \<and> distinct (ni @ ni')
      \<and> set (ni @ ni') \<subseteq> {cr_fresh a..<cr_fresh c}"
    and l: "map listId (cr_lists c) = map listId (cr_lists a) @ map newId (nl @ nl') \<and> distinct (nl @ nl')
      \<and> set (nl @ nl') \<subseteq> {cr_fresh a..<cr_fresh c}" by fastforce+
  show ?thesis unfolding grown_def using le i l by (meson le_trans)
qed

text \<open>A change keeps the rows well formed: what every operation of the service is shown to do.\<close>

definition keeps :: "(nat \<Rightarrow> ident) \<Rightarrow> ident \<Rightarrow> 'a change \<Rightarrow> bool" where
  "keeps newId t change \<longleftrightarrow>
     (\<forall>r v r'. rowsOk newId t r \<and> homed r \<and> change r = Ok (v, r') \<longrightarrow> rowsOk newId t r' \<and> homed r' \<and> grown newId r r')"

lemma keepsI:
  "(\<And>r v r'. rowsOk newId t r \<Longrightarrow> homed r \<Longrightarrow> change r = Ok (v, r') \<Longrightarrow> rowsOk newId t r' \<and> homed r' \<and> grown newId r r')
    \<Longrightarrow> keeps newId t change"
  unfolding keeps_def by blast

section \<open>Changes that leave the tree alone\<close>

text \<open>The part of a row that the tree, the limits and the tasks are read from.\<close>

definition sameShape :: "itemRow \<Rightarrow> itemRow \<Rightarrow> bool" where
  "sameShape i j \<longleftrightarrow> nodeOf i = nodeOf j \<and> itemTask i = itemTask j \<and> itemBatch i = itemBatch j"

lemma sameShape_refl [simp]: "sameShape i i"
  by (simp add: sameShape_def)

lemma sameShape_trans: "sameShape i j \<Longrightarrow> sameShape j k \<Longrightarrow> sameShape i k"
  by (simp add: sameShape_def)

lemma sameShapeI:
  "itemId i = itemId j \<Longrightarrow> itemParent i = itemParent j \<Longrightarrow> itemList i = itemList j \<Longrightarrow> isLive i = isLive j
    \<Longrightarrow> itemBatch i = itemBatch j \<Longrightarrow> itemTask i = itemTask j \<Longrightarrow> sameShape i j"
  by (simp add: sameShape_def nodeOf_def)

lemma sameShapeD:
  assumes "sameShape i j"
  shows "itemId i = itemId j" "itemParent i = itemParent j" "itemList i = itemList j" "isLive i = isLive j"
    "itemBatch i = itemBatch j" "itemTask i = itemTask j"
  using assms by (auto simp: sameShape_def nodeOf_def split: if_splits)

lemma reshaped:
  assumes "list_all2 sameShape is' is"
  shows "nodes is' = nodes is" "map itemId is' = map itemId is" "length (filter isLive is') = length (filter isLive is)"
    "map itemTask is' = map itemTask is" "map itemBatch is' = map itemBatch is"
    "map (\<lambda>i. (isLive i, itemList i)) is' = map (\<lambda>i. (isLive i, itemList i)) is"
proof -
  have "nodes is' = nodes is \<and> map itemId is' = map itemId is \<and> length (filter isLive is') = length (filter isLive is)
    \<and> map itemTask is' = map itemTask is \<and> map itemBatch is' = map itemBatch is
    \<and> map (\<lambda>i. (isLive i, itemList i)) is' = map (\<lambda>i. (isLive i, itemList i)) is"
    using assms
  proof (induction rule: list_all2_induct)
    case (Cons x xs y ys)
    have "nodeOf x = nodeOf y" using Cons.hyps(1) by (simp add: sameShape_def)
    then show ?case using Cons sameShapeD [OF Cons.hyps(1)] by (simp add: nodes_def)
  qed (simp add: nodes_def)
  then show "nodes is' = nodes is" "map itemId is' = map itemId is" "length (filter isLive is') = length (filter isLive is)"
    "map itemTask is' = map itemTask is" "map itemBatch is' = map itemBatch is"
    "map (\<lambda>i. (isLive i, itemList i)) is' = map (\<lambda>i. (isLive i, itemList i)) is" by simp_all
qed

lemma map_image_eq: "map f xs = map f ys \<Longrightarrow> f ` set xs = f ` set ys"
  by (metis list.set_map)

lemma rowsOk_reshaped:
  assumes "rowsOk newId t r" "homed r" "list_all2 sameShape is (cr_items r)"
  shows "rowsOk newId t (r\<lparr>cr_items := is\<rparr>) \<and> homed (r\<lparr>cr_items := is\<rparr>) \<and> grown newId r (r\<lparr>cr_items := is\<rparr>)"
proof -
  note s = reshaped [OF assms(3)]
  have b: "{b. \<exists>i \<in> set is. itemBatch i = Some b} = {b. \<exists>i \<in> set (cr_items r). itemBatch i = Some b}"
  proof -
    have "(\<exists>i \<in> set xs. itemBatch i = Some b) \<longleftrightarrow> Some b \<in> itemBatch ` set xs" for xs :: "itemRow list" and b by force
    then show ?thesis using map_image_eq [OF s(5)] by simp
  qed
  have u: "usedIds (r\<lparr>cr_items := is\<rparr>) = usedIds r" using b map_image_eq [OF s(2)] by (simp add: usedIds_def)
  have k: "(\<forall>i \<in> set xs. itemTask i = t) \<longleftrightarrow> itemTask ` set xs \<subseteq> {t}" for xs :: "itemRow list" by auto
  define Q where "Q x \<longleftrightarrow> (\<exists>l \<in> set (cr_lists r). isLiveList l \<and> x = Some (listId l))" for x
  have h: "(\<forall>i \<in> set xs. isLive i \<longrightarrow> Q (itemList i)) \<longleftrightarrow> (\<forall>(v, l) \<in> (\<lambda>i. (isLive i, itemList i)) ` set xs. v \<longrightarrow> Q l)"
    for xs :: "itemRow list" by auto
  have "rowsOk newId t (r\<lparr>cr_items := is\<rparr>)"
    using assms(1) s(1,3) u map_image_eq [OF s(4)] unfolding rowsOk_def k by simp
  moreover have "homed (r\<lparr>cr_items := is\<rparr>)"
  proof -
    have "\<forall>i \<in> set (cr_items r). isLive i \<longrightarrow> Q (itemList i)" using assms(2) by (simp add: homed_def Q_def)
    then have "\<forall>i \<in> set is. isLive i \<longrightarrow> Q (itemList i)" unfolding h using map_image_eq [OF s(6)] by simp
    then show ?thesis by (simp add: homed_def Q_def)
  qed
  ultimately show ?thesis using s(2) by (simp add: grown_same)
qed

lemma sameShape_map: "(\<And>i. i \<in> set is \<Longrightarrow> sameShape (f i) i) \<Longrightarrow> list_all2 sameShape (map f is) is"
  by (simp add: list_all2_map1 list.rel_refl_strong)

lemma sameShape_list_trans: "list_all2 sameShape a b \<Longrightarrow> list_all2 sameShape b c \<Longrightarrow> list_all2 sameShape a c"
  by (rule list_all2_trans [of sameShape sameShape sameShape]) (auto intro: sameShape_trans)

lemma renumber_shape: "list_all2 sameShape (fst (renumber is now pos ks)) is"
proof (induction "is" now pos ks rule: renumber.induct)
  case (1 "is" now pos)
  show ?case by (simp add: list.rel_refl)
next
  case (2 "is" now pos k ks)
  have "list_all2 sameShape (setPosition k pos now is) is"
    unfolding setPosition_def by (rule sameShape_map) (auto intro: sameShapeI simp: isLive_def)
  then show ?case using "2.IH" by (auto split: option.split prod.split intro: sameShape_list_trans)
qed

lemma placeInGroup_shape: "list_all2 sameShape (fst (placeInGroup is l p ids after now)) is"
  unfolding placeInGroup_def by (rule renumber_shape)

lemma settleLoop_shape: "list_all2 sameShape (fst (settleLoop live now actor memo rows)) rows"
proof (induction live now actor memo rows rule: settleLoop.induct)
  case (2 live now actor memo row rows)
  have "sameShape (settledRow now actor want row) row" for want
    by (rule sameShapeI) (simp_all add: settledRow_def isLive_def)
  then show ?case using "2.IH" by (auto split: prod.split)
qed simp

lemma settleParents_shape: "list_all2 sameShape (fst (settleParents is now actor)) is"
  unfolding settleParents_def by (rule settleLoop_shape)

lemma updateItem_shape: "(\<And>i. sameShape (f i) i) \<Longrightarrow> list_all2 sameShape (updateItem k f is) is"
  unfolding updateItem_def by (rule sameShape_map) simp

lemma patch_shape:
  "sameShape (patchDone actor at patch i) i" "sameShape (patchText at patch i) i"
  "sameShape (patchAssignee at patch i) i" "sameShape (patchDue at patch i) i"
  by (auto simp: patchDone_def patchText_def patchAssignee_def patchDue_def isLive_def intro!: sameShapeI split: option.split)

lemma reorder_shape: "list_all2 sameShape (fold (reorderGroup ordered at) gs is) is"
proof (induction gs arbitrary: "is")
  case (Cons g gs)
  have "list_all2 sameShape (reorderGroup ordered at g is) is" unfolding reorderGroup_def Let_def by (rule renumber_shape)
  then show ?case using Cons [of "reorderGroup ordered at g is"] by (auto intro: sameShape_list_trans)
qed (simp add: list.rel_refl)

lemma update_keeps: "keeps newId t (updateChange actor at k patch)"
proof (rule keepsI)
  fix r v r' assume r: "rowsOk newId t r" "homed r" and c: "updateChange actor at k patch r = Ok (v, r')"
  let ?f = "patchDue at patch \<circ> patchAssignee at patch \<circ> patchText at patch"
  have f: "sameShape (?f i) i" for i unfolding comp_apply by (blast intro: sameShape_trans patch_shape)
  have g: "sameShape ((?f \<circ> patchDone actor at patch) i) i" for i
    using f [of "patchDone actor at patch i"] patch_shape(1) [of actor at patch i] by (auto intro: sameShape_trans)
  from c have "r' = r\<lparr>cr_items := updateItem k ?f (cr_items r)\<rparr>
      \<or> r' = r\<lparr>cr_items := updateItem k (?f \<circ> patchDone actor at patch) (cr_items r)\<rparr>"
    unfolding updateChange_def by (cases "ip_done patch") (auto split: option.splits if_splits)
  then show "rowsOk newId t r' \<and> homed r' \<and> grown newId r r'"
    using rowsOk_reshaped [OF r updateItem_shape [of ?f k, OF f]]
      rowsOk_reshaped [OF r updateItem_shape [of "?f \<circ> patchDone actor at patch" k, OF g]] by fastforce
qed

lemma reorder_keeps: "keeps newId t (reorderChange at ordered)"
proof (rule keepsI)
  fix r v r' assume r: "rowsOk newId t r" "homed r" "reorderChange at ordered r = Ok (v, r')"
  then have "r' = r\<lparr>cr_items := fold (reorderGroup ordered at) (groupsOf (cr_items r)) (cr_items r)\<rparr>"
    by (simp add: reorderChange_def)
  then show "rowsOk newId t r' \<and> homed r' \<and> grown newId r r'" using rowsOk_reshaped [OF r(1,2) reorder_shape] by simp
qed

section \<open>The tree in terms of the items\<close>

definition liveParents :: "itemRow list \<Rightarrow> bool" where
  "liveParents is \<longleftrightarrow> (\<forall>c \<in> set is. isLive c \<longrightarrow> (\<forall>p. itemParent c = Some p \<longrightarrow>
     (\<exists>q \<in> set is. itemId q = p \<and> isLive q \<and> itemList q = itemList c)))"

definition inBatch :: "ident \<Rightarrow> itemRow \<Rightarrow> bool" where
  "inBatch b i \<longleftrightarrow> \<not> isLive i \<and> itemBatch i = Some b"

definition batchLists :: "itemRow list \<Rightarrow> bool" where
  "batchLists is \<longleftrightarrow> (\<forall>c \<in> set is. \<forall>p \<in> set is. \<forall>b. inBatch b c \<and> inBatch b p \<and> itemParent c = Some (itemId p) \<longrightarrow> itemList c = itemList p)"

abbreviation liveLinks :: "itemRow list \<Rightarrow> (ident \<times> ident) set" where
  "liveLinks is \<equiv> parentRel (filter isLive is)"

definition batchLinks :: "itemRow list \<Rightarrow> ident \<Rightarrow> (ident \<times> ident) set" where
  "batchLinks is b = {(itemId c, itemId p) | c p. c \<in> set is \<and> p \<in> set is \<and> inBatch b c \<and> inBatch b p \<and> itemParent c = Some (itemId p)}"

lemma batchRel_nodes: "batchRel (nodes is) b = batchLinks is b"
  unfolding batchRel_def batchLinks_def set_nodes inBatch_def nodeOf_gone [symmetric] by (rule set_eqI) (force simp: nodeOf_gone)

definition realParents :: "itemRow list \<Rightarrow> bool" where
  "realParents is \<longleftrightarrow> (\<forall>i \<in> set is. itemParent i \<noteq> Some [])"

lemma treeOk_items:
  "treeOk (nodes is) \<longleftrightarrow> distinct (map itemId is) \<and> [] \<notin> set (map itemId is) \<and> realParents is \<and> liveParents is \<and> batchLists is
     \<and> liveLinks is ^^ MAX_DEPTH = {} \<and> (\<forall>b. batchLinks is b ^^ MAX_DEPTH = {})"
  unfolding treeOk_def nodes_ids liveRel_nodes batchRel_nodes
  unfolding set_nodes liveParents_def batchLists_def inBatch_def realParents_def
  by (simp add: nodeOf_gone)

lemma liveLinks_iff: "(k, p) \<in> liveLinks is \<longleftrightarrow> (\<exists>i \<in> set is. isLive i \<and> itemId i = k \<and> itemParent i = Some p)"
  by (auto simp: parentRel_def)

lemma liveParentsD:
  assumes "liveParents is" "c \<in> set is" "isLive c" "itemParent c = Some p"
  obtains q where "q \<in> set is" "itemId q = p" "isLive q" "itemList q = itemList c"
  using assms unfolding liveParents_def by blast

lemma same_row: "distinct (map itemId is) \<Longrightarrow> i \<in> set is \<Longrightarrow> j \<in> set is \<Longrightarrow> itemId i = itemId j \<Longrightarrow> i = j"
  by (auto simp: distinct_map dest: inj_onD)

lemma fewer_levels:
  fixes R S :: "('a \<times> 'a) set"
  shows "S ^^ d = {} \<Longrightarrow> R \<subseteq> S \<Longrightarrow> R ^^ d = {}"
  using relpow_mono_rel [of R S d] by auto

section \<open>The lists\<close>

definition listShape :: "listRow \<Rightarrow> ident \<times> ident \<times> bool \<times> ident option" where
  "listShape l = (listId l, listTask l, isLiveList l, listBatch l)"

lemma listShape_fields:
  assumes "map listShape a = map listShape b"
  shows "map listId a = map listId b" "map listTask a = map listTask b" "length (filter isLiveList a) = length (filter isLiveList b)"
    "listBatches_of a = listBatches_of b" "map listBatch a = map listBatch b"
    "map listId (filter isLiveList a) = map listId (filter isLiveList b)"
proof -
  have "map listId a = map listId b \<and> map listTask a = map listTask b \<and> length (filter isLiveList a) = length (filter isLiveList b)
      \<and> listBatches_of a = listBatches_of b \<and> map listBatch a = map listBatch b
      \<and> map listId (filter isLiveList a) = map listId (filter isLiveList b)"
    using assms
  proof (induction a arbitrary: b)
    case (Cons x a)
    then obtain y b' where b: "b = y # b'" "listShape x = listShape y" "map listShape a = map listShape b'" by (cases b) auto
    show ?case using Cons.IH [OF b(3)] b(1,2) by (auto simp: listShape_def listBatches_of_def map_filter_simps split: option.split)
  qed simp
  then show "map listId a = map listId b" "map listTask a = map listTask b" "length (filter isLiveList a) = length (filter isLiveList b)"
    "listBatches_of a = listBatches_of b" "map listBatch a = map listBatch b"
    "map listId (filter isLiveList a) = map listId (filter isLiveList b)" by simp_all
qed

lemma listsOk_shape: "map listShape a = map listShape b \<Longrightarrow> listsOk a = listsOk b"
  using listShape_fields [of a b] by (simp add: listsOk_def)

lemma orderLists_shape: "map listShape (orderLists ids at ls) = map listShape ls"
  unfolding orderLists_def by (auto simp: listShape_def isLiveList_def split: option.split)

lemma updateListRow_shape: "(\<And>l. listShape (f l) = listShape l) \<Longrightarrow> map listShape (updateListRow k f ls) = map listShape ls"
  by (simp add: updateListRow_def)

text \<open>What of the rows the lists make up, and that it is enough.\<close>

definition listIdsUsed :: "listRow list \<Rightarrow> ident set" where
  "listIdsUsed ls = listId ` set ls \<union> {b. \<exists>l \<in> set ls. listBatch l = Some b}"

definition itemIdsUsed :: "itemRow list \<Rightarrow> ident set" where
  "itemIdsUsed is = itemId ` set is \<union> {b. \<exists>i \<in> set is. itemBatch i = Some b}"

lemma usedIds_split: "usedIds r = listIdsUsed (cr_lists r) \<union> itemIdsUsed (cr_items r)"
  by (auto simp: usedIds_def listIdsUsed_def itemIdsUsed_def)

lemma listIdsUsed_shape: "map listShape a = map listShape b \<Longrightarrow> listIdsUsed a = listIdsUsed b"
proof -
  assume s: "map listShape a = map listShape b"
  have "(\<exists>l \<in> set xs. listBatch l = Some c) \<longleftrightarrow> Some c \<in> listBatch ` set xs" for xs :: "listRow list" and c by force
  then show ?thesis using map_image_eq [OF listShape_fields(1) [OF s]] map_image_eq [OF listShape_fields(5) [OF s]]
    by (simp add: listIdsUsed_def)
qed

lemma liveIds_image: "set (map listId (filter isLiveList ls)) = {k. \<exists>l \<in> set ls. isLiveList l \<and> listId l = k}"
  by auto

lemma homed_iff: "homed r \<longleftrightarrow> (\<forall>i \<in> set (cr_items r). isLive i \<longrightarrow>
    (\<exists>k \<in> set (map listId (filter isLiveList (cr_lists r))). itemList i = Some k))"
  unfolding homed_def liveIds_image by blast

lemma newId_unused: "goodIds newId \<Longrightarrow> usedIds r \<subseteq> newId ` {..<cr_fresh r} \<Longrightarrow> cr_fresh r \<le> n \<Longrightarrow> newId n \<notin> usedIds r"
  by (force simp: goodIds_def dest: injD)

lemma used_later: "usedIds r \<subseteq> newId ` {..<cr_fresh r} \<Longrightarrow> cr_fresh r \<le> n \<Longrightarrow> usedIds r \<subseteq> newId ` {..<n}"
  by force

text \<open>A new list at the end, then the lists renumbered.\<close>

lemma push_list:
  assumes "goodIds newId" "rowsOk newId t r" "length (liveLists (cr_lists r)) + 1 \<le> MAX_LISTS"
    and l: "l = newListRow (newId (cr_fresh r)) t title pos actor at"
    and ls: "map listShape ls = map listShape (cr_lists r @ [l])"
  defines "r' \<equiv> r\<lparr>cr_lists := ls, cr_fresh := Suc (cr_fresh r)\<rparr>"
  shows "rowsOk newId t r' \<and> (homed r \<longrightarrow> homed r') \<and> grown newId r r'"
proof -
  note r = rowsOkD [OF assms(2)]
  have n: "newId (cr_fresh r) \<notin> usedIds r" by (rule newId_unused [OF assms(1) r(4)]) simp
  then have "newId (cr_fresh r) \<notin> set (map listId (cr_lists r))" by (auto simp: usedIds_def)
  moreover have "length (filter isLiveList (cr_lists r)) + 1 \<le> MAX_LISTS" using assms(3) by (simp add: liveLists_def)
  ultimately have "listsOk (cr_lists r @ [l])"
    using r(2) by (auto simp: listsOk_def l newListRow_def isLiveList_def listBatches_of_def map_filter_def)
  then have "listsOk ls" using listsOk_shape [OF ls] by simp
  moreover have "listIdsUsed ls \<subseteq> newId ` {..<Suc (cr_fresh r)}"
    using r(4) unfolding listIdsUsed_shape [OF ls] usedIds_split by (force simp: listIdsUsed_def l newListRow_def)
  moreover have "\<forall>x \<in> set ls. listTask x = t"
  proof -
    have "set (map listTask ls) = set (map listTask (cr_lists r @ [l]))" using listShape_fields(2) [OF ls] by (rule arg_cong)
    then show ?thesis using assms(2) by (force simp: rowsOk_def l newListRow_def)
  qed
  moreover have "itemIdsUsed (cr_items r) \<subseteq> newId ` {..<Suc (cr_fresh r)}" using r(4) unfolding usedIds_split by force
  ultimately have "rowsOk newId t r'" using assms(2) unfolding rowsOk_def r'_def usedIds_split by simp
  moreover have "homed r \<longrightarrow> homed r'" using listShape_fields(6) [OF ls] unfolding homed_iff r'_def by auto
  moreover have "map listId ls = map listId (cr_lists r) @ map newId [cr_fresh r]"
    using listShape_fields(1) [OF ls] by (simp add: l newListRow_def)
  then have "grown newId r r'" unfolding r'_def by (intro grownI [where ni = "[]" and nl = "[cr_fresh r]"]) simp_all
  ultimately show ?thesis by blast
qed

lemma rowsOk_items:
  assumes "rowsOk newId t r" "treeOk (nodes is)" "length (filter isLive is) \<le> MAX_ITEMS" "\<forall>i \<in> set is. itemTask i = t"
    "itemIdsUsed is \<subseteq> newId ` {..<n}" "cr_fresh r \<le> n"
  shows "rowsOk newId t (r\<lparr>cr_items := is, cr_fresh := n\<rparr>)"
proof -
  have "listIdsUsed (cr_lists r) \<subseteq> newId ` {..<n}" using rowsOkD(4) [OF assms(1)] assms(6) unfolding usedIds_split by force
  then show ?thesis using assms unfolding rowsOk_def usedIds_split by simp
qed

section \<open>The home\<close>

lemma MAX_LISTS_pos: "1 \<le> MAX_LISTS"
  by (simp add: MAX_LISTS_def)

lemma mem_liveLists: "l \<in> set (liveLists ls) \<longleftrightarrow> l \<in> set ls \<and> isLiveList l"
  by (auto simp: liveLists_def)

lemma firstList_ok:
  assumes "goodIds newId" "rowsOk newId t r" "firstList newId t actor at r = (l, r')"
  shows "rowsOk newId t r' \<and> (homed r \<longrightarrow> homed r') \<and> grown newId r r' \<and> l \<in> set (cr_lists r') \<and> isLiveList l
    \<and> cr_items r' = cr_items r"
proof (cases "liveLists (cr_lists r)")
  case Nil
  then have r': "r' = r\<lparr>cr_lists := cr_lists r @ [l], cr_fresh := Suc (cr_fresh r)\<rparr>"
      "l = newListRow (newId (cr_fresh r)) t DEFAULT_LIST_TITLE 0 actor at"
    using assms(3) by (auto simp: firstList_def Let_def)
  show ?thesis using push_list [OF assms(1,2) _ r'(2) refl] Nil MAX_LISTS_pos
    unfolding r'(1) by (simp add: r'(2) newListRow_def isLiveList_def)
next
  case (Cons h hs)
  then have "l = h" "r' = r" using assms(3) by (auto simp: firstList_def)
  then show ?thesis using assms(2) Cons mem_liveLists [of l "cr_lists r"] by simp
qed

definition rehomed :: "ident list \<Rightarrow> ident \<Rightarrow> instant \<Rightarrow> itemRow \<Rightarrow> itemRow" where
  "rehomed ids k at i = (if homeless ids i then i\<lparr>itemList := Some k, itemParent := None, itemUpdatedAt := at\<rparr> else i)"

lemma rehomed_fields [simp]:
  "itemId (rehomed ids k at i) = itemId i" "itemTask (rehomed ids k at i) = itemTask i" "isLive (rehomed ids k at i) = isLive i"
  "itemBatch (rehomed ids k at i) = itemBatch i"
  "itemParent (rehomed ids k at i) = (if homeless ids i then None else itemParent i)"
  by (simp_all add: rehomed_def isLive_def)

lemma rehomed_gone: "\<not> isLive i \<Longrightarrow> rehomed ids k at i = i"
  by (simp add: rehomed_def homeless_def)

lemma batches_alike:
  assumes "\<And>i. i \<in> set is \<Longrightarrow> isLive (f i) = isLive i" "\<And>i. i \<in> set is \<Longrightarrow> \<not> isLive i \<Longrightarrow> f i = i"
  shows "batchLists is \<Longrightarrow> batchLists (map f is)" "batchLinks (map f is) b = batchLinks is b"
proof -
  have m: "c \<in> set (map f is) \<and> inBatch b c \<longleftrightarrow> c \<in> set is \<and> inBatch b c" for b c
    using assms by (force simp: inBatch_def image_iff)
  show "batchLinks (map f is) b = batchLinks is b" unfolding batchLinks_def using m [of _ b] by blast
  show "batchLists is \<Longrightarrow> batchLists (map f is)" unfolding batchLists_def using m by meson
qed

lemma liveLinks_map:
  assumes "\<And>i. i \<in> set is \<Longrightarrow> isLive i \<Longrightarrow> itemId (f i) = itemId i"
    and "\<And>i. i \<in> set is \<Longrightarrow> isLive (f i) \<Longrightarrow> isLive i \<and> (itemParent (f i) = None \<or> itemParent (f i) = itemParent i)"
  shows "liveLinks (map f is) \<subseteq> liveLinks is"
  using assms by (fastforce simp: liveLinks_iff)

lemma home_ok:
  fixes actor :: "ident option" and at :: instant
  assumes "goodIds newId" "rowsOk newId t r"
  defines "r' \<equiv> home newId t actor at r"
  shows "rowsOk newId t r' \<and> homed r' \<and> grown newId r r'"
proof (cases "needsHome r")
  case False
  then have "homed r"
    using not_homeless [of "liveListIds (cr_lists r)"] by (auto simp: needsHome_def homed_def list_ex_iff liveListIds_def)
  then show ?thesis using False assms(2) by (simp add: r'_def home_def)
next
  case True
  obtain l r1 where f: "firstList newId t actor at r = (l, r1)" by fastforce
  note o = firstList_ok [OF assms(1,2) f]
  define ids where "ids = liveListIds (cr_lists r1)"
  let ?f = "rehomed ids (listId l) at"
  let ?is = "map ?f (cr_items r1)"
  have r': "r' = r1\<lparr>cr_items := ?is\<rparr>"
    using True f by (simp add: r'_def home_def Let_def ids_def rehomed_def)
  have ok: "rowsOk newId t r1" using o by blast
  note t = rowsOkD(1) [OF ok, unfolded treeOk_items]
  have lp: "liveParents ?is"
    unfolding liveParents_def
  proof (intro ballI impI allI)
    fix c' p assume "c' \<in> set ?is" "isLive c'" "itemParent c' = Some p"
    then obtain c where c: "c \<in> set (cr_items r1)" "c' = ?f c" "isLive c" "itemParent c = Some p" "\<not> homeless ids c"
      by (auto simp: rehomed_def isLive_def split: if_splits)
    obtain q where q: "q \<in> set (cr_items r1)" "itemId q = p" "isLive q" "itemList q = itemList c"
      using liveParentsD [of "cr_items r1", OF _ c(1,3,4)] t by blast
    have "\<not> homeless ids q" using c(3,5) q(3,4) by (simp add: homeless_def)
    then have "?f q = q" "?f c = c" using c(5) by (simp_all add: rehomed_def)
    then show "\<exists>q \<in> set ?is. itemId q = p \<and> isLive q \<and> itemList q = itemList c'" using q c(2) by force
  qed
  have rp: "realParents ?is" using t by (simp add: realParents_def)
  have "liveLinks ?is \<subseteq> liveLinks (cr_items r1)" by (rule liveLinks_map) simp_all
  then have "liveLinks ?is ^^ MAX_DEPTH = {}" using t fewer_levels by blast
  then have tree: "treeOk (nodes ?is)"
    using t lp rp batches_alike [of "cr_items r1" ?f] rehomed_gone unfolding treeOk_items by (simp add: comp_def)
  have used: "itemIdsUsed ?is = itemIdsUsed (cr_items r1)" by (simp add: itemIdsUsed_def image_image)
  have "rowsOk newId t (r1\<lparr>cr_items := ?is, cr_fresh := cr_fresh r1\<rparr>)"
    using ok tree used by (intro rowsOk_items) (auto simp: rowsOk_def usedIds_split filter_map comp_def)
  then have "rowsOk newId t r'" unfolding r' by simp
  moreover have "homed r'"
    unfolding homed_def r'
  proof (intro ballI impI)
    fix i assume "i \<in> set (cr_items (r1\<lparr>cr_items := ?is\<rparr>))" "isLive i"
    then obtain j where j: "j \<in> set (cr_items r1)" "i = ?f j" "isLive j" by auto
    show "\<exists>l \<in> set (cr_lists (r1\<lparr>cr_items := ?is\<rparr>)). isLiveList l \<and> itemList i = Some (listId l)"
    proof (cases "homeless ids j")
      case True
      then show ?thesis using j o by (auto simp: rehomed_def)
    next
      case False
      then obtain k where "itemList j = Some k" "k \<in> set ids"
        using j(3) not_homeless by blast
      then show ?thesis using j(2) False by (auto simp: rehomed_def ids_def liveListIds_def)
    qed
  qed
  moreover have "grown newId r1 r'" by (rule grown_same) (simp_all add: r' comp_def)
  then have "grown newId r r'" using o grown_trans by blast
  ultimately show ?thesis by blast
qed

end
