(* ===== verification/ChecklistKeeps.thy ===== *)
theory ChecklistKeeps
  imports ChecklistTree
begin

text \<open>
  Every change of \<open>checklist-service.ts\<close> keeps the rows of the task well formed (\<open>keeps\<close>): adding, deleting,
  copying, moving and restoring items, and the changes of checklists.
\<close>

section \<open>Checklists\<close>

lemma keeps_lists:
  assumes "rowsOk newId t r" "homed r" "map listShape ls = map listShape (cr_lists r)"
  shows "rowsOk newId t (r\<lparr>cr_lists := ls\<rparr>) \<and> homed (r\<lparr>cr_lists := ls\<rparr>) \<and> grown newId r (r\<lparr>cr_lists := ls\<rparr>)"
proof -
  have "set (map listTask ls) = set (map listTask (cr_lists r))" using listShape_fields(2) [OF assms(3)] by (rule arg_cong)
  then have "\<forall>x \<in> set ls. listTask x = t" using assms(1) by (force simp: rowsOk_def)
  then have "rowsOk newId t (r\<lparr>cr_lists := ls\<rparr>)"
    using assms(1) listsOk_shape [OF assms(3)] listIdsUsed_shape [OF assms(3)] unfolding rowsOk_def usedIds_split by simp
  moreover have "homed (r\<lparr>cr_lists := ls\<rparr>)" using assms(2) listShape_fields(6) [OF assms(3)] unfolding homed_iff by simp
  ultimately show ?thesis using listShape_fields(1) [OF assms(3)] by (simp add: grown_same)
qed

lemma rename_keeps: "keeps newId t (renameChange at k clean)"
proof (rule keepsI)
  fix r v r' assume r: "rowsOk newId t r" "homed r" "renameChange at k clean r = Ok (v, r')"
  have "map listShape (updateListRow k (\<lambda>x. x\<lparr>listTitle := clean, listUpdatedAt := at\<rparr>) (cr_lists r)) = map listShape (cr_lists r)"
    by (rule updateListRow_shape) (simp add: listShape_def isLiveList_def)
  then show "rowsOk newId t r' \<and> homed r' \<and> grown newId r r'"
    using r keeps_lists [OF r(1,2)] by (auto simp: renameChange_def split: if_splits)
qed

lemma add_list_keeps:
  assumes "goodIds newId"
  shows "keeps newId t (addListChange newId t actor at clean afterId)"
proof (rule keepsI)
  fix r v r' assume r: "rowsOk newId t r" "homed r" and c: "addListChange newId t actor at clean afterId r = Ok (v, r')"
  have "\<exists>ids. r' = r\<lparr>cr_lists := orderLists ids at (cr_lists r @ [newListRow (newId (cr_fresh r)) t clean (int (length (liveLists (cr_lists r)))) actor at]),
      cr_fresh := Suc (cr_fresh r)\<rparr>" and "length (liveLists (cr_lists r)) + 1 \<le> MAX_LISTS"
    using c by (auto simp: addListChange_def roomForList_def Let_def split: if_splits)
  then show "rowsOk newId t r' \<and> homed r' \<and> grown newId r r'"
    using push_list [OF assms r(1) _ refl orderLists_shape] r(2) by blast
qed

section \<open>Deleting\<close>

lemma deletedRow_fields [simp]:
  "itemId (deletedRow actor at b i) = itemId i" "itemTask (deletedRow actor at b i) = itemTask i"
  "itemParent (deletedRow actor at b i) = itemParent i" "itemList (deletedRow actor at b i) = itemList i"
  "isLive (deletedRow actor at b i) = False" "itemBatch (deletedRow actor at b i) = Some b"
  by (simp_all add: deletedRow_def isLive_def)

definition unusedBatch :: "checklistRows \<Rightarrow> ident \<Rightarrow> bool" where
  "unusedBatch r b \<longleftrightarrow> b \<notin> usedIds r"

text \<open>Deleting a set of live items that has, with an item, the live items below it.\<close>

lemma delete_tree:
  assumes t: "treeOk (nodes is)" and b: "b \<notin> itemIdsUsed is"
    and hit: "\<And>i. i \<in> set is \<Longrightarrow> hit i \<Longrightarrow> isLive i"
    and closed: "\<And>c q. c \<in> set is \<Longrightarrow> q \<in> set is \<Longrightarrow> isLive c \<Longrightarrow> isLive q \<Longrightarrow> itemParent c = Some (itemId q)
      \<Longrightarrow> itemList c = itemList q \<Longrightarrow> hit q \<Longrightarrow> hit c"
  shows "treeOk (nodes (map (\<lambda>i. if hit i then deletedRow actor at b i else i) is))"
proof -
  define f where "f i = (if hit i then deletedRow actor at b i else i)" for i
  note o = t [unfolded treeOk_items]
  have dist: "distinct (map itemId is)" using o by blast
  have live: "isLive (f i) \<longleftrightarrow> isLive i \<and> \<not> hit i" for i by (simp add: f_def)
  have batch: "inBatch x (f i) \<longleftrightarrow> (if x = b then hit i else inBatch x i)" if i: "i \<in> set is" for i x
    using hit [OF i] b i by (auto simp: inBatch_def itemIdsUsed_def f_def)
  have same: "itemParent (f i) = itemParent i" "itemList (f i) = itemList i" "itemId (f i) = itemId i" for i by (simp_all add: f_def)
  have ids: "map itemId (map f is) = map itemId is" by (simp add: same comp_def)
  have rp: "realParents (map f is)" using o by (simp add: realParents_def same)
  have lp: "liveParents (map f is)"
    unfolding liveParents_def
  proof (intro ballI impI allI)
    fix c' p assume "c' \<in> set (map f is)" "isLive c'" "itemParent c' = Some p"
    then obtain c where c: "c \<in> set is" "c' = f c" "isLive c" "\<not> hit c" "itemParent c = Some p" using live same by auto
    obtain q where q: "q \<in> set is" "itemId q = p" "isLive q" "itemList q = itemList c"
      using liveParentsD [of "is", OF _ c(1,3,5)] o by blast
    have "\<not> hit q" using closed [OF c(1) q(1) c(3) q(3)] c(4,5) q(2,4) by auto
    then show "\<exists>q \<in> set (map f is). itemId q = p \<and> isLive q \<and> itemList q = itemList c'" using q c(2) live same by (intro bexI [of _ "f q"]) simp_all
  qed
  have bl: "batchLists (map f is)"
    unfolding batchLists_def
  proof (intro ballI allI impI, elim conjE)
    fix c' p' x assume cp: "c' \<in> set (map f is)" "p' \<in> set (map f is)" "inBatch x c'" "inBatch x p'" "itemParent c' = Some (itemId p')"
    then obtain c p where c: "c \<in> set is" "c' = f c" "p \<in> set is" "p' = f p" by auto
    have par: "itemParent c = Some (itemId p)" using cp(5) unfolding c same .
    show "itemList c' = itemList p'"
    proof (cases "x = b")
      case True
      then have h: "hit c" "hit p" using cp(3,4) batch c by simp_all
      obtain q where q: "q \<in> set is" "itemId q = itemId p" "itemList q = itemList c"
        using liveParentsD [of "is", OF _ c(1) hit [OF c(1) h(1)] par] o by metis
      have "q = p" by (rule same_row [OF dist q(1) c(3) q(2)])
      then show ?thesis using q(3) unfolding c same by simp
    next
      case False
      then have "inBatch x c" "inBatch x p" using cp(3,4) batch c by simp_all
      then show ?thesis using o c(1,3) par unfolding c same batchLists_def by blast
    qed
  qed
  have "liveLinks (map f is) \<subseteq> liveLinks is" by (rule liveLinks_map) (simp_all add: live same)
  then have ll: "liveLinks (map f is) ^^ MAX_DEPTH = {}" using o fewer_levels by blast
  have "batchLinks (map f is) x ^^ MAX_DEPTH = {}" for x
  proof (cases "x = b")
    case True
    have "batchLinks (map f is) b \<subseteq> liveLinks is"
    proof (rule subrelI)
      fix k p assume "(k, p) \<in> batchLinks (map f is) b"
      then obtain c q where c: "c \<in> set is" "q \<in> set is" "inBatch b (f c)" "k = itemId c" "p = itemId q" "itemParent c = Some p"
        unfolding batchLinks_def by (auto simp: same)
      then show "(k, p) \<in> liveLinks is" using batch [OF c(1), of b] hit by (auto simp: liveLinks_iff)
    qed
    then show ?thesis using o fewer_levels True by blast
  next
    case False
    have "batchLinks (map f is) x \<subseteq> batchLinks is x"
    proof (rule subrelI)
      fix k p assume "(k, p) \<in> batchLinks (map f is) x"
      then obtain c q where c: "c \<in> set is" "q \<in> set is" "inBatch x (f c)" "inBatch x (f q)" "k = itemId c" "p = itemId q" "itemParent c = Some p"
        unfolding batchLinks_def by (auto simp: same)
      then show "(k, p) \<in> batchLinks is x" using batch [OF c(1), of x] batch [OF c(2), of x] False unfolding batchLinks_def by auto
    qed
    then show ?thesis using o fewer_levels by blast
  qed
  then have "treeOk (nodes (map f is))" unfolding treeOk_items ids using o rp lp bl ll by blast
  then show ?thesis by (simp add: f_def [abs_def])
qed

lemma deleted_used:
  "itemIdsUsed (map (\<lambda>i. if hit i then deletedRow actor at b i else i) is) \<subseteq> insert b (itemIdsUsed is)"
  by (auto simp: itemIdsUsed_def split: if_splits)

lemma deleted_live: "isLive (if hit then deletedRow actor at b i else i) \<longleftrightarrow> isLive i \<and> \<not> hit"
  by simp

lemma liveItem_Ok: "liveItem r k = Ok row \<Longrightarrow> row \<in> set (cr_items r) \<and> itemId row = k \<and> isLive row"
  by (auto simp: liveItem_def split: option.splits dest: find_mem)

lemma liveList_Ok: "liveList r k = Ok l \<Longrightarrow> l \<in> set (cr_lists r) \<and> k = Some (listId l) \<and> isLiveList l"
  by (auto simp: liveList_def split: option.splits dest: find_mem)

lemma fewer_of: "(\<And>x. P (f x) \<Longrightarrow> P x) \<Longrightarrow> length (filter P (map f xs)) \<le> length (filter P xs)"
  by (induction xs) auto

text \<open>Deleting items: what is left of the invariant is that the live items keep their checklists.\<close>

lemma delete_ok:
  fixes actor :: "ident option" and at :: instant
  assumes "goodIds newId" "rowsOk newId t r" "homed r" "unusedBatch r b" "b \<in> newId ` {..<cr_fresh r}"
    and "\<And>i. i \<in> set (cr_items r) \<Longrightarrow> hit i \<Longrightarrow> isLive i"
    and "\<And>c q. c \<in> set (cr_items r) \<Longrightarrow> q \<in> set (cr_items r) \<Longrightarrow> isLive c \<Longrightarrow> isLive q \<Longrightarrow> itemParent c = Some (itemId q)
      \<Longrightarrow> itemList c = itemList q \<Longrightarrow> hit q \<Longrightarrow> hit c"
  defines "r' \<equiv> r\<lparr>cr_items := map (\<lambda>i. if hit i then deletedRow actor at b i else i) (cr_items r)\<rparr>"
  shows "rowsOk newId t r' \<and> homed r' \<and> grown newId r r'"
proof -
  define is' where "is' = map (\<lambda>i. if hit i then deletedRow actor at b i else i) (cr_items r)"
  have r': "r' = r\<lparr>cr_items := is', cr_fresh := cr_fresh r\<rparr>" by (simp add: r'_def is'_def)
  note r = rowsOkD [OF assms(2)]
  have "b \<notin> itemIdsUsed (cr_items r)" using assms(4) by (simp add: unusedBatch_def usedIds_split)
  then have tree: "treeOk (nodes is')" unfolding is'_def
    by (rule delete_tree [where hit = hit, OF r(1)]) (fact assms(6) assms(7))+
  have "length (filter isLive is') \<le> length (filter isLive (cr_items r))"
    unfolding is'_def by (rule fewer_of) (simp add: deleted_live split: if_splits)
  then have few: "length (filter isLive is') \<le> MAX_ITEMS" using r(3) by simp
  have used: "itemIdsUsed is' \<subseteq> newId ` {..<cr_fresh r}"
    using deleted_used [of hit actor at b "cr_items r"] r(4) assms(5) unfolding usedIds_split is'_def by blast
  have task: "\<forall>i \<in> set is'. itemTask i = t" using assms(2) unfolding is'_def rowsOk_def by auto
  have "rowsOk newId t r'" unfolding r' by (rule rowsOk_items [OF assms(2) tree few task used order_refl])
  moreover have "homed r'"
    unfolding homed_def
  proof (intro ballI impI)
    fix i assume i: "i \<in> set (cr_items r')" "isLive i"
    then have "i \<in> set is'" by (simp add: r')
    then obtain j where j: "j \<in> set (cr_items r)" "i = (if hit j then deletedRow actor at b j else j)" by (auto simp: is'_def)
    then have "i = j" using i(2) by (simp split: if_splits)
    then show "\<exists>l \<in> set (cr_lists r'). isLiveList l \<and> itemList i = Some (listId l)"
      using i(2) j(1) assms(3) by (simp add: homed_def r')
  qed
  moreover have "map itemId is' = map itemId (cr_items r)" by (simp add: is'_def)
  then have "grown newId r r'" unfolding r' by (intro grown_same) simp_all
  ultimately show ?thesis by blast
qed

definition keepsFrom :: "(nat \<Rightarrow> ident) \<Rightarrow> ident \<Rightarrow> ident \<Rightarrow> 'a change \<Rightarrow> bool" where
  "keepsFrom newId t b change \<longleftrightarrow>
     (\<forall>r v r'. rowsOk newId t r \<and> homed r \<and> unusedBatch r b \<and> b \<in> newId ` {..<cr_fresh r} \<and> change r = Ok (v, r')
        \<longrightarrow> rowsOk newId t r' \<and> homed r' \<and> grown newId r r')"

lemma remove_keeps:
  assumes "goodIds newId"
  shows "keepsFrom newId t b (removeChange actor at b k)"
  unfolding keepsFrom_def
proof (intro allI impI, elim conjE)
  fix r v r' assume r: "rowsOk newId t r" "homed r" "unusedBatch r b" "b \<in> newId ` {..<cr_fresh r}" "removeChange actor at b k r = Ok (v, r')"
  obtain row where row: "liveItem r k = Ok row"
      "r' = r\<lparr>cr_items := map (\<lambda>i. if itemId i \<in> set (k # descendantIds (cr_items r) k False) \<and> isLive i then deletedRow actor at b i else i) (cr_items r)\<rparr>"
    using r(5) liveItem_Ok by (fastforce simp: removeChange_def Let_def)
  let ?hit = "\<lambda>i. itemId i \<in> set (k # descendantIds (cr_items r) k False) \<and> isLive i"
  have d: "set (k # descendantIds (cr_items r) k False) = {x. (x, k) \<in> (liveLinks (cr_items r))\<^sup>*}"
    by (auto simp: descendantIds_set rtrancl_eq_or_trancl)
  have closed: "?hit c" if "c \<in> set (cr_items r)" "isLive c" "itemParent c = Some (itemId q)" "?hit q" for c q
  proof -
    have "(itemId c, itemId q) \<in> liveLinks (cr_items r)" using that(1-3) by (auto simp: liveLinks_iff)
    then show ?thesis using that(2,4) unfolding d by (auto intro: converse_rtrancl_into_rtrancl)
  qed
  show "rowsOk newId t r' \<and> homed r' \<and> grown newId r r'"
    unfolding row(2) by (rule delete_ok [where hit = ?hit, OF assms r(1-4)]) (blast, rule closed)
qed

lemma deletedList_fields [simp]:
  "listId (deletedList actor at b l) = listId l" "listTask (deletedList actor at b l) = listTask l"
  "isLiveList (deletedList actor at b l) = False" "listBatch (deletedList actor at b l) = Some b"
  by (simp_all add: deletedList_def isLiveList_def)

lemma map_filter_Some: "List.map_filter f xs = map (the \<circ> f) (filter (\<lambda>x. f x \<noteq> None) xs)"
  by (simp add: map_filter_def)

lemma batches_delete:
  assumes "distinct (map listId ls)" "distinct (listBatches_of ls)" "b \<notin> set (listBatches_of ls)"
  shows "distinct (listBatches_of (updateListRow k (deletedList actor at b) ls))"
    and "set (listBatches_of (updateListRow k (deletedList actor at b) ls)) \<subseteq> insert b (set (listBatches_of ls))"
    and "k \<notin> listId ` set ls \<Longrightarrow> updateListRow k (deletedList actor at b) ls = ls"
proof -
  show none: "updateListRow k (deletedList actor at b) ls = ls" if "k \<notin> listId ` set ls" for ls
    using that by (auto simp: updateListRow_def intro!: map_idI)
  have "distinct (listBatches_of (updateListRow k (deletedList actor at b) ls))
      \<and> set (listBatches_of (updateListRow k (deletedList actor at b) ls)) \<subseteq> insert b (set (listBatches_of ls))"
    using assms
  proof (induction ls)
    case (Cons l ls)
    show ?case
    proof (cases "listId l = k")
      case True
      then have "updateListRow k (deletedList actor at b) ls = ls" using Cons.prems(1) by (intro none) auto
      then show ?thesis using Cons.prems True by (auto simp: updateListRow_def listBatches_of_def map_filter_simps split: if_splits option.splits)
    next
      case False
      have "distinct (map listId ls)" "distinct (listBatches_of ls)" "b \<notin> set (listBatches_of ls)"
        using Cons.prems by (auto simp: listBatches_of_def map_filter_simps split: if_splits option.splits)
      then show ?thesis using Cons.IH False Cons.prems(2,3)
        by (auto simp: updateListRow_def listBatches_of_def map_filter_simps split: if_splits option.splits)
    qed
  qed (simp add: listBatches_of_def updateListRow_def map_filter_simps)
  then show "distinct (listBatches_of (updateListRow k (deletedList actor at b) ls))"
    "set (listBatches_of (updateListRow k (deletedList actor at b) ls)) \<subseteq> insert b (set (listBatches_of ls))" by blast+
qed

lemma remove_list_keeps:
  assumes "goodIds newId"
  shows "keepsFrom newId t b (removeListChange actor at b k)"
  unfolding keepsFrom_def
proof (intro allI impI, elim conjE)
  fix r v r' assume r: "rowsOk newId t r" "homed r" "unusedBatch r b" "b \<in> newId ` {..<cr_fresh r}" "removeListChange actor at b k r = Ok (v, r')"
  define hit where "hit i \<longleftrightarrow> itemList i = Some k \<and> isLive i" for i
  define ls where "ls = updateListRow k (deletedList actor at b) (cr_lists r)"
  define r1 where "r1 = r\<lparr>cr_items := map (\<lambda>i. if hit i then deletedRow actor at b i else i) (cr_items r)\<rparr>"
  have r': "r' = r1\<lparr>cr_lists := ls\<rparr>"
  proof -
    obtain l where "liveList r (Some k) = Ok l" using r(5) by (auto simp: removeListChange_def)
    then have "r' = r\<lparr>cr_lists := ls, cr_items := map (\<lambda>i. if hit i then deletedRow actor at b i else i) (cr_items r)\<rparr>"
      using r(5) by (simp add: removeListChange_def Let_def ls_def hit_def)
    then show ?thesis unfolding r1_def by (cases r) simp
  qed
  have one: "rowsOk newId t r1 \<and> homed r1 \<and> grown newId r r1"
    unfolding r1_def by (rule delete_ok [where hit = hit, OF assms r(1-4)]) (simp_all add: hit_def)
  note l = rowsOkD(2) [OF r(1), unfolded listsOk_def]
  have unused: "b \<notin> set (listBatches_of (cr_lists r))"
    using r(3) by (auto simp: unusedBatch_def usedIds_def listBatches_of_def map_filter_def split: if_splits)
  note bd = batches_delete [of "cr_lists r" b k actor at, OF _ _ unused]
  have ids: "map listId ls = map listId (cr_lists r)" "map listTask ls = map listTask (cr_lists r)"
    by (simp_all add: ls_def updateListRow_def)
  have "length (filter isLiveList ls) \<le> length (filter isLiveList (cr_lists r))"
    unfolding ls_def updateListRow_def by (rule fewer_of) (simp split: if_splits)
  then have "listsOk ls" using l bd(1) ids(1) by (simp add: listsOk_def ls_def)
  moreover have "listIdsUsed ls \<subseteq> insert b (listIdsUsed (cr_lists r))"
    unfolding ls_def updateListRow_def listIdsUsed_def by (auto split: if_splits)
  then have "listIdsUsed ls \<subseteq> newId ` {..<cr_fresh r}" using rowsOkD(4) [OF r(1)] r(4) unfolding usedIds_split by blast
  moreover have "\<forall>x \<in> set ls. listTask x = t"
  proof -
    have "set (map listTask ls) = set (map listTask (cr_lists r))" unfolding ids(2) ..
    then show ?thesis using r(1) by (force simp: rowsOk_def)
  qed
  moreover have "cr_lists r' = ls" "cr_items r' = cr_items r1" "cr_fresh r' = cr_fresh r" "cr_fresh r1 = cr_fresh r"
    by (simp_all add: r' r1_def)
  ultimately have "rowsOk newId t r'" using one unfolding rowsOk_def usedIds_split by simp
  moreover have "homed r'"
    unfolding homed_def r'
  proof (intro ballI impI)
    fix i assume i: "i \<in> set (cr_items (r1\<lparr>cr_lists := ls\<rparr>))" "isLive i"
    then have "i \<in> set (cr_items r)" "itemList i \<noteq> Some k" by (auto simp: r1_def hit_def split: if_splits)
    then obtain l where "l \<in> set (cr_lists r)" "isLiveList l" "itemList i = Some (listId l)" "listId l \<noteq> k"
      using r(2) i(2) by (auto simp: homed_def)
    then show "\<exists>l \<in> set (cr_lists (r1\<lparr>cr_lists := ls\<rparr>)). isLiveList l \<and> itemList i = Some (listId l)"
      by (force simp: ls_def updateListRow_def)
  qed
  moreover have "grown newId r1 r'" using ids(1) by (intro grown_same) (simp_all add: r' r1_def)
  ultimately show "rowsOk newId t r' \<and> homed r' \<and> grown newId r r'" using one grown_trans by blast
qed

end
