(* ===== verification/ChecklistGrow.thy ===== *)
theory ChecklistGrow
  imports ChecklistKeeps
begin

text \<open>The changes that make items -- adding them, copying an item, copying a checklist -- keep the rows well formed.\<close>

section \<open>New items\<close>

lemma link_ends:
  assumes "liveParents is" "(k, p) \<in> liveLinks is"
  shows "\<exists>c \<in> set is. isLive c \<and> itemId c = k \<and> itemParent c = Some p"
    and "\<exists>q \<in> set is. isLive q \<and> itemId q = p"
proof -
  from assms(2) obtain c where c: "c \<in> set is" "isLive c" "itemId c = k" "itemParent c = Some p" by (auto simp: liveLinks_iff)
  then show "\<exists>c \<in> set is. isLive c \<and> itemId c = k \<and> itemParent c = Some p" by blast
  show "\<exists>q \<in> set is. isLive q \<and> itemId q = p" by (rule liveParentsD [OF assms(1) c(1,2,4)]) blast
qed

lemma no_links: "({} :: ('a \<times> 'a) set) ^^ MAX_DEPTH = {}"
  by (simp add: MAX_DEPTH_def relpow_empty)

lemma batches_push:
  assumes "\<And>i. i \<in> set made \<Longrightarrow> isLive i"
  shows "batchLinks (is @ made) b = batchLinks is b" "batchLists (is @ made) = batchLists is"
proof -
  have "i \<in> set (is @ made) \<and> inBatch b i \<longleftrightarrow> i \<in> set is \<and> inBatch b i" for i b
    using assms by (auto simp: inBatch_def)
  then show "batchLinks (is @ made) b = batchLinks is b" "batchLists (is @ made) = batchLists is"
    unfolding batchLinks_def batchLists_def by meson+
qed

text \<open>
  New live items of the task with ids just drawn, in one live checklist, each at the top or under a live
  item of that checklist (an old one or a new one).
\<close>

lemma push_items:
  assumes g: "goodIds newId" and r: "rowsOk newId t r" "homed r"
    and ids: "map itemId made = map newId [cr_fresh r..<n]" "cr_fresh r \<le> n"
    and made: "\<And>i. i \<in> set made \<Longrightarrow> isLive i \<and> itemTask i = t \<and> itemBatch i = None \<and> itemList i = Some (listId l)"
    and l: "l \<in> set (cr_lists r)" "isLiveList l"
    and parents: "\<And>i p. i \<in> set made \<Longrightarrow> itemParent i = Some p
      \<Longrightarrow> \<exists>q \<in> set (cr_items r @ made). itemId q = p \<and> isLive q \<and> itemList q = Some (listId l)"
    and levels: "liveLinks (cr_items r @ made) ^^ MAX_DEPTH = {}"
    and room: "length (filter isLive (cr_items r)) + length made \<le> MAX_ITEMS"
  defines "r' \<equiv> r\<lparr>cr_items := cr_items r @ made, cr_fresh := n\<rparr>"
  shows "rowsOk newId t r' \<and> homed r' \<and> grown newId r r'"
proof -
  note o = rowsOkD [OF r(1)]
  note t = o(1) [unfolded treeOk_items]
  have inj: "inj newId" using g by (simp add: goodIds_def)
  have old: "newId m \<notin> itemId ` set (cr_items r)" if "cr_fresh r \<le> m" for m
    using newId_unused [OF g o(4) that] by (auto simp: usedIds_def)
  have mids: "itemId ` set made = newId ` {cr_fresh r..<n}" using map_image_eq [of itemId made] ids(1) by (metis list.set_map set_upt)
  have dist: "distinct (map itemId (cr_items r @ made))"
  proof -
    have "distinct (map newId [cr_fresh r..<n])" using inj by (auto simp: distinct_map intro: inj_on_subset)
    moreover have "set (map itemId (cr_items r)) \<inter> set (map newId [cr_fresh r..<n]) = {}"
      using old unfolding set_map set_upt disjoint_iff by (metis atLeastLessThan_iff imageE)
    ultimately show ?thesis unfolding map_append ids(1) distinct_append using o(5) by blast
  qed
  have "[] \<notin> newId ` {cr_fresh r..<n}" using g unfolding goodIds_def by (metis imageE)
  then have nonempty: "[] \<notin> set (map itemId (cr_items r @ made))" using t by (simp add: mids)
  have lp: "liveParents (cr_items r @ made)"
    unfolding liveParents_def
  proof (intro ballI impI allI)
    fix c p assume c: "c \<in> set (cr_items r @ made)" "isLive c" "itemParent c = Some p"
    show "\<exists>q \<in> set (cr_items r @ made). itemId q = p \<and> isLive q \<and> itemList q = itemList c"
    proof (cases "c \<in> set made")
      case True
      then show ?thesis using parents [OF True c(3)] made [OF True] by auto
    next
      case False
      then have "c \<in> set (cr_items r)" using c(1) by simp
      then obtain q where "q \<in> set (cr_items r)" "itemId q = p" "isLive q" "itemList q = itemList c"
        using liveParentsD [of "cr_items r" c p] t c(2,3) by blast
      then show ?thesis by auto
    qed
  qed
  have rp: "realParents (cr_items r @ made)"
    unfolding realParents_def
  proof (intro ballI notI)
    fix i assume i: "i \<in> set (cr_items r @ made)" "itemParent i = Some []"
    then have "i \<in> set made" using t by (auto simp: realParents_def)
    then obtain q where "q \<in> set (cr_items r @ made)" "itemId q = []" using parents i(2) by blast
    then show False using nonempty by force
  qed
  have tree: "treeOk (nodes (cr_items r @ made))"
  proof -
    have live: "isLive i" if "i \<in> set made" for i using made [OF that] by blast
    have b: "batchLinks (cr_items r @ made) b = batchLinks (cr_items r) b" "batchLists (cr_items r @ made) = batchLists (cr_items r)" for b
      by (rule batches_push, erule live)+
    have o: "batchLists (cr_items r)" "batchLinks (cr_items r) b ^^ MAX_DEPTH = {}" for b using t by blast+
    show ?thesis unfolding treeOk_items b by (intro conjI allI dist nonempty rp lp levels o)
  qed
  have "filter isLive made = made" using made by (simp add: filter_id_conv)
  then have few: "length (filter isLive (cr_items r @ made)) \<le> MAX_ITEMS" using room by simp
  have task: "\<forall>i \<in> set (cr_items r @ made). itemTask i = t" using r(1) made by (auto simp: rowsOk_def)
  have "itemIdsUsed (cr_items r @ made) = itemIdsUsed (cr_items r) \<union> newId ` {cr_fresh r..<n}"
    unfolding mids [symmetric] using made by (auto simp: itemIdsUsed_def)
  then have used: "itemIdsUsed (cr_items r @ made) \<subseteq> newId ` {..<n}" using o(4) ids(2) unfolding usedIds_split by force
  have "rowsOk newId t r'" unfolding r'_def by (rule rowsOk_items [OF r(1) tree few task used ids(2)])
  moreover have "homed r'" using r(2) made l unfolding homed_def r'_def by fastforce
  moreover have "grown newId r r'"
    by (rule grownI [where ni = "[cr_fresh r..<n]" and nl = "[]"]) (use ids in \<open>simp_all add: r'_def\<close>)
  ultimately show ?thesis by blast
qed

section \<open>Adding\<close>

lemma placed_items:
  fixes at :: instant and l :: ident and p after :: "ident option" and ids :: "ident list"
  assumes "rowsOk newId t (r\<lparr>cr_items := is, cr_fresh := n\<rparr>) \<and> homed (r\<lparr>cr_items := is, cr_fresh := n\<rparr>)
      \<and> grown newId r0 (r\<lparr>cr_items := is, cr_fresh := n\<rparr>)"
  defines "r' \<equiv> r\<lparr>cr_items := fst (placeInGroup is l p ids after at), cr_fresh := n\<rparr>"
  shows "rowsOk newId t r' \<and> homed r' \<and> grown newId r0 r'"
proof -
  let ?r = "r\<lparr>cr_items := is, cr_fresh := n\<rparr>"
  have "list_all2 sameShape (fst (placeInGroup is l p ids after at)) (cr_items ?r)" by (simp add: placeInGroup_shape)
  from rowsOk_reshaped [of newId t ?r, OF _ _ this] assms(1)
  moreover have "r' = ?r\<lparr>cr_items := fst (placeInGroup is l p ids after at)\<rparr>" unfolding r'_def by (cases r) simp
  ultimately have "rowsOk newId t r' \<and> homed r' \<and> grown newId ?r r'" by simp
  then show ?thesis using assms(1) grown_trans by blast
qed

lemma placeParent_Ok:
  "placeParent r place = Ok (Some p) \<Longrightarrow> p \<in> set (cr_items r) \<and> isLive p"
  unfolding placeParent_def
  by (auto split: option.splits dest: liveItem_Ok find_mem)

lemma placeFor_parts:
  assumes "placeFor newId t actor at place r = Ok ((l, parent), r')"
  shows "placeParent r place = Ok parent"
    and "(r' = r \<and> l \<in> set (cr_lists r) \<and> isLiveList l) \<or> firstList newId t actor at r = (l, r')"
    and "\<forall>p. parent = Some p \<longrightarrow> liveList r (itemList p) = Ok l \<and> r' = r \<and> depthOf (cr_items r) (Some (itemId p)) + 1 < int MAX_DEPTH"
proof -
  obtain q where q: "placeParent r place = Ok q" using assms unfolding placeFor_def by (simp only: thenDo_Ok) blast
  have "q = parent" using assms q unfolding placeFor_def by (cases q) (simp_all split: option.splits if_splits)
  then show p: "placeParent r place = Ok parent" using q by simp
  show "(r' = r \<and> l \<in> set (cr_lists r) \<and> isLiveList l) \<or> firstList newId t actor at r = (l, r')"
  proof (cases parent)
    case None
    then have "\<exists>x. (r' = r \<and> liveList r x = Ok l) \<or> firstList newId t actor at r = (l, r')"
      using assms p unfolding placeFor_def by (simp split: option.splits) blast+
    then show ?thesis using liveList_Ok by blast
  next
    case (Some x)
    then have "r' = r \<and> liveList r (itemList x) = Ok l"
      using assms p unfolding placeFor_def by (cases "given (pl_list place)") (clarsimp split: if_splits)+
    then show ?thesis using liveList_Ok by blast
  qed
  show "\<forall>p. parent = Some p \<longrightarrow> liveList r (itemList p) = Ok l \<and> r' = r \<and> depthOf (cr_items r) (Some (itemId p)) + 1 < int MAX_DEPTH"
    using assms p unfolding placeFor_def by (cases parent; cases "given (pl_list place)") (clarsimp split: if_splits)+
qed

lemma placeFor_ok:
  assumes "goodIds newId" "rowsOk newId t r" "homed r" "placeFor newId t actor at place r = Ok ((l, parent), r')"
  shows "rowsOk newId t r' \<and> homed r' \<and> grown newId r r' \<and> cr_items r' = cr_items r \<and> l \<in> set (cr_lists r') \<and> isLiveList l"
  using placeFor_parts(2) [OF assms(4)] firstList_ok [OF assms(1,2), of actor at l r'] assms(2,3) by auto

lemma placeFor_parent:
  assumes "placeFor newId t actor at place r = Ok ((l, Some p), r')"
  shows "p \<in> set (cr_items r) \<and> isLive p \<and> itemList p = Some (listId l) \<and> depthOf (cr_items r) (Some (itemId p)) + 1 < int MAX_DEPTH"
  using placeFor_parts [OF assms] placeParent_Ok [of r place p] liveList_Ok [of r "itemList p" l] by auto

lemma add_keeps:
  assumes g: "goodIds newId"
  shows "keeps newId t (addChange newId t actor at texts assignee due place)"
proof (rule keepsI)
  fix r v r' assume r: "rowsOk newId t r" "homed r" and c: "addChange newId t actor at texts assignee due place r = Ok (v, r')"
  obtain l parent r1 where p: "placeFor newId t actor at place r = Ok ((l, parent), r1)" and room: "length (filter isLive (cr_items r)) + length texts \<le> MAX_ITEMS"
    using c by (auto simp: addChange_def roomFor_def split: if_splits)
  note o = placeFor_ok [OF g r p]
  have par: "q \<in> set (cr_items r1) \<and> isLive q \<and> itemList q = Some (listId l) \<and> depthOf (cr_items r1) (Some (itemId q)) + 1 < int MAX_DEPTH"
    if "parent = Some q" for q using placeFor_parent p o unfolding that by metis
  define ids where "ids = drawn newId (cr_fresh r1) (length texts)"
  define made where "made = map2 (\<lambda>k text. newItemRow k t (listId l) text (map_option itemId parent) 0 assignee due at) ids texts"
  have r': "\<exists>after. r' = r1\<lparr>cr_items := fst (placeInGroup (cr_items r1 @ made) (listId l) (map_option itemId parent) ids after at),
      cr_fresh := cr_fresh r1 + length texts\<rparr>"
    using c p room by (auto simp: addChange_def roomFor_def Let_def made_def ids_def)
  have mids: "map itemId made = map newId [cr_fresh r1..<cr_fresh r1 + length texts]"
    by (rule nth_equalityI) (simp_all add: made_def ids_def drawn_def newItemRow_def)
  have len: "length made = length texts" by (simp add: made_def ids_def drawn_def)
  have made: "isLive i \<and> itemTask i = t \<and> itemBatch i = None \<and> itemList i = Some (listId l)" "itemParent i = map_option itemId parent"
    if "i \<in> set made" for i
    using that by (auto simp: made_def newItemRow_def isLive_def)
  have tree: "treeOk (nodes (cr_items r1))" using o rowsOkD(1) by blast
  have levels: "liveLinks (cr_items r1 @ made) ^^ MAX_DEPTH = {}"
  proof (rule levels_ok [where L = "itemId ` set made"])
    let ?R = "liveLinks (cr_items r1 @ made)" and ?L = "itemId ` set made"
    have R: "?R = liveLinks (cr_items r1) \<union> {(k, p). k \<in> ?L \<and> map_option itemId parent = Some p}"
    proof (rule set_eqI, clarify)
      fix k p
      have "(\<exists>i \<in> set made. isLive i \<and> itemId i = k \<and> itemParent i = Some p) \<longleftrightarrow> k \<in> ?L \<and> map_option itemId parent = Some p"
        using made(1) by (auto simp: made(2))
      then show "(k, p) \<in> ?R \<longleftrightarrow> (k, p) \<in> liveLinks (cr_items r1) \<union> {(k, p). k \<in> ?L \<and> map_option itemId parent = Some p}"
        unfolding liveLinks_iff Un_iff mem_Collect_eq case_prod_conv set_append bex_Un by blast
    qed
    have fresh: "k \<notin> ?L" if k: "k \<in> itemId ` set (cr_items r1)" for k
    proof -
      have "newId m \<notin> itemId ` set (cr_items r1)" if "cr_fresh r1 \<le> m" for m
        using newId_unused [OF g rowsOkD(4) that] o by (auto simp: usedIds_def)
      moreover have "?L = newId ` {cr_fresh r1..<cr_fresh r1 + length texts}" using mids by (metis list.set_map set_upt)
      ultimately show ?thesis using k by (metis atLeastLessThan_iff imageE)
    qed
    have up: "p \<in> itemId ` set (cr_items r1)" if "(k, p) \<in> ?R" for k p
    proof -
      have "liveParents (cr_items r1)" using tree by (simp add: treeOk_items)
      then show ?thesis using that par link_ends(2) [of "cr_items r1" k p] unfolding R by auto
    qed
    show "\<And>u v. (u, v) \<in> ?R \<Longrightarrow> u \<notin> ?L \<Longrightarrow> v \<notin> ?L" using up fresh by blast
    have "?R \<inter> ?L \<times> ?L = {}" using up fresh by blast
    then show "(?R \<inter> ?L \<times> ?L) ^^ MAX_DEPTH = {}" by (simp only: no_links)
    have A: "?R \<inter> (- ?L) \<times> (- ?L) \<subseteq> liveLinks (cr_items r1)" unfolding R by blast
    show "(?R \<inter> (- ?L) \<times> (- ?L)) ^^ MAX_DEPTH = {}"
      by (rule fewer_levels [OF _ A]) (use tree in \<open>simp add: treeOk_items\<close>)
    fix k p m j x a
    assume kp: "(k, p) \<in> ?R" "k \<in> ?L" "p \<notin> ?L" and m: "(x, k) \<in> (?R \<inter> ?L \<times> ?L) ^^ m" and j: "(p, a) \<in> (?R \<inter> (- ?L) \<times> (- ?L)) ^^ j"
    have "m = 0" using m \<open>?R \<inter> ?L \<times> ?L = {}\<close> by (cases m) auto
    have "k \<notin> itemId ` set (cr_items r1)" using kp(2) fresh by blast
    then obtain q where q: "parent = Some q" "p = itemId q" using kp(1) unfolding R by (auto simp: liveLinks_iff)
    have "(p, a) \<in> liveRel (nodes (cr_items r1)) ^^ j" using j relpow_mono_rel [OF A] by (auto simp: liveRel_nodes)
    moreover have "p \<noteq> []" using par [OF q(1)] tree [unfolded treeOk_items] q(2) by force
    ultimately have "int j \<le> depthOf (cr_items r1) (Some p)" by (rule depthOf_chain [OF tree])
    then show "m + 1 + j < MAX_DEPTH" using par [OF q(1)] q(2) \<open>m = 0\<close> by simp
  qed
  have parents: "\<exists>q \<in> set (cr_items r1 @ made). itemId q = p \<and> isLive q \<and> itemList q = Some (listId l)"
    if "i \<in> set made" "itemParent i = Some p" for i p
    using that made(2) [OF that(1)] par by auto
  have "rowsOk newId t (r1\<lparr>cr_items := cr_items r1 @ made, cr_fresh := cr_fresh r1 + length texts\<rparr>)
      \<and> homed (r1\<lparr>cr_items := cr_items r1 @ made, cr_fresh := cr_fresh r1 + length texts\<rparr>)
      \<and> grown newId r1 (r1\<lparr>cr_items := cr_items r1 @ made, cr_fresh := cr_fresh r1 + length texts\<rparr>)"
  proof (rule push_items [OF g])
    show "map itemId made = map newId [cr_fresh r1..<cr_fresh r1 + length texts]" by (rule mids)
    show "\<And>i p. i \<in> set made \<Longrightarrow> itemParent i = Some p \<Longrightarrow> \<exists>q \<in> set (cr_items r1 @ made). itemId q = p \<and> isLive q \<and> itemList q = Some (listId l)"
      by (rule parents)
    show "liveLinks (cr_items r1 @ made) ^^ MAX_DEPTH = {}" by (rule levels)
  qed (use o room len made(1) in simp_all)
  from placed_items [OF this] r' have "rowsOk newId t r' \<and> homed r' \<and> grown newId r1 r'" by blast
  then show "rowsOk newId t r' \<and> homed r' \<and> grown newId r r'" using o grown_trans by blast
qed

section \<open>The arranged items are the live ones\<close>

lemma walkAll_rows:
  assumes "\<And>k es d t. k \<in> set ks \<Longrightarrow> w k = Some (es, d, t) \<Longrightarrow> list_all P es"
  shows "walkAll w ks = Some (es, d, t) \<Longrightarrow> list_all P es"
  using assms
proof (induction ks arbitrary: es d t)
  case (Cons k ks)
  then obtain es1 d1 t1 es2 d2 t2 where "w k = Some (es1, d1, t1)" "walkAll w ks = Some (es2, d2, t2)" "es = es1 @ es2"
    by (auto split: option.splits)
  moreover have "list_all P es1" using Cons.prems(2) [of k] calculation(1) by simp
  moreover have "list_all P es2" by (rule Cons.IH [OF calculation(2)]) (use Cons.prems(2) in auto)
  ultimately show ?case by simp
qed simp

definition shownFrom :: "itemRow list \<Rightarrow> arrangedItem \<Rightarrow> bool" where
  "shownFrom live a \<longleftrightarrow> (\<exists>i \<in> set live. \<exists>d. ai_row a = shownRow i d)"

lemma walk_rows: "walk fuel live depth row = Some (es, d, t) \<Longrightarrow> row \<in> set live \<Longrightarrow> list_all (shownFrom live) es"
proof (induction fuel arbitrary: depth row es d t)
  case (Suc fuel)
  have row: "shownFrom live \<lparr>ai_row = shownRow row depth, ai_depth = depth, ai_childCount = c, ai_subDone = s, ai_subTotal = u\<rparr>" for c s u
    using Suc.prems(2) by (auto simp: shownFrom_def)
  show ?case
  proof (cases "childrenOf live (itemId row) = []")
    case True
    then have "es = [\<lparr>ai_row = shownRow row depth, ai_depth = depth, ai_childCount = 0, ai_subDone = 0, ai_subTotal = 0\<rparr>]"
      using Suc.prems(1) by simp
    then show ?thesis using row by simp
  next
    case False
    then obtain es1 d1 t1 where w: "walkAll (walk fuel live (depth + 1)) (childrenOf live (itemId row)) = Some (es1, d1, t1)"
        "\<exists>c s u. es = \<lparr>ai_row = shownRow row depth, ai_depth = depth, ai_childCount = c, ai_subDone = s, ai_subTotal = u\<rparr> # es1"
      using Suc.prems(1) by (auto simp: Let_def split: option.splits)
    have "list_all (shownFrom live) es1"
      by (rule walkAll_rows [OF _ w(1)]) (use Suc.IH childrenOf_subset [of live "itemId row"] in blast)
    then show ?thesis using w(2) row by auto
  qed
qed simp

lemma arrangeLists_rows: "arrangeLists fuel live ls = Some (als, es, d, t) \<Longrightarrow> list_all (shownFrom live) es"
proof (induction ls arbitrary: als es d t)
  case (Cons l ls)
  then obtain es1 d1 t1 als2 es2 d2 t2 where
    w: "walkAll (walk fuel live 0) (childrenOf live (''list:'' @ listId l)) = Some (es1, d1, t1)"
    and r: "arrangeLists fuel live ls = Some (als2, es2, d2, t2)" "es = es1 @ es2"
    by (auto split: option.splits)
  have "list_all (shownFrom live) es1"
    by (rule walkAll_rows [OF _ w]) (use walk_rows childrenOf_subset [of live "''list:'' @ listId l"] in blast)
  then show ?case using Cons.IH [OF r(1)] r(2) by simp
qed simp

lemma arranged_row:
  assumes "goodIds newId" "rowsOk newId t r" "homed r" "a \<in> set (arrangedItems r)"
  obtains i where "i \<in> set (cr_items r)" "isLive i" "itemId (ai_row a) = itemId i" "itemTask (ai_row a) = itemTask i"
    "itemParent (ai_row a) = None \<or> itemParent (ai_row a) = itemParent i"
proof -
  have "listId l \<noteq> []" if "l \<in> set (cr_lists r)" for l
  proof -
    have "listId l \<in> newId ` {..<cr_fresh r}" using rowsOkD(4) [OF assms(2)] that by (auto simp: usedIds_def)
    then show ?thesis using assms(1) unfolding goodIds_def by (metis imageE)
  qed
  then have "\<not> isLost (cr_lists r) i" if i: "i \<in> set (cr_items r)" for i
    using assms(3) i unfolding homed_def isLost_def by (fastforce simp: mem_liveLists split: option.split)
  then have "withHome (cr_lists r) (cr_items r) = (cr_lists r, cr_items r)" by (simp add: withHome_def filter_False)
  then obtain als d t where *: "arrangeLists (Suc (length (liveItems (cr_lists r) (cr_items r)))) (liveItems (cr_lists r) (cr_items r)) (liveLists (cr_lists r))
      = Some (als, arrangedItems r, d, t)"
    using assms(4) unfolding arrangedItems_def arrange_def by (auto simp: Let_def split: option.splits)
  have "shownFrom (liveItems (cr_lists r) (cr_items r)) a"
    using arrangeLists_rows [OF *] assms(4) by (simp add: list_all_iff)
  then obtain i e where "i \<in> set (liveItems (cr_lists r) (cr_items r))" "ai_row a = shownRow i e" by (auto simp: shownFrom_def)
  then show ?thesis using that [of i] by (auto simp: liveItems_def shownRow_def)
qed

section \<open>Copies\<close>

text \<open>
  What the loop makes: the next ids in order, and each copy \<open>c\<close> of an arranged item \<open>a\<close> under what \<open>a\<close> is
  under (a root), under the copy of \<open>a\<close>'s parent, or at the top. \<open>g\<close> names the original of a new id.
\<close>

definition copyOf :: "ident list \<Rightarrow> ident list \<Rightarrow> ident \<Rightarrow> (ident \<Rightarrow> ident) \<Rightarrow> ident set \<Rightarrow> arrangedItem \<Rightarrow> itemRow \<Rightarrow> bool" where
  "copyOf wanted rootIds l g made a c \<longleftrightarrow>
     itemId (ai_row a) \<in> set wanted \<and> g (itemId c) = itemId (ai_row a) \<and> itemTask c = itemTask (ai_row a) \<and> itemList c = Some l
     \<and> isLive c \<and> itemBatch c = None
     \<and> (itemParent c = None \<or> (itemId (ai_row a) \<in> set rootIds \<and> itemParent c = itemParent (ai_row a))
        \<or> (\<exists>p q. itemParent (ai_row a) = Some p \<and> itemParent c = Some q \<and> g q = p \<and> q \<in> made))"

definition keptOf :: "ident list \<Rightarrow> arrangedItem list \<Rightarrow> ident list" where
  "keptOf wanted as = map (itemId \<circ> ai_row) (filter (\<lambda>a. itemId (ai_row a) \<in> set wanted) as)"

lemma copyLoop_ids:
  "copyLoop newId wanted rootIds l at ids n as = (roots, all, n')
    \<Longrightarrow> map itemId all = map newId [n..<n'] \<and> n' = n + length (keptOf wanted as)"
proof (induction as arbitrary: ids n roots all n')
  case Nil
  then show ?case by (simp add: keptOf_def)
next
  case (Cons a rest)
  show ?case
  proof (cases "itemId (ai_row a) \<in> set wanted")
    case False
    then show ?thesis using Cons by (simp add: keptOf_def)
  next
    case True
    let ?i = "ai_row a"
    let ?copy = "newItemRow (newId n) (itemTask ?i) l (itemText ?i) (if itemId ?i \<in> set rootIds then itemParent ?i
       else ids (case itemParent ?i of None \<Rightarrow> [] | Some p \<Rightarrow> p)) (itemPos ?i) (itemAssignee ?i) (itemDue ?i) at"
    obtain roots' all' n1 where c: "copyLoop newId wanted rootIds l at (ids(itemId ?i \<mapsto> itemId ?copy)) (Suc n) rest = (roots', all', n1)"
      by (cases "copyLoop newId wanted rootIds l at (ids(itemId ?i \<mapsto> itemId ?copy)) (Suc n) rest") auto
    have "all = ?copy # all'" "n' = n1" using Cons.prems True c by (auto simp: Let_def)
    moreover have "n' = Suc n + length (keptOf wanted rest)" "map itemId all' = map newId [Suc n..<n']"
      using Cons.IH [OF c] \<open>n' = n1\<close> by simp_all
    moreover have "[n..<n'] = n # [Suc n..<n']" using calculation(3) by (intro upt_conv_Cons) simp
    ultimately show ?thesis using True by (simp add: newItemRow_def keptOf_def)
  qed
qed

lemma copyLoop_copies:
  "copyLoop newId wanted rootIds l at ids n as = (roots, all, n')
    \<Longrightarrow> (\<And>j. j < length (keptOf wanted as) \<Longrightarrow> g (newId (n + j)) = keptOf wanted as ! j)
    \<Longrightarrow> (\<And>p q. ids p = Some q \<Longrightarrow> q \<in> newId ` {n0..<n} \<and> g q = p) \<Longrightarrow> n0 \<le> n
    \<Longrightarrow> [] \<notin> (itemId \<circ> ai_row) ` set as \<Longrightarrow> ids [] = None
    \<Longrightarrow> \<forall>c \<in> set all. \<exists>a \<in> set as. copyOf wanted rootIds l g (newId ` {n0..<n'}) a c"
proof (induction as arbitrary: ids n roots all n')
  case Nil
  then show ?case by simp
next
  case (Cons a rest)
  show ?case
  proof (cases "itemId (ai_row a) \<in> set wanted")
    case False
    have "\<forall>c \<in> set all. \<exists>a \<in> set rest. copyOf wanted rootIds l g (newId ` {n0..<n'}) a c"
      by (rule Cons.IH [of ids n]) (use Cons.prems False in \<open>auto simp: keptOf_def\<close>)
    then show ?thesis by auto
  next
    case True
    let ?i = "ai_row a"
    let ?copy = "newItemRow (newId n) (itemTask ?i) l (itemText ?i) (if itemId ?i \<in> set rootIds then itemParent ?i
       else ids (case itemParent ?i of None \<Rightarrow> [] | Some p \<Rightarrow> p)) (itemPos ?i) (itemAssignee ?i) (itemDue ?i) at"
    let ?ids = "ids(itemId ?i \<mapsto> itemId ?copy)"
    obtain roots' all' n1 where c: "copyLoop newId wanted rootIds l at ?ids (Suc n) rest = (roots', all', n1)"
      by (cases "copyLoop newId wanted rootIds l at ?ids (Suc n) rest") auto
    have all: "all = ?copy # all'" "n' = n1" using Cons.prems(1) True c by (auto simp: Let_def)
    have n1: "Suc n \<le> n'" using copyLoop_ids [OF c] all(2) by simp
    have kept: "keptOf wanted (a # rest) = itemId ?i # keptOf wanted rest" using True by (simp add: keptOf_def)
    have gn: "g (newId n) = itemId ?i" using Cons.prems(2) [of 0] kept by simp
    have "\<forall>c \<in> set all'. \<exists>a \<in> set rest. copyOf wanted rootIds l g (newId ` {n0..<n1}) a c"
    proof (rule Cons.IH [OF c])
      fix j assume "j < length (keptOf wanted rest)"
      then show "g (newId (Suc n + j)) = keptOf wanted rest ! j" using Cons.prems(2) [of "Suc j"] kept by simp
    next
      fix p q assume "?ids p = Some q"
      then show "q \<in> newId ` {n0..<Suc n} \<and> g q = p"
        using Cons.prems(3) [of p q] Cons.prems(4) gn by (auto simp: newItemRow_def split: if_splits)
    qed (use Cons.prems(4,5,6) in \<open>auto simp: newItemRow_def\<close>)
    moreover have "copyOf wanted rootIds l g (newId ` {n0..<n'}) a ?copy"
    proof (cases "itemParent ?i")
      case None
      then show ?thesis using True gn Cons.prems(6) by (auto simp: copyOf_def newItemRow_def isLive_def)
    next
      case (Some p)
      have "newId ` {n0..<n} \<subseteq> newId ` {n0..<n'}" using n1 by auto
      then show ?thesis using True gn Some Cons.prems(3) [of p]
        by (cases "ids p") (auto simp: copyOf_def newItemRow_def isLive_def)
    qed
    ultimately show ?thesis using all by auto
  qed
qed


text \<open>
  What \<open>copySubtree\<close> makes, with the originals named by \<open>f\<close> (an old id is its own): every link of a copy is a
  link of the originals, and leads to a copy or, from the copy of a root, to the root's parent.
\<close>

definition copyMap :: "(nat \<Rightarrow> ident) \<Rightarrow> itemRow list \<Rightarrow> ident list \<Rightarrow> nat \<Rightarrow> nat \<Rightarrow> itemRow list \<Rightarrow> (ident \<Rightarrow> ident) \<Rightarrow> bool" where
  "copyMap newId is rootIds n n' all f \<longleftrightarrow>
     map itemId all = map newId [n..<n'] \<and> n \<le> n' \<and> (\<forall>k. k \<notin> newId ` {n..<n'} \<longrightarrow> f k = k)
     \<and> (\<forall>c \<in> set all. \<forall>p. itemParent c = Some p \<longrightarrow> (f (itemId c), f p) \<in> liveLinks is
          \<and> (p \<in> newId ` {n..<n'} \<or> (\<exists>i \<in> set is. isLive i \<and> itemId i \<in> set rootIds \<and> itemParent i = Some p)))"

lemma copyMapD:
  assumes "copyMap newId is rootIds n n' all f"
  shows "map itemId all = map newId [n..<n']" "n \<le> n'" "\<And>k. k \<notin> newId ` {n..<n'} \<Longrightarrow> f k = k"
    and "\<And>c p. c \<in> set all \<Longrightarrow> itemParent c = Some p \<Longrightarrow> (f (itemId c), f p) \<in> liveLinks is"
    and "\<And>c p. c \<in> set all \<Longrightarrow> itemParent c = Some p \<Longrightarrow> p \<notin> newId ` {n..<n'}
      \<Longrightarrow> \<exists>i \<in> set is. isLive i \<and> itemId i \<in> set rootIds \<and> itemParent i = Some p"
  using assms unfolding copyMap_def by blast+

lemma copy_made:
  assumes g: "goodIds newId" and r: "rowsOk newId t r" "homed r"
    and c: "copySubtree newId r n rootIds l at = (roots, all, n')" and n: "cr_fresh r \<le> n"
  obtains f where "copyMap newId (cr_items r) rootIds n n' all f"
    "\<forall>c \<in> set all. isLive c \<and> itemTask c = t \<and> itemBatch c = None \<and> itemList c = Some l"
proof -
  obtain wanted where loop: "copyLoop newId wanted rootIds l at Map.empty n (arrangedItems r) = (roots, all, n')"
    using c by (simp add: copySubtree_def Let_def)
  let ?as = "arrangedItems r"
  note ids = copyLoop_ids [OF loop]
  have inj: "inj newId" using g by (simp add: goodIds_def)
  define f where "f k = (if k \<in> newId ` {n..<n'} then keptOf wanted ?as ! (inv newId k - n) else k)" for k
  have f_new: "f (newId (n + j)) = keptOf wanted ?as ! j" if "j < length (keptOf wanted ?as)" for j
    using that ids inj by (simp add: f_def)
  have f_old: "f k = k" if "k \<notin> newId ` {n..<n'}" for k using that by (simp add: f_def)
  have used: "itemIdsUsed (cr_items r) \<subseteq> newId ` {..<n}" using rowsOkD(4) [OF r(1)] n unfolding usedIds_split by force
  have old: "itemId i \<notin> newId ` {n..<n'}" if "i \<in> set (cr_items r)" for i
  proof
    assume "itemId i \<in> newId ` {n..<n'}"
    moreover have "itemId i \<in> newId ` {..<n}" using that used by (auto simp: itemIdsUsed_def)
    ultimately show False using inj by (auto simp: inj_eq)
  qed
  note tree = rowsOkD(1) [OF r(1), unfolded treeOk_items]
  have row: "\<exists>i \<in> set (cr_items r). isLive i \<and> itemId (ai_row a) = itemId i \<and> itemTask (ai_row a) = t
      \<and> (itemParent (ai_row a) = None \<or> itemParent (ai_row a) = itemParent i)" if "a \<in> set ?as" for a
  proof -
    obtain i where i: "i \<in> set (cr_items r)" "isLive i" "itemId (ai_row a) = itemId i" "itemTask (ai_row a) = itemTask i"
        "itemParent (ai_row a) = None \<or> itemParent (ai_row a) = itemParent i"
      by (rule arranged_row [OF g r \<open>a \<in> set ?as\<close>])
    moreover have "itemTask i = t" using r(1) i(1) by (simp add: rowsOk_def)
    ultimately show ?thesis by auto
  qed
  have nonempty: "[] \<notin> (itemId \<circ> ai_row) ` set ?as"
    using row tree by force
  have copies: "\<forall>c \<in> set all. \<exists>a \<in> set ?as. copyOf wanted rootIds l f (newId ` {n..<n'}) a c"
    by (rule copyLoop_copies [OF loop f_new _ order_refl nonempty]) simp_all
  have copy: "\<exists>i \<in> set (cr_items r). isLive i \<and> itemTask c = t \<and> f (itemId c) = itemId i
      \<and> (\<forall>p. itemParent c = Some p \<longrightarrow>
          (itemId i \<in> set rootIds \<and> itemParent i = Some p) \<or> (p \<in> newId ` {n..<n'} \<and> itemParent i = Some (f p)))"
    if "c \<in> set all" for c
  proof -
    obtain a where a: "a \<in> set ?as" "copyOf wanted rootIds l f (newId ` {n..<n'}) a c" using copies \<open>c \<in> set all\<close> by blast
    obtain i where i: "i \<in> set (cr_items r)" "isLive i" "itemId (ai_row a) = itemId i" "itemTask (ai_row a) = t"
        "itemParent (ai_row a) = None \<or> itemParent (ai_row a) = itemParent i" using row [OF a(1)] by blast
    have "(itemId i \<in> set rootIds \<and> itemParent i = Some p) \<or> (p \<in> newId ` {n..<n'} \<and> itemParent i = Some (f p))"
      if "itemParent c = Some p" for p
      using a(2) i(3,5) that unfolding copyOf_def by auto
    then show ?thesis using a(2) i unfolding copyOf_def by (intro bexI [of _ i]) auto
  qed
  have made: "isLive c \<and> itemTask c = t \<and> itemBatch c = None \<and> itemList c = Some l" if "c \<in> set all" for c
    using copies copy [OF that] that unfolding copyOf_def by blast
  have links: "(f (itemId c), f p) \<in> liveLinks (cr_items r)
      \<and> (p \<in> newId ` {n..<n'} \<or> (\<exists>i \<in> set (cr_items r). isLive i \<and> itemId i \<in> set rootIds \<and> itemParent i = Some p))"
    if cp: "c \<in> set all" "itemParent c = Some p" for c p
  proof -
    obtain i where i: "i \<in> set (cr_items r)" "isLive i" "f (itemId c) = itemId i"
        "(itemId i \<in> set rootIds \<and> itemParent i = Some p) \<or> (p \<in> newId ` {n..<n'} \<and> itemParent i = Some (f p))"
      using copy [OF cp(1)] cp(2) by blast
    have "f p = p" if ip: "itemParent i = Some p"
    proof -
      obtain q where "q \<in> set (cr_items r)" "itemId q = p" using liveParentsD [of "cr_items r" i p] tree i(1,2) ip by blast
      then show ?thesis using f_old old by blast
    qed
    then have "itemParent i = Some (f p)" using i(4) by auto
    then show ?thesis using i by (auto simp: liveLinks_iff)
  qed
  have "copyMap newId (cr_items r) rootIds n n' all f"
    unfolding copyMap_def using ids f_old links by (intro conjI ballI allI impI) auto
  then show thesis using that made by blast
qed

text \<open>Their levels: no chain of the copies is longer than the originals'.\<close>

lemma copied_levels:
  assumes g: "goodIds newId" and r: "rowsOk newId t r" and n: "cr_fresh r \<le> n"
    and f: "\<And>k. k \<notin> newId ` {n..<n'} \<Longrightarrow> f k = k"
    and made: "\<And>c p. c \<in> set made \<Longrightarrow> itemParent c = Some p \<Longrightarrow> (f (itemId c), f p) \<in> liveLinks (cr_items r)"
  shows "liveLinks (cr_items r @ made) ^^ MAX_DEPTH = {}"
proof (rule mapped_levels [where f = f])
  note tree = rowsOkD(1) [OF r, unfolded treeOk_items]
  show "liveLinks (cr_items r) ^^ MAX_DEPTH = {}" using tree by blast
  have old: "f k = k" if "k \<in> itemId ` set (cr_items r)" for k
  proof (rule f)
    have "k \<in> usedIds r" using that by (auto simp: usedIds_def)
    then show "k \<notin> newId ` {n..<n'}" using newId_unused [OF g rowsOkD(4) [OF r]] n by fastforce
  qed
  fix u v assume uv: "(u, v) \<in> liveLinks (cr_items r @ made)"
  show "(f u, f v) \<in> liveLinks (cr_items r)"
  proof (cases "(u, v) \<in> liveLinks (cr_items r)")
    case True
    moreover have "liveParents (cr_items r)" using tree by blast
    ultimately have "u \<in> itemId ` set (cr_items r)" "v \<in> itemId ` set (cr_items r)" using link_ends by blast+
    then show ?thesis using True old by simp
  next
    case False
    then obtain c where "c \<in> set made" "itemId c = u" "itemParent c = Some v" using uv unfolding liveLinks_iff set_append by blast
    then show ?thesis using made by blast
  qed
qed

lemma named_same:
  assumes "i \<in> set (updateItem k (\<lambda>i. i\<lparr>itemText := x\<rparr>) all)"
  obtains c where "c \<in> set all" "itemId i = itemId c" "itemParent i = itemParent c" "itemList i = itemList c"
    "isLive i = isLive c" "itemTask i = itemTask c" "itemBatch i = itemBatch c"
  using assms that by (auto simp: updateItem_def isLive_def)

lemma duplicate_keeps:
  assumes g: "goodIds newId"
  shows "keeps newId t (duplicateChange newId at k)"
proof (rule keepsI)
  fix r v r' assume r: "rowsOk newId t r" "homed r" and d: "duplicateChange newId at k r = Ok (v, r')"
  obtain row where row: "liveItem r k = Ok row" using d unfolding duplicateChange_def by (simp only: thenDo_Ok) blast
  then have rk: "row \<in> set (cr_items r)" "itemId row = k" "isLive row" using liveItem_Ok by blast+
  obtain l where l: "l \<in> set (cr_lists r)" "isLiveList l" "itemList row = Some (listId l)" using r(2) rk unfolding homed_def by blast
  obtain roots all n where cs: "copySubtree newId r (cr_fresh r) [k] (listId l) at = (roots, all, n)" by (metis prod_cases3)
  have room: "length (filter isLive (cr_items r)) + length all \<le> MAX_ITEMS"
    using d row rk l(3) cs by (auto simp: duplicateChange_def roomFor_def split: if_splits)
  obtain root rest where roots: "roots = root # rest"
    using d row rk l(3) cs by (cases roots) (auto simp: duplicateChange_def)
  define named where "named = updateItem root (\<lambda>i. i\<lparr>itemText := withCopy (itemText row)\<rparr>) all"
  have r': "r' = r\<lparr>cr_items := fst (placeInGroup (cr_items r @ named) (listId l) (itemParent row) [root] (Some k) at), cr_fresh := n\<rparr>"
    using d row rk l(3) cs roots by (auto simp: duplicateChange_def named_def Let_def)
  obtain f where "copyMap newId (cr_items r) [k] (cr_fresh r) n all f"
    and made: "\<forall>c \<in> set all. isLive c \<and> itemTask c = t \<and> itemBatch c = None \<and> itemList c = Some (listId l)"
    by (rule copy_made [OF g r cs order_refl])
  note f = copyMapD(1,2,3) [OF this(1)] and links = copyMapD(4) [OF this(1)] and out = copyMapD(5) [OF this(1)]
  have "map itemId named = map itemId all" by (auto simp: named_def updateItem_def)
  then have ids: "map itemId named = map newId [cr_fresh r..<n]" using f(1) by simp
  have parents: "\<exists>q \<in> set (cr_items r @ named). itemId q = p \<and> isLive q \<and> itemList q = Some (listId l)"
    if i: "i \<in> set named" "itemParent i = Some p" for i p
  proof -
    obtain c where c: "c \<in> set all" "itemParent c = Some p" using i by (metis named_def named_same)
    show ?thesis
    proof (cases "p \<in> newId ` {cr_fresh r..<n}")
      case True
      then have "p \<in> itemId ` set named" using map_image_eq [of itemId named] ids by (metis list.set_map set_upt)
      then obtain q where q: "q \<in> set named" "itemId q = p" by blast
      then obtain c' where "c' \<in> set all" "isLive q = isLive c'" "itemList q = itemList c'" by (metis named_def named_same)
      then show ?thesis using made q by auto
    next
      case False
      then obtain j where "j \<in> set (cr_items r)" "isLive j" "itemId j = k" "itemParent j = Some p" using out [OF c] by auto
      moreover from this have "j = row" using same_row [OF rowsOkD(5) [OF r(1)]] rk by metis
      ultimately show ?thesis using rowsOkD(1) [OF r(1), unfolded treeOk_items] l(3) liveParentsD [of "cr_items r" row p] by (metis Un_iff set_append)
    qed
  qed
  have nlinks: "(f (itemId i), f p) \<in> liveLinks (cr_items r)" if "i \<in> set named" "itemParent i = Some p" for i p
    using links that by (metis named_def named_same)
  have nmade: "isLive i \<and> itemTask i = t \<and> itemBatch i = None \<and> itemList i = Some (listId l)" if "i \<in> set named" for i
    using made that by (metis named_def named_same)
  have "rowsOk newId t (r\<lparr>cr_items := cr_items r @ named, cr_fresh := n\<rparr>) \<and> homed (r\<lparr>cr_items := cr_items r @ named, cr_fresh := n\<rparr>)
      \<and> grown newId r (r\<lparr>cr_items := cr_items r @ named, cr_fresh := n\<rparr>)"
  proof (rule push_items [OF g r ids f(2) nmade l(1,2) parents])
    show "liveLinks (cr_items r @ named) ^^ MAX_DEPTH = {}" by (rule copied_levels [OF g r(1) order_refl f(3) nlinks])
    show "length (filter isLive (cr_items r)) + length named \<le> MAX_ITEMS" using room by (simp add: named_def updateItem_def)
  qed
  then show "rowsOk newId t r' \<and> homed r' \<and> grown newId r r'" unfolding r' by (rule placed_items)
qed

lemma duplicate_list_keeps:
  assumes g: "goodIds newId"
  shows "keeps newId t (duplicateListChange newId t actor at k)"
proof (rule keepsI)
  fix r v r' assume r: "rowsOk newId t r" "homed r" and d: "duplicateListChange newId t actor at k r = Ok (v, r')"
  obtain source where s: "liveList r (Some k) = Ok source" using d unfolding duplicateListChange_def by (simp only: thenDo_Ok) blast
  define copy where "copy = newListRow (newId (cr_fresh r)) t (withCopy (listTitle source)) (int (length (liveLists (cr_lists r)))) actor at"
  let ?roots = "map itemId (siblingsOf (cr_items r) k None)"
  obtain roots all n where cs: "copySubtree newId r (Suc (cr_fresh r)) ?roots (listId copy) at = (roots, all, n)" by (metis prod_cases3)
  have room: "length (filter isLive (cr_items r)) + length all \<le> MAX_ITEMS" "length (liveLists (cr_lists r)) + 1 \<le> MAX_LISTS"
    using d s cs by (auto simp: duplicateListChange_def roomFor_def roomForList_def copy_def [symmetric] Let_def split: if_splits)
  obtain order where r': "r' = r\<lparr>cr_lists := orderLists order at (cr_lists r @ [copy]), cr_items := cr_items r @ all, cr_fresh := n\<rparr>"
    using d s cs room by (auto simp: duplicateListChange_def roomFor_def roomForList_def copy_def [symmetric] Let_def)
  define r1 where "r1 = r\<lparr>cr_lists := orderLists order at (cr_lists r @ [copy]), cr_fresh := Suc (cr_fresh r)\<rparr>"
  have r1: "rowsOk newId t r1 \<and> (homed r \<longrightarrow> homed r1) \<and> grown newId r r1"
    unfolding r1_def by (rule push_list [OF g r(1) room(2) copy_def orderLists_shape])
  obtain l where l: "l \<in> set (cr_lists r1)" "isLiveList l" "listId l = listId copy"
  proof -
    have "listId copy \<in> set (map listId (filter isLiveList (cr_lists r1)))"
      unfolding r1_def by (simp add: listShape_fields(6) [OF orderLists_shape] copy_def newListRow_def isLiveList_def)
    then show ?thesis using that by auto
  qed
  obtain f where "copyMap newId (cr_items r) ?roots (Suc (cr_fresh r)) n all f"
    and made: "\<forall>c \<in> set all. isLive c \<and> itemTask c = t \<and> itemBatch c = None \<and> itemList c = Some (listId copy)"
    by (rule copy_made [OF g r cs]) simp
  note f = copyMapD(1,2,3) [OF this(1)] and links = copyMapD(4) [OF this(1)] and out = copyMapD(5) [OF this(1)]
  have top: "itemParent i = None" if i: "i \<in> set (cr_items r)" "itemId i \<in> set ?roots" for i
  proof -
    obtain j where j: "j \<in> set (siblingsOf (cr_items r) k None)" "itemId j = itemId i" using i(2) by auto
    then have "j \<in> set (cr_items r)" "itemParent j = None" by (auto simp: siblingsOf_def)
    then show ?thesis using same_row [OF rowsOkD(5) [OF r(1)]] i(1) j(2) by metis
  qed
  have parents: "\<exists>q \<in> set (cr_items r1 @ all). itemId q = p \<and> isLive q \<and> itemList q = Some (listId l)"
    if i: "i \<in> set all" "itemParent i = Some p" for i p
  proof -
    have "p \<in> newId ` {Suc (cr_fresh r)..<n}" using out [OF i] top by fastforce
    then have "p \<in> itemId ` set all" using map_image_eq [of itemId all] f(1) by (metis list.set_map set_upt)
    then show ?thesis using made l(3) by auto
  qed
  have "rowsOk newId t (r1\<lparr>cr_items := cr_items r1 @ all, cr_fresh := n\<rparr>) \<and> homed (r1\<lparr>cr_items := cr_items r1 @ all, cr_fresh := n\<rparr>)
      \<and> grown newId r1 (r1\<lparr>cr_items := cr_items r1 @ all, cr_fresh := n\<rparr>)"
  proof (rule push_items [OF g _ _ _ _ _ l(1,2) parents])
    show "rowsOk newId t r1" "homed r1" using r1 r(2) by blast+
    show "map itemId all = map newId [cr_fresh r1..<n]" "cr_fresh r1 \<le> n" using f by (simp_all add: r1_def)
    show "isLive i \<and> itemTask i = t \<and> itemBatch i = None \<and> itemList i = Some (listId l)" if "i \<in> set all" for i using made that l(3) by simp
    show "liveLinks (cr_items r1 @ all) ^^ MAX_DEPTH = {}"
    proof -
      have "liveLinks (cr_items r @ all) ^^ MAX_DEPTH = {}" by (rule copied_levels [OF g r(1) _ f(3) links]) simp_all
      then show ?thesis by (simp add: r1_def)
    qed
    show "length (filter isLive (cr_items r1)) + length all \<le> MAX_ITEMS" using room by (simp add: r1_def)
  qed
  moreover have "r' = r1\<lparr>cr_items := cr_items r1 @ all, cr_fresh := n\<rparr>" unfolding r' r1_def by (cases r) simp
  ultimately show "rowsOk newId t r' \<and> homed r' \<and> grown newId r r'" using r1 grown_trans by metis
qed

end
