(* ===== verification/ChecklistMoves.thy ===== *)
theory ChecklistMoves
  imports ChecklistGrow
begin

text \<open>Moving an item with everything below it keeps the rows well formed.\<close>

section \<open>Where a move goes\<close>

text \<open>To a live checklist, at the top of it or under a live item of it.\<close>

definition goodTarget :: "checklistRows \<Rightarrow> moveTarget \<Rightarrow> bool" where
  "goodTarget r target \<longleftrightarrow>
     (\<exists>l \<in> set (cr_lists r). isLiveList l \<and> listId l = mt_list target)
     \<and> (\<forall>p. mt_parent target = Some p \<longrightarrow>
          (\<exists>q \<in> set (cr_items r). itemId q = p \<and> isLive q \<and> itemList q = Some (mt_list target)))"

lemma siblings_live: "s \<in> set (siblingsOf is l p) \<Longrightarrow> s \<in> set is \<and> isLive s \<and> itemList s = Some l \<and> itemParent s = p"
  by (simp add: siblingsOf_def)

lemma findIndex_less: "findIndex P xs = Some n \<Longrightarrow> n < length xs"
  by (induction xs arbitrary: n) (auto split: if_splits)

lemma find_one: "find P xs = Some x \<Longrightarrow> x \<in> set xs \<and> P x"
  by (induction xs) (auto split: if_splits)

lemma planMove_target:
  assumes r: "rowsOk newId t r" "homed r" and p: "planMove (cr_items r) k action = Some target"
  shows "goodTarget r target"
proof -
  have lp: "liveParents (cr_items r)" using rowsOkD(1) [OF r(1)] by (simp add: treeOk_items)
  obtain row l where row: "find (\<lambda>i. itemId i = k \<and> isLive i) (cr_items r) = Some row" "itemList row = Some l" "l \<noteq> []"
    using p unfolding planMove_def by (auto split: option.splits if_splits)
  then have mem: "row \<in> set (cr_items r)" "isLive row" using find_one by force+
  then have home: "\<exists>x \<in> set (cr_lists r). isLiveList x \<and> listId x = l" using r(2) row(2) unfolding homed_def by fastforce
  have up: "\<exists>q \<in> set (cr_items r). itemId q = p \<and> isLive q \<and> itemList q = Some l"
    if "c \<in> set (cr_items r)" "isLive c" "itemList c = Some l" "itemParent c = Some p" for c p
    using liveParentsD [OF lp that(1,2,4)] that(3) by metis
  note d = p [unfolded planMove_def row(1) option.case row(2) if_not_P [OF row(3)] Let_def]
  show ?thesis
  proof (cases action)
    case Indent
    then obtain n where n: "findIndex (\<lambda>s. itemId s = itemId row) (siblingsOf (cr_items r) l (itemParent row)) = Some (Suc n)"
      using d by (auto split: option.splits nat.splits)
    let ?before = "siblingsOf (cr_items r) l (itemParent row) ! n"
    have "?before \<in> set (siblingsOf (cr_items r) l (itemParent row))" using findIndex_less [OF n] by simp
    then have "?before \<in> set (cr_items r) \<and> isLive ?before \<and> itemList ?before = Some l" using siblings_live by blast
    moreover have "mt_list target = l" "mt_parent target = Some (itemId ?before)" using d Indent n by auto
    ultimately show ?thesis using home unfolding goodTarget_def by auto
  next
    case Outdent
    then obtain q parent where q: "itemParent row = Some q" "find (\<lambda>i. itemId i = q) (cr_items r) = Some parent"
        "mt_list target = l" "mt_parent target = itemParent parent"
      using d by (auto split: option.splits if_splits)
    have parent: "parent \<in> set (cr_items r)" "itemId parent = q" using find_one [OF q(2)] by blast+
    obtain x where "x \<in> set (cr_items r)" "itemId x = q" "isLive x" "itemList x = Some l" using up [OF mem row(2) q(1)] by blast
    moreover from this have "x = parent" using same_row [OF rowsOkD(5) [OF r(1)]] parent by metis
    ultimately have "isLive parent" "itemList parent = Some l" by simp_all
    then show ?thesis using home up [OF parent(1)] q(3,4) unfolding goodTarget_def by auto
  next
    case Up
    then have "mt_list target = l" "mt_parent target = itemParent row" using d by (auto split: option.splits if_splits)
    then show ?thesis using home up [OF mem row(2)] unfolding goodTarget_def by auto
  next
    case Down
    then have "mt_list target = l" "mt_parent target = itemParent row" using d by (auto split: option.splits if_splits)
    then show ?thesis using home up [OF mem row(2)] unfolding goodTarget_def by auto
  qed
qed

lemma place_target:
  assumes "moveTargetOf r k row (ToPlace mList mParent mAfter) = Ok target"
  shows "goodTarget r target"
proof -
  obtain parent where p: "case given mParent of None \<Rightarrow> parent = None | Some p \<Rightarrow> \<exists>i. liveItem r p = Ok i \<and> parent = Some i"
    and l: "\<exists>x. liveList r (case parent of Some p \<Rightarrow> itemList p | None \<Rightarrow> (case mList of Some x \<Rightarrow> Some x | None \<Rightarrow> itemList row)) = Ok x"
    and tg: "target = \<lparr>mt_list = (case (case parent of Some p \<Rightarrow> itemList p | None \<Rightarrow> (case mList of Some x \<Rightarrow> Some x | None \<Rightarrow> itemList row))
        of Some x \<Rightarrow> x | None \<Rightarrow> []), mt_parent = map_option itemId parent, mt_after = mAfter\<rparr>"
    using assms unfolding moveTargetOf_def checklistMove.case Let_def by (simp only: thenDo_Ok) (auto split: option.splits)
  obtain x where x: "x \<in> set (cr_lists r)" "isLiveList x"
      "(case parent of Some p \<Rightarrow> itemList p | None \<Rightarrow> (case mList of Some x \<Rightarrow> Some x | None \<Rightarrow> itemList row)) = Some (listId x)"
    using l liveList_Ok by blast
  have "mt_list target = listId x" "mt_parent target = map_option itemId parent" unfolding tg x(3) by simp_all
  moreover have "q \<in> set (cr_items r) \<and> isLive q \<and> itemList q = Some (listId x)" if "parent = Some q" for q
    using p x(3) that liveItem_Ok by (fastforce split: option.splits)
  ultimately show ?thesis using x(1,2) unfolding goodTarget_def by auto
qed

lemma move_target:
  assumes "rowsOk newId t r" "homed r" "moveTargetOf r k row move = Ok target"
  shows "goodTarget r target"
proof (cases move)
  case (ByAction action)
  then have "planMove (cr_items r) k action = Some target" using assms(3) by (auto simp: moveTargetOf_def split: option.splits)
  then show ?thesis by (rule planMove_target [OF assms(1,2)])
next
  case (ToPlace mList mParent mAfter)
  then show ?thesis using place_target assms(3) by blast
qed

section \<open>The tree after a move\<close>

text \<open>The item under its new parent; it and everything below it in the checklist.\<close>

definition movedRow :: "ident \<Rightarrow> ident set \<Rightarrow> ident \<Rightarrow> ident option \<Rightarrow> itemRow \<Rightarrow> itemRow" where
  "movedRow k T l p i =
     i\<lparr>itemList := (if itemId i \<in> T then Some l else itemList i), itemParent := (if itemId i = k then p else itemParent i)\<rparr>"

lemma movedRow_fields [simp]:
  "itemId (movedRow k T l p i) = itemId i" "itemTask (movedRow k T l p i) = itemTask i" "isLive (movedRow k T l p i) = isLive i"
  "itemBatch (movedRow k T l p i) = itemBatch i"
  "itemList (movedRow k T l p i) = (if itemId i \<in> T then Some l else itemList i)"
  "itemParent (movedRow k T l p i) = (if itemId i = k then p else itemParent i)"
  by (simp_all add: movedRow_def isLive_def)

text \<open>A live item below another is so by live items only.\<close>

lemma live_chain:
  assumes "distinct (map itemId is)" "liveParents is" "i \<in> set is" "isLive i" "(itemId i, k) \<in> (parentRel is)\<^sup>*"
  shows "(itemId i, k) \<in> (liveLinks is)\<^sup>*"
  using assms(5,3,4)
proof (induction "itemId i" arbitrary: i rule: converse_rtrancl_induct)
  case base
  then show ?case by simp
next
  case (step z)
  obtain j where j: "j \<in> set is" "itemId j = itemId i" "itemParent j = Some z" using step.hyps(1) by (auto simp: parentRel_def)
  then have "j = i" using same_row [OF assms(1)] step.prems(1) by blast
  then have "itemParent i = Some z" using j(3) by simp
  then obtain q where q: "q \<in> set is" "itemId q = z" "isLive q" using liveParentsD [OF assms(2) step.prems] by blast
  have "(itemId i, z) \<in> liveLinks is" using step.prems \<open>itemParent i = Some z\<close> by (auto simp: liveLinks_iff)
  moreover have "(z, k) \<in> (liveLinks is)\<^sup>*" using step.hyps(3) [of q] q by blast
  ultimately show ?case by (rule converse_rtrancl_into_rtrancl)
qed

text \<open>With an item, its sub-items are below \<open>k\<close>; and with a sub-item other than \<open>k\<close>, its parent.\<close>

lemma below_parent:
  assumes "distinct (map itemId is)" "c \<in> set is" "itemParent c = Some p" "itemId c \<noteq> k"
  shows "(itemId c, k) \<in> (parentRel is)\<^sup>* \<longleftrightarrow> (p, k) \<in> (parentRel is)\<^sup>*"
proof
  assume "(itemId c, k) \<in> (parentRel is)\<^sup>*"
  then obtain z where z: "(itemId c, z) \<in> parentRel is" "(z, k) \<in> (parentRel is)\<^sup>*" using assms(4) by (metis converse_rtranclE)
  obtain j where j: "j \<in> set is" "itemId j = itemId c" "itemParent j = Some z" using z(1) by (auto simp: parentRel_def)
  then have "j = c" using same_row [OF assms(1)] assms(2) by blast
  then show "(p, k) \<in> (parentRel is)\<^sup>*" using z(2) assms(3) j(3) by simp
next
  assume "(p, k) \<in> (parentRel is)\<^sup>*"
  moreover have "(itemId c, p) \<in> parentRel is" using assms(2,3) by (auto simp: parentRel_def)
  ultimately show "(itemId c, k) \<in> (parentRel is)\<^sup>*" by simp
qed

lemma moved_tree:
  assumes t: "treeOk (nodes is)" and row: "row \<in> set is" "isLive row" "itemId row = k"
    and T: "T = {x. (x, k) \<in> (parentRel is)\<^sup>*}"
    and p: "\<And>x. p = Some x \<Longrightarrow> x \<notin> T \<and> (\<exists>q \<in> set is. itemId q = x \<and> isLive q \<and> itemList q = Some l)"
    and depth: "\<And>x. p = Some x \<Longrightarrow> depthOf is (Some x) + int (subtreeHeight is k) < int MAX_DEPTH"
    and U: "U = T \<or> (U = {} \<and> itemList row = Some l)"
  shows "treeOk (nodes (map (movedRow k U l p) is))"
proof -
  define f where "f = movedRow k U l p"
  note o = t [unfolded treeOk_items]
  have dist: "distinct (map itemId is)" using o by blast
  have kT: "k \<in> T" by (simp add: T)
  have only: "itemId c = k \<longleftrightarrow> c = row" if "c \<in> set is" for c using same_row [OF dist that row(1)] row(3) by auto
  have below: "itemId c \<in> T \<longleftrightarrow> x \<in> T" if "c \<in> set is" "itemParent c = Some x" "itemId c \<noteq> k" for c x
    using below_parent [OF dist that] by (simp add: T)
  have listed: "itemId c \<in> U \<longleftrightarrow> x \<in> U" if "c \<in> set is" "itemParent c = Some x" "itemId c \<noteq> k" for c x
    using below [OF that] U by auto
  have same: "itemId (f i) = itemId i" "isLive (f i) = isLive i" "inBatch b (f i) = inBatch b i" for i b by (simp_all add: f_def inBatch_def)
  have rp: "realParents (map f is)"
    unfolding realParents_def
  proof (intro ballI notI)
    fix j assume "j \<in> set (map f is)" "itemParent j = Some []"
    then obtain i where "i \<in> set is" "itemId i = k" "p = Some []" using o by (auto simp: realParents_def f_def split: if_splits)
    then obtain q where "q \<in> set is" "itemId q = []" using p by blast
    then show False using o by force
  qed
  have lp: "liveParents (map f is)"
    unfolding liveParents_def
  proof (intro ballI impI allI)
    fix c' x assume "c' \<in> set (map f is)" "isLive c'" "itemParent c' = Some x"
    then obtain c where c: "c \<in> set is" "c' = f c" "isLive c" "(if itemId c = k then p else itemParent c) = Some x" by (auto simp: f_def)
    have "\<exists>q \<in> set is. itemId q = x \<and> isLive q \<and> itemList (f q) = itemList (f c)"
    proof (cases "itemId c = k")
      case True
      then have "itemList (f c) = Some l" using U kT only [OF c(1)] by (auto simp: f_def)
      moreover obtain q where "q \<in> set is" "itemId q = x" "isLive q" "itemList q = Some l" "x \<notin> T" using p [of x] c(4) True by auto
      moreover from this have "itemList (f q) = Some l" using U by (auto simp: f_def)
      ultimately show ?thesis by auto
    next
      case False
      then have cx: "itemParent c = Some x" using c(4) by simp
      obtain q where "q \<in> set is" "itemId q = x" "isLive q" "itemList q = itemList c"
        using liveParentsD [of "is", OF _ c(1,3) cx] o by blast
      then show ?thesis using listed [OF c(1) cx False] by (auto simp: f_def)
    qed
    then show "\<exists>q \<in> set (map f is). itemId q = x \<and> isLive q \<and> itemList q = itemList c'" using c(2) same by auto
  qed
  have notk: "itemId c \<noteq> k" if "c \<in> set is" "inBatch b c" for b c using that only row(2) by (auto simp: inBatch_def)
  have bl: "batchLists (map f is)"
    unfolding batchLists_def
  proof (intro ballI allI impI, elim conjE)
    fix c' q' b assume cq: "c' \<in> set (map f is)" "q' \<in> set (map f is)" "inBatch b c'" "inBatch b q'" "itemParent c' = Some (itemId q')"
    then obtain c q where c: "c \<in> set is" "c' = f c" "q \<in> set is" "q' = f q" by auto
    have b: "inBatch b c" "inBatch b q" using cq(3,4) c same by simp_all
    have par: "itemParent c = Some (itemId q)" using cq(5) c notk [OF c(1) b(1)] by (simp add: f_def)
    have "itemList c = itemList q" using o b par c unfolding batchLists_def by blast
    then show "itemList c' = itemList q'" using listed [OF c(1) par notk [OF c(1) b(1)]] unfolding c by (simp add: f_def)
  qed
  have "batchLinks (map f is) b \<subseteq> batchLinks is b" for b
  proof (rule subrelI)
    fix u v assume "(u, v) \<in> batchLinks (map f is) b"
    then obtain c q where c: "c \<in> set is" "q \<in> set is" "inBatch b c" "inBatch b q" "u = itemId c" "v = itemId q" "itemParent (f c) = Some v"
      unfolding batchLinks_def by (auto simp: same)
    then show "(u, v) \<in> batchLinks is b" using notk [OF c(1,3)] unfolding batchLinks_def by (auto simp: f_def)
  qed
  moreover have "batchLinks is b ^^ MAX_DEPTH = {}" for b using o by blast
  ultimately have bb: "batchLinks (map f is) b ^^ MAX_DEPTH = {}" for b using fewer_levels [where S = "batchLinks is b"] by simp
  let ?R = "liveLinks (map f is)"
  have R: "(u, v) \<in> ?R \<longleftrightarrow> (u = k \<and> p = Some v) \<or> (u \<noteq> k \<and> (u, v) \<in> liveLinks is)" for u v
    using row only unfolding liveLinks_iff by (auto simp: f_def)
  have up: "v \<in> T \<longleftrightarrow> u \<in> T" if uv: "(u, v) \<in> liveLinks is" "u \<noteq> k" for u v
  proof -
    obtain c where "c \<in> set is" "itemId c = u" "itemParent c = Some v" using uv(1) by (auto simp: liveLinks_iff)
    then show ?thesis using below [of c v] uv(2) by simp
  qed
  have ll: "?R ^^ MAX_DEPTH = {}"
  proof (rule levels_ok [where L = T])
    fix u v assume uv: "(u, v) \<in> ?R" "u \<notin> T"
    then have "u \<noteq> k" using kT by blast
    then show "v \<notin> T" using uv R [of u v] up [of u v] by simp
  next
    have B: "?R \<inter> T \<times> T \<subseteq> liveLinks is" using R p by (auto simp del: filter_map)
    have A: "?R \<inter> (- T) \<times> (- T) \<subseteq> liveLinks is" using R kT by (auto simp del: filter_map)
    show "(?R \<inter> T \<times> T) ^^ MAX_DEPTH = {}" "(?R \<inter> (- T) \<times> (- T)) ^^ MAX_DEPTH = {}" using o fewer_levels A B by blast+
    fix c q m j x a
    assume cq: "(c, q) \<in> ?R" "c \<in> T" "q \<notin> T" and m: "(x, c) \<in> (?R \<inter> T \<times> T) ^^ m" and j: "(q, a) \<in> (?R \<inter> (- T) \<times> (- T)) ^^ j"
    have ck: "c = k"
    proof (rule ccontr)
      assume "c \<noteq> k"
      then have "(c, q) \<in> liveLinks is" using cq(1) R [of c q] by blast
      then show False using up [of c q] \<open>c \<noteq> k\<close> cq(2,3) by blast
    qed
    then have kp: "c = k" "p = Some q" using cq(1) R [of c q] by blast+
    have mm: "(x, k) \<in> liveLinks is ^^ m" using m relpow_mono_rel [OF B] kp(1) by blast
    then have "m < MAX_DEPTH" using chain_bound [OF _ mm, of MAX_DEPTH] o by simp
    then have "m + 1 \<le> subtreeHeight is k" using subtreeHeight_chain [OF mm [folded liveRel_nodes]] by simp
    moreover have "int j \<le> depthOf is (Some q)"
    proof (rule depthOf_chain [OF t])
      show "(q, a) \<in> liveRel (nodes is) ^^ j" using j relpow_mono_rel [OF A] by (auto simp: liveRel_nodes)
      show "q \<noteq> []" using p [OF kp(2)] o by force
    qed
    ultimately show "m + 1 + j < MAX_DEPTH" using depth [OF kp(2)] by linarith
  qed
  have ids: "map itemId (map f is) = map itemId is" by (simp add: same comp_def)
  have "treeOk (nodes (map f is))" unfolding treeOk_items ids using o rp lp bl bb ll by blast
  then show ?thesis by (simp add: f_def)
qed


lemma wouldCycle_live:
  assumes "treeOk (nodes is)" "q \<in> set is" "isLive q" "\<not> wouldCycle is k (Some (itemId q))"
  shows "(itemId q, k) \<notin> (parentRel is)\<^sup>*"
proof
  assume "(itemId q, k) \<in> (parentRel is)\<^sup>*"
  then have "(itemId q, k) \<in> (liveLinks is)\<^sup>*"
    using live_chain [OF _ _ assms(2,3)] assms(1) by (simp add: treeOk_items)
  then show False using assms(4) by (auto simp: wouldCycle_def descendantIds_set rtrancl_eq_or_trancl)
qed

section \<open>A move\<close>

lemma moveChange_parts:
  assumes "moveChange at k move r = Ok (v, r')"
  obtains row target where "liveItem r k = Ok row" "moveTargetOf r k row move = Ok target"
    "\<not> wouldCycle (cr_items r) k (mt_parent target)"
    "(case given (mt_parent target) of None \<Rightarrow> 0 | Some p \<Rightarrow> depthOf (cr_items r) (Some p) + 1) + int (subtreeHeight (cr_items r) k) - 1 < int MAX_DEPTH"
    "r' = r \<or> (\<exists>is. list_all2 sameShape is (updateItem k (\<lambda>i. i\<lparr>itemParent := mt_parent target, itemUpdatedAt := at\<rparr>)
        (if Some (mt_list target) \<noteq> itemList row
         then map (\<lambda>i. if itemId i \<in> set (itemId row # descendantIds (cr_items r) (itemId row) True)
                then i\<lparr>itemList := Some (mt_list target), itemUpdatedAt := at\<rparr> else i) (cr_items r)
         else cr_items r)) \<and> r' = r\<lparr>cr_items := is\<rparr>)"
proof -
  obtain row where row: "liveItem r k = Ok row" using assms unfolding moveChange_def by (simp only: thenDo_Ok) blast
  then obtain target where target: "moveTargetOf r k row move = Ok target"
    using assms unfolding moveChange_def by (simp only: thenDo_Ok) blast
  have cyc: "\<not> wouldCycle (cr_items r) k (mt_parent target)"
    using assms row target unfolding moveChange_def by (auto split: if_splits)
  have deep: "(case given (mt_parent target) of None \<Rightarrow> 0 | Some p \<Rightarrow> depthOf (cr_items r) (Some p) + 1) + int (subtreeHeight (cr_items r) k) - 1 < int MAX_DEPTH"
    using assms row target cyc unfolding moveChange_def by (auto simp: Let_def split: if_splits)
  let ?moved = "updateItem k (\<lambda>i. i\<lparr>itemParent := mt_parent target, itemUpdatedAt := at\<rparr>)
        (if Some (mt_list target) \<noteq> itemList row
         then map (\<lambda>i. if itemId i \<in> set (itemId row # descendantIds (cr_items r) (itemId row) True)
                then i\<lparr>itemList := Some (mt_list target), itemUpdatedAt := at\<rparr> else i) (cr_items r)
         else cr_items r)"
  let ?placed = "fst (placeInGroup ?moved (mt_list target) (mt_parent target) [itemId row] (mt_after target) at)"
  have "r' = r \<or> r' = r\<lparr>cr_items := ?placed\<rparr> \<or> (\<exists>l p. r' = r\<lparr>cr_items := closeGaps ?placed l p at\<rparr>)"
    using assms row target cyc deep unfolding moveChange_def Let_def thenDo.simps require.simps by (auto split: if_splits)
  moreover have "list_all2 sameShape ?placed ?moved" by (rule placeInGroup_shape)
  moreover have "list_all2 sameShape (closeGaps ?placed l p at) ?moved" for l p
    unfolding closeGaps_def by (rule sameShape_list_trans [OF renumber_shape placeInGroup_shape])
  ultimately have "r' = r \<or> (\<exists>is. list_all2 sameShape is ?moved \<and> r' = r\<lparr>cr_items := is\<rparr>)" by blast
  then show ?thesis using that [OF row target cyc deep] by blast
qed

lemma moved_shape:
  "list_all2 sameShape (updateItem k (\<lambda>i. i\<lparr>itemParent := p, itemUpdatedAt := at\<rparr>)
     (if b then map (\<lambda>i. if itemId i \<in> T then i\<lparr>itemList := Some l, itemUpdatedAt := at\<rparr> else i) is else is))
     (map (movedRow k (if b then T else {}) l p) is)"
proof -
  define f where "f (i :: itemRow) = (if b \<and> itemId i \<in> T then i\<lparr>itemList := Some l, itemUpdatedAt := at\<rparr> else i)" for i
  have f: "(if b then map (\<lambda>i. if itemId i \<in> T then i\<lparr>itemList := Some l, itemUpdatedAt := at\<rparr> else i) is else is) = map f is"
    by (cases b) (simp_all add: f_def [abs_def] cong: if_cong)
  have "sameShape (if itemId (f i) = k then (f i)\<lparr>itemParent := p, itemUpdatedAt := at\<rparr> else f i) (movedRow k (if b then T else {}) l p i)" for i
    by (rule sameShapeI) (simp_all add: f_def movedRow_def isLive_def)
  then show ?thesis unfolding f updateItem_def by (simp add: list_all2_map1 list_all2_map2 list.rel_refl_strong)
qed

lemma move_keeps: "keeps newId t (moveChange at k move)"
proof (rule keepsI)
  fix r v r' assume r: "rowsOk newId t r" "homed r" and m: "moveChange at k move r = Ok (v, r')"
  show "rowsOk newId t r' \<and> homed r' \<and> grown newId r r'"
  proof (rule moveChange_parts [OF m])
    fix row target
    assume row: "liveItem r k = Ok row" and target: "moveTargetOf r k row move = Ok target"
      and cyc: "\<not> wouldCycle (cr_items r) k (mt_parent target)"
      and deep: "(case given (mt_parent target) of None \<Rightarrow> 0 | Some p \<Rightarrow> depthOf (cr_items r) (Some p) + 1) + int (subtreeHeight (cr_items r) k) - 1 < int MAX_DEPTH"
      and r': "r' = r \<or> (\<exists>is. list_all2 sameShape is (updateItem k (\<lambda>i. i\<lparr>itemParent := mt_parent target, itemUpdatedAt := at\<rparr>)
        (if Some (mt_list target) \<noteq> itemList row
         then map (\<lambda>i. if itemId i \<in> set (itemId row # descendantIds (cr_items r) (itemId row) True)
                then i\<lparr>itemList := Some (mt_list target), itemUpdatedAt := at\<rparr> else i) (cr_items r)
         else cr_items r)) \<and> r' = r\<lparr>cr_items := is\<rparr>)"
    let ?moved = "updateItem k (\<lambda>i. i\<lparr>itemParent := mt_parent target, itemUpdatedAt := at\<rparr>)
        (if Some (mt_list target) \<noteq> itemList row
         then map (\<lambda>i. if itemId i \<in> set (itemId row # descendantIds (cr_items r) (itemId row) True)
                then i\<lparr>itemList := Some (mt_list target), itemUpdatedAt := at\<rparr> else i) (cr_items r)
         else cr_items r)"
    define T where "T = {x. (x, k) \<in> (parentRel (cr_items r))\<^sup>*}"
    define U where "U = (if Some (mt_list target) \<noteq> itemList row then T else {})"
    note rk = liveItem_Ok [OF row] and o = rowsOkD [OF r(1)]
    have set_T: "set (itemId row # descendantIds (cr_items r) (itemId row) True) = T"
      using rk by (auto simp: T_def descendantIds_set rtrancl_eq_or_trancl)
    have good: "goodTarget r target" by (rule move_target [OF r target])
    have p: "x \<notin> T \<and> (\<exists>q \<in> set (cr_items r). itemId q = x \<and> isLive q \<and> itemList q = Some (mt_list target))"
      if x: "mt_parent target = Some x" for x
    proof -
      obtain q where q: "q \<in> set (cr_items r)" "itemId q = x" "isLive q" "itemList q = Some (mt_list target)"
        using good x unfolding goodTarget_def by blast
      then show ?thesis using wouldCycle_live [OF o(1) q(1,3)] cyc x unfolding T_def by auto
    qed
    let ?is = "map (movedRow k U (mt_list target) (mt_parent target)) (cr_items r)"
    have tree: "treeOk (nodes ?is)"
    proof (rule moved_tree [OF o(1) _ _ _ T_def p])
      fix x assume x: "mt_parent target = Some x"
      have "x \<noteq> []" using p [OF x] o(1) by (force simp: treeOk_items)
      then show "depthOf (cr_items r) (Some x) + int (subtreeHeight (cr_items r) k) < int MAX_DEPTH" using deep x by simp
    qed (use rk U_def in auto)
    have few: "length (filter isLive ?is) \<le> MAX_ITEMS" using o(3) by (simp add: filter_map comp_def)
    have used: "itemIdsUsed ?is \<subseteq> newId ` {..<cr_fresh r}" using o(4) by (simp add: itemIdsUsed_def usedIds_split image_image)
    have task: "\<forall>i \<in> set ?is. itemTask i = t" using r(1) by (simp add: rowsOk_def)
    have "rowsOk newId t (r\<lparr>cr_items := ?is, cr_fresh := cr_fresh r\<rparr>)" by (rule rowsOk_items [OF r(1) tree few task used order_refl])
    then have ok: "rowsOk newId t (r\<lparr>cr_items := ?is\<rparr>)" by simp
    have "homed (r\<lparr>cr_items := ?is\<rparr>)" using r(2) good unfolding homed_def goodTarget_def by fastforce
    moreover have "grown newId r (r\<lparr>cr_items := ?is\<rparr>)" by (rule grown_same) simp_all
    ultimately have ok: "rowsOk newId t (r\<lparr>cr_items := ?is\<rparr>) \<and> homed (r\<lparr>cr_items := ?is\<rparr>) \<and> grown newId r (r\<lparr>cr_items := ?is\<rparr>)"
      using ok by blast
    show ?thesis
      using r'
    proof (elim disjE exE conjE)
      fix "is" assume i: "list_all2 sameShape is ?moved" "r' = r\<lparr>cr_items := is\<rparr>"
      have "list_all2 sameShape ?moved ?is" unfolding set_T U_def by (rule moved_shape)
      then have "list_all2 sameShape is ?is" by (rule sameShape_list_trans [OF i(1)])
      then have "list_all2 sameShape is (cr_items (r\<lparr>cr_items := ?is\<rparr>))" by simp
      moreover have "r' = (r\<lparr>cr_items := ?is\<rparr>)\<lparr>cr_items := is\<rparr>" using i(2) by simp
      ultimately show ?thesis using rowsOk_reshaped [of newId t "r\<lparr>cr_items := ?is\<rparr>" "is"] ok grown_trans by metis
    qed (use r in simp)
  qed
qed

end
