(* ===== verification/ChecklistRestore.thy ===== *)
theory ChecklistRestore
  imports ChecklistMoves
begin

text \<open>
  Restoring a deleted batch: the loop that brings an item up ends, and the rows are well formed after it.
  Between the turns of the loop over the restored items they are not yet: \<open>midway\<close> is what holds then.
\<close>

section \<open>Chains again\<close>

lemma split_acyclic:
  fixes R :: "('a \<times> 'a) set"
  assumes out: "\<And>u v. (u, v) \<in> R \<Longrightarrow> u \<notin> L \<Longrightarrow> v \<notin> L"
    and "acyclic (R \<inter> L \<times> L)" "acyclic (R \<inter> (- L) \<times> (- L))"
  shows "acyclic R"
proof (rule acyclicI, intro allI notI)
  fix x assume "(x, x) \<in> R\<^sup>+"
  then obtain n where n: "0 < n" "(x, x) \<in> R ^^ n" by (auto simp: trancl_power)
  have loop: "(x, x) \<notin> S ^^ n" if "acyclic S" for S :: "('a \<times> 'a) set"
  proof
    assume "(x, x) \<in> S ^^ n"
    then have "(x, x) \<in> S\<^sup>+" using n(1) unfolding trancl_power by blast
    then show False using that by (simp add: acyclic_def)
  qed
  show False
  proof (cases "x \<in> L")
    case False
    from chain_split(2) [where L = L and R = R, OF _ n(2) False] out have "(x, x) \<in> (R \<inter> (- L) \<times> (- L)) ^^ n" by blast
    then show ?thesis using loop [OF assms(3)] by blast
  next
    case True
    from chain_split(1) [where L = L and R = R, OF _ n(2) True] out loop [OF assms(2)]
    obtain j p where j: "p \<notin> L" "(p, x) \<in> (R \<inter> (- L) \<times> (- L)) ^^ j" by blast
    then show ?thesis using True by (cases j) auto
  qed
qed

text \<open>\<open>depthOf\<close> counts a chain of live rows when no live item is below itself.\<close>

lemma depthFrom_along:
  assumes dist: "distinct (map itemId is)" and ac: "acyclic (liveLinks is)"
    and S: "\<And>u v. (u, v) \<in> S \<Longrightarrow> (u, v) \<in> liveLinks is \<and> v \<noteq> [] \<and> (\<exists>q \<in> set is. isLive q \<and> itemId q = v)"
  shows "(k, a) \<in> S ^^ n \<Longrightarrow> \<forall>y. (k, y) \<in> (liveLinks is)\<^sup>* \<longrightarrow> y \<notin> set seen \<Longrightarrow> d + int n \<le> depthFrom (filter isLive is) seen d k"
proof (induction n arbitrary: k seen d)
  case 0
  then show ?case by (simp add: depthFrom_ge)
next
  case (Suc n)
  obtain p where p: "(k, p) \<in> S" "(p, a) \<in> S ^^ n" using Suc.prems(1) by (blast elim: relpow_Suc_E2)
  have kp: "(k, p) \<in> liveLinks is" "p \<noteq> []" using S [OF p(1)] by blast+
  obtain c where c: "c \<in> set is" "isLive c" "itemId c = k" "itemParent c = Some p" using kp(1) by (auto simp: liveLinks_iff)
  obtain q where q: "q \<in> set is" "itemId q = p" "isLive q" using S [OF p(1)] by blast
  have "byId (filter isLive is) p = Some q" "byId (filter isLive is) k = Some c"
    using byId_live [OF dist q(1,3)] q(2) byId_live [OF dist c(1,2)] c(3) by simp_all
  moreover have "k \<notin> set seen" using Suc.prems(2) by blast
  ultimately have step: "depthFrom (filter isLive is) seen d k = depthFrom (filter isLive is) (k # seen) (d + 1) p"
    using c kp(2) by (subst depthFrom.simps) simp
  have "\<forall>y. (p, y) \<in> (liveLinks is)\<^sup>* \<longrightarrow> y \<notin> set (k # seen)"
  proof (intro allI impI)
    fix y assume y: "(p, y) \<in> (liveLinks is)\<^sup>*"
    have "y \<noteq> k" using rtrancl_into_trancl2 [OF kp(1) y] ac by (auto simp: acyclic_def)
    moreover have "(k, y) \<in> (liveLinks is)\<^sup>*" using kp(1) y by simp
    ultimately show "y \<notin> set (k # seen)" using Suc.prems(2) by auto
  qed
  then show ?case using Suc.IH [OF p(2), of "k # seen" "d + 1"] step by simp
qed

section \<open>Bringing an item up\<close>

lemma updateItem_twice: "(\<And>i. itemId (g i) = itemId i) \<Longrightarrow> updateItem k f (updateItem k g is) = updateItem k (f \<circ> g) is"
  by (auto simp: updateItem_def)

lemma setParent_twice: "setParent k p (setParent k x is) = setParent k p is"
  unfolding setParent_def by (subst updateItem_twice) (simp_all add: comp_def)

lemma rowOf_map:
  assumes "\<And>i. itemId (f i) = itemId i"
  shows "rowOf (map f is) k = map_option f (rowOf is k)"
  unfolding rowOf_def by (induction "is") (auto simp: assms)

lemma parentNow_setParent:
  assumes "rowOf is k \<noteq> None"
  shows "parentNow (setParent k p is) x = (if x = k then p else parentNow is x)"
proof -
  have r: "rowOf (setParent k p is) x = map_option (\<lambda>i. if itemId i = k then i\<lparr>itemParent := p\<rparr> else i) (rowOf is x)"
    unfolding setParent_def updateItem_def by (rule rowOf_map) simp
  have "itemId i = x" if "rowOf is x = Some i" for i using that find_one unfolding rowOf_def by fastforce
  then show ?thesis using assms by (auto simp: parentNow_def r split: option.splits)
qed

text \<open>
  The items the loop goes up through (\<open>P\<close>) are other live items, each of whose parents is another; it ends
  as no chain of them is longer than the levels allowed.
\<close>

lemma climb_up:
  assumes row: "rowOf is k \<noteq> None" and A: "A ^^ n = {}"
    and P: "\<And>x. P x \<Longrightarrow> x \<noteq> k \<and> x \<noteq> [] \<and> (\<forall>y. parentNow is x = Some y \<longrightarrow> P y \<and> (x, y) \<in> A)"
  shows "P x \<Longrightarrow> \<exists>p. climb k (setParent k (Some x) is) = Some (setParent k p is)
    \<and> (\<forall>y. p = Some y \<longrightarrow> P y \<and> \<not> tooDeepUnder (setParent k p is) k y)"
proof -
  have "\<exists>p. climb k (setParent k (Some x) is) = Some (setParent k p is)
      \<and> (\<forall>y. p = Some y \<longrightarrow> P y \<and> \<not> tooDeepUnder (setParent k p is) k y)"
    if "\<forall>a. (x, a) \<notin> A ^^ m" "P x" for m x
    using that
  proof (induction m arbitrary: x)
    case 0
    then show ?case by simp
  next
    case (Suc m)
    let ?is = "setParent k (Some x) is"
    note px = P [OF Suc.prems(2)]
    have given: "given (parentNow ?is k) = Some x" using px by (simp add: parentNow_setParent [OF row])
    show ?case
    proof (cases "tooDeepUnder ?is k x")
      case False
      then have "climb k ?is = Some ?is" using given by (subst climb.simps) simp
      then show ?thesis using False Suc.prems(2) by (intro exI [of _ "Some x"]) simp
    next
      case True
      then have up: "climb k ?is = climb k (setParent k (parentNow is x) is)"
        using given px by (subst climb.simps) (simp add: parentNow_setParent [OF row] setParent_twice)
      show ?thesis
      proof (cases "parentNow is x")
        case None
        have "climb k (setParent k None is) = Some (setParent k None is)"
          by (subst climb.simps) (simp add: parentNow_setParent [OF row])
        then show ?thesis using up None by (intro exI [of _ None]) simp
      next
        case (Some y)
        then have y: "P y" "(x, y) \<in> A" using px by blast+
        have "\<forall>a. (y, a) \<notin> A ^^ m" using Suc.prems(1) relpow_Suc_I2 [OF y(2)] by blast
        then show ?thesis using Suc.IH y(1) up Some by simp
      qed
    qed
  qed
  moreover have "\<forall>a. (x, a) \<notin> A ^^ n" using A by blast
  ultimately show "P x \<Longrightarrow> ?thesis" by blast
qed

section \<open>Between the turns\<close>

text \<open>
  The rows of the items once \<open>is0\<close>, with the items \<open>I\<close> of a batch live again: the others as they were, each
  restored one under the restored one it was under, or under no restored one.
\<close>

definition partWay :: "itemRow list \<Rightarrow> ident set \<Rightarrow> itemRow list \<Rightarrow> bool" where
  "partWay is0 I is \<longleftrightarrow> map itemId is = map itemId is0
     \<and> (\<forall>j \<in> set is. \<exists>i \<in> set is0. itemId i = itemId j \<and> (itemId j \<notin> I \<longrightarrow> j = i)
        \<and> (itemId j \<in> I \<longrightarrow> isLive j \<and> itemBatch j = None \<and> itemTask j = itemTask i
             \<and> (\<forall>p \<in> I. itemParent j = Some p \<longleftrightarrow> itemParent i = Some p)))"

definition innerLinks :: "itemRow list \<Rightarrow> ident set \<Rightarrow> (ident \<times> ident) set" where
  "innerLinks is0 I = parentRel is0 \<inter> I \<times> I"

definition goneTogether :: "itemRow list \<Rightarrow> ident \<Rightarrow> ident set \<Rightarrow> bool" where
  "goneTogether is0 b I \<longleftrightarrow> treeOk (nodes is0) \<and> (\<forall>x \<in> I. \<exists>i \<in> set is0. itemId i = x \<and> inBatch b i)"

lemma goneD:
  assumes "goneTogether is0 b I"
  shows "distinct (map itemId is0)" "[] \<notin> itemId ` set is0" "realParents is0" "liveParents is0" "batchLists is0"
    "liveLinks is0 ^^ MAX_DEPTH = {}" "batchLinks is0 c ^^ MAX_DEPTH = {}" "[] \<notin> I"
    and "\<And>i. i \<in> set is0 \<Longrightarrow> itemId i \<in> I \<Longrightarrow> inBatch b i"
    and "\<And>x. x \<in> I \<Longrightarrow> \<exists>i \<in> set is0. itemId i = x \<and> inBatch b i"
proof -
  have t: "treeOk (nodes is0)" and I: "\<And>x. x \<in> I \<Longrightarrow> \<exists>i \<in> set is0. itemId i = x \<and> inBatch b i"
    using assms by (auto simp: goneTogether_def)
  note o = t [unfolded treeOk_items]
  show "distinct (map itemId is0)" "[] \<notin> itemId ` set is0" "realParents is0" "liveParents is0" "batchLists is0"
    "liveLinks is0 ^^ MAX_DEPTH = {}" "batchLinks is0 c ^^ MAX_DEPTH = {}"
    using o by simp_all
  show "[] \<notin> I" using I o by force
  show "\<And>x. x \<in> I \<Longrightarrow> \<exists>i \<in> set is0. itemId i = x \<and> inBatch b i" by (rule I)
  show "inBatch b i" if "i \<in> set is0" "itemId i \<in> I" for i
    using I [OF that(2)] same_row [OF _ that(1)] o by metis
qed

lemma inner_batch: "goneTogether is0 b I \<Longrightarrow> innerLinks is0 I \<subseteq> batchLinks is0 b"
proof (rule subrelI)
  fix u v assume g: "goneTogether is0 b I" and uv: "(u, v) \<in> innerLinks is0 I"
  then obtain c where c: "c \<in> set is0" "itemId c = u" "itemParent c = Some v" "u \<in> I" "v \<in> I"
    by (auto simp: innerLinks_def parentRel_def)
  then obtain q where "q \<in> set is0" "itemId q = v" "inBatch b q" using goneD(10) [OF g] by blast
  then show "(u, v) \<in> batchLinks is0 b" using c goneD(9) [OF g c(1)] unfolding batchLinks_def by auto
qed

lemma inner_levels: "goneTogether is0 b I \<Longrightarrow> innerLinks is0 I ^^ MAX_DEPTH = {}"
  using fewer_levels [OF goneD(7) inner_batch] by blast

lemma partWay_row:
  assumes "goneTogether is0 b I" "partWay is0 I is" "i \<in> set is0"
  shows "\<exists>j \<in> set is. itemId j = itemId i \<and> (itemId i \<notin> I \<longrightarrow> j = i)"
proof -
  have "itemId i \<in> itemId ` set is" using map_image_eq [of itemId "is" is0] assms(2,3) by (simp add: partWay_def)
  then obtain j where j: "j \<in> set is" "itemId j = itemId i" by auto
  then obtain i' where "i' \<in> set is0" "itemId i' = itemId j" "itemId j \<notin> I \<longrightarrow> j = i'" using assms(2) unfolding partWay_def by blast
  moreover from this have "i' = i" using same_row [OF goneD(1) [OF assms(1)]] assms(3) j(2) by metis
  ultimately show ?thesis using j by auto
qed

lemma partWay_links:
  assumes g: "goneTogether is0 b I" and w: "partWay is0 I is"
  shows "(u, v) \<in> liveLinks is \<Longrightarrow> u \<notin> I \<Longrightarrow> (u, v) \<in> liveLinks is0 \<and> v \<notin> I"
    and "(u, v) \<in> liveLinks is \<Longrightarrow> u \<in> I \<Longrightarrow> v \<in> I \<Longrightarrow> (u, v) \<in> innerLinks is0 I"
    and "liveLinks is0 \<subseteq> liveLinks is" and "innerLinks is0 I \<subseteq> liveLinks is"
proof -
  have live: "itemId i \<notin> I" if "i \<in> set is0" "isLive i" for i using goneD(9) [OF g that(1)] that(2) by (auto simp: inBatch_def)
  show "(u, v) \<in> liveLinks is0 \<and> v \<notin> I" if uv: "(u, v) \<in> liveLinks is" "u \<notin> I"
  proof -
    obtain j where j: "j \<in> set is" "isLive j" "itemId j = u" "itemParent j = Some v" using uv(1) by (auto simp: liveLinks_iff)
    then have "j \<in> set is0" using w uv(2) unfolding partWay_def by blast
    moreover from this obtain q where "q \<in> set is0" "itemId q = v" "isLive q" using liveParentsD [OF goneD(4) [OF g] _ j(2,4)] by blast
    ultimately show ?thesis using j live by (auto simp: liveLinks_iff)
  qed
  show "(u, v) \<in> innerLinks is0 I" if uv: "(u, v) \<in> liveLinks is" "u \<in> I" "v \<in> I"
  proof -
    obtain j where j: "j \<in> set is" "itemId j = u" "itemParent j = Some v" using uv(1) by (auto simp: liveLinks_iff)
    then obtain i where "i \<in> set is0" "itemId i = u" "itemParent i = Some v" using w uv(2,3) unfolding partWay_def by blast
    then show ?thesis using uv(2,3) by (auto simp: innerLinks_def parentRel_def)
  qed
  show "liveLinks is0 \<subseteq> liveLinks is"
  proof (rule subrelI)
    fix u v assume "(u, v) \<in> liveLinks is0"
    then obtain i where i: "i \<in> set is0" "isLive i" "itemId i = u" "itemParent i = Some v" by (auto simp: liveLinks_iff)
    then have "i \<in> set is" using partWay_row [OF g w i(1)] live by blast
    then show "(u, v) \<in> liveLinks is" using i by (auto simp: liveLinks_iff)
  qed
  show "innerLinks is0 I \<subseteq> liveLinks is"
  proof (rule subrelI)
    fix u v assume "(u, v) \<in> innerLinks is0 I"
    then obtain i where i: "i \<in> set is0" "itemId i = u" "itemParent i = Some v" "u \<in> I" "v \<in> I" by (auto simp: innerLinks_def parentRel_def)
    obtain j where j: "j \<in> set is" "itemId j = u" using partWay_row [OF g w i(1)] i(2) by blast
    then obtain i' where i': "i' \<in> set is0" "itemId i' = u" "isLive j" "itemParent j = Some v \<longleftrightarrow> itemParent i' = Some v"
      using w i(4,5) unfolding partWay_def by blast
    then have "i' = i" using same_row [OF goneD(1) [OF g]] i by metis
    then show "(u, v) \<in> liveLinks is" using i' i j by (auto simp: liveLinks_iff)
  qed
qed

lemma partWay_acyclic:
  assumes g: "goneTogether is0 b I" and w: "partWay is0 I is"
  shows "acyclic (liveLinks is)"
proof (rule split_acyclic [where L = I])
  note l = partWay_links [OF g w]
  show "\<And>u v. (u, v) \<in> liveLinks is \<Longrightarrow> u \<notin> I \<Longrightarrow> v \<notin> I" using l(1) by blast
  have "liveLinks is \<inter> I \<times> I \<subseteq> innerLinks is0 I" using l(2) by blast
  then show "acyclic (liveLinks is \<inter> I \<times> I)" using bound_acyclic [OF inner_levels [OF g]] acyclic_subset by blast
  have "liveLinks is \<inter> (- I) \<times> (- I) \<subseteq> liveLinks is0" using l(1) by blast
  then show "acyclic (liveLinks is \<inter> (- I) \<times> (- I))" using bound_acyclic [OF goneD(6) [OF g]] acyclic_subset by blast
qed

text \<open>An item not too deep under an old one: the levels below it and above that one leave room.\<close>

lemma partWay_room:
  assumes g: "goneTogether is0 b I" and w: "partWay is0 I is" and p: "p \<noteq> []" "\<not> tooDeepUnder is k p"
    and m: "(x, k) \<in> innerLinks is0 I ^^ m" and n: "(p, a) \<in> liveLinks is0 ^^ n"
  shows "m + 1 + n < MAX_DEPTH"
proof -
  note l = partWay_links [OF g w]
  have dist: "distinct (map itemId is)" using w goneD(1) [OF g] by (simp add: partWay_def)
  have "m < MAX_DEPTH" by (rule chain_bound [OF inner_levels [OF g] m])
  moreover have "(x, k) \<in> liveRel (nodes is) ^^ m" using m relpow_mono_rel [OF l(4)] by (auto simp: liveRel_nodes)
  ultimately have "m + 1 \<le> subtreeHeight is k" using subtreeHeight_chain by simp
  moreover have "0 + int n \<le> depthFrom (filter isLive is) [] 0 p"
  proof (rule depthFrom_along [OF dist partWay_acyclic [OF g w] _ n])
    fix u v assume uv: "(u, v) \<in> liveLinks is0"
    obtain q where q: "q \<in> set is0" "isLive q" "itemId q = v" using link_ends(2) [OF goneD(4) [OF g] uv] by blast
    then have "itemId q \<notin> I" using goneD(9) [OF g q(1)] by (auto simp: inBatch_def)
    then have "q \<in> set is" using partWay_row [OF g w q(1)] by blast
    moreover have "v \<noteq> []" using q goneD(2) [OF g] by force
    ultimately show "(u, v) \<in> liveLinks is \<and> v \<noteq> [] \<and> (\<exists>q \<in> set is. isLive q \<and> itemId q = v)" using uv l(3) q by blast
  qed simp
  ultimately show ?thesis using p by (simp add: tooDeepUnder_def depthOf_def)
qed

section \<open>A turn of the loop\<close>

text \<open>A root brought back: in a live checklist; at the top, or under an old item of it with room above.\<close>

definition underOld :: "itemRow list \<Rightarrow> ident \<Rightarrow> ident \<Rightarrow> bool" where
  "underOld is0 l p \<longleftrightarrow> (\<exists>q \<in> set is0. isLive q \<and> itemId q = p \<and> itemList q = Some l)"

definition roomAbove :: "itemRow list \<Rightarrow> ident set \<Rightarrow> ident \<Rightarrow> ident \<Rightarrow> bool" where
  "roomAbove is0 I k p \<longleftrightarrow> (\<forall>m n x a. (x, k) \<in> innerLinks is0 I ^^ m \<and> (p, a) \<in> liveLinks is0 ^^ n \<longrightarrow> m + 1 + n < MAX_DEPTH)"

definition rootBack :: "itemRow list \<Rightarrow> ident set \<Rightarrow> listRow list \<Rightarrow> itemRow \<Rightarrow> bool" where
  "rootBack is0 I ls j \<longleftrightarrow> (\<exists>l \<in> set (liveListIds ls). itemList j = Some l
     \<and> (\<forall>p. itemParent j = Some p \<longrightarrow> underOld is0 l p \<and> roomAbove is0 I (itemId j) p))"

definition midway :: "itemRow list \<Rightarrow> ident set \<Rightarrow> listRow list \<Rightarrow> ident set \<Rightarrow> itemRow list \<Rightarrow> bool" where
  "midway is0 I ls done is \<longleftrightarrow> partWay is0 I is
     \<and> (\<forall>j \<in> set is. itemId j \<in> I \<longrightarrow>
          (\<forall>q \<in> set is. itemParent j = Some (itemId q) \<and> itemId q \<in> I \<longrightarrow> itemList j = itemList q)
          \<and> ((\<forall>p \<in> I. itemParent j \<noteq> Some p) \<longrightarrow>
               (if itemId j \<in> done then rootBack is0 I ls j else itemParent j \<noteq> Some [])))"

lemma underOld_not: "goneTogether is0 b I \<Longrightarrow> underOld is0 l p \<Longrightarrow> p \<notin> I \<and> p \<noteq> []"
proof -
  assume g: "goneTogether is0 b I" and "underOld is0 l p"
  then obtain q where q: "q \<in> set is0" "isLive q" "itemId q = p" by (auto simp: underOld_def)
  have "p \<notin> I" using goneD(9) [OF g q(1)] q(2,3) by (auto simp: inBatch_def)
  moreover have "p \<noteq> []" using goneD(2) [OF g] q(1,3) by force
  ultimately show ?thesis by blast
qed

text \<open>Only what is restored is below a root, and no other root is.\<close>

lemma closed_back: "(x, k) \<in> R\<^sup>* \<Longrightarrow> k \<in> I \<Longrightarrow> (\<And>u v. (u, v) \<in> R \<Longrightarrow> v \<in> I \<Longrightarrow> u \<in> I) \<Longrightarrow> x \<in> I"
  by (erule converse_rtrancl_induct) blast+

lemma below_root:
  assumes g: "goneTogether is0 b I" and w: "partWay is0 I is" and k: "k \<in> I"
    and x: "(x, k) \<in> (liveLinks is)\<^sup>*"
  shows "x \<in> I" and "x \<noteq> k \<Longrightarrow> \<exists>p \<in> I. (x, p) \<in> liveLinks is"
proof -
  have into: "u \<in> I" if "(u, v) \<in> liveLinks is" "v \<in> I" for u v
    using partWay_links(1) [OF g w that(1)] that(2) by metis
  show "x \<in> I" by (rule closed_back [OF x k into])
  assume "x \<noteq> k"
  then obtain p where "(x, p) \<in> liveLinks is" "(p, k) \<in> (liveLinks is)\<^sup>*" using x by (metis converse_rtranclE)
  moreover from this(2) have "p \<in> I" by (rule closed_back [OF _ k into])
  ultimately show "\<exists>p \<in> I. (x, p) \<in> liveLinks is" by blast
qed

lemma moved_partWay:
  assumes g: "goneTogether is0 b I" and w: "partWay is0 I is" and k: "k \<in> I"
    and root: "\<And>j q. j \<in> set is \<Longrightarrow> itemId j = k \<Longrightarrow> q \<in> I \<Longrightarrow> itemParent j \<noteq> Some q"
    and U: "U \<subseteq> {x. (x, k) \<in> (liveLinks is)\<^sup>*}" and p: "\<And>x. p = Some x \<Longrightarrow> x \<notin> I"
  shows "partWay is0 I (map (movedRow k U l p) is)"
  unfolding partWay_def
proof (intro conjI ballI)
  show "map itemId (map (movedRow k U l p) is) = map itemId is0" using w by (simp add: partWay_def comp_def)
  fix j' assume "j' \<in> set (map (movedRow k U l p) is)"
  then obtain j where j: "j \<in> set is" "j' = movedRow k U l p j" by auto
  obtain i where i: "i \<in> set is0" "itemId i = itemId j" "itemId j \<notin> I \<longrightarrow> j = i"
      "itemId j \<in> I \<longrightarrow> isLive j \<and> itemBatch j = None \<and> itemTask j = itemTask i \<and> (\<forall>p \<in> I. itemParent j = Some p \<longleftrightarrow> itemParent i = Some p)"
    using w j(1) unfolding partWay_def by blast
  have "j' = j" if "itemId j \<notin> I"
  proof -
    have "itemId j \<noteq> k" "itemId j \<notin> U" using that k U below_root(1) [OF g w k] by blast+
    then show ?thesis using j(2) by (simp add: movedRow_def)
  qed
  moreover have "isLive j' \<and> itemBatch j' = None \<and> itemTask j' = itemTask i \<and> (\<forall>x \<in> I. itemParent j' = Some x \<longleftrightarrow> itemParent i = Some x)"
    if "itemId j \<in> I"
    using that i(4) root [OF j(1)] p unfolding j(2) by auto
  ultimately show "\<exists>i \<in> set is0. itemId i = itemId j' \<and> (itemId j' \<notin> I \<longrightarrow> j' = i) \<and> (itemId j' \<in> I \<longrightarrow> isLive j' \<and> itemBatch j' = None
      \<and> itemTask j' = itemTask i \<and> (\<forall>x \<in> I. itemParent j' = Some x \<longleftrightarrow> itemParent i = Some x))"
    using i j(2) by (intro bexI [of _ i]) auto
qed

lemma place_root:
  assumes g: "goneTogether is0 b I" and m: "midway is0 I ls done is"
    and row: "row \<in> set is" "itemId row = k" "k \<in> I" "\<And>q. q \<in> I \<Longrightarrow> itemParent row \<noteq> Some q"
    and U: "U = {x. (x, k) \<in> (liveLinks is)\<^sup>*} \<or> (U = {} \<and> itemList row = Some l)"
    and l: "l \<in> set (liveListIds ls')" "set (liveListIds ls) \<subseteq> set (liveListIds ls')"
    and p: "\<And>x. p = Some x \<Longrightarrow> underOld is0 l x \<and> roomAbove is0 I k x"
  shows "midway is0 I ls' (insert k done) (map (movedRow k U l p) is)"
proof -
  define f where "f = movedRow k U l p"
  have w: "partWay is0 I is" using m by (simp add: midway_def)
  have dist: "distinct (map itemId is)" using w goneD(1) [OF g] by (simp add: partWay_def)
  have only: "j = row" if "j \<in> set is" "itemId j = k" for j using same_row [OF dist that(1) row(1)] that(2) row(2) by simp
  have pI: "x \<notin> I" if "p = Some x" for x using underOld_not [OF g] p [OF that] by blast
  have sub: "U \<subseteq> {x. (x, k) \<in> (liveLinks is)\<^sup>*}" using U by blast
  have part: "partWay is0 I (map f is)"
    unfolding f_def by (rule moved_partWay [OF g w row(3) _ sub pI]) (use only row(4) in auto)
  have inner: "itemList (f j) = itemList (f q)"
    if jq: "j \<in> set is" "q \<in> set is" "itemId j \<in> I" "itemParent (f j) = Some (itemId q)" "itemId q \<in> I" for j q
  proof -
    have jk: "itemId j \<noteq> k" using jq(4,5) pI by (auto simp: f_def)
    then have par: "itemParent j = Some (itemId q)" using jq(4) by (simp add: f_def)
    have "isLive j" using w jq(1,3) unfolding partWay_def by blast
    then have "(itemId j, k) \<in> (liveLinks is)\<^sup>* \<longleftrightarrow> (itemId q, k) \<in> (liveLinks is)\<^sup>*"
      using below_parent [of "filter isLive is" j "itemId q" k] dist jq(1) par jk by (simp add: distinct_map_filter)
    then have "itemId j \<in> U \<longleftrightarrow> itemId q \<in> U" using U by auto
    moreover have "itemList j = itemList q" using m jq(1,2,3,5) par unfolding midway_def by blast
    ultimately show ?thesis by (simp add: f_def)
  qed
  have roots: "if itemId j \<in> insert k done then rootBack is0 I ls' (f j) else itemParent (f j) \<noteq> Some []"
    if j: "j \<in> set is" "itemId j \<in> I" "\<forall>q \<in> I. itemParent (f j) \<noteq> Some q" for j
  proof (cases "itemId j = k")
    case True
    then have "itemList (f j) = Some l" using U only [OF j(1)] by (auto simp: f_def)
    then show ?thesis using True p l(1) unfolding rootBack_def by (auto simp: f_def)
  next
    case False
    then have par: "itemParent (f j) = itemParent j" by (simp add: f_def)
    have "itemId j \<notin> U"
    proof
      assume "itemId j \<in> U"
      then have "(itemId j, k) \<in> (liveLinks is)\<^sup>*" using sub by blast
      then obtain q where q: "q \<in> I" "(itemId j, q) \<in> liveLinks is" using below_root(2) [OF g w row(3)] False by blast
      then obtain j' where "j' \<in> set is" "itemId j' = itemId j" "itemParent j' = Some q" by (auto simp: liveLinks_iff)
      then show False using same_row [OF dist] j(1,3) q(1) par by metis
    qed
    then have "f j = j" using False by (simp add: f_def movedRow_def)
    moreover have "if itemId j \<in> done then rootBack is0 I ls j else itemParent j \<noteq> Some []"
      using m j par unfolding midway_def by auto
    moreover have "rootBack is0 I ls j \<Longrightarrow> rootBack is0 I ls' j" using l(2) unfolding rootBack_def by blast
    ultimately show ?thesis using False by auto
  qed
  have "midway is0 I ls' (insert k done) (map f is)"
    unfolding midway_def
  proof (intro conjI ballI impI part)
    fix j' assume "j' \<in> set (map f is)" "itemId j' \<in> I"
    then obtain j where j: "j \<in> set is" "j' = f j" "itemId j \<in> I" by (auto simp: f_def)
    show "itemList j' = itemList q'" if q': "q' \<in> set (map f is)" "itemParent j' = Some (itemId q') \<and> itemId q' \<in> I" for q'
    proof -
      obtain q where q: "q \<in> set is" "q' = f q" "itemId q' = itemId q" using q'(1) by (auto simp: f_def)
      then show ?thesis using inner [OF j(1) q(1) j(3)] q'(2) j(2) by simp
    qed
    assume "\<forall>q \<in> I. itemParent j' \<noteq> Some q"
    moreover have "itemId j' = itemId j" using j(2) by (simp add: f_def)
    ultimately show "if itemId j' \<in> insert k done then rootBack is0 I ls' j' else itemParent j' \<noteq> Some []"
      using roots [OF j(1,3)] j(2) by simp
  qed
  then show ?thesis by (simp add: f_def)
qed

lemma rowOf_mem: "distinct (map itemId is) \<Longrightarrow> i \<in> set is \<Longrightarrow> rowOf is (itemId i) = Some i"
  unfolding rowOf_def by (induction "is") auto

lemma live_tree: "set (k # descendantIds is k False) = {x. (x, k) \<in> (liveLinks is)\<^sup>*}"
  by (auto simp: descendantIds_set rtrancl_eq_or_trancl)

lemma moved_forms:
  assumes "distinct (map itemId is)" "row \<in> set is" "itemId row = k"
  defines "T \<equiv> {x. (x, k) \<in> (liveLinks is)\<^sup>*}"
  shows "relistTree k (Some l) is = map (movedRow k T l (itemParent row)) is"
    and "setParent k p (relistTree k (Some l) is) = map (movedRow k T l p) is"
    and "setParent k p is = map (movedRow k {} l p) is"
    and "is = map (movedRow k {} l (itemParent row)) is"
    and "setParent k p (map (movedRow k U l x) is) = map (movedRow k U l p) is"
proof -
  have only: "i = row" if "i \<in> set is" "itemId i = k" for i using same_row [OF assms(1) that(1) assms(2)] that(2) assms(3) by simp
  show "relistTree k (Some l) is = map (movedRow k T l (itemParent row)) is"
    unfolding relistTree_def Let_def live_tree T_def [symmetric] using only by (auto simp: movedRow_def)
  show "setParent k p (relistTree k (Some l) is) = map (movedRow k T l p) is"
    unfolding relistTree_def Let_def live_tree T_def [symmetric] setParent_def updateItem_def by (simp add: movedRow_def comp_def)
  show "setParent k p is = map (movedRow k {} l p) is"
    unfolding setParent_def updateItem_def by (auto simp: movedRow_def)
  show "is = map (movedRow k {} l (itemParent row)) is"
    using only by (auto simp: movedRow_def intro!: map_idI [symmetric])
  show "setParent k p (map (movedRow k U l x) is) = map (movedRow k U l p) is"
    unfolding setParent_def updateItem_def by (auto simp: movedRow_def)
qed

lemma firstList_items:
  "firstList newId t actor at (r\<lparr>cr_items := X\<rparr>) = (case firstList newId t actor at r of (l, r') \<Rightarrow> (l, r'\<lparr>cr_items := X\<rparr>))"
  by (simp add: firstList_def Let_def split: list.split)

lemma firstList_lists:
  assumes "firstList newId t actor at r = (l, r')"
  shows "set (liveListIds (cr_lists r)) \<subseteq> set (liveListIds (cr_lists r'))" "cr_items r' = cr_items r"
  using assms by (auto simp: firstList_def liveListIds_def Let_def split: list.splits)

text \<open>The rows of the lists, the old items with them, between the turns.\<close>

definition oldOk :: "(nat \<Rightarrow> ident) \<Rightarrow> ident \<Rightarrow> itemRow list \<Rightarrow> checklistRows \<Rightarrow> bool" where
  "oldOk newId t is0 rows \<longleftrightarrow> rowsOk newId t (rows\<lparr>cr_items := is0\<rparr>) \<and> homed (rows\<lparr>cr_items := is0\<rparr>)"

lemma old_home: "oldOk newId t is0 rows \<Longrightarrow> q \<in> set is0 \<Longrightarrow> isLive q \<Longrightarrow> \<exists>l \<in> set (liveListIds (cr_lists rows)). itemList q = Some l"
  unfolding oldOk_def homed_def by (fastforce simp: liveListIds_def)

lemma restoreRoot_turn:
  fixes rows :: checklistRows
  assumes gid: "goodIds newId" and g: "goneTogether is0 b I" and m: "midway is0 I (cr_lists rows) done (cr_items rows)"
    and old: "oldOk newId t is0 rows" and ids: "set listIds \<subseteq> set (liveListIds (cr_lists rows))"
    and live: "\<And>x. x \<notin> I \<Longrightarrow> x \<in> set liveIds \<longleftrightarrow> (\<exists>q \<in> set is0. isLive q \<and> itemId q = x)"
    and i: "i \<in> set (cr_items rows)" "itemId i = k" "k \<in> I" "k \<notin> done" and root: "\<And>q. q \<in> I \<Longrightarrow> itemParent i \<noteq> Some q"
    and st: "restoreRoot newId t actor at liveIds i (rows, listIds) = (rows', listIds')"
  shows "\<exists>U l p. cr_items rows' = map (movedRow k U l p) (cr_items rows)
      \<and> (U = {x. (x, k) \<in> (liveLinks (cr_items rows))\<^sup>*} \<or> U = {} \<and> itemList i = Some l)
      \<and> l \<in> set (liveListIds (cr_lists rows')) \<and> (\<forall>x. p = Some x \<longrightarrow> underOld is0 l x)"
    and "oldOk newId t is0 rows'" "grown newId (rows\<lparr>cr_items := is0\<rparr>) (rows'\<lparr>cr_items := is0\<rparr>)"
    and "set (liveListIds (cr_lists rows)) \<subseteq> set (liveListIds (cr_lists rows'))" "set listIds' \<subseteq> set (liveListIds (cr_lists rows'))"
proof -
  let ?is = "cr_items rows"
  have w: "partWay is0 I ?is" using m by (simp add: midway_def)
  have dist: "distinct (map itemId ?is)" using w goneD(1) [OF g] by (simp add: partWay_def)
  note forms = moved_forms [OF dist i(1,2)]
  have real: "itemParent i \<noteq> Some []" using m i root unfolding midway_def by fastforce
  let ?R1 = "\<exists>U l p. cr_items rows' = map (movedRow k U l p) ?is
      \<and> (U = {x. (x, k) \<in> (liveLinks ?is)\<^sup>*} \<or> U = {} \<and> itemList i = Some l)
      \<and> l \<in> set (liveListIds (cr_lists rows')) \<and> (\<forall>x. p = Some x \<longrightarrow> underOld is0 l x)"
  have "?R1 \<and> oldOk newId t is0 rows' \<and> grown newId (rows\<lparr>cr_items := is0\<rparr>) (rows'\<lparr>cr_items := is0\<rparr>)
    \<and> set (liveListIds (cr_lists rows)) \<subseteq> set (liveListIds (cr_lists rows')) \<and> set listIds' \<subseteq> set (liveListIds (cr_lists rows'))"
  proof (cases "case given (itemList i) of None \<Rightarrow> True | Some l \<Rightarrow> l \<notin> set listIds")
    case True
    obtain l r1 where f: "firstList newId t actor at rows = (l, r1)" by fastforce
    have r': "rows' = r1\<lparr>cr_items := setParent k None (relistTree k (Some (listId l)) (cr_items r1))\<rparr>"
      "listIds' = (if liveLists (cr_lists rows) = [] then listId l # listIds else listIds)"
      using st True f i(2) by (simp_all add: restoreRoot_def Let_def)
    note fl = firstList_lists [OF f]
    have "firstList newId t actor at (rows\<lparr>cr_items := is0\<rparr>) = (l, r1\<lparr>cr_items := is0\<rparr>)" using f by (simp add: firstList_items)
    from firstList_ok [OF gid _ this] old have fo: "rowsOk newId t (r1\<lparr>cr_items := is0\<rparr>) \<and> homed (r1\<lparr>cr_items := is0\<rparr>)
        \<and> grown newId (rows\<lparr>cr_items := is0\<rparr>) (r1\<lparr>cr_items := is0\<rparr>) \<and> l \<in> set (cr_lists r1) \<and> isLiveList l"
      by (auto simp: oldOk_def)
    have ll: "listId l \<in> set (liveListIds (cr_lists r1))" using fo by (auto simp: liveListIds_def)
    have "cr_items rows' = map (movedRow k {x. (x, k) \<in> (liveLinks ?is)\<^sup>*} (listId l) None) ?is"
      unfolding r'(1) fl(2) using forms(2) by simp
    then have ?R1 using ll r'(1) by (intro exI [of _ "{x. (x, k) \<in> (liveLinks ?is)\<^sup>*}"] exI [of _ "listId l"] exI [of _ None]) simp
    moreover have "rows'\<lparr>cr_items := is0\<rparr> = r1\<lparr>cr_items := is0\<rparr>" "cr_lists rows' = cr_lists r1" using r'(1) by simp_all
    ultimately show ?thesis using fo fl(1) ll ids r'(2) by (auto simp: oldOk_def)
  next
    case False
    then obtain l0 where l0: "itemList i = Some l0" "l0 \<in> set listIds" "l0 \<noteq> []" by (auto split: option.splits)
    have l0': "l0 \<in> set (liveListIds (cr_lists rows))" using l0(2) ids by blast
    have "\<exists>U l p. rows' = rows\<lparr>cr_items := map (movedRow k U l p) ?is\<rparr> \<and> listIds' = listIds
        \<and> (U = {x. (x, k) \<in> (liveLinks ?is)\<^sup>*} \<or> U = {} \<and> itemList i = Some l)
        \<and> l \<in> set (liveListIds (cr_lists rows)) \<and> (\<forall>x. p = Some x \<longrightarrow> underOld is0 l x)"
    proof (cases "itemParent i")
      case None
      then have "rows' = rows" "listIds' = listIds" using st False l0 by (simp_all add: restoreRoot_def Let_def)
      moreover have "rows = rows\<lparr>cr_items := map (movedRow k {} l0 None) ?is\<rparr>" using forms(4) [of l0] None by simp
      ultimately show ?thesis using l0 l0' by (intro exI [of _ "{}"] exI [of _ l0] exI [of _ None]) simp
    next
      case (Some p)
      then have p: "p \<noteq> []" "p \<notin> I" using real root by auto
      show ?thesis
      proof (cases "p \<in> set liveIds")
        case False
        then have "rows' = rows\<lparr>cr_items := setParent k None ?is\<rparr>" "listIds' = listIds"
          using st l0 Some p(1) i(2) by (simp_all add: restoreRoot_def Let_def)
        then show ?thesis using forms(3) [of None l0] l0 l0' by (intro exI [of _ "{}"] exI [of _ l0] exI [of _ None]) simp
      next
        case True
        then obtain q where q: "q \<in> set is0" "isLive q" "itemId q = p" using live [OF p(2)] by blast
        obtain l1 where l1: "l1 \<in> set (liveListIds (cr_lists rows))" "itemList q = Some l1" using old_home [OF old q(1,2)] by blast
        have "q \<in> set ?is" using partWay_row [OF g w q(1)] q(3) p(2) by blast
        then have row: "rowOf ?is p = Some q" using rowOf_mem [OF dist] q(3) by metis
        have under: "underOld is0 l1 p" using q l1 by (auto simp: underOld_def)
        show ?thesis
        proof (cases "itemList q = itemList i")
          case True
          then have "rows' = rows" "listIds' = listIds" using st l0 Some p(1) i(2) row \<open>p \<in> set liveIds\<close> by (simp_all add: restoreRoot_def Let_def)
          moreover have "rows = rows\<lparr>cr_items := map (movedRow k {} l1 (Some p)) ?is\<rparr>" using forms(4) [of l1] Some by simp
          ultimately show ?thesis using l1 True under by (intro exI [of _ "{}"] exI [of _ l1] exI [of _ "Some p"]) simp
        next
          case False
          then have "rows' = rows\<lparr>cr_items := relistTree k (Some l1) ?is\<rparr>" "listIds' = listIds"
            using st l0 l1 Some p(1) i(2) row \<open>p \<in> set liveIds\<close> by (simp_all add: restoreRoot_def Let_def)
          then show ?thesis using forms(1) [of l1] l1 Some under
            by (intro exI [of _ "{x. (x, k) \<in> (liveLinks ?is)\<^sup>*}"] exI [of _ l1] exI [of _ "Some p"]) simp
        qed
      qed
    qed
    then obtain U l p where u: "rows' = rows\<lparr>cr_items := map (movedRow k U l p) ?is\<rparr>" "listIds' = listIds"
        "U = {x. (x, k) \<in> (liveLinks ?is)\<^sup>*} \<or> U = {} \<and> itemList i = Some l"
        "l \<in> set (liveListIds (cr_lists rows))" "\<forall>x. p = Some x \<longrightarrow> underOld is0 l x" by blast
    then have "cr_items rows' = map (movedRow k U l p) ?is" "cr_lists rows' = cr_lists rows" "rows'\<lparr>cr_items := is0\<rparr> = rows\<lparr>cr_items := is0\<rparr>" by simp_all
    moreover from this have ?R1 using u(3-5) by (intro exI [of _ U] exI [of _ l] exI [of _ p]) simp
    ultimately show ?thesis using old ids u(2) by (simp add: oldOk_def)
  qed
  then show ?R1 "oldOk newId t is0 rows'" "grown newId (rows\<lparr>cr_items := is0\<rparr>) (rows'\<lparr>cr_items := is0\<rparr>)"
    "set (liveListIds (cr_lists rows)) \<subseteq> set (liveListIds (cr_lists rows'))" "set listIds' \<subseteq> set (liveListIds (cr_lists rows'))" by blast+
qed


lemma climb_turn:
  assumes g: "goneTogether is0 b I" and m: "midway is0 I ls done is"
    and row: "row \<in> set is" "itemId row = k" "k \<in> I" "\<And>q. q \<in> I \<Longrightarrow> itemParent row \<noteq> Some q"
    and U: "U = {x. (x, k) \<in> (liveLinks is)\<^sup>*} \<or> (U = {} \<and> itemList row = Some l)"
    and l: "l \<in> set (liveListIds ls')" "set (liveListIds ls) \<subseteq> set (liveListIds ls')"
    and p: "\<And>x. p = Some x \<Longrightarrow> underOld is0 l x"
  shows "\<exists>is'. climb k (map (movedRow k U l p) is) = Some is' \<and> midway is0 I ls' (insert k done) is'"
proof -
  let ?js = "map (movedRow k U l p) is"
  have w: "partWay is0 I is" using m by (simp add: midway_def)
  have dist: "distinct (map itemId is)" using w goneD(1) [OF g] by (simp add: partWay_def)
  have root: "itemParent j \<noteq> Some q" if "j \<in> set is" "itemId j = k" "q \<in> I" for j q
    using same_row [OF dist that(1) row(1)] that(2,3) row(2,4) by simp
  have sub: "U \<subseteq> {x. (x, k) \<in> (liveLinks is)\<^sup>*}" using U by blast
  have part: "partWay is0 I (map (movedRow k U l y) is)" if "\<And>x. y = Some x \<Longrightarrow> underOld is0 l x" for y
    by (rule moved_partWay [OF g w row(3) root sub]) (use that underOld_not [OF g] in blast)+
  note set_p = moved_forms(5) [OF dist row(1,2), of _ U l]
  have rk: "rowOf ?js k \<noteq> None"
    using rowOf_mem [OF dist row(1)] row(2) rowOf_map [of "movedRow k U l p" "is" k] by simp
  have up: "x \<noteq> k \<and> x \<noteq> [] \<and> (\<forall>y. parentNow ?js x = Some y \<longrightarrow> underOld is0 l y \<and> (x, y) \<in> liveLinks is0)" if x: "underOld is0 l x" for x
  proof -
    note xI = underOld_not [OF g x]
    obtain q where q: "q \<in> set is0" "isLive q" "itemId q = x" "itemList q = Some l" using x by (auto simp: underOld_def)
    have "q \<in> set ?js" using partWay_row [OF g part [OF p] q(1)] q(3) xI by blast
    then have "rowOf ?js x = Some q" using rowOf_mem [of ?js q] dist q(3) by (simp add: comp_def)
    then have now: "parentNow ?js x = itemParent q" by (simp add: parentNow_def)
    have "underOld is0 l y \<and> (x, y) \<in> liveLinks is0" if "itemParent q = Some y" for y
    proof -
      obtain z where "z \<in> set is0" "itemId z = y" "isLive z" "itemList z = itemList q"
        by (rule liveParentsD [OF goneD(4) [OF g] q(1,2) \<open>itemParent q = Some y\<close>])
      then show ?thesis using q that by (auto simp: underOld_def liveLinks_iff)
    qed
    then show ?thesis using xI row(3) now by auto
  qed
  have "\<exists>p'. climb k ?js = Some (map (movedRow k U l p') is)
      \<and> (\<forall>y. p' = Some y \<longrightarrow> underOld is0 l y \<and> \<not> tooDeepUnder (map (movedRow k U l p') is) k y)"
  proof (cases p)
    case None
    have "parentNow ?js k = None" using rowOf_mem [OF dist row(1)] row(2) rowOf_map [of "movedRow k U l p" "is" k] None by (simp add: parentNow_def)
    then have "climb k ?js = Some ?js" by (subst climb.simps) simp
    then show ?thesis using None by (intro exI [of _ None]) simp
  next
    case (Some x)
    have "underOld is0 l x" by (rule p [OF Some])
    from climb_up [where P = "underOld is0 l", OF rk goneD(6) [OF g] up this]
    obtain p' where "climb k (setParent k (Some x) ?js) = Some (setParent k p' ?js)"
        "\<forall>y. p' = Some y \<longrightarrow> underOld is0 l y \<and> \<not> tooDeepUnder (setParent k p' ?js) k y" by blast
    then show ?thesis unfolding set_p using Some by (intro exI [of _ p']) simp
  qed
  then obtain p' where p': "climb k ?js = Some (map (movedRow k U l p') is)"
      "\<And>y. p' = Some y \<Longrightarrow> underOld is0 l y \<and> \<not> tooDeepUnder (map (movedRow k U l p') is) k y" by blast
  have part': "partWay is0 I (map (movedRow k U l p') is)" by (rule part) (use p'(2) in blast)
  have "roomAbove is0 I k y" if "p' = Some y" for y
    unfolding roomAbove_def using partWay_room [OF g part'] p'(2) [OF that] underOld_not [OF g] by blast
  then have "midway is0 I ls' (insert k done) (map (movedRow k U l p') is)"
    using p'(2) by (intro place_root [OF g m row U l]) auto
  then show ?thesis using p'(1) by blast
qed

section \<open>The loop\<close>

lemma midway_skip:
  assumes "midway is0 I ls done is" "i \<in> set is" "distinct (map itemId is)" "p \<in> I" "itemParent i = Some p"
  shows "midway is0 I ls (insert (itemId i) done) is"
proof -
  have "itemId j \<noteq> itemId i" if "j \<in> set is" "\<forall>q \<in> I. itemParent j \<noteq> Some q" for j
    using same_row [OF assms(3) that(1) assms(2)] that(2) assms(4,5) by metis
  then show ?thesis using assms(1) unfolding midway_def by auto
qed

lemma restoreLoop_ok:
  assumes gid: "goodIds newId" and g: "goneTogether is0 b (set ids)"
    and live: "\<And>x. x \<notin> set ids \<Longrightarrow> x \<in> set liveIds \<longleftrightarrow> (\<exists>q \<in> set is0. isLive q \<and> itemId q = x)"
  shows "midway is0 (set ids) (cr_lists rows) done (cr_items rows) \<Longrightarrow> oldOk newId t is0 rows
    \<Longrightarrow> set listIds \<subseteq> set (liveListIds (cr_lists rows)) \<Longrightarrow> distinct ks \<Longrightarrow> set ks \<subseteq> set ids \<Longrightarrow> set ks \<inter> done = {}
    \<Longrightarrow> \<exists>rows' ls. restoreLoop newId t actor at ids liveIds ks (rows, listIds) = Some (rows', ls)
      \<and> midway is0 (set ids) (cr_lists rows') (done \<union> set ks) (cr_items rows') \<and> oldOk newId t is0 rows'
      \<and> grown newId (rows\<lparr>cr_items := is0\<rparr>) (rows'\<lparr>cr_items := is0\<rparr>)
      \<and> set (liveListIds (cr_lists rows)) \<subseteq> set (liveListIds (cr_lists rows'))"
proof (induction ks arbitrary: rows listIds "done")
  case Nil
  then show ?case by simp
next
  case (Cons k ks)
  let ?I = "set ids"
  have w: "partWay is0 ?I (cr_items rows)" using Cons.prems(1) by (simp add: midway_def)
  have dist: "distinct (map itemId (cr_items rows))" using w goneD(1) [OF g] by (simp add: partWay_def)
  have k: "k \<in> ?I" "k \<notin> done" "distinct ks" "set ks \<subseteq> ?I" "set ks \<inter> insert k done = {}" using Cons.prems by auto
  obtain i0 where "i0 \<in> set is0" "itemId i0 = k" using goneD(10) [OF g k(1)] by blast
  then obtain i where i: "i \<in> set (cr_items rows)" "itemId i = k" using partWay_row [OF g w] by blast
  have row: "rowOf (cr_items rows) k = Some i" using rowOf_mem [OF dist i(1)] i(2) by simp
  show ?case
  proof (cases "\<exists>p \<in> ?I. itemParent i = Some p")
    case True
    then obtain p where p: "p \<in> ?I" "itemParent i = Some p" by blast
    have "midway is0 ?I (cr_lists rows) (insert k done) (cr_items rows)"
      using midway_skip [OF Cons.prems(1) i(1) dist p] i(2) by simp
    from Cons.IH [OF this Cons.prems(2,3) k(3,4,5)] show ?thesis using row p by auto
  next
    case False
    obtain rows1 ls1 where st: "restoreRoot newId t actor at liveIds i (rows, listIds) = (rows1, ls1)" by fastforce
    have root: "itemParent i \<noteq> Some q" if "q \<in> ?I" for q using False that by blast
    note turn = restoreRoot_turn [OF gid g Cons.prems(1,2,3) live i k(1,2) root st]
    from turn(1) obtain U l p where u: "cr_items rows1 = map (movedRow k U l p) (cr_items rows)"
        "U = {x. (x, k) \<in> (liveLinks (cr_items rows))\<^sup>*} \<or> U = {} \<and> itemList i = Some l"
        "l \<in> set (liveListIds (cr_lists rows1))" "\<And>x. p = Some x \<Longrightarrow> underOld is0 l x" by blast
    obtain is' where c: "climb k (cr_items rows1) = Some is'" "midway is0 ?I (cr_lists rows1) (insert k done) is'"
      unfolding u(1) using climb_turn [OF g Cons.prems(1) i k(1) root u(2,3) turn(4) u(4)] by blast
    let ?r = "rows1\<lparr>cr_items := is'\<rparr>"
    have old: "oldOk newId t is0 ?r" using turn(2) by (simp add: oldOk_def)
    have mid: "midway is0 ?I (cr_lists ?r) (insert k done) (cr_items ?r)" using c(2) by simp
    have ls: "set ls1 \<subseteq> set (liveListIds (cr_lists ?r))" using turn(5) by simp
    have step: "restoreLoop newId t actor at ids liveIds (k # ks) (rows, listIds) = restoreLoop newId t actor at ids liveIds ks (?r, ls1)"
      using row False goneD(8) [OF g] st c(1) by (auto simp: Let_def split: option.splits)
    from Cons.IH [OF mid old ls k(3,4,5)] obtain rows' ls' where r: "restoreLoop newId t actor at ids liveIds ks (?r, ls1) = Some (rows', ls')"
        "midway is0 ?I (cr_lists rows') (insert k done \<union> set ks) (cr_items rows')" "oldOk newId t is0 rows'"
        "grown newId (?r\<lparr>cr_items := is0\<rparr>) (rows'\<lparr>cr_items := is0\<rparr>)"
        "set (liveListIds (cr_lists ?r)) \<subseteq> set (liveListIds (cr_lists rows'))" by blast
    have "grown newId (rows\<lparr>cr_items := is0\<rparr>) (rows'\<lparr>cr_items := is0\<rparr>)" using turn(3) r(4) grown_trans by simp
    then show ?thesis using step r turn(4) by (intro exI [of _ rows'] exI [of _ ls']) auto
  qed
qed

section \<open>After the loop\<close>

text \<open>Every restored item is in a live checklist: that of the root it is below.\<close>

lemma midway_homes:
  assumes g: "goneTogether is0 b I" and m: "midway is0 I ls done is" and all: "I \<subseteq> done"
  shows "\<forall>a. (itemId j, a) \<notin> innerLinks is0 I ^^ n \<Longrightarrow> j \<in> set is \<Longrightarrow> itemId j \<in> I
    \<Longrightarrow> \<exists>l \<in> set (liveListIds ls). itemList j = Some l"
proof (induction n arbitrary: j)
  case 0
  then show ?case by simp
next
  case (Suc n)
  have w: "partWay is0 I is" using m by (simp add: midway_def)
  show ?case
  proof (cases "\<exists>p \<in> I. itemParent j = Some p")
    case False
    then have "rootBack is0 I ls j" using m all Suc.prems(2,3) unfolding midway_def by auto
    then show ?thesis by (auto simp: rootBack_def)
  next
    case True
    then obtain p where p: "p \<in> I" "itemParent j = Some p" by blast
    have "isLive j" using w Suc.prems(2,3) unfolding partWay_def by blast
    then have "(itemId j, p) \<in> liveLinks is" using Suc.prems(2) p(2) by (auto simp: liveLinks_iff)
    then have jp: "(itemId j, p) \<in> innerLinks is0 I" by (rule partWay_links(2) [OF g w _ Suc.prems(3) p(1)])
    obtain i where "i \<in> set is0" "itemId i = p" using goneD(10) [OF g p(1)] by blast
    then obtain q where q: "q \<in> set is" "itemId q = p" using partWay_row [OF g w] by blast
    have "\<forall>a. (itemId q, a) \<notin> innerLinks is0 I ^^ n" using Suc.prems(1) relpow_Suc_I2 [OF jp] q(2) by blast
    from Suc.IH [OF this q(1)] obtain l where l: "l \<in> set (liveListIds ls)" "itemList q = Some l" using q(2) p(1) by blast
    have "itemList j = itemList q" using m Suc.prems(2,3) q p unfolding midway_def by blast
    then show ?thesis using l by simp
  qed
qed

lemma midway_tree:
  assumes g: "goneTogether is0 b I" and m: "midway is0 I ls done is" and all: "I \<subseteq> done"
  shows "treeOk (nodes is)"
proof -
  have w: "partWay is0 I is" using m by (simp add: midway_def)
  note l = partWay_links [OF g w]
  have ids: "map itemId is = map itemId is0" using w by (simp add: partWay_def)
  have old: "j \<in> set is0" if "j \<in> set is" "itemId j \<notin> I" for j using w that unfolding partWay_def by blast
  have live: "isLive j" if "j \<in> set is" "itemId j \<in> I" for j using w that unfolding partWay_def by blast
  have rooted: "rootBack is0 I ls j" if "j \<in> set is" "itemId j \<in> I" "\<forall>p \<in> I. itemParent j \<noteq> Some p" for j
    using m that all unfolding midway_def by auto
  have there: "q \<in> set is" if "q \<in> set is0" "isLive q" for q
    using partWay_row [OF g w that(1)] goneD(9) [OF g that(1)] that(2) by (auto simp: inBatch_def)
  have rp: "realParents is"
    unfolding realParents_def
  proof (intro ballI notI)
    fix j assume j: "j \<in> set is" "itemParent j = Some []"
    show False
    proof (cases "itemId j \<in> I")
      case False
      then show ?thesis using old [OF j(1)] j(2) goneD(3) [OF g] by (auto simp: realParents_def)
    next
      case True
      have "\<forall>p \<in> I. itemParent j \<noteq> Some p" using j(2) goneD(8) [OF g] by auto
      then show ?thesis using rooted [OF j(1) True] j(2) underOld_not [OF g] unfolding rootBack_def by blast
    qed
  qed
  have lp: "liveParents is"
    unfolding liveParents_def
  proof (intro ballI impI allI)
    fix c p assume c: "c \<in> set is" "isLive c" "itemParent c = Some p"
    show "\<exists>q \<in> set is. itemId q = p \<and> isLive q \<and> itemList q = itemList c"
    proof (cases "itemId c \<in> I")
      case False
      then have "c \<in> set is0" by (rule old [OF c(1)])
      then obtain q where "q \<in> set is0" "itemId q = p" "isLive q" "itemList q = itemList c" using liveParentsD [OF goneD(4) [OF g] _ c(2,3)] by blast
      then show ?thesis using there by blast
    next
      case True
      show ?thesis
      proof (cases "p \<in> I")
        case True
        obtain i where "i \<in> set is0" "itemId i = p" using goneD(10) [OF g True] by blast
        then obtain q where q: "q \<in> set is" "itemId q = p" using partWay_row [OF g w] by blast
        have "itemList c = itemList q" using m c \<open>itemId c \<in> I\<close> True q unfolding midway_def by blast
        then show ?thesis using q live True by auto
      next
        case False
        then have "\<forall>x \<in> I. itemParent c \<noteq> Some x" using c(3) by auto
        then have "rootBack is0 I ls c" by (rule rooted [OF c(1) \<open>itemId c \<in> I\<close>])
        then obtain x where "itemList c = Some x" "underOld is0 x p" using c(3) unfolding rootBack_def by blast
        then show ?thesis using there unfolding underOld_def by metis
      qed
    qed
  qed
  have gone: "c \<in> set is0" if "c \<in> set is" "inBatch x c" for c x
    using old [OF that(1)] live [OF that(1)] that(2) by (auto simp: inBatch_def)
  have bl: "batchLists is" using goneD(5) [OF g] gone unfolding batchLists_def by blast
  have bb: "batchLinks is x ^^ MAX_DEPTH = {}" for x
  proof (rule fewer_levels [OF goneD(7) [OF g]])
    show "batchLinks is x \<subseteq> batchLinks is0 x" using gone unfolding batchLinks_def by blast
  qed
  have ll: "liveLinks is ^^ MAX_DEPTH = {}"
  proof (rule levels_ok [where L = I])
    show "\<And>u v. (u, v) \<in> liveLinks is \<Longrightarrow> u \<notin> I \<Longrightarrow> v \<notin> I" using l(1) by blast
    have B: "liveLinks is \<inter> I \<times> I \<subseteq> innerLinks is0 I" using l(2) by blast
    have A: "liveLinks is \<inter> (- I) \<times> (- I) \<subseteq> liveLinks is0" using l(1) by blast
    show "(liveLinks is \<inter> I \<times> I) ^^ MAX_DEPTH = {}" by (rule fewer_levels [OF inner_levels [OF g] B])
    show "(liveLinks is \<inter> (- I) \<times> (- I)) ^^ MAX_DEPTH = {}" by (rule fewer_levels [OF goneD(6) [OF g] A])
    fix k p m n x a
    assume kp: "(k, p) \<in> liveLinks is" "k \<in> I" "p \<notin> I" and mx: "(x, k) \<in> (liveLinks is \<inter> I \<times> I) ^^ m"
      and na: "(p, a) \<in> (liveLinks is \<inter> (- I) \<times> (- I)) ^^ n"
    obtain c where c: "c \<in> set is" "itemId c = k" "itemParent c = Some p" using kp(1) by (auto simp: liveLinks_iff)
    have "\<forall>x \<in> I. itemParent c \<noteq> Some x" using c(3) kp(3) by auto
    then have "rootBack is0 I ls c" using rooted [OF c(1)] c(2) kp(2) by simp
    then have "roomAbove is0 I k p" using c(2,3) unfolding rootBack_def by auto
    moreover have "(x, k) \<in> innerLinks is0 I ^^ m" "(p, a) \<in> liveLinks is0 ^^ n" using mx na relpow_mono_rel [OF B] relpow_mono_rel [OF A] by blast+
    ultimately show "m + 1 + n < MAX_DEPTH" unfolding roomAbove_def by blast
  qed
  have "distinct (map itemId is0) \<and> [] \<notin> set (map itemId is0)" using goneD(1,2) [OF g] by simp
  then show ?thesis unfolding treeOk_items ids using rp lp bl bb ll by blast
qed

lemma midway_done:
  assumes g: "goneTogether is0 b I" and m: "midway is0 I (cr_lists rows) done (cr_items rows)" and all: "I \<subseteq> done"
    and o: "oldOk newId t is0 rows" and room: "length (filter isLive is0) + card I \<le> MAX_ITEMS" and fin: "finite I"
  shows "rowsOk newId t rows \<and> homed rows"
proof -
  let ?is = "cr_items rows"
  have w: "partWay is0 I ?is" using m by (simp add: midway_def)
  have dist: "distinct (map itemId ?is)" using w goneD(1) [OF g] by (simp add: partWay_def)
  have row: "j \<in> set is0 \<and> itemId j \<notin> I \<or> itemId j \<in> I \<and> isLive j \<and> itemBatch j = None \<and> (\<exists>i \<in> set is0. itemId i = itemId j \<and> itemTask j = itemTask i)"
    if "j \<in> set ?is" for j
    using w that unfolding partWay_def by metis
  have ro: "rowsOk newId t (rows\<lparr>cr_items := is0\<rparr>)" and ho: "homed (rows\<lparr>cr_items := is0\<rparr>)" using o by (simp_all add: oldOk_def)
  have "set (map itemId (filter isLive ?is)) \<subseteq> set (map itemId (filter isLive is0)) \<union> I" using row by auto
  then have "card (set (map itemId (filter isLive ?is))) \<le> card (set (map itemId (filter isLive is0)) \<union> I)"
    by (rule card_mono [rotated]) (simp add: fin)
  also have "\<dots> \<le> length (filter isLive is0) + card I"
    using card_Un_le [of "set (map itemId (filter isLive is0))" I] card_length [of "map itemId (filter isLive is0)"] by simp
  finally have few: "length (filter isLive ?is) \<le> MAX_ITEMS"
    using room distinct_card [OF distinct_map_filter [OF dist, of isLive]] by simp
  have task: "\<forall>i \<in> set ?is. itemTask i = t" using row ro unfolding rowsOk_def by fastforce
  have "itemIdsUsed ?is \<subseteq> itemIdsUsed is0"
  proof -
    have "itemId ` set ?is = itemId ` set is0" using map_image_eq [of itemId ?is is0] w by (simp add: partWay_def)
    then show ?thesis using row by (fastforce simp: itemIdsUsed_def)
  qed
  then have used: "itemIdsUsed ?is \<subseteq> newId ` {..<cr_fresh rows}" using rowsOkD(4) [OF ro] by (auto simp: usedIds_split)
  have "rowsOk newId t (rows\<lparr>cr_items := is0\<rparr>\<lparr>cr_items := ?is, cr_fresh := cr_fresh rows\<rparr>)"
    by (rule rowsOk_items [OF ro midway_tree [OF g m all] few task used]) simp
  then have "rowsOk newId t rows" by simp
  moreover have "homed rows"
    unfolding homed_def
  proof (intro ballI impI)
    fix j assume j: "j \<in> set ?is" "isLive j"
    have "\<exists>l \<in> set (liveListIds (cr_lists rows)). itemList j = Some l"
    proof (cases "itemId j \<in> I")
      case True
      then show ?thesis using midway_homes [OF g m all _ j(1) True] inner_levels [OF g] by blast
    next
      case False
      then show ?thesis using row [OF j(1)] old_home [OF o _ j(2)] by blast
    qed
    then show "\<exists>l \<in> set (cr_lists rows). isLiveList l \<and> itemList j = Some (listId l)" by (auto simp: liveListIds_def)
  qed
  ultimately show ?thesis by blast
qed


section \<open>A restore\<close>

lemma restoredItem_fields [simp]:
  "itemId (restoredItem at i) = itemId i" "itemTask (restoredItem at i) = itemTask i" "itemParent (restoredItem at i) = itemParent i"
  "itemList (restoredItem at i) = itemList i" "isLive (restoredItem at i)" "itemBatch (restoredItem at i) = None"
  by (simp_all add: restoredItem_def isLive_def)

lemma restoredList_fields [simp]:
  "listId (restoredList at l) = listId l" "listTask (restoredList at l) = listTask l" "isLiveList (restoredList at l)" "listBatch (restoredList at l) = None"
  by (simp_all add: restoredList_def isLiveList_def)

lemma restorableList_gone: "restorableList b since l \<Longrightarrow> \<not> isLiveList l \<and> listBatch l = Some b"
  by (auto simp: restorableList_def isLiveList_def split: option.splits)

definition listsBack :: "instant \<Rightarrow> ident \<Rightarrow> instant \<Rightarrow> listRow list \<Rightarrow> listRow list" where
  "listsBack at b since = map (\<lambda>l. if restorableList b since l then restoredList at l else l)"

lemma listsBack_parts:
  "length (filter isLiveList (listsBack at b since ls)) = length (filter isLiveList ls) + length (filter (restorableList b since) ls)"
  "length (filter (restorableList b since) ls) \<le> length (filter (\<lambda>x. x = b) (listBatches_of ls))"
  "set (listBatches_of (listsBack at b since ls)) \<subseteq> set (listBatches_of ls)"
  "distinct (listBatches_of ls) \<Longrightarrow> distinct (listBatches_of (listsBack at b since ls))"
  "map listId (listsBack at b since ls) = map listId ls" "map listTask (listsBack at b since ls) = map listTask ls"
  "set (liveListIds ls) \<subseteq> set (liveListIds (listsBack at b since ls))"
proof (induction ls)
  case (Cons l ls)
  note gone = restorableList_gone [of b since l]
  have sub: "x \<in> set (listBatches_of ls)" if "x \<in> set (listBatches_of (listsBack at b since ls))" for x using Cons.IH(3) that by blast
  { case 1 show ?case using Cons.IH gone by (auto simp: listsBack_def) }
  { case 2 show ?case using Cons.IH gone by (auto simp: listBatches_of_def map_filter_simps split: option.splits) }
  { case 3 show ?case using Cons.IH gone by (auto simp: listsBack_def listBatches_of_def map_filter_simps split: option.splits) }
  { case 4 then show ?case using Cons.IH sub gone by (auto simp: listsBack_def listBatches_of_def map_filter_simps split: option.splits if_splits) }
  { case 5 show ?case using Cons.IH by (simp add: listsBack_def) }
  { case 6 show ?case using Cons.IH by (simp add: listsBack_def) }
  { case 7 show ?case using Cons.IH(7) gone by (auto simp: listsBack_def liveListIds_def) }
qed (simp_all add: listsBack_def listBatches_of_def map_filter_simps liveListIds_def)

lemma distinct_once: "distinct xs \<Longrightarrow> length (filter (\<lambda>x. x = b) xs) \<le> 1"
  by (induction xs) (auto simp: filter_empty_conv)

lemma lists_back_ok:
  assumes r: "rowsOk newId t r" and room: "filter (restorableList b since) (cr_lists r) \<noteq> [] \<Longrightarrow> length (liveLists (cr_lists r)) + 1 \<le> MAX_LISTS"
  shows "rowsOk newId t (r\<lparr>cr_lists := listsBack at b since (cr_lists r)\<rparr>)"
proof -
  let ?ls = "cr_lists r"
  note o = rowsOkD(2) [OF r, unfolded listsOk_def] and p = listsBack_parts(1) [of at b since ?ls] listsBack_parts(2) [of b since ?ls] listsBack_parts(3-6) [where at = at and b = b and since = since and ls = ?ls]
  have one: "length (filter (restorableList b since) ?ls) \<le> 1" using p(2) distinct_once [of "listBatches_of ?ls" b] o by simp
  have few: "length (filter isLiveList (listsBack at b since ?ls)) \<le> MAX_LISTS"
  proof (cases "filter (restorableList b since) ?ls = []")
    case True
    then show ?thesis using p(1) o by simp
  next
    case False
    then show ?thesis using p(1) one room by (simp add: liveLists_def)
  qed
  have lists: "listsOk (listsBack at b since ?ls)" using o p(4,5) few by (simp add: listsOk_def)
  have ids: "listId ` set (listsBack at b since ?ls) = listId ` set ?ls" by (rule map_image_eq [OF p(5)])
  have "{x. \<exists>l \<in> set (listsBack at b since ?ls). listBatch l = Some x} \<subseteq> {x. \<exists>l \<in> set ?ls. listBatch l = Some x}"
    by (auto simp: listsBack_def split: if_splits)
  then have used: "usedIds (r\<lparr>cr_lists := listsBack at b since ?ls\<rparr>) \<subseteq> usedIds r" using ids by (auto simp: usedIds_def)
  have "\<forall>l \<in> set (listsBack at b since ?ls). listTask l = t" using r by (auto simp: rowsOk_def listsBack_def)
  then show ?thesis using r lists used unfolding rowsOk_def by auto
qed

lemma restorable_gone: "restorableItem b since i \<Longrightarrow> inBatch b i"
  by (auto simp: restorableItem_def inBatch_def isLive_def split: option.splits)

lemma items_back:
  fixes b :: ident and since :: instant
  assumes t: "treeOk (nodes is)"
  defines "I \<equiv> set (map itemId (filter (restorableItem b since) is))"
  shows "goneTogether is b I" and "midway is I ls {} (map (\<lambda>i. if restorableItem b since i then restoredItem at i else i) is)"
proof -
  define f where "f i = (if restorableItem b since i then restoredItem at i else i)" for i
  have mem: "itemId i \<in> I \<longleftrightarrow> restorableItem b since i" if "i \<in> set is" for i
    using same_row [of "is" i] that t by (auto simp: I_def treeOk_items)
  show g: "goneTogether is b I"
    using t restorable_gone unfolding goneTogether_def I_def by auto
  have same: "itemId (f i) = itemId i" "itemParent (f i) = itemParent i" "itemList (f i) = itemList i" "itemTask (f i) = itemTask i" for i
    by (simp_all add: f_def)
  have part: "partWay is I (map f is)"
    unfolding partWay_def
  proof (intro conjI ballI)
    show "map itemId (map f is) = map itemId is" by (simp add: same)
    fix j assume "j \<in> set (map f is)"
    then obtain i where i: "i \<in> set is" "j = f i" by auto
    then show "\<exists>i \<in> set is. itemId i = itemId j \<and> (itemId j \<notin> I \<longrightarrow> j = i) \<and> (itemId j \<in> I \<longrightarrow> isLive j \<and> itemBatch j = None
        \<and> itemTask j = itemTask i \<and> (\<forall>p \<in> I. itemParent j = Some p \<longleftrightarrow> itemParent i = Some p))"
      using mem [OF i(1)] same [of i] by (intro bexI [of _ i]) (auto simp: f_def)
  qed
  have "midway is I ls {} (map f is)"
    unfolding midway_def
  proof (intro conjI ballI impI part)
    fix j assume "j \<in> set (map f is)" "itemId j \<in> I"
    then obtain i where i: "i \<in> set is" "j = f i" "itemId i \<in> I" by (auto simp: same)
    show "itemList j = itemList q" if q: "q \<in> set (map f is)" "itemParent j = Some (itemId q) \<and> itemId q \<in> I" for q
    proof -
      obtain x where x: "x \<in> set is" "q = f x" using q(1) by auto
      have "itemParent i = Some (itemId x)" "itemId x \<in> I" using q(2) i(2) x(2) same by simp_all
      moreover have "inBatch b i" "inBatch b x" using goneD(9) [OF g] i(1,3) x(1) calculation(2) by blast+
      ultimately have "itemList i = itemList x" using goneD(5) [OF g] i(1) x(1) unfolding batchLists_def by blast
      then show ?thesis using i(2) x(2) same by simp
    qed
    show "if itemId j \<in> {} then rootBack is I ls j else itemParent j \<noteq> Some []"
      using goneD(3) [OF g] i(1,2) same by (simp add: realParents_def)
  qed
  then show "midway is I ls {} (map (\<lambda>i. if restorableItem b since i then restoredItem at i else i) is)" by (simp add: f_def [abs_def])
qed

lemma backInGroup_shape: "list_all2 sameShape (backInGroup k at is) is"
  unfolding backInGroup_def by (auto simp: Let_def placeInGroup_shape list.rel_refl split: option.split)

lemma homed_lists:
  assumes "homed r" "set (liveListIds (cr_lists r)) \<subseteq> set (liveListIds ls)"
  shows "homed (r\<lparr>cr_lists := ls\<rparr>)"
  unfolding homed_def
proof (intro ballI impI)
  fix i assume i: "i \<in> set (cr_items (r\<lparr>cr_lists := ls\<rparr>))" "isLive i"
  then obtain l where l: "l \<in> set (cr_lists r)" "isLiveList l" "itemList i = Some (listId l)" using assms(1) by (auto simp: homed_def)
  then have "listId l \<in> set (liveListIds ls)" using assms(2) by (auto simp: liveListIds_def)
  then show "\<exists>l \<in> set (cr_lists (r\<lparr>cr_lists := ls\<rparr>)). isLiveList l \<and> itemList i = Some (listId l)"
    using l(3) by (auto simp: liveListIds_def)
qed

text \<open>The loop over a batch runs to its end, and leaves the rows well formed.\<close>

lemma restore_loop_runs:
  fixes at :: instant
  assumes gid: "goodIds newId" and r: "rowsOk newId t r" "homed r"
    and lists: "filter (restorableList b since) (cr_lists r) \<noteq> [] \<Longrightarrow> length (liveLists (cr_lists r)) + 1 \<le> MAX_LISTS"
    and room: "length (filter isLive (cr_items r)) + length (filter (restorableItem b since) (cr_items r)) \<le> MAX_ITEMS"
  defines "ids \<equiv> map itemId (filter (restorableItem b since) (cr_items r))"
    and "back \<equiv> r\<lparr>cr_lists := listsBack at b since (cr_lists r),
           cr_items := map (\<lambda>i. if restorableItem b since i then restoredItem at i else i) (cr_items r)\<rparr>"
  shows "\<exists>rows' ls. restoreLoop newId t actor at ids (map itemId (filter isLive (cr_items back))) ids (back, liveListIds (cr_lists back)) = Some (rows', ls)
    \<and> rowsOk newId t rows' \<and> homed rows' \<and> grown newId r rows'"
proof -
  let ?is0 = "cr_items r"
  note ib = items_back [OF rowsOkD(1) [OF r(1)], where b = b and since = since]
  have g: "goneTogether ?is0 b (set ids)" using ib(1) by (simp add: ids_def)
  have m: "midway ?is0 (set ids) (cr_lists back) {} (cr_items back)" using ib(2) by (simp add: ids_def back_def)
  have lb: "rowsOk newId t (r\<lparr>cr_lists := listsBack at b since (cr_lists r)\<rparr>)" by (rule lists_back_ok [OF r(1) lists])
  have sub: "set (liveListIds (cr_lists r)) \<subseteq> set (liveListIds (listsBack at b since (cr_lists r)))" by (rule listsBack_parts(7))
  have "homed (r\<lparr>cr_lists := listsBack at b since (cr_lists r)\<rparr>)"
    by (rule homed_lists [OF r(2) sub])
  moreover have eq: "back\<lparr>cr_items := ?is0\<rparr> = r\<lparr>cr_lists := listsBack at b since (cr_lists r)\<rparr>" by (simp add: back_def)
  ultimately have old: "oldOk newId t ?is0 back" using lb by (simp add: oldOk_def)
  have g0: "grown newId r (back\<lparr>cr_items := ?is0\<rparr>)" unfolding eq by (rule grown_same) (simp_all add: listsBack_parts(5))
  have dist: "distinct (map itemId ?is0)" by (rule rowsOkD(5) [OF r(1)])
  have d: "distinct ids" unfolding ids_def by (rule distinct_map_filter [OF dist])
  have live: "x \<in> set (map itemId (filter isLive (cr_items back))) \<longleftrightarrow> (\<exists>q \<in> set ?is0. isLive q \<and> itemId q = x)" if "x \<notin> set ids" for x
    using that by (auto simp: back_def ids_def)
  from restoreLoop_ok [OF gid g live m old order_refl d order_refl, where actor = actor and at = at]
  obtain rows' ls where l: "restoreLoop newId t actor at ids (map itemId (filter isLive (cr_items back))) ids (back, liveListIds (cr_lists back)) = Some (rows', ls)"
      "midway ?is0 (set ids) (cr_lists rows') (set ids) (cr_items rows')" "oldOk newId t ?is0 rows'"
      "grown newId (back\<lparr>cr_items := ?is0\<rparr>) (rows'\<lparr>cr_items := ?is0\<rparr>)" by auto
  have "card (set ids) \<le> length (filter (restorableItem b since) ?is0)" using card_length [of ids] by (simp add: ids_def)
  then have "length (filter isLive ?is0) + card (set ids) \<le> MAX_ITEMS" using room by simp
  from midway_done [OF g l(2) order_refl l(3) this] have ok: "rowsOk newId t rows' \<and> homed rows'" by simp
  have "map itemId (cr_items rows') = map itemId ?is0" using l(2) by (simp add: midway_def partWay_def)
  then have "grown newId (rows'\<lparr>cr_items := ?is0\<rparr>) rows'" by (intro grown_same) simp_all
  then have "grown newId r rows'" using g0 l(4) grown_trans by blast
  then show ?thesis using l(1) ok by blast
qed

lemma restoreChange_ok:
  assumes gid: "goodIds newId" and r: "rowsOk newId t r" "homed r"
  shows "restoreChange newId t actor at since b r \<noteq> Endless"
    and "restoreChange newId t actor at since b r = Ok (v, r') \<Longrightarrow> rowsOk newId t r' \<and> homed r' \<and> grown newId r r'"
proof -
  let ?lists = "filter (restorableList b since) (cr_lists r)"
  let ?items = "filter (restorableItem b since) (cr_items r)"
  let ?run = "restoreChange newId t actor at since b r"
  have "?run \<noteq> Endless \<and> (\<forall>v r'. ?run = Ok (v, r') \<longrightarrow> rowsOk newId t r' \<and> homed r' \<and> grown newId r r')"
  proof (cases "(?lists \<noteq> [] \<or> ?items \<noteq> []) \<and> (?lists \<noteq> [] \<longrightarrow> length (liveLists (cr_lists r)) + 1 \<le> MAX_LISTS)
      \<and> length (filter isLive (cr_items r)) + length ?items \<le> MAX_ITEMS")
    case False
    then have "\<exists>e. ?run = Thrown e"
      by (auto simp: restoreChange_def roomFor_def roomForList_def Let_def)
    then show ?thesis by auto
  next
    case True
    then obtain rows' ls where l: "restoreLoop newId t actor at (map itemId ?items)
        (map itemId (filter isLive (map (\<lambda>i. if restorableItem b since i then restoredItem at i else i) (cr_items r)))) (map itemId ?items)
        (r\<lparr>cr_lists := listsBack at b since (cr_lists r), cr_items := map (\<lambda>i. if restorableItem b since i then restoredItem at i else i) (cr_items r)\<rparr>,
         liveListIds (listsBack at b since (cr_lists r))) = Some (rows', ls)"
      and ok: "rowsOk newId t rows'" "homed rows'" "grown newId r rows'"
      using restore_loop_runs [OF gid r, of b since actor at] by auto
    have "\<exists>v r'. ?run = Ok (v, r') \<and> (r' = rows' \<or> (\<exists>k. r' = rows'\<lparr>cr_items := backInGroup k at (cr_items rows')\<rparr>))"
      using True l unfolding restoreChange_def roomFor_def roomForList_def Let_def listsBack_def [symmetric]
      by (auto simp: listsBack_def split: option.split)
    then obtain v r' where run: "?run = Ok (v, r')" "r' = rows' \<or> (\<exists>k. r' = rows'\<lparr>cr_items := backInGroup k at (cr_items rows')\<rparr>)" by blast
    have "rowsOk newId t r' \<and> homed r' \<and> grown newId r r'"
      using run(2)
    proof (elim disjE exE)
      fix k assume "r' = rows'\<lparr>cr_items := backInGroup k at (cr_items rows')\<rparr>"
      then show ?thesis using rowsOk_reshaped [OF ok(1,2) backInGroup_shape] ok(3) grown_trans by blast
    qed (use ok in simp)
    then show ?thesis using run(1) by simp
  qed
  then show "?run \<noteq> Endless" "?run = Ok (v, r') \<Longrightarrow> rowsOk newId t r' \<and> homed r' \<and> grown newId r r'" by blast+
qed

end
