(* ===== verification/ChecklistService.thy ===== *)
theory ChecklistService
  imports ChecklistEdits
begin

text \<open>
  \<open>modules/tasks/checklist-service.ts\<close>, the service: what is looked up and checked before a change, the
  change run on the store, what is reported after it, and the views the apps get. The store is the
  database's (\<open>prismaEdit\<close>; by C10 the one in memory gives the same rows).
\<close>

section \<open>What the service is given\<close>

text \<open>The optional dependencies: who may be given work, people's names, whether a task is there.\<close>

record checklistDeps =
  cd_taskExists :: "(ident \<Rightarrow> bool) option"
  cd_eligible :: "(ident \<Rightarrow> ident list \<Rightarrow> ident list) option"
  cd_namesOf :: "(ident list \<Rightarrow> ident \<rightharpoonup> string) option"

text \<open>What is told after a change: the task's new percentage, and that its words changed.\<close>

datatype checklistEvent = ProgressTold ident int | WordsChanged ident

section \<open>Views\<close>

record checklistItemView =
  iv_id :: ident
  iv_taskId :: ident
  iv_text :: string
  iv_done :: bool
  iv_position :: int
  iv_listId :: "ident option"
  iv_parentId :: "ident option"
  iv_depth :: nat
  iv_assigneeId :: "ident option"
  iv_assignee :: "(ident \<times> string) option"
  iv_dueDate :: "day option"
  iv_completedAt :: "instant option"
  iv_completedById :: "ident option"
  iv_childCount :: nat
  iv_subDone :: nat
  iv_subTotal :: nat

record checklistListView =
  lv_id :: ident
  lv_taskId :: ident
  lv_title :: string
  lv_position :: int
  lv_done :: nat
  lv_total :: nat

record checklistView =
  cv_items :: "checklistItemView list"
  cv_lists :: "checklistListView list"
  cv_done :: nat
  cv_total :: nat
  cv_percent :: int

definition namesFor :: "checklistDeps \<Rightarrow> arrangedItem list \<Rightarrow> ident \<rightharpoonup> string" where
  "namesFor deps items =
     (let ids = dedup (List.map_filter (\<lambda>a. given (itemAssignee (ai_row a))) items)
      in case cd_namesOf deps of None \<Rightarrow> Map.empty | Some f \<Rightarrow> if ids = [] then Map.empty else f ids)"

definition itemView :: "(ident \<rightharpoonup> string) \<Rightarrow> arrangedItem \<Rightarrow> checklistItemView" where
  "itemView names a =
     (let i = ai_row a in
      \<lparr>iv_id = itemId i, iv_taskId = itemTask i, iv_text = itemText i, iv_done = itemDone i, iv_position = itemPos i,
       iv_listId = itemList i, iv_parentId = itemParent i, iv_depth = ai_depth a, iv_assigneeId = itemAssignee i,
       iv_assignee = (case given (itemAssignee i) of None \<Rightarrow> None
                      | Some u \<Rightarrow> Some (u, case names u of None \<Rightarrow> ''Someone'' | Some n \<Rightarrow> n)),
       iv_dueDate = dayKey (itemDue i), iv_completedAt = itemCompletedAt i, iv_completedById = itemCompletedBy i,
       iv_childCount = ai_childCount a, iv_subDone = ai_subDone a, iv_subTotal = ai_subTotal a\<rparr>)"

definition listView :: "arrangedList \<Rightarrow> checklistListView" where
  "listView a =
     (let l = al_row a in
      \<lparr>lv_id = listId l, lv_taskId = listTask l, lv_title = listTitle l, lv_position = listPos l,
       lv_done = al_done a, lv_total = al_total a\<rparr>)"

definition viewOf :: "checklistDeps \<Rightarrow> checklistRows \<Rightarrow> checklistView" where
  "viewOf deps rows =
     (case arrange (cr_lists rows) (cr_items rows) of
        None \<Rightarrow> \<lparr>cv_items = [], cv_lists = [], cv_done = 0, cv_total = 0, cv_percent = 0\<rparr>
      | Some a \<Rightarrow>
          \<lparr>cv_items = map (itemView (namesFor deps (ar_items a))) (ar_items a), cv_lists = map listView (ar_lists a),
           cv_done = ar_done a, cv_total = ar_total a, cv_percent = ar_percent a\<rparr>)"

definition itemFrom :: "checklistDeps \<Rightarrow> checklistRows \<Rightarrow> ident \<Rightarrow> checklistItemView outcome" where
  "itemFrom deps rows k =
     (case find (\<lambda>a. itemId (ai_row a) = k) (arrangedItems rows) of
        None \<Rightarrow> Thrown ItemNotFound
      | Some a \<Rightarrow> Ok (itemView (namesFor deps [a]) a))"

text \<open>\<open>listView(arrange(...).lists.find((l) => l.id === id)!)\<close>.\<close>

definition listFrom :: "checklistRows \<Rightarrow> ident \<Rightarrow> checklistListView outcome" where
  "listFrom rows k =
     (case find (\<lambda>l. listId (al_row l) = k) (arrangedLists rows) of
        None \<Rightarrow> Thrown InternalError
      | Some l \<Rightarrow> Ok (listView l))"

section \<open>Reading\<close>

definition rowsOrThrow :: "checklistDb \<Rightarrow> ident \<Rightarrow> checklistRows outcome" where
  "rowsOrThrow db t = (case prismaRead db t of None \<Rightarrow> Thrown TaskNotFound | Some rows \<Rightarrow> Ok rows)"

definition view :: "checklistDeps \<Rightarrow> (nat \<Rightarrow> ident) \<Rightarrow> instant \<Rightarrow> checklistDb \<Rightarrow> ident \<Rightarrow> (checklistView \<times> checklistDb) outcome" where
  "view deps newId now db t =
     thenDo (rowsOrThrow db t) (\<lambda>rows.
       if needsHome rows
       then thenDo (prismaEdit db t (\<lambda>r. Ok ((), home newId t None now r))) (\<lambda>(_, db').
              thenDo (rowsOrThrow db' t) (\<lambda>rows'. Ok (viewOf deps rows', db')))
       else Ok (viewOf deps rows, db))"

definition ensureTask_cl :: "checklistDeps \<Rightarrow> ident \<Rightarrow> unit outcome" where
  "ensureTask_cl deps t = (case cd_taskExists deps of None \<Rightarrow> Ok () | Some f \<Rightarrow> require (f t) TaskNotFound)"

definition taskOfItem :: "checklistDb \<Rightarrow> ident \<Rightarrow> ident outcome" where
  "taskOfItem db k =
     (case prismaTaskOfItem db k of None \<Rightarrow> Thrown ItemNotFound | Some t \<Rightarrow> if t = [] then Thrown ItemNotFound else Ok t)"

definition taskOfList :: "checklistDb \<Rightarrow> ident \<Rightarrow> ident outcome" where
  "taskOfList db k =
     (case prismaTaskOfList db k of None \<Rightarrow> Thrown ListNotFound | Some t \<Rightarrow> if t = [] then Thrown ListNotFound else Ok t)"

definition assertAssignable :: "checklistDeps \<Rightarrow> ident \<Rightarrow> ident option \<Rightarrow> unit outcome" where
  "assertAssignable deps t assignee =
     (case (given assignee, cd_eligible deps) of
        (Some a, Some f) \<Rightarrow> require (a \<in> set (f t [a])) NotAssignable
      | _ \<Rightarrow> Ok ())"

definition getItem :: "checklistDeps \<Rightarrow> checklistDb \<Rightarrow> ident \<Rightarrow> checklistItemView outcome" where
  "getItem deps db k = thenDo (taskOfItem db k) (\<lambda>t. thenDo (rowsOrThrow db t) (\<lambda>rows. itemFrom deps rows k))"

definition listItems :: "checklistDeps \<Rightarrow> (nat \<Rightarrow> ident) \<Rightarrow> instant \<Rightarrow> checklistDb \<Rightarrow> ident
    \<Rightarrow> (checklistItemView list \<times> checklistDb) outcome" where
  "listItems deps newId now db t =
     thenDo (ensureTask_cl deps t) (\<lambda>_. thenDo (view deps newId now db t) (\<lambda>(v, db'). Ok (cv_items v, db')))"

definition summary_cl :: "checklistDb \<Rightarrow> ident \<Rightarrow> nat \<times> nat \<times> int" where
  "summary_cl db t =
     (case prismaRead db t of
        None \<Rightarrow> (0, 0, 0)
      | Some rows \<Rightarrow>
          (case arrange (cr_lists rows) (cr_items rows) of
             None \<Rightarrow> (0, 0, 0)
           | Some a \<Rightarrow> (ar_done a, ar_total a, ar_percent a)))"

definition progress_cl :: "checklistDb \<Rightarrow> ident \<Rightarrow> int" where
  "progress_cl db t = snd (snd (summary_cl db t))"

text \<open>The older counts, of a flat list of ticks.\<close>

definition progressFromItems :: "bool list \<Rightarrow> int" where
  "progressFromItems ticks = percentOf (length (filter (\<lambda>d. d) ticks)) (length ticks)"

definition summaryFromItems :: "bool list \<Rightarrow> nat \<times> nat \<times> int" where
  "summaryFromItems ticks = (length (filter (\<lambda>d. d) ticks), length ticks, progressFromItems ticks)"

section \<open>Changing\<close>

type_synonym 'a served = "('a \<times> checklistEvent list \<times> checklistDb) outcome"

text \<open>
  \<open>edit\<close>: the value, the rows after the change, what is told, and the database. The reports are best
  effort (a failing one is swallowed).
\<close>

definition edit :: "(nat \<Rightarrow> ident) \<Rightarrow> checklistDb \<Rightarrow> ident \<Rightarrow> ident option \<Rightarrow> instant \<Rightarrow> bool \<Rightarrow> 'a change
    \<Rightarrow> ('a \<times> checklistRows) served" where
  "edit newId db t actor at words change =
     thenDo (prismaEdit db t (\<lambda>rows. thenDo (heldEdit newId t actor at change rows) (\<lambda>(v, r). Ok ((v, r), r)))) (\<lambda>(res, db').
       (case res of
          None \<Rightarrow> Thrown TaskNotFound
        | Some (v, rows) \<Rightarrow>
            Ok ((v, rows),
                ProgressTold t (leafPercent (filter isLive (cr_items rows))) # (if words then [WordsChanged t] else []), db')))"

fun cleanTexts :: "string list \<Rightarrow> string list outcome" where
  "cleanTexts [] = Ok []"
| "cleanTexts (t # ts) = thenDo (cleanText ITEM_TEXT t) (\<lambda>c. thenDo (cleanTexts ts) (\<lambda>cs. Ok (c # cs)))"

definition addItems :: "checklistDeps \<Rightarrow> (nat \<Rightarrow> ident) \<Rightarrow> instant \<Rightarrow> checklistDb \<Rightarrow> ident \<Rightarrow> ident option \<Rightarrow> string list
    \<Rightarrow> ident option \<Rightarrow> instant option \<Rightarrow> checklistPlace \<Rightarrow> (checklistItemView list \<times> string \<times> string option) served" where
  "addItems deps newId now db t actor texts assignee due place =
     thenDo (ensureTask_cl deps t) (\<lambda>_.
     thenDo (cleanTexts texts) (\<lambda>clean.
     thenDo (require (clean \<noteq> []) NoItems) (\<lambda>_.
     thenDo (assertAssignable deps t assignee) (\<lambda>_.
     thenDo (edit newId db t actor now True (addChange newId t actor now clean assignee due place))
       (\<lambda>(((ids, title, parentText), rows), told, db').
         (let arranged = arrangedItems rows;
              names = namesFor deps (filter (\<lambda>a. itemId (ai_row a) \<in> set ids) arranged);
              found = map (\<lambda>k. find (\<lambda>a. itemId (ai_row a) = k) arranged) ids
          in if None \<in> set found then Thrown InternalError
             else Ok ((map (itemView names \<circ> the) found, title, parentText), told, db')))))))"

definition addItem :: "checklistDeps \<Rightarrow> (nat \<Rightarrow> ident) \<Rightarrow> instant \<Rightarrow> checklistDb \<Rightarrow> ident \<Rightarrow> string \<Rightarrow> ident option
    \<Rightarrow> checklistPlace \<Rightarrow> checklistItemView served" where
  "addItem deps newId now db t text actor place =
     thenDo (addItems deps newId now db t actor [text] None None place) (\<lambda>((items, _, _), told, db'). Ok (hd items, told, db'))"

definition updateItemCall :: "checklistDeps \<Rightarrow> (nat \<Rightarrow> ident) \<Rightarrow> instant \<Rightarrow> checklistDb \<Rightarrow> ident \<Rightarrow> ident option \<Rightarrow> itemPatch
    \<Rightarrow> (checklistItemView \<times> checklistItemView) served" where
  "updateItemCall deps newId now db k actor patch =
     thenDo (taskOfItem db k) (\<lambda>t.
     thenDo (case ip_text patch of None \<Rightarrow> Ok None | Some x \<Rightarrow> thenDo (cleanText ITEM_TEXT x) (\<lambda>c. Ok (Some c))) (\<lambda>text.
     thenDo (case ip_assignee patch of None \<Rightarrow> Ok () | Some a \<Rightarrow> assertAssignable deps t a) (\<lambda>_.
     thenDo (edit newId db t actor now (text \<noteq> None) (updateChange actor now k (patch\<lparr>ip_text := text\<rparr>)))
       (\<lambda>((was, rows), told, db').
         thenDo (itemFrom deps rows k) (\<lambda>item.
           Ok ((itemView (namesFor deps [was]) was, item), told, db'))))))"

definition toggleItem :: "checklistDeps \<Rightarrow> (nat \<Rightarrow> ident) \<Rightarrow> instant \<Rightarrow> checklistDb \<Rightarrow> ident \<Rightarrow> bool \<Rightarrow> ident option
    \<Rightarrow> checklistItemView served" where
  "toggleItem deps newId now db k d actor =
     thenDo (updateItemCall deps newId now db k actor (NO_PATCH\<lparr>ip_done := Some d\<rparr>)) (\<lambda>((_, item), told, db'). Ok (item, told, db'))"

definition editItem :: "checklistDeps \<Rightarrow> (nat \<Rightarrow> ident) \<Rightarrow> instant \<Rightarrow> checklistDb \<Rightarrow> ident \<Rightarrow> string \<Rightarrow> ident option
    \<Rightarrow> checklistItemView served" where
  "editItem deps newId now db k text actor =
     thenDo (updateItemCall deps newId now db k actor (NO_PATCH\<lparr>ip_text := Some text\<rparr>)) (\<lambda>((_, item), told, db'). Ok (item, told, db'))"

text \<open>A batch's id is drawn before the task is held: the next id, so the change starts after it.\<close>

definition nextId :: "checklistDb \<Rightarrow> checklistDb" where
  "nextId db = db\<lparr>cdb_fresh := Suc (cdb_fresh db)\<rparr>"

definition removeItem :: "(nat \<Rightarrow> ident) \<Rightarrow> instant \<Rightarrow> checklistDb \<Rightarrow> ident \<Rightarrow> ident option
    \<Rightarrow> (ident \<times> ident \<times> nat \<times> string) served" where
  "removeItem newId now db k actor =
     thenDo (taskOfItem db k) (\<lambda>t.
     (let batch = newId (cdb_fresh db) in
      thenDo (edit newId (nextId db) t actor now True (removeChange actor now batch k)) (\<lambda>(((n, text), rows), told, db').
        Ok ((t, batch, n, text), told, db'))))"

definition duplicateItem :: "checklistDeps \<Rightarrow> (nat \<Rightarrow> ident) \<Rightarrow> instant \<Rightarrow> checklistDb \<Rightarrow> ident \<Rightarrow> ident option
    \<Rightarrow> (ident \<times> checklistItemView \<times> nat \<times> string) served" where
  "duplicateItem deps newId now db k actor =
     thenDo (taskOfItem db k) (\<lambda>t.
     thenDo (edit newId db t actor now True (duplicateChange newId now k)) (\<lambda>(((copy, n, text), rows), told, db').
       thenDo (itemFrom deps rows copy) (\<lambda>item. Ok ((t, item, n, text), told, db'))))"

text \<open>\<open>how\<close>: the action, or nothing for a move to a place.\<close>

definition moveItem :: "checklistDeps \<Rightarrow> (nat \<Rightarrow> ident) \<Rightarrow> instant \<Rightarrow> checklistDb \<Rightarrow> ident \<Rightarrow> ident option \<Rightarrow> checklistMove
    \<Rightarrow> (ident \<times> checklistItemView \<times> moveAction option \<times> string) served" where
  "moveItem deps newId now db k actor move =
     thenDo (taskOfItem db k) (\<lambda>t.
     thenDo (edit newId db t actor now False (moveChange now k move)) (\<lambda>((text, rows), told, db').
       thenDo (itemFrom deps rows k) (\<lambda>item.
         Ok ((t, item, case move of ByAction a \<Rightarrow> Some a | ToPlace _ _ _ \<Rightarrow> None, text), told, db'))))"

definition reorderItems :: "checklistDeps \<Rightarrow> (nat \<Rightarrow> ident) \<Rightarrow> instant \<Rightarrow> checklistDb \<Rightarrow> ident \<Rightarrow> ident list \<Rightarrow> ident option
    \<Rightarrow> checklistItemView list served" where
  "reorderItems deps newId now db t ordered actor =
     thenDo (ensureTask_cl deps t) (\<lambda>_.
     thenDo (edit newId db t actor now False (reorderChange now ordered)) (\<lambda>((_, rows), told, db').
       Ok (cv_items (viewOf deps rows), told, db')))"

definition addList :: "checklistDeps \<Rightarrow> (nat \<Rightarrow> ident) \<Rightarrow> instant \<Rightarrow> checklistDb \<Rightarrow> ident \<Rightarrow> ident option \<Rightarrow> string \<Rightarrow> ident option
    \<Rightarrow> checklistListView served" where
  "addList deps newId now db t actor title afterId =
     thenDo (ensureTask_cl deps t) (\<lambda>_.
     thenDo (cleanText LIST_TITLE title) (\<lambda>clean.
     thenDo (edit newId db t actor now True (addListChange newId t actor now clean afterId)) (\<lambda>((k, rows), told, db').
       thenDo (listFrom rows k) (\<lambda>l. Ok (l, told, db')))))"

definition renameList :: "(nat \<Rightarrow> ident) \<Rightarrow> instant \<Rightarrow> checklistDb \<Rightarrow> ident \<Rightarrow> ident option \<Rightarrow> string
    \<Rightarrow> (ident \<times> string \<times> checklistListView) served" where
  "renameList newId now db k actor title =
     thenDo (taskOfList db k) (\<lambda>t.
     thenDo (cleanText LIST_TITLE title) (\<lambda>clean.
     thenDo (edit newId db t actor now True (renameChange now k clean)) (\<lambda>((old, rows), told, db').
       thenDo (listFrom rows k) (\<lambda>l. Ok ((t, old, l), told, db')))))"

definition duplicateList :: "(nat \<Rightarrow> ident) \<Rightarrow> instant \<Rightarrow> checklistDb \<Rightarrow> ident \<Rightarrow> ident option
    \<Rightarrow> (ident \<times> checklistListView \<times> nat \<times> string) served" where
  "duplicateList newId now db k actor =
     thenDo (taskOfList db k) (\<lambda>t.
     thenDo (edit newId db t actor now True (duplicateListChange newId t actor now k)) (\<lambda>(((copy, n, title), rows), told, db').
       thenDo (listFrom rows copy) (\<lambda>l. Ok ((t, l, n, title), told, db'))))"

definition removeList :: "(nat \<Rightarrow> ident) \<Rightarrow> instant \<Rightarrow> checklistDb \<Rightarrow> ident \<Rightarrow> ident option
    \<Rightarrow> (ident \<times> ident \<times> nat \<times> string) served" where
  "removeList newId now db k actor =
     thenDo (taskOfList db k) (\<lambda>t.
     (let batch = newId (cdb_fresh db) in
      thenDo (edit newId (nextId db) t actor now True (removeListChange actor now batch k)) (\<lambda>(((n, title), rows), told, db').
        Ok ((t, batch, n, title), told, db'))))"

definition restore :: "checklistDeps \<Rightarrow> (nat \<Rightarrow> ident) \<Rightarrow> instant \<Rightarrow> checklistDb \<Rightarrow> ident \<Rightarrow> ident option \<Rightarrow> ident
    \<Rightarrow> (ident \<times> restoredView) served" where
  "restore deps newId now db t actor batch =
     thenDo (ensureTask_cl deps t) (\<lambda>_.
     (let since = now - RESTORE_DAYS * DAY_MS_cl in
      thenDo (edit newId db t actor now True (restoreChange newId t actor now since batch)) (\<lambda>((v, rows), told, db').
        Ok ((t, v), told, db'))))"

definition purge_cl :: "instant \<Rightarrow> checklistDb \<Rightarrow> nat \<times> checklistDb" where
  "purge_cl now db = prismaPurge db (now - RESTORE_DAYS * DAY_MS_cl)"

section \<open>What can be restored\<close>

record deletedBatch =
  dbt_batchId :: ident
  dbt_isList :: bool
  dbt_title :: string
  dbt_count :: nat
  dbt_deletedAt :: instant
  dbt_deletedBy :: "ident option"
  dbt_until :: instant

text \<open>A row deleted in a batch since then, with its batch and when.\<close>

definition deletedSince :: "instant \<Rightarrow> instant option \<Rightarrow> ident option \<Rightarrow> (ident \<times> instant) option" where
  "deletedSince since deletedAt batch =
     (case (deletedAt, given batch) of (Some d, Some b) \<Rightarrow> if d < since then None else Some (b, d) | _ \<Rightarrow> None)"

text \<open>\<open>Map.set\<close> keeps the place of a key it has.\<close>

fun putEntry :: "'k \<Rightarrow> 'v \<Rightarrow> ('k \<times> 'v) list \<Rightarrow> ('k \<times> 'v) list" where
  "putEntry k v [] = [(k, v)]"
| "putEntry k v ((k', v') # es) = (if k = k' then (k, v) # es else (k', v') # putEntry k v es)"

fun listBatches :: "instant \<Rightarrow> listRow list \<Rightarrow> (ident \<times> deletedBatch) list \<Rightarrow> (ident \<times> deletedBatch) list" where
  "listBatches since [] out = out"
| "listBatches since (l # ls) out =
     listBatches since ls
       (case deletedSince since (listDeletedAt l) (listBatch l) of
          None \<Rightarrow> out
        | Some (b, d) \<Rightarrow>
            putEntry b \<lparr>dbt_batchId = b, dbt_isList = True, dbt_title = listTitle l, dbt_count = 0, dbt_deletedAt = d,
              dbt_deletedBy = listDeletedBy l, dbt_until = d + RESTORE_DAYS * DAY_MS_cl\<rparr> out)"

fun itemBatches :: "instant \<Rightarrow> itemRow list \<Rightarrow> (ident \<times> itemRow list) list \<Rightarrow> (ident \<times> itemRow list) list" where
  "itemBatches since [] by = by"
| "itemBatches since (i # is) by =
     itemBatches since is
       (case deletedSince since (itemDeletedAt i) (itemBatch i) of
          None \<Rightarrow> by
        | Some (b, d) \<Rightarrow> putEntry b ((case map_of by b of None \<Rightarrow> [] | Some xs \<Rightarrow> xs) @ [i]) by)"

fun batchesOut :: "(ident \<times> itemRow list) list \<Rightarrow> (ident \<times> deletedBatch) list \<Rightarrow> (ident \<times> deletedBatch) list" where
  "batchesOut [] out = out"
| "batchesOut ((b, items) # rest) out =
     batchesOut rest
       (case map_of out b of
          Some lb \<Rightarrow> putEntry b (lb\<lparr>dbt_count := dbt_count lb + length items\<rparr>) out
        | None \<Rightarrow>
            (case (case find (isBatchRoot (map itemId items)) items of Some r \<Rightarrow> Some r
                   | None \<Rightarrow> (case items of [] \<Rightarrow> None | i # _ \<Rightarrow> Some i)) of
               None \<Rightarrow> out
             | Some root \<Rightarrow>
                 (let d = (case itemDeletedAt root of None \<Rightarrow> 0 | Some x \<Rightarrow> x) in
                  putEntry b \<lparr>dbt_batchId = b, dbt_isList = False, dbt_title = itemText root, dbt_count = length items,
                    dbt_deletedAt = d, dbt_deletedBy = itemDeletedBy root, dbt_until = d + RESTORE_DAYS * DAY_MS_cl\<rparr> out)))"

text \<open>Newest first; the sort is stable.\<close>

definition deletedBatches :: "checklistDeps \<Rightarrow> instant \<Rightarrow> checklistDb \<Rightarrow> ident \<Rightarrow> deletedBatch list outcome" where
  "deletedBatches deps now db t =
     thenDo (ensureTask_cl deps t) (\<lambda>_.
     thenDo (rowsOrThrow db t) (\<lambda>rows.
       (let since = now - RESTORE_DAYS * DAY_MS_cl;
            out = listBatches since (cr_lists rows) [];
            by = itemBatches since (cr_items rows) []
        in Ok (sort_key (\<lambda>b. - dbt_deletedAt b) (map snd (batchesOut by out))))))"

end
