(* ===== verification/ChecklistTemplates.thy ===== *)
theory ChecklistTemplates
  imports ChecklistEdits
begin

text \<open>
  Trees of checklists without rows, as templates keep them and the New task form sends them
  (\<open>modules/tasks/checklist-tree.ts\<close>, the second half), the rows a tree makes on a new task, and the copy
  of a task's checklists for its next repeat (\<open>checklist-service.ts\<close>).
\<close>

section \<open>Trees\<close>

text \<open>
  A value of unknown type, as it comes out of a JSON column or a request. A field that an object does not
  have reads like one that is null; an array has no fields the code reads.
\<close>

datatype rawJson = RawNull | RawBool bool | RawNum int | RawText string | RawArray "rawJson list" | RawObject "(string \<times> rawJson) list"

definition rawField :: "string \<Rightarrow> rawJson \<Rightarrow> rawJson" where
  "rawField name v =
     (case v of RawObject fs \<Rightarrow> (case map_of fs name of None \<Rightarrow> RawNull | Some x \<Rightarrow> x) | _ \<Rightarrow> RawNull)"

text \<open>\<open>ChecklistNode\<close>: no \<open>children\<close> and an empty array of them are the same to everything that reads a node.\<close>

datatype checklistNode = ChecklistNode (nodeText: string) (nodeKids: "checklistNode list")

record checklistTreeList =
  tl_title :: string
  tl_items :: "checklistNode list"

definition clean :: "rawJson \<Rightarrow> string" where
  "clean v = (case v of RawText s \<Rightarrow> take TEXT_MAX (trim s) | _ \<Rightarrow> [])"

definition rawNodeText :: "rawJson \<Rightarrow> string" where
  "rawNodeText n = (case n of RawText s \<Rightarrow> clean n | _ \<Rightarrow> clean (rawField ''text'' n))"

function nodesOf :: "rawJson \<Rightarrow> nat \<Rightarrow> checklistNode list" where
  "nodesOf raw depth =
     (case raw of
        RawArray ns \<Rightarrow>
          (if depth > MAX_DEPTH + 5 then []
           else List.map_filter (\<lambda>n.
                  let t = rawNodeText n
                  in if t = [] then None else Some (ChecklistNode t (nodesOf (rawField ''children'' n) (Suc depth)))) ns)
      | _ \<Rightarrow> [])"
  by pat_completeness auto
termination
  by (relation "measure (\<lambda>(raw, depth). MAX_DEPTH + 6 - depth)") auto

declare nodesOf.simps [simp del]

definition isRawText :: "rawJson \<Rightarrow> bool" where
  "isRawText v = (case v of RawText s \<Rightarrow> True | _ \<Rightarrow> False)"

definition titleOr :: "string \<Rightarrow> string" where
  "titleOr t = (if t = [] then DEFAULT_LIST_TITLE else t)"

definition checklistTreeOf :: "rawJson \<Rightarrow> checklistTreeList list" where
  "checklistTreeOf raw =
     (case raw of
        RawArray xs \<Rightarrow>
          (if list_all isRawText xs
           then (case nodesOf raw 0 of [] \<Rightarrow> [] | items \<Rightarrow> [\<lparr>tl_title = DEFAULT_LIST_TITLE, tl_items = items\<rparr>])
           else List.map_filter (\<lambda>l. case l of
                    RawObject _ \<Rightarrow> Some \<lparr>tl_title = titleOr (clean (rawField ''title'' l)), tl_items = nodesOf (rawField ''items'' l) 0\<rparr>
                  | _ \<Rightarrow> None) xs)
      | _ \<Rightarrow> [])"

fun flatNode :: "checklistNode \<Rightarrow> string list" where
  "flatNode (ChecklistNode t ns) = t # concat (map flatNode ns)"

definition flatTexts :: "checklistTreeList list \<Rightarrow> string list" where
  "flatTexts tree = concat (map (\<lambda>l. concat (map flatNode (tl_items l))) tree)"

definition treeItemCount :: "checklistTreeList list \<Rightarrow> nat" where
  "treeItemCount tree = length (flatTexts tree)"

text \<open>\<open>deepest\<close> of the children of a node; one level less than its own when there are none.\<close>

fun deepestOf :: "int \<Rightarrow> checklistNode \<Rightarrow> int" where
  "deepestOf level (ChecklistNode t ns) =
     (if ns = [] then level else Max (set (map (deepestOf (level + 1)) ns)))"

definition deepest :: "checklistNode list \<Rightarrow> int \<Rightarrow> int" where
  "deepest ns level = (if ns = [] then level - 1 else Max (set (map (deepestOf level) ns)))"

text \<open>Why a tree is over the limits, or \<open>None\<close>; the plain message of each is its text in the code.\<close>

datatype overLimit = TooManyListsInTree | TooManyItemsInTree | TooManyLevelsInTree

definition treeLimits :: "checklistTreeList list \<Rightarrow> overLimit option" where
  "treeLimits tree =
     (if length tree > MAX_LISTS then Some TooManyListsInTree
      else if treeItemCount tree > MAX_ITEMS then Some TooManyItemsInTree
      else if list_ex (\<lambda>l. deepest (tl_items l) 0 \<ge> int MAX_DEPTH) tree then Some TooManyLevelsInTree
      else None)"

section \<open>A tree from the rows of a task\<close>

text \<open>
  \<open>treeFromRows\<close> makes one object per shown item and pushes it on the children of its parent's object,
  or on its checklist's items. Here the objects carry the item's id, and an item is put under the node of
  its parent's id wherever that is in the tree so far.
\<close>

datatype idNode = IdNode (inId: ident) (inText: string) (inKids: "idNode list")

fun idsIn :: "idNode \<Rightarrow> ident list" where
  "idsIn (IdNode k t ns) = k # concat (map idsIn ns)"

fun addUnder :: "ident \<Rightarrow> idNode \<Rightarrow> idNode \<Rightarrow> idNode" where
  "addUnder p new (IdNode k t ns) = IdNode k t (map (addUnder p new) ns @ (if k = p then [new] else []))"

fun plainNode :: "idNode \<Rightarrow> checklistNode" where
  "plainNode (IdNode k t ns) = ChecklistNode t (map plainNode ns)"

record openList =
  ol_id :: ident
  ol_title :: string
  ol_items :: "idNode list"

definition openIds :: "openList list \<Rightarrow> ident list" where
  "openIds out = concat (map (\<lambda>l. concat (map idsIn (ol_items l))) out)"

definition pushUnder :: "ident \<Rightarrow> idNode \<Rightarrow> openList list \<Rightarrow> openList list" where
  "pushUnder p new out = map (\<lambda>l. l\<lparr>ol_items := map (addUnder p new) (ol_items l)\<rparr>) out"

definition pushTop :: "ident \<Rightarrow> idNode \<Rightarrow> openList list \<Rightarrow> openList list" where
  "pushTop k new out = map (\<lambda>l. if ol_id l = k then l\<lparr>ol_items := ol_items l @ [new]\<rparr> else l) out"

text \<open>One turn of the loop; \<open>None\<close> is the TypeError of an item whose checklist is not shown.\<close>

definition putItem :: "itemRow \<Rightarrow> openList list \<Rightarrow> openList list option" where
  "putItem i out =
     (let node = IdNode (itemId i) (itemText i) [];
          top = (case itemList i of
                   None \<Rightarrow> None
                 | Some l \<Rightarrow> if l \<in> set (map ol_id out) then Some (pushTop l node out) else None)
      in case given (itemParent i) of
           None \<Rightarrow> top
         | Some p \<Rightarrow> if p \<in> set (openIds out) then Some (pushUnder p node out) else top)"

fun putItems :: "itemRow list \<Rightarrow> openList list \<Rightarrow> openList list option" where
  "putItems [] out = Some out"
| "putItems (i # is) out = (case putItem i out of None \<Rightarrow> None | Some out' \<Rightarrow> putItems is out')"

definition closeList :: "openList \<Rightarrow> checklistTreeList" where
  "closeList l = \<lparr>tl_title = ol_title l, tl_items = map plainNode (ol_items l)\<rparr>"

definition treeFromRows :: "listRow list \<Rightarrow> itemRow list \<Rightarrow> checklistTreeList list option" where
  "treeFromRows ls is =
     (case arrange ls is of
        None \<Rightarrow> None
      | Some a \<Rightarrow>
          map_option (map closeList)
            (putItems (map ai_row (ar_items a))
              (map (\<lambda>l. \<lparr>ol_id = listId (al_row l), ol_title = listTitle (al_row l), ol_items = []\<rparr>) (ar_lists a))))"

section \<open>The rows a tree makes\<close>

text \<open>\<open>walk\<close> of \<open>rowsFromTree\<close>: the rows of the nodes and what is under them, and the next id to draw.\<close>

definition rowText :: "string \<Rightarrow> string" where
  "rowText t = take TEXT_MAX (trim t)"

fun rowsOfNodes :: "(nat \<Rightarrow> ident) \<Rightarrow> ident \<Rightarrow> ident \<Rightarrow> instant \<Rightarrow> ident option \<Rightarrow> nat \<Rightarrow> nat \<Rightarrow> checklistNode list \<Rightarrow> itemRow list \<times> nat" where
  "rowsOfNodes newId t l at parent pos n [] = ([], n)"
| "rowsOfNodes newId t l at parent pos n (ChecklistNode s ks # ns) =
     (let row = newItemRow (newId n) t l (rowText s) parent (int pos) None None at;
          (below, n1) = rowsOfNodes newId t l at (Some (itemId row)) 0 (Suc n) ks;
          (rest, n2) = rowsOfNodes newId t l at parent (Suc pos) n1 ns
      in (row # below @ rest, n2))"

fun rowsOfLists :: "(nat \<Rightarrow> ident) \<Rightarrow> ident \<Rightarrow> ident option \<Rightarrow> instant \<Rightarrow> nat \<Rightarrow> nat \<Rightarrow> checklistTreeList list \<Rightarrow> listRow list \<times> itemRow list \<times> nat" where
  "rowsOfLists newId t createdBy at li n [] = ([], [], n)"
| "rowsOfLists newId t createdBy at li n (l # ls) =
     (let row = newListRow (newId n) t (titleOr (rowText (tl_title l))) (int li) createdBy at;
          (items, n1) = rowsOfNodes newId t (listId row) at None 0 (Suc n) (tl_items l);
          (rows, is, n2) = rowsOfLists newId t createdBy at (Suc li) n1 ls
      in (row # rows, items @ is, n2))"

definition rowsFromTree :: "(nat \<Rightarrow> ident) \<Rightarrow> nat \<Rightarrow> ident \<Rightarrow> checklistTreeList list \<Rightarrow> ident option \<Rightarrow> instant \<Rightarrow> checklistRows" where
  "rowsFromTree newId n t tree createdBy at =
     (case rowsOfLists newId t createdBy at 0 n tree of
        (ls, is, n') \<Rightarrow> \<lparr>cr_lists = ls, cr_items = is, cr_fresh = n'\<rparr>)"

section \<open>The copy for a repeat\<close>

text \<open>The ids of the copies by the ids copied; of two rows with one id the last counts (\<open>Map.set\<close>).\<close>

definition copiedIds :: "ident list \<Rightarrow> ident list \<Rightarrow> ident \<rightharpoonup> ident" where
  "copiedIds from to = map_of (rev (zip from to))"

definition shiftedDue :: "int option \<Rightarrow> instant option \<Rightarrow> instant option" where
  "shiftedDue shift due = (case (due, shift) of (Some d, Some s) \<Rightarrow> Some (d + s) | _ \<Rightarrow> None)"

definition copyRowsForRepeat :: "(nat \<Rightarrow> ident) \<Rightarrow> nat \<Rightarrow> checklistRows \<Rightarrow> ident \<Rightarrow> int option \<Rightarrow> instant \<Rightarrow> checklistRows option" where
  "copyRowsForRepeat newId n source t shift at =
     (case arrange (cr_lists source) (cr_items source) of
        None \<Rightarrow> None
      | Some a \<Rightarrow>
          (let ls = map al_row (ar_lists a);
               its = map ai_row (ar_items a);
               newLists = drawn newId n (length ls);
               newItems = drawn newId (n + length ls) (length its);
               listIds = copiedIds (map listId ls) newLists;
               itemIds = copiedIds (map itemId its) newItems
           in Some \<lparr>cr_lists = map2 (\<lambda>(i, k) l. newListRow k t (listTitle l) (int i) (listCreatedBy l) at) (enumerate 0 newLists) ls,
                    cr_items = map2 (\<lambda>k i. newItemRow k t (case listIds (case itemList i of None \<Rightarrow> [] | Some l \<Rightarrow> l) of None \<Rightarrow> [] | Some l \<Rightarrow> l)
                        (itemText i) (case given (itemParent i) of None \<Rightarrow> None | Some p \<Rightarrow> itemIds p)
                        (itemPos i) (itemAssignee i) (shiftedDue shift (itemDue i)) at) newItems its,
                    cr_fresh = n + length ls + length its\<rparr>))"

text \<open>
  People who may no longer open the project are taken off the copy (\<open>prisma-recurrence-port.ts\<close>), and the
  rows of a new task are written in bulk.
\<close>

definition withPeople :: "ident set \<Rightarrow> itemRow list \<Rightarrow> itemRow list" where
  "withPeople allowed is = map (\<lambda>i. case itemAssignee i of
      None \<Rightarrow> i
    | Some u \<Rightarrow> if u \<in> allowed then i else i\<lparr>itemAssignee := None\<rparr>) is"

definition writeNew :: "checklistDb \<Rightarrow> checklistRows \<Rightarrow> checklistDb" where
  "writeNew db r = db\<lparr>cdb_lists := cdb_lists db @ cr_lists r, cdb_items := cdb_items db @ cr_items r, cdb_fresh := cr_fresh r\<rparr>"

end
