(* ===== verification/ChecklistForest.thy ===== *)
theory ChecklistForest
  imports ChecklistTemplates ChecklistGrow
begin

text \<open>
  Rows laid out as a forest: what \<open>arrange\<close> shows of well formed rows, and the tree \<open>treeFromRows\<close> reads
  from them. Used for the rows a tree makes (\<open>ChecklistGrown\<close>) and for the copy of a task's checklists
  (\<open>ChecklistRepeat\<close>).
\<close>

section \<open>Well formed rows, arranged\<close>

text \<open>In well formed rows no item is without a home, and an item is shown under its parent.\<close>

lemma kept_keyed:
  assumes g: "goodIds newId" and r: "rowsOk newId t r"
  shows "wellKeyed (cr_items r)" "distinct (map listId (liveLists (cr_lists r)))"
proof -
  have "take 5 (itemId i) \<noteq> ''list:''" if "i \<in> set (cr_items r)" for i
  proof -
    have "itemId i \<in> newId ` {..<cr_fresh r}" using rowsOkD(4) [OF r] that by (auto simp: usedIds_def)
    then show ?thesis using g unfolding goodIds_def by (metis imageE)
  qed
  then show "wellKeyed (cr_items r)" using rowsOkD(5) [OF r] by (simp add: wellKeyed_def)
  have "distinct (map listId (filter isLiveList (cr_lists r)))" using rowsOkD(2) [OF r] by (simp add: listsOk_def distinct_map_filter)
  then show "distinct (map listId (liveLists (cr_lists r)))" by (simp add: liveLists_def distinct_map inj_on_def)
qed

lemma homed_home:
  assumes "goodIds newId" "rowsOk newId t r" "homed r"
  shows "withHome (cr_lists r) (cr_items r) = (cr_lists r, cr_items r)" "liveItems (cr_lists r) (cr_items r) = filter isLive (cr_items r)"
proof -
  have "listId l \<noteq> []" if "l \<in> set (cr_lists r)" for l
  proof -
    have "listId l \<in> newId ` {..<cr_fresh r}" using rowsOkD(4) [OF assms(2)] that by (auto simp: usedIds_def)
    then show ?thesis using assms(1) unfolding goodIds_def by (metis imageE)
  qed
  then have "\<not> isLost (cr_lists r) i" if i: "i \<in> set (cr_items r)" for i
    using assms(3) i unfolding homed_def isLost_def by (fastforce simp: mem_liveLists split: option.split)
  then show h: "withHome (cr_lists r) (cr_items r) = (cr_lists r, cr_items r)" by (simp add: withHome_def filter_False)
  show "liveItems (cr_lists r) (cr_items r) = filter isLive (cr_items r)" by (rule liveItems_withHome [OF h])
qed

lemma real_parent:
  assumes t: "treeOk (nodes is)" and i: "i \<in> set is" "isLive i"
  shows "parentOf (filter isLive is) i = itemParent i"
proof (cases "itemParent i")
  case (Some p)
  note o = t [unfolded treeOk_items]
  obtain q where q: "q \<in> set is" "itemId q = p" "isLive q" "itemList q = itemList i" using liveParentsD [OF _ i Some] o by blast
  have "byId (filter isLive is) p = Some q" using byId_distinct [of "filter isLive is" q] q o by (simp add: distinct_map_filter)
  moreover have "p \<in> itemId ` set is" using q(1,2) by blast
  then have "p \<noteq> []" using o unfolding set_map by metis
  moreover have "itemId q \<noteq> itemId i"
  proof
    assume "itemId q = itemId i"
    then have "(itemId i, itemId i) \<in> liveLinks is" using i Some q(2) by (auto simp: liveLinks_iff)
    moreover have "acyclic (liveLinks is)" using bound_acyclic o by blast
    ultimately show False unfolding acyclic_def by blast
  qed
  ultimately show ?thesis using Some q by (simp add: parentOf_def)
qed (simp add: parentOf_def)

lemma finite_parentRel: "finite (parentRel is)"
  unfolding parentRel_UN by (auto split: option.split)

lemma real_depth:
  assumes t: "treeOk (nodes is)" and i: "i \<in> set is" "isLive i"
  shows "\<exists>n. hasDepth (filter isLive is) (itemId i) n"
proof -
  note o = t [unfolded treeOk_items]
  have d: "distinct (map itemId (filter isLive is))" using o by (simp add: distinct_map_filter)
  have "acyclic (liveLinks is)" using bound_acyclic o by blast
  then have "wf ((liveLinks is)\<inverse>)" by (rule finite_acyclic_wf_converse [OF finite_parentRel])
  then have "\<forall>i \<in> set is. itemId i = k \<longrightarrow> isLive i \<longrightarrow> (\<exists>n. hasDepth (filter isLive is) k n)" for k
  proof (induction k)
    case (less k)
    show ?case
    proof (intro ballI impI)
      fix i assume i: "i \<in> set is" "itemId i = k" "isLive i"
      have b: "byId (filter isLive is) k = Some i" using byId_distinct [OF d, of i] i by simp
      have pi: "parentOf (filter isLive is) i = itemParent i" by (rule real_parent [OF t i(1,3)])
      show "\<exists>n. hasDepth (filter isLive is) k n"
      proof (cases "itemParent i")
        case None
        then show ?thesis using hasDepth.top [OF b] pi by auto
      next
        case (Some p)
        obtain q where q: "q \<in> set is" "itemId q = p" "isLive q" using liveParentsD [OF _ i(1,3) Some] o by blast
        have "(p, k) \<in> (liveLinks is)\<inverse>" using i Some by (auto simp: liveLinks_iff)
        then obtain n where "hasDepth (filter isLive is) p n" using less.IH q by blast
        then show ?thesis using hasDepth.below [OF b] pi Some by auto
      qed
    qed
  qed
  then show ?thesis using i by blast
qed

lemma real_effective:
  assumes t: "treeOk (nodes is)" and i: "i \<in> set is" "isLive i"
  shows "effectiveParent (filter isLive is) i = itemParent i"
proof (cases "itemParent i")
  case None
  then show ?thesis by (simp add: effectiveParent_def real_parent [OF assms])
next
  case (Some p)
  note o = t [unfolded treeOk_items]
  have b: "byId (filter isLive is) (itemId i) = Some i" using byId_distinct [of "filter isLive is" i] i o by (simp add: distinct_map_filter)
  obtain q where q: "q \<in> set is" "itemId q = p" "isLive q" using liveParentsD [OF _ i Some] o by blast
  obtain n where n: "hasDepth (filter isLive is) p n" using real_depth [OF t q(1,3)] q(2) by blast
  then have "hasDepth (filter isLive is) (itemId i) (Suc n)" using hasDepth.below [OF b] real_parent [OF assms] Some by simp
  then have "chainOk (filter isLive is) [itemId i] (Some p)" using n by (intro depth_chainOk) auto
  then show ?thesis using Some by (simp add: effectiveParent_def real_parent [OF assms])
qed

lemma real_group:
  assumes "treeOk (nodes is)" "i \<in> set is" "isLive i"
  shows "groupKey (filter isLive is) i =
    (case itemParent i of Some p \<Rightarrow> p | None \<Rightarrow> ''list:'' @ (case itemList i of Some l \<Rightarrow> l | None \<Rightarrow> []))"
  by (simp add: groupKey_def real_effective [OF assms])

section \<open>Rows laid out as a forest\<close>

text \<open>
  The rows a tree makes, and the rows an arranged task shows, are the roots of the sub-trees of a forest,
  each before those below it. \<open>laidKids\<close>: the sub-items of an item, in their order.
\<close>

datatype copse = Copse (root: itemRow) (kids: "copse list")

fun subs :: "copse \<Rightarrow> copse list" where
  "subs (Copse r ks) = Copse r ks # concat (map subs ks)"

definition forestSubs :: "copse list \<Rightarrow> copse list" where
  "forestSubs cs = concat (map subs cs)"

lemma forestSubs_simps [simp]:
  "forestSubs [] = []" "forestSubs (c # cs) = subs c @ forestSubs cs" "forestSubs (xs @ ys) = forestSubs xs @ forestSubs ys"
  by (simp_all add: forestSubs_def)

lemma subs_forest: "subs c = c # forestSubs (kids c)"
  by (cases c) (simp add: forestSubs_def)

abbreviation copseId :: "copse \<Rightarrow> ident" where
  "copseId c \<equiv> itemId (root c)"

definition inOrder :: "copse list \<Rightarrow> bool" where
  "inOrder cs \<longleftrightarrow> sorted_wrt (\<lambda>a b. itemOrder (root a) < itemOrder (root b)) cs"

definition laidKids :: "copse \<Rightarrow> bool" where
  "laidKids c \<longleftrightarrow> inOrder (kids c)
     \<and> (\<forall>k \<in> set (kids c). itemParent (root k) = Some (copseId c) \<and> itemList (root k) = itemList (root c))"

definition laidTops :: "ident \<Rightarrow> copse list \<Rightarrow> bool" where
  "laidTops l cs \<longleftrightarrow> inOrder cs \<and> (\<forall>c \<in> set cs. itemParent (root c) = None \<and> itemList (root c) = Some l)"

definition allSubs :: "(listRow \<times> copse list) list \<Rightarrow> copse list" where
  "allSubs tops = concat (map (forestSubs \<circ> snd) tops)"

lemma allSubs_Cons [simp]: "allSubs ((l, cs) # tops) = forestSubs cs @ allSubs tops" "allSubs [] = []"
  by (simp_all add: allSubs_def)

definition laidOut :: "listRow list \<Rightarrow> itemRow list \<Rightarrow> (listRow \<times> copse list) list \<Rightarrow> bool" where
  "laidOut ls live tops \<longleftrightarrow> liveLists ls = map fst tops
     \<and> set live = root ` set (allSubs tops) \<and> distinct (map copseId (allSubs tops))
     \<and> (\<forall>c \<in> set (allSubs tops). laidKids c) \<and> (\<forall>(l, cs) \<in> set tops. laidTops (listId l) cs)"

lemma root_in_subs: "c \<in> set (subs c)"
  by (simp add: subs_forest)

lemma kid_in_subs: "c \<in> set (subs t) \<Longrightarrow> k \<in> set (kids c) \<Longrightarrow> k \<in> set (subs t)"
proof (induction t)
  case (Copse r ks)
  show ?case
  proof (cases "c = Copse r ks")
    case True
    then show ?thesis using Copse.prems(2) root_in_subs by auto
  next
    case False
    then show ?thesis using Copse by auto
  qed
qed

lemma kid_in_forest: "c \<in> set (forestSubs cs) \<Longrightarrow> k \<in> set (kids c) \<Longrightarrow> k \<in> set (forestSubs cs)"
  using kid_in_subs by (auto simp: forestSubs_def)

lemma kid_in_all: "c \<in> set (allSubs tops) \<Longrightarrow> k \<in> set (kids c) \<Longrightarrow> k \<in> set (allSubs tops)"
  using kid_in_forest by (fastforce simp: allSubs_def)

lemma above_or_top: "k \<in> set (subs t) \<Longrightarrow> k = t \<or> (\<exists>c \<in> set (subs t). k \<in> set (kids c))"
proof (induction t)
  case (Copse r ks)
  show ?case
  proof (cases "k = Copse r ks")
    case False
    then obtain x where x: "x \<in> set ks" "k \<in> set (subs x)" using Copse.prems by auto
    then show ?thesis using Copse.IH [OF x] by auto
  qed simp
qed

lemma above_or_in: "k \<in> set (forestSubs cs) \<Longrightarrow> k \<in> set cs \<or> (\<exists>c \<in> set (forestSubs cs). k \<in> set (kids c))"
  using above_or_top by (fastforce simp: forestSubs_def)

lemma above_or_listed:
  assumes "k \<in> set (allSubs tops)"
  shows "(\<exists>(l, cs) \<in> set tops. k \<in> set cs) \<or> (\<exists>c \<in> set (allSubs tops). k \<in> set (kids c))"
proof -
  obtain l cs where t: "(l, cs) \<in> set tops" "k \<in> set (forestSubs cs)" using assms by (auto simp: allSubs_def)
  then have "set (forestSubs cs) \<subseteq> set (allSubs tops)" by (auto simp: allSubs_def)
  then show ?thesis using above_or_in [OF t(2)] t(1) by blast
qed

text \<open>The sub-items \<open>arrange\<close> finds by sorting are those of the forest.\<close>

lemma sort_laid:
  assumes "inOrder cs" "distinct xs" "set xs = root ` set cs"
  shows "sort_key itemOrder xs = map root cs"
proof -
  have d: "distinct (map (itemOrder \<circ> root) cs) \<and> sorted (map (itemOrder \<circ> root) cs)"
    using assms(1) unfolding inOrder_def by (induction cs) (auto simp: less_imp_le)
  then have "distinct (map root cs)" by (auto simp: distinct_map comp_inj_on_iff dest: inj_on_imageI2)
  then have "mset xs = mset (map root cs)" using set_eq_iff_mset_eq_distinct [OF assms(2)] assms(3) by (metis list.set_map)
  moreover have "inj_on itemOrder (set xs)" unfolding assms(3) using d by (intro inj_on_imageI) (simp add: distinct_map)
  ultimately show ?thesis using d by (intro sort_key_inj_key_eq) simp_all
qed

lemma same_copse: "distinct (map copseId S) \<Longrightarrow> a \<in> set S \<Longrightarrow> b \<in> set S \<Longrightarrow> copseId a = copseId b \<Longrightarrow> a = b"
  by (auto simp: distinct_map dest: inj_onD)

lemma childrenOf_laid:
  assumes "inOrder cs" "distinct live" "\<And>i. i \<in> root ` set cs \<longleftrightarrow> i \<in> set live \<and> groupKey live i = key"
  shows "childrenOf live key = map root cs"
proof -
  have "set (filter (\<lambda>i. groupKey live i = key) live) = root ` set cs" using assms(3) by auto
  then show ?thesis unfolding childrenOf_def using assms(2) by (intro sort_laid [OF assms(1)]) simp_all
qed

lemma live_distinct: "treeOk (nodes is) \<Longrightarrow> distinct (filter isLive is)"
  by (simp add: treeOk_items distinct_map)

lemma forest_roots: "set cs \<subseteq> set (forestSubs cs)"
  by (induction cs) (auto intro: root_in_subs)

lemma kids_of_subs:
  assumes t: "treeOk (nodes is)" and keyed: "wellKeyed is" and o: "laidOut ls (filter isLive is) tops"
    and c: "c \<in> set (allSubs tops)"
  shows "childrenOf (filter isLive is) (copseId c) = map root (kids c)"
proof -
  note lo = o [unfolded laidOut_def]
  have d: "distinct (map copseId (allSubs tops))" and S: "set (filter isLive is) = root ` set (allSubs tops)" using lo by blast+
  have lk: "laidKids c" using lo c by blast
  have mem: "i \<in> root ` set (kids c) \<longleftrightarrow> i \<in> set (filter isLive is) \<and> groupKey (filter isLive is) i = copseId c" for i
  proof
    assume "i \<in> root ` set (kids c)"
    then obtain k where k: "k \<in> set (kids c)" "i = root k" by blast
    then have "i \<in> set (filter isLive is)" using kid_in_all [OF c k(1)] unfolding S by blast
    moreover have "itemParent i = Some (copseId c)" using lk k by (auto simp: laidKids_def)
    ultimately show "i \<in> set (filter isLive is) \<and> groupKey (filter isLive is) i = copseId c" using real_group [OF t, of i] by simp
  next
    assume i: "i \<in> set (filter isLive is) \<and> groupKey (filter isLive is) i = copseId c"
    have notList: "take 5 (copseId c) \<noteq> ''list:''"
    proof -
      have "root c \<in> set (filter isLive is)" unfolding S using c by blast
      then show ?thesis using keyed by (auto simp: wellKeyed_def)
    qed
    have p: "itemParent i = Some (copseId c)"
      using i real_group [OF t, of i] notList by (auto split: option.splits)
    obtain k where k: "k \<in> set (allSubs tops)" "i = root k" using i unfolding S by blast
    then consider (top) l cs where "(l, cs) \<in> set tops" "k \<in> set cs" | (under) b where "b \<in> set (allSubs tops)" "k \<in> set (kids b)"
      using above_or_listed by blast
    then show "i \<in> root ` set (kids c)"
    proof cases
      case top
      then have "itemParent i = None" using lo k(2) by (fastforce simp: laidTops_def)
      then show ?thesis using p by simp
    next
      case under
      then have "laidKids b" using lo by blast
      then have "itemParent i = Some (copseId b)" using under(2) k(2) by (auto simp: laidKids_def)
      then have "copseId b = copseId c" unfolding p by (rule option.inject [THEN iffD1, symmetric])
      then have "b = c" by (rule same_copse [OF d under(1) c])
      then show ?thesis using under(2) k(2) by blast
    qed
  qed
  have "inOrder (kids c)" using lk by (simp add: laidKids_def)
  then show ?thesis using live_distinct [OF t] mem by (rule childrenOf_laid)
qed

lemma tops_of_list:
  assumes t: "treeOk (nodes is)" and keyed: "wellKeyed is" and o: "laidOut ls (filter isLive is) tops"
    and lists: "distinct (map (listId \<circ> fst) tops)" and l: "(l, cs) \<in> set tops"
  shows "childrenOf (filter isLive is) (''list:'' @ listId l) = map root cs"
proof -
  note lo = o [unfolded laidOut_def]
  have S: "set (filter isLive is) = root ` set (allSubs tops)" using lo by blast
  have lt: "laidTops (listId l) cs" using lo l by blast
  have cs: "set cs \<subseteq> set (allSubs tops)" using forest_roots [of cs] l by (force simp: allSubs_def)
  have mem: "i \<in> root ` set cs \<longleftrightarrow> i \<in> set (filter isLive is) \<and> groupKey (filter isLive is) i = ''list:'' @ listId l" for i
  proof
    assume "i \<in> root ` set cs"
    then obtain k where k: "k \<in> set cs" "i = root k" by blast
    then have "i \<in> set (filter isLive is)" using cs unfolding S by blast
    moreover have "itemParent i = None" "itemList i = Some (listId l)" using lt k by (auto simp: laidTops_def)
    ultimately show "i \<in> set (filter isLive is) \<and> groupKey (filter isLive is) i = ''list:'' @ listId l" using real_group [OF t, of i] by simp
  next
    assume i: "i \<in> set (filter isLive is) \<and> groupKey (filter isLive is) i = ''list:'' @ listId l"
    obtain k where k: "k \<in> set (allSubs tops)" "i = root k" using i unfolding S by blast
    then consider (top) l' cs' where "(l', cs') \<in> set tops" "k \<in> set cs'" | (under) b where "b \<in> set (allSubs tops)" "k \<in> set (kids b)"
      using above_or_listed by blast
    then show "i \<in> root ` set cs"
    proof cases
      case top
      then have lt': "laidTops (listId l') cs'" using lo by blast
      then have f: "itemParent i = None" "itemList i = Some (listId l')" using top(2) k(2) by (auto simp: laidTops_def)
      then have "listId l' = listId l" using i real_group [OF t, of i] by simp
      then have "(l', cs') = (l, cs)" using lists top(1) l unfolding distinct_map by (metis comp_apply fst_conv inj_onD)
      then show ?thesis using top(2) k(2) by blast
    next
      case under
      then have "laidKids b" using lo by blast
      then have "itemParent i = Some (copseId b)" using under(2) k(2) by (auto simp: laidKids_def)
      then have "copseId b = ''list:'' @ listId l" using i real_group [OF t, of i] by simp
      moreover have "root b \<in> set (filter isLive is)" unfolding S using under(1) by blast
      ultimately show ?thesis using keyed by (auto simp: wellKeyed_def)
    qed
  qed
  have "inOrder cs" using lt by (simp add: laidTops_def)
  then show ?thesis using live_distinct [OF t] mem by (rule childrenOf_laid)
qed

section \<open>What \<open>arrange\<close> shows of a forest\<close>

lemma walkAll_laid:
  "walkAll w (map root cs) = Some (es, d, t) \<Longrightarrow> (\<And>c es d t. c \<in> set cs \<Longrightarrow> w (root c) = Some (es, d, t) \<Longrightarrow> map ai_row es = map root (subs c))
    \<Longrightarrow> map ai_row es = map root (forestSubs cs)"
proof (induction cs arbitrary: es d t)
  case (Cons c cs)
  then obtain es1 d1 t1 es2 d2 t2 where w: "w (root c) = Some (es1, d1, t1)" "walkAll w (map root cs) = Some (es2, d2, t2)" "es = es1 @ es2"
    by (auto split: option.splits)
  then show ?case using Cons.IH [OF w(2)] Cons.prems(2) by simp
qed simp

lemma shownRow_laid: "depth = 0 \<longrightarrow> itemParent r = None \<Longrightarrow> shownRow r depth = r"
  by (cases r) (simp add: shownRow_def)

lemma walk_laid:
  assumes t: "treeOk (nodes is)" and keyed: "wellKeyed is" and o: "laidOut ls (filter isLive is) tops"
  shows "walk fuel (filter isLive is) depth (root c) = Some (es, d, n) \<Longrightarrow> c \<in> set (allSubs tops)
    \<Longrightarrow> depth = 0 \<longrightarrow> itemParent (root c) = None \<Longrightarrow> map ai_row es = map root (subs c)"
proof (induction fuel arbitrary: depth c es d n)
  case (Suc fuel)
  note k = kids_of_subs [OF t keyed o Suc.prems(2)]
  note shown = shownRow_laid [OF Suc.prems(3)]
  show ?case
  proof (cases "kids c = []")
    case True
    then have "map ai_row es = [root c]" using Suc.prems(1) shown by (auto simp: k)
    then show ?thesis using True by (simp add: subs_forest)
  next
    case False
    then obtain es1 d1 n1 where w: "walkAll (walk fuel (filter isLive is) (depth + 1)) (map root (kids c)) = Some (es1, d1, n1)"
        "map ai_row es = root c # map ai_row es1"
      using Suc.prems(1) shown by (auto simp: k Let_def split: option.splits)
    have "map ai_row es1 = map root (forestSubs (kids c))"
      by (rule walkAll_laid [OF w(1)]) (use Suc.IH kid_in_all [OF Suc.prems(2)] in simp)
    then show ?thesis using w(2) by (simp add: subs_forest)
  qed
qed simp

lemma arrangeLists_laid:
  assumes t: "treeOk (nodes is)" and keyed: "wellKeyed is" and o: "laidOut ls (filter isLive is) tops"
    and lists: "distinct (map (listId \<circ> fst) tops)"
  shows "arrangeLists fuel (filter isLive is) (map fst some) = Some (als, es, d, n) \<Longrightarrow> set some \<subseteq> set tops
    \<Longrightarrow> map ai_row es = map root (allSubs some) \<and> map al_row als = map fst some"
proof (induction "some" arbitrary: als es d n)
  case (Cons top rest)
  obtain l cs where top: "top = (l, cs)" by fastforce
  have l: "(l, cs) \<in> set tops" using Cons.prems(2) top by simp
  obtain es1 d1 t1 als2 es2 d2 t2 where
    w: "walkAll (walk fuel (filter isLive is) 0) (map root cs) = Some (es1, d1, t1)"
    and r: "arrangeLists fuel (filter isLive is) (map fst rest) = Some (als2, es2, d2, t2)" "es = es1 @ es2"
      "als = \<lparr>al_row = l, al_done = d1, al_total = t1\<rparr> # als2"
    using Cons.prems(1) unfolding top list.map fst_conv arrangeLists.simps tops_of_list [OF t keyed o lists l]
    by (auto split: option.splits)
  have cs: "c \<in> set (allSubs tops) \<and> itemParent (root c) = None" if "c \<in> set cs" for c
  proof -
    have "laidTops (listId l) cs" using o l by (auto simp: laidOut_def)
    moreover have "set cs \<subseteq> set (allSubs tops)" using forest_roots [of cs] l by (force simp: allSubs_def)
    ultimately show ?thesis using that by (auto simp: laidTops_def)
  qed
  have "map ai_row es1 = map root (forestSubs cs)"
    by (rule walkAll_laid [OF w]) (use walk_laid [OF t keyed o] cs in blast)
  then show ?case using Cons.IH [OF r(1)] Cons.prems(2) r(2,3) by (simp add: top)
qed simp

lemma arrange_laid:
  assumes g: "goodIds newId" and r: "rowsOk newId t r" "homed r"
    and o: "laidOut (cr_lists r) (filter isLive (cr_items r)) tops"
  obtains a where "arrange (cr_lists r) (cr_items r) = Some a" "map ai_row (ar_items a) = map root (allSubs tops)"
    "map al_row (ar_lists a) = map fst tops"
proof -
  obtain a where a: "arrange (cr_lists r) (cr_items r) = Some a" using arrange_returns [OF kept_keyed(1) [OF g r(1)]] by blast
  note h = homed_home [OF g r]
  have ls: "liveLists (cr_lists r) = map fst tops" using o by (simp add: laidOut_def)
  obtain d n where al: "arrangeLists (Suc (length (filter isLive (cr_items r)))) (filter isLive (cr_items r)) (map fst tops)
      = Some (ar_lists a, ar_items a, d, n)"
    using a by (auto simp: arrange_def h Let_def ls split: option.splits)
  have "distinct (map (listId \<circ> fst) tops)" using kept_keyed(2) [OF g r(1)] by (simp add: ls)
  from arrangeLists_laid [OF rowsOkD(1) [OF r(1)] kept_keyed(1) [OF g r(1)] o this al]
  show ?thesis using that [OF a] by blast
qed

section \<open>The tree read back\<close>

text \<open>A sub-tree with its ids, as the loop has it in the end, and without them.\<close>

fun tagged :: "copse \<Rightarrow> idNode" where
  "tagged (Copse r ks) = IdNode (itemId r) (itemText r) (map tagged ks)"

fun textTree :: "copse \<Rightarrow> checklistNode" where
  "textTree (Copse r ks) = ChecklistNode (itemText r) (map textTree ks)"

lemma plain_tagged: "plainNode (tagged c) = textTree c"
  by (induction c) simp

lemma ids_tagged: "idsIn (tagged c) = map copseId (subs c)"
  by (induction c) (simp add: map_concat comp_def cong: map_cong)

lemma ids_tagged_forest: "concat (map idsIn (map tagged cs)) = map copseId (forestSubs cs)"
  by (induction cs) (simp_all add: ids_tagged)

lemma addUnder_away: "p \<notin> set (idsIn nd) \<Longrightarrow> addUnder p new nd = nd"
  by (induction nd) (auto intro: map_idI)

lemma pushUnder_away: "p \<notin> set (openIds out) \<Longrightarrow> pushUnder p new out = out"
proof -
  assume "p \<notin> set (openIds out)"
  then have "map (addUnder p new) (ol_items l) = ol_items l" if "l \<in> set out" for l
    using that by (intro map_idI addUnder_away) (auto simp: openIds_def)
  then show ?thesis unfolding pushUnder_def by (intro map_idI) simp
qed

lemma addUnder_through:
  "k \<notin> set (idsIn nd) \<Longrightarrow> k \<notin> set (concat (map idsIn ns))
    \<Longrightarrow> addUnder k new (addUnder p (IdNode k s ns) nd) = addUnder p (IdNode k s (ns @ [new])) nd"
proof (induction nd)
  case (IdNode j u xs)
  have ns: "map (addUnder k new) ns = ns" using IdNode.prems(2) by (intro map_idI addUnder_away) auto
  have xs: "map (addUnder k new) (map (addUnder p (IdNode k s ns)) xs) = map (addUnder p (IdNode k s (ns @ [new]))) xs"
    using IdNode by auto
  show ?case using IdNode.prems(1) xs ns by auto
qed

lemma ids_addUnder: "set (idsIn (addUnder p x nd)) = set (idsIn nd) \<union> (if p \<in> set (idsIn nd) then set (idsIn x) else {})"
proof (induction nd)
  case (IdNode k t ns)
  have "set (idsIn (addUnder p x nd)) = set (idsIn nd) \<union> (if p \<in> set (idsIn nd) then set (idsIn x) else {})" if "nd \<in> set ns" for nd
    using IdNode.IH that by blast
  then have "(\<Union>nd \<in> set ns. set (idsIn (addUnder p x nd)))
      = (\<Union>nd \<in> set ns. set (idsIn nd) \<union> (if p \<in> set (idsIn nd) then set (idsIn x) else {}))" by (rule SUP_cong [OF refl])
  also have "\<dots> = (\<Union>nd \<in> set ns. set (idsIn nd)) \<union> (if \<exists>nd \<in> set ns. p \<in> set (idsIn nd) then set (idsIn x) else {})"
    by (cases "\<exists>nd \<in> set ns. p \<in> set (idsIn nd)") (auto split: if_splits)
  finally show ?case by (cases "k = p") auto
qed

lemma pushUnder_through:
  assumes "k \<notin> set (openIds out)" "k \<notin> set (concat (map idsIn ns))"
  shows "pushUnder k new (pushUnder p (IdNode k s ns) out) = pushUnder p (IdNode k s (ns @ [new])) out"
proof -
  have "map (addUnder k new) (map (addUnder p (IdNode k s ns)) (ol_items l)) = map (addUnder p (IdNode k s (ns @ [new]))) (ol_items l)"
    if "l \<in> set out" for l
    using assms that addUnder_through [of k _ ns new p s] by (auto simp: openIds_def)
  then show ?thesis by (simp add: pushUnder_def)
qed

lemma pushUnder_top:
  assumes "k \<notin> set (openIds out)" "k \<notin> set (concat (map idsIn ns))"
  shows "pushUnder k new (pushTop l (IdNode k s ns) out) = pushTop l (IdNode k s (ns @ [new])) out"
proof -
  have "map (addUnder k new) (ol_items x) = ol_items x" if "x \<in> set out" for x
    using assms(1) that by (intro map_idI addUnder_away) (auto simp: openIds_def)
  moreover have "map (addUnder k new) ns = ns" using assms(2) by (intro map_idI addUnder_away) auto
  ultimately show ?thesis by (simp add: pushUnder_def pushTop_def)
qed

lemma ids_pushUnder: "p \<in> set (openIds out) \<Longrightarrow> set (openIds (pushUnder p x out)) = set (openIds out) \<union> set (idsIn x)"
  by (force simp: openIds_def pushUnder_def ids_addUnder split: if_splits)

lemma ids_pushTop: "l \<in> set (map ol_id out) \<Longrightarrow> set (openIds (pushTop l x out)) = set (openIds out) \<union> set (idsIn x)"
  by (force simp: openIds_def pushTop_def split: if_splits)

lemma putItems_append: "putItems (xs @ ys) out = (case putItems xs out of None \<Rightarrow> None | Some out1 \<Rightarrow> putItems ys out1)"
  by (induction xs arbitrary: out) (auto split: option.splits)

definition apart :: "copse list \<Rightarrow> ident set \<Rightarrow> bool" where
  "apart S used \<longleftrightarrow> distinct (map copseId S) \<and> copseId ` set S \<inter> used = {} \<and> [] \<notin> copseId ` set S"

lemma apart_append: "apart (xs @ ys) used \<longleftrightarrow> apart xs used \<and> apart ys (used \<union> copseId ` set xs)"
  by (auto simp: apart_def)

text \<open>The sub-items of a node put one after the other, each with what is under it.\<close>

lemma putItems_kids:
  assumes plug: "\<And>ns. set (openIds (plug ns)) = insert k used \<union> set (concat (map idsIn ns))"
      "\<And>ns new. k \<notin> set (concat (map idsIn ns)) \<Longrightarrow> pushUnder k new (plug ns) = plug (ns @ [new])"
  shows "(\<And>c out. c \<in> set cs \<Longrightarrow> k \<in> set (openIds out) \<Longrightarrow> apart (subs c) (set (openIds out))
        \<Longrightarrow> putItems (map root (subs c)) out = Some (pushUnder k (tagged c) out))
    \<Longrightarrow> apart (forestSubs cs) (insert k used \<union> set (concat (map idsIn ns))) \<Longrightarrow> k \<notin> set (concat (map idsIn ns))
    \<Longrightarrow> putItems (map root (forestSubs cs)) (plug ns) = Some (plug (ns @ map tagged cs))"
proof (induction cs arbitrary: ns)
  case (Cons c cs)
  have a: "apart (subs c) (insert k used \<union> set (concat (map idsIn ns)))"
      "apart (forestSubs cs) (insert k used \<union> set (concat (map idsIn ns)) \<union> copseId ` set (subs c))"
    using Cons.prems(2) unfolding forestSubs_simps apart_append by blast+
  have notin: "k \<notin> set (idsIn (tagged c))" using a(1) unfolding apart_def ids_tagged by auto
  have "putItems (map root (subs c)) (plug ns) = Some (plug (ns @ [tagged c]))"
    using Cons.prems(1) [of c "plug ns"] a(1) plug(2) [OF Cons.prems(3)] unfolding plug(1) by simp
  moreover have "putItems (map root (forestSubs cs)) (plug (ns @ [tagged c])) = Some (plug ((ns @ [tagged c]) @ map tagged cs))"
    by (rule Cons.IH) (use Cons.prems(1,3) a(2) notin in \<open>simp_all add: ids_tagged Un_assoc\<close>)
  ultimately show ?case by (simp add: putItems_append)
qed simp

lemma putItems_under:
  "(\<forall>s \<in> set (subs c). laidKids s) \<Longrightarrow> itemParent (root c) = Some p \<Longrightarrow> p \<noteq> [] \<Longrightarrow> p \<in> set (openIds out)
    \<Longrightarrow> apart (subs c) (set (openIds out)) \<Longrightarrow> putItems (map root (subs c)) out = Some (pushUnder p (tagged c) out)"
proof (induction c arbitrary: p out)
  case (Copse r ks)
  define plug where "plug ns = pushUnder p (IdNode (itemId r) (itemText r) ns) out" for ns
  have first: "putItem r out = Some (plug [])" using Copse.prems by (simp add: putItem_def plug_def)
  have ap: "itemId r \<notin> set (openIds out)" "itemId r \<noteq> []" "apart (forestSubs ks) (insert (itemId r) (set (openIds out)))"
    using Copse.prems(5) by (auto simp: apart_def forestSubs_def)
  have "putItems (map root (forestSubs ks)) (plug []) = Some (plug ([] @ map tagged ks))"
  proof (rule putItems_kids [where used = "set (openIds out)"])
    show "set (openIds (plug ns)) = insert (itemId r) (set (openIds out)) \<union> set (concat (map idsIn ns))" for ns
      unfolding plug_def ids_pushUnder [OF Copse.prems(4)] by auto
    show "pushUnder (itemId r) new (plug ns) = plug (ns @ [new])" if "itemId r \<notin> set (concat (map idsIn ns))" for ns new
      unfolding plug_def by (rule pushUnder_through [OF ap(1) that])
    show "putItems (map root (subs c)) out' = Some (pushUnder (itemId r) (tagged c) out')"
      if c: "c \<in> set ks" "itemId r \<in> set (openIds out')" "apart (subs c) (set (openIds out'))" for c out'
    proof (rule Copse.IH [OF c(1) _ _ ap(2) c(2,3)])
      show "\<forall>s \<in> set (subs c). laidKids s" using Copse.prems(1) c(1) by auto
      have "laidKids (Copse r ks)" using Copse.prems(1) by simp
      then show "itemParent (root c) = Some (itemId r)" using c(1) by (simp add: laidKids_def)
    qed
    show "apart (forestSubs ks) (insert (itemId r) (set (openIds out)) \<union> set (concat (map idsIn [])))" using ap(3) by simp
  qed simp
  then show ?case using first by (simp add: subs_forest plug_def)
qed

lemma putItems_top:
  assumes laid: "\<forall>s \<in> set (subs c). laidKids s" and c: "itemParent (root c) = None" "itemList (root c) = Some l" "l \<in> set (map ol_id out)"
    and ap: "apart (subs c) (set (openIds out))"
  shows "putItems (map root (subs c)) out = Some (pushTop l (tagged c) out)"
proof -
  obtain r ks where rk: "c = Copse r ks" by (cases c)
  define plug where "plug ns = pushTop l (IdNode (itemId r) (itemText r) ns) out" for ns
  have first: "putItem r out = Some (plug [])" using c by (simp add: putItem_def plug_def rk)
  have a: "itemId r \<notin> set (openIds out)" "itemId r \<noteq> []" "apart (forestSubs ks) (insert (itemId r) (set (openIds out)))"
    using ap by (auto simp: apart_def forestSubs_def rk)
  have "putItems (map root (forestSubs ks)) (plug []) = Some (plug ([] @ map tagged ks))"
  proof (rule putItems_kids [where used = "set (openIds out)"])
    show "set (openIds (plug ns)) = insert (itemId r) (set (openIds out)) \<union> set (concat (map idsIn ns))" for ns
      unfolding plug_def ids_pushTop [OF c(3)] by auto
    show "pushUnder (itemId r) new (plug ns) = plug (ns @ [new])" if "itemId r \<notin> set (concat (map idsIn ns))" for ns new
      unfolding plug_def by (rule pushUnder_top [OF a(1) that])
    show "putItems (map root (subs k)) out' = Some (pushUnder (itemId r) (tagged k) out')"
      if k: "k \<in> set ks" "itemId r \<in> set (openIds out')" "apart (subs k) (set (openIds out'))" for k out'
    proof (rule putItems_under [OF _ _ a(2) k(2,3)])
      show "\<forall>s \<in> set (subs k). laidKids s" using laid k(1) by (auto simp: rk)
      have "laidKids (Copse r ks)" using laid by (simp add: rk)
      then show "itemParent (root k) = Some (itemId r)" using k(1) by (simp add: laidKids_def)
    qed
    show "apart (forestSubs ks) (insert (itemId r) (set (openIds out)) \<union> set (concat (map idsIn [])))" using a(3) by simp
  qed simp
  then show ?thesis using first by (simp add: subs_forest plug_def rk)
qed

definition withItems :: "ident \<Rightarrow> idNode list \<Rightarrow> openList list \<Rightarrow> openList list" where
  "withItems l new out = map (\<lambda>x. if ol_id x = l then x\<lparr>ol_items := ol_items x @ new\<rparr> else x) out"

lemma withItems_ids [simp]: "map ol_id (withItems l new out) = map ol_id out"
  by (simp add: withItems_def)

lemma withItems_push: "withItems l new (pushTop l x out) = withItems l (x # new) out" "withItems l [] out = out"
proof -
  show "withItems l new (pushTop l x out) = withItems l (x # new) out" by (simp add: withItems_def pushTop_def)
  show "withItems l [] out = out" unfolding withItems_def by (rule map_idI) simp
qed

lemma putItems_tops:
  "\<forall>s \<in> set (forestSubs cs). laidKids s \<Longrightarrow> (\<forall>c \<in> set cs. itemParent (root c) = None \<and> itemList (root c) = Some l)
    \<Longrightarrow> l \<in> set (map ol_id out) \<Longrightarrow> apart (forestSubs cs) (set (openIds out))
    \<Longrightarrow> putItems (map root (forestSubs cs)) out = Some (withItems l (map tagged cs) out)"
proof (induction cs arbitrary: out)
  case (Cons c cs)
  have a: "apart (subs c) (set (openIds out))" "apart (forestSubs cs) (set (openIds out) \<union> copseId ` set (subs c))"
    using Cons.prems(4) by (simp_all add: apart_append)
  have first: "putItems (map root (subs c)) out = Some (pushTop l (tagged c) out)"
    using Cons.prems(1,2,3) a(1) by (intro putItems_top) auto
  have "putItems (map root (forestSubs cs)) (pushTop l (tagged c) out) = Some (withItems l (map tagged cs) (pushTop l (tagged c) out))"
  proof (rule Cons.IH)
    show "l \<in> set (map ol_id (pushTop l (tagged c) out))" using Cons.prems(3) by (force simp: pushTop_def)
    show "apart (forestSubs cs) (set (openIds (pushTop l (tagged c) out)))"
      using a(2) unfolding ids_pushTop [OF Cons.prems(3)] ids_tagged by simp
  qed (use Cons.prems(1,2) in auto)
  then show ?case using first by (simp add: putItems_append withItems_push)
qed (simp add: withItems_push)

definition fullList :: "listRow \<times> copse list \<Rightarrow> openList" where
  "fullList tp = \<lparr>ol_id = listId (fst tp), ol_title = listTitle (fst tp), ol_items = map tagged (snd tp)\<rparr>"

definition emptyList :: "listRow \<Rightarrow> openList" where
  "emptyList l = \<lparr>ol_id = listId l, ol_title = listTitle l, ol_items = []\<rparr>"

lemma openIds_full: "set (openIds (map fullList tops @ map emptyList ls)) = copseId ` set (allSubs tops)"
proof (induction tops)
  case (Cons top tops)
  have "set (concat (map idsIn (map tagged (snd top)))) = copseId ` set (forestSubs (snd top))" unfolding ids_tagged_forest by simp
  then show ?case using Cons by (cases top) (simp add: openIds_def fullList_def image_Un)
qed (simp add: openIds_def emptyList_def allSubs_def)

lemma withItems_next:
  assumes "distinct (map (listId \<circ> fst) (done @ (l, cs) # rest))"
  shows "withItems (listId l) (map tagged cs) (map fullList done @ map emptyList (map fst ((l, cs) # rest)))
    = map fullList (done @ [(l, cs)]) @ map emptyList (map fst rest)"
proof -
  have "listId l \<notin> (listId \<circ> fst) ` (set done \<union> set rest)" using assms by (simp add: image_Un)
  then have other: "x \<in> set done \<union> set rest \<Longrightarrow> listId (fst x) = listId l \<Longrightarrow> False" for x
    using imageI [of x "set done \<union> set rest" "listId \<circ> fst"] by (metis comp_apply)
  have "withItems (listId l) (map tagged cs) (map fullList done) = map fullList done"
    unfolding withItems_def by (rule map_idI) (use other in \<open>fastforce simp: fullList_def\<close>)
  moreover have "withItems (listId l) (map tagged cs) (map emptyList (map fst rest)) = map emptyList (map fst rest)"
    unfolding withItems_def by (rule map_idI) (use other in \<open>fastforce simp: emptyList_def\<close>)
  ultimately show ?thesis by (simp add: withItems_def fullList_def emptyList_def)
qed

lemma putItems_all:
  "\<forall>s \<in> set (allSubs rest). laidKids s \<Longrightarrow> (\<forall>(l, cs) \<in> set rest. laidTops (listId l) cs)
    \<Longrightarrow> distinct (map (listId \<circ> fst) (done @ rest)) \<Longrightarrow> apart (allSubs rest) (copseId ` set (allSubs done))
    \<Longrightarrow> putItems (map root (allSubs rest)) (map fullList done @ map emptyList (map fst rest)) = Some (map fullList (done @ rest))"
proof (induction rest arbitrary: "done")
  case (Cons top rest)
  obtain l cs where top: "top = (l, cs)" by fastforce
  let ?out = "map fullList done @ map emptyList (map fst ((l, cs) # rest))"
  have a: "apart (forestSubs cs) (copseId ` set (allSubs done))"
      "apart (allSubs rest) (copseId ` set (allSubs done) \<union> copseId ` set (forestSubs cs))"
    using Cons.prems(4) by (simp_all add: top apart_append)
  have "putItems (map root (forestSubs cs)) ?out = Some (withItems (listId l) (map tagged cs) ?out)"
  proof (rule putItems_tops)
    show "apart (forestSubs cs) (set (openIds ?out))" unfolding openIds_full by (rule a)
    show "listId l \<in> set (map ol_id ?out)" by (simp add: emptyList_def)
  qed (use Cons.prems(1,2) in \<open>auto simp: top laidTops_def\<close>)
  also have "\<dots> = Some (map fullList (done @ [(l, cs)]) @ map emptyList (map fst rest))"
    unfolding withItems_next [OF Cons.prems(3) [unfolded top]] by (rule refl)
  moreover have "putItems (map root (allSubs rest)) (map fullList (done @ [(l, cs)]) @ map emptyList (map fst rest))
      = Some (map fullList ((done @ [(l, cs)]) @ rest))"
  proof (rule Cons.IH)
    show "apart (allSubs rest) (copseId ` set (allSubs (done @ [(l, cs)])))" using a(2) by (simp add: allSubs_def image_Un)
  qed (use Cons.prems(1-3) in \<open>auto simp: top\<close>)
  ultimately show ?case by (simp add: top putItems_append)
qed simp

lemma close_full: "closeList (fullList (l, cs)) = \<lparr>tl_title = listTitle l, tl_items = map textTree cs\<rparr>"
  by (simp add: closeList_def fullList_def plain_tagged)

text \<open>The tree of well formed rows laid out as a forest is the forest's texts.\<close>

lemma treeFromRows_laid:
  assumes g: "goodIds newId" and r: "rowsOk newId t r" "homed r"
    and o: "laidOut (cr_lists r) (filter isLive (cr_items r)) tops"
  shows "treeFromRows (cr_lists r) (cr_items r)
    = Some (map (\<lambda>(l, cs). \<lparr>tl_title = listTitle l, tl_items = map textTree cs\<rparr>) tops)"
proof -
  obtain a where a: "arrange (cr_lists r) (cr_items r) = Some a" "map ai_row (ar_items a) = map root (allSubs tops)"
    "map al_row (ar_lists a) = map fst tops" by (rule arrange_laid [OF assms])
  note lo = o [unfolded laidOut_def]
  have "root ` set (allSubs tops) = set (filter isLive (cr_items r))" using lo by simp
  then have "copseId ` set (allSubs tops) = itemId ` set (filter isLive (cr_items r))" by (metis image_image)
  moreover have "[] \<notin> itemId ` set (cr_items r)" using rowsOkD(1) [OF r(1)] by (simp add: treeOk_items)
  ultimately have ids: "[] \<notin> copseId ` set (allSubs tops)" by auto
  have start: "map (\<lambda>l. \<lparr>ol_id = listId (al_row l), ol_title = listTitle (al_row l), ol_items = []\<rparr>) (ar_lists a)
      = map fullList [] @ map emptyList (map fst tops)"
    unfolding a(3) [symmetric] by (simp add: emptyList_def)
  have "putItems (map root (allSubs tops)) (map fullList [] @ map emptyList (map fst tops)) = Some (map fullList ([] @ tops))"
  proof (rule putItems_all)
    show "distinct (map (listId \<circ> fst) ([] @ tops))" using kept_keyed(2) [OF g r(1)] lo by simp
    show "apart (allSubs tops) (copseId ` set (allSubs []))" using lo ids by (simp add: apart_def)
  qed (use lo in auto)
  then show ?thesis by (auto simp: treeFromRows_def a start comp_def close_full)
qed

end
