(* ===== verification/ChecklistGrown.thy ===== *)
theory ChecklistGrown
  imports ChecklistForest
begin

text \<open>
  The rows that \<open>rowsFromTree\<close> makes: a forest with the texts of the tree, well formed when the tree is
  within the limits. The JSON a tree is kept as, and what \<open>checklistTreeOf\<close> reads from it.
\<close>

section \<open>The rows of a tree are a forest\<close>

fun grownNodes :: "(nat \<Rightarrow> ident) \<Rightarrow> ident \<Rightarrow> ident \<Rightarrow> instant \<Rightarrow> ident option \<Rightarrow> nat \<Rightarrow> nat \<Rightarrow> checklistNode list \<Rightarrow> copse list \<times> nat" where
  "grownNodes newId t l at parent pos n [] = ([], n)"
| "grownNodes newId t l at parent pos n (ChecklistNode s ks # ns) =
     (let row = newItemRow (newId n) t l (rowText s) parent (int pos) None None at;
          (below, n1) = grownNodes newId t l at (Some (itemId row)) 0 (Suc n) ks;
          (rest, n2) = grownNodes newId t l at parent (Suc pos) n1 ns
      in (Copse row below # rest, n2))"

fun cleanNode :: "checklistNode \<Rightarrow> checklistNode" where
  "cleanNode (ChecklistNode s ks) = ChecklistNode (rowText s) (map cleanNode ks)"

lemma newItemRow_fields [simp]:
  "itemId (newItemRow k t l s p pos a d at) = k" "itemTask (newItemRow k t l s p pos a d at) = t"
  "itemList (newItemRow k t l s p pos a d at) = Some l" "itemParent (newItemRow k t l s p pos a d at) = p"
  "itemText (newItemRow k t l s p pos a d at) = s" "itemPos (newItemRow k t l s p pos a d at) = pos"
  "isLive (newItemRow k t l s p pos a d at)" "itemBatch (newItemRow k t l s p pos a d at) = None"
  "itemDone (newItemRow k t l s p pos a d at) = False"
  by (simp_all add: newItemRow_def isLive_def)

lemma rows_grown:
  "rowsOfNodes newId t l at parent pos n ns = (map root (forestSubs (fst (grownNodes newId t l at parent pos n ns))), snd (grownNodes newId t l at parent pos n ns))"
proof (induction newId t l at parent pos n ns rule: rowsOfNodes.induct)
  case (2 newId t l at parent pos n s ks ns)
  define row where "row = newItemRow (newId n) t l (rowText s) parent (int pos) None None at"
  obtain b n1 where b: "grownNodes newId t l at (Some (itemId row)) 0 (Suc n) ks = (b, n1)" by fastforce
  obtain c n2 where c: "grownNodes newId t l at parent (Suc pos) n1 ns = (c, n2)" by fastforce
  have "rowsOfNodes newId t l at (Some (itemId row)) 0 (Suc n) ks = (map root (forestSubs b), n1)"
    using "2.IH"(1) [OF row_def] b by simp
  moreover have "rowsOfNodes newId t l at parent (Suc pos) n1 ns = (map root (forestSubs c), n2)"
    using "2.IH"(2) [OF row_def refl calculation [symmetric]] c by simp
  ultimately show ?case using b c by (simp add: Let_def row_def forestSubs_def)
qed simp

definition freshRow :: "ident \<Rightarrow> ident \<Rightarrow> itemRow \<Rightarrow> bool" where
  "freshRow t l i \<longleftrightarrow> itemTask i = t \<and> itemList i = Some l \<and> isLive i \<and> itemBatch i = None \<and> \<not> itemDone i"

text \<open>What is grown: the next ids in order, the texts, the sub-items in the order of the tree.\<close>

lemma grown_forest:
  "grownNodes newId t l at parent pos n ns = (cs, n') \<Longrightarrow>
     map copseId (forestSubs cs) = map newId [n..<n'] \<and> n \<le> n'
     \<and> (\<forall>c \<in> set (forestSubs cs). laidKids c \<and> freshRow t l (root c))
     \<and> inOrder cs \<and> (\<forall>c \<in> set cs. itemParent (root c) = parent \<and> int pos \<le> itemPos (root c))
     \<and> map textTree cs = map cleanNode ns"
proof (induction newId t l at parent pos n ns arbitrary: cs n' rule: grownNodes.induct)
  case (1 newId t l at parent pos n)
  then show ?case by (simp add: inOrder_def)
next
  case (2 newId t l at parent pos n s ks ns)
  define row where "row = newItemRow (newId n) t l (rowText s) parent (int pos) None None at"
  obtain b n1 where b: "grownNodes newId t l at (Some (itemId row)) 0 (Suc n) ks = (b, n1)" by fastforce
  obtain c n2 where c: "grownNodes newId t l at parent (Suc pos) n1 ns = (c, n2)" by fastforce
  have cs: "cs = Copse row b # c" "n' = n2" using "2.prems" b c by (simp_all add: Let_def row_def)
  note B = "2.IH"(1) [OF row_def b] and C = "2.IH"(2) [OF row_def b [symmetric] refl c]
  have row: "itemId row = newId n" "freshRow t l row" "itemParent row = parent" "itemPos row = int pos" "itemText row = rowText s"
    by (simp_all add: row_def freshRow_def)
  have ids: "map newId [n..<n2] = newId n # map newId [Suc n..<n1] @ map newId [n1..<n2]"
  proof -
    have "[n..<n2] = n # [Suc n..<n1] @ [n1..<n2]" using B C upt_add_eq_append [of "Suc n" n1 "n2 - n1"] by (simp add: upt_conv_Cons)
    then show ?thesis by simp
  qed
  have "laidKids (Copse row b)"
  proof -
    have "itemList (root k) = itemList row" if "k \<in> set b" for k
    proof -
      have "k \<in> set (forestSubs b)" using that forest_roots by blast
      then show ?thesis using B row(2) by (simp add: freshRow_def)
    qed
    then show ?thesis using B by (simp add: laidKids_def)
  qed
  moreover have "inOrder cs"
  proof -
    have "itemOrder row < itemOrder (root k)" if "k \<in> set c" for k using C that row(4) by (auto simp: itemOrder_def)
    then show ?thesis using C by (simp add: inOrder_def cs)
  qed
  moreover have "\<forall>x \<in> set cs. itemParent (root x) = parent \<and> int pos \<le> itemPos (root x)"
    using C row by (fastforce simp: cs)
  ultimately show ?case using B C row ids by (simp add: cs forestSubs_def [symmetric] ball_Un)
qed

fun grownLists :: "(nat \<Rightarrow> ident) \<Rightarrow> ident \<Rightarrow> ident option \<Rightarrow> instant \<Rightarrow> nat \<Rightarrow> nat \<Rightarrow> checklistTreeList list \<Rightarrow> (listRow \<times> copse list) list \<times> nat" where
  "grownLists newId t createdBy at li n [] = ([], n)"
| "grownLists newId t createdBy at li n (l # ls) =
     (let row = newListRow (newId n) t (titleOr (rowText (tl_title l))) (int li) createdBy at;
          (cs, n1) = grownNodes newId t (listId row) at None 0 (Suc n) (tl_items l);
          (rest, n2) = grownLists newId t createdBy at (Suc li) n1 ls
      in ((row, cs) # rest, n2))"

definition cleanList :: "checklistTreeList \<Rightarrow> checklistTreeList" where
  "cleanList l = \<lparr>tl_title = titleOr (rowText (tl_title l)), tl_items = map cleanNode (tl_items l)\<rparr>"

lemma newListRow_fields [simp]:
  "listId (newListRow k t s pos u at) = k" "listTask (newListRow k t s pos u at) = t" "listTitle (newListRow k t s pos u at) = s"
  "listPos (newListRow k t s pos u at) = pos" "isLiveList (newListRow k t s pos u at)" "listBatch (newListRow k t s pos u at) = None"
  by (simp_all add: newListRow_def isLiveList_def)

lemma lists_grown:
  "rowsOfLists newId t createdBy at li n ls =
     (map fst (fst (grownLists newId t createdBy at li n ls)), map root (allSubs (fst (grownLists newId t createdBy at li n ls))),
      snd (grownLists newId t createdBy at li n ls))"
  by (induction newId t createdBy at li n ls rule: rowsOfLists.induct)
    (simp_all add: rows_grown Let_def split: prod.splits)

definition freshList :: "ident \<Rightarrow> listRow \<Rightarrow> bool" where
  "freshList t l \<longleftrightarrow> listTask l = t \<and> isLiveList l \<and> listBatch l = None"

lemma grown_lists:
  "grownLists newId t createdBy at li n ls = (tops, n') \<Longrightarrow> inj newId \<Longrightarrow>
     n \<le> n' \<and> distinct (map (listId \<circ> fst) tops) \<and> distinct (map copseId (allSubs tops))
     \<and> (listId \<circ> fst) ` set tops \<union> copseId ` set (allSubs tops) \<subseteq> newId ` {n..<n'}
     \<and> (\<forall>(l, cs) \<in> set tops. freshList t l \<and> laidTops (listId l) cs \<and> (\<forall>c \<in> set (forestSubs cs). laidKids c \<and> freshRow t (listId l) (root c)))
     \<and> sorted_wrt (\<lambda>a b. listOrder (fst a) < listOrder (fst b)) tops \<and> (\<forall>x \<in> set tops. int li \<le> listPos (fst x))
     \<and> map (\<lambda>(l, cs). \<lparr>tl_title = listTitle l, tl_items = map textTree cs\<rparr>) tops = map cleanList ls"
proof (induction newId t createdBy at li n ls arbitrary: tops n' rule: grownLists.induct)
  case (1 newId t createdBy at li n)
  then show ?case by simp
next
  case (2 newId t createdBy at li n l ls)
  define row where "row = newListRow (newId n) t (titleOr (rowText (tl_title l))) (int li) createdBy at"
  obtain cs n1 where cs: "grownNodes newId t (listId row) at None 0 (Suc n) (tl_items l) = (cs, n1)" by fastforce
  obtain rest n2 where rest: "grownLists newId t createdBy at (Suc li) n1 ls = (rest, n2)" by fastforce
  have tops: "tops = (row, cs) # rest" "n' = n2" using "2.prems"(1) cs rest by (simp_all add: Let_def row_def)
  note R = "2.IH" [OF row_def cs [symmetric] refl rest "2.prems"(2)]
  note C = grown_forest [OF cs]
  have row: "listId row = newId n" "freshList t row" "listPos row = int li" "listTitle row = titleOr (rowText (tl_title l))"
    by (simp_all add: row_def freshList_def)
  have idsC: "copseId ` set (forestSubs cs) = newId ` {Suc n..<n1}"
    using arg_cong [OF C [THEN conjunct1], of set] by simp
  have apart3: "newId n \<notin> newId ` {n1..<n2}" "newId ` {Suc n..<n1} \<inter> newId ` {n1..<n2} = {}"
    using C "2.prems"(2) by (auto simp: inj_eq)
  have "n \<le> n'" using C R by (simp add: tops)
  moreover have "distinct (map (listId \<circ> fst) tops)" using R apart3(1) row(1) by (auto simp: tops comp_def)
  moreover have "distinct (map copseId (allSubs tops))"
  proof -
    have "distinct (map copseId (forestSubs cs))" unfolding C [THEN conjunct1] using inj_on_subset [OF "2.prems"(2) subset_UNIV] by (simp add: distinct_map)
    moreover have "copseId ` set (allSubs rest) \<subseteq> newId ` {n1..<n2}" using R by simp
    then have "copseId ` set (forestSubs cs) \<inter> copseId ` set (allSubs rest) = {}" using idsC apart3(2) by blast
    ultimately show ?thesis using R by (simp add: tops)
  qed
  moreover have "(listId \<circ> fst) ` set tops \<union> copseId ` set (allSubs tops) \<subseteq> newId ` {n..<n'}"
  proof -
    have "newId ` {Suc n..<n1} \<subseteq> newId ` {n..<n2}" "newId ` {n1..<n2} \<subseteq> newId ` {n..<n2}" "newId n \<in> newId ` {n..<n2}"
      using C R by auto
    moreover have "(listId \<circ> fst) ` set rest \<union> copseId ` set (allSubs rest) \<subseteq> newId ` {n1..<n2}" using R by blast
    moreover have "(listId \<circ> fst) ` set tops \<union> copseId ` set (allSubs tops)
        = insert (newId n) (newId ` {Suc n..<n1} \<union> ((listId \<circ> fst) ` set rest \<union> copseId ` set (allSubs rest)))"
      by (simp add: tops image_Un idsC row(1) Un_left_commute)
    ultimately show ?thesis unfolding tops(2) by (simp only: insert_subset Un_least)
  qed
  moreover have "\<forall>(l, cs) \<in> set tops. freshList t l \<and> laidTops (listId l) cs \<and> (\<forall>c \<in> set (forestSubs cs). laidKids c \<and> freshRow t (listId l) (root c))"
  proof -
    have "\<forall>c \<in> set cs. itemList (root c) = Some (listId row)" using C forest_roots [of cs] by (auto simp: freshRow_def)
    then have "laidTops (listId row) cs" using C by (simp add: laidTops_def)
    then show ?thesis using C R row(2) by (simp add: tops)
  qed
  moreover have "sorted_wrt (\<lambda>a b. listOrder (fst a) < listOrder (fst b)) tops" "\<forall>x \<in> set tops. int li \<le> listPos (fst x)"
  proof -
    have "listOrder row < listOrder (fst x)" if "x \<in> set rest" for x using R that row(3) by (auto simp: listOrder_def)
    then show "sorted_wrt (\<lambda>a b. listOrder (fst a) < listOrder (fst b)) tops" using R by (simp add: tops)
    show "\<forall>x \<in> set tops. int li \<le> listPos (fst x)" using R row(3) by (fastforce simp: tops)
  qed
  moreover have "map (\<lambda>(l, cs). \<lparr>tl_title = listTitle l, tl_items = map textTree cs\<rparr>) tops = map cleanList (l # ls)"
    using R C row(4) by (simp add: tops cleanList_def)
  ultimately show ?case by blast
qed

section \<open>The rows of a tree are well formed\<close>

text \<open>Levels that fall along every link bound the chains.\<close>

lemma levels_bound:
  fixes R :: "('a \<times> 'a) set" and f :: "'a \<Rightarrow> nat"
  assumes "\<And>k p. (k, p) \<in> R \<Longrightarrow> f p < f k" "\<And>k p. (k, p) \<in> R \<Longrightarrow> f k < d" "0 < d"
  shows "R ^^ d = {}"
proof (rule ccontr)
  assume "R ^^ d \<noteq> {}"
  then obtain x y where xy: "(x, y) \<in> R ^^ d" by auto
  have len: "(x, y) \<in> R ^^ m \<Longrightarrow> m \<le> f x" for m x y
  proof (induction m arbitrary: x)
    case (Suc m)
    then obtain z where "(x, z) \<in> R" "(z, y) \<in> R ^^ m" by (meson relpow_Suc_D2)
    then show ?case using Suc.IH [of z] assms(1) [of x z] by simp
  qed simp
  obtain z where "(x, z) \<in> R" using xy assms(3) by (metis gr0_implies_Suc relpow_Suc_D2)
  then show False using len [OF xy] assms(2) by fastforce
qed

fun levelsOf :: "nat \<Rightarrow> copse \<Rightarrow> (ident \<times> nat) list" where
  "levelsOf d (Copse r ks) = (itemId r, d) # concat (map (levelsOf (Suc d)) ks)"

lemma levels_ids: "map fst (levelsOf d c) = map copseId (subs c)"
  by (induction c arbitrary: d) (simp add: map_concat comp_def cong: map_cong)

lemma levels_link:
  "s \<in> set (subs c) \<Longrightarrow> k \<in> set (kids s) \<Longrightarrow> \<exists>e. (copseId s, e) \<in> set (levelsOf d c) \<and> (copseId k, Suc e) \<in> set (levelsOf d c)"
proof (induction c arbitrary: d)
  case (Copse r ks)
  show ?case
  proof (cases "s = Copse r ks")
    case True
    then have "(copseId k, Suc d) \<in> set (levelsOf (Suc d) k)" "k \<in> set ks" using Copse.prems(2) by (cases k, auto)+
    then show ?thesis using True by auto
  next
    case False
    then obtain x where x: "x \<in> set ks" "s \<in> set (subs x)" using Copse.prems(1) by auto
    from Copse.IH [OF x Copse.prems(2)] obtain e where "(copseId s, e) \<in> set (levelsOf (Suc d) x)" "(copseId k, Suc e) \<in> set (levelsOf (Suc d) x)" by blast
    then show ?thesis using x(1) by auto
  qed
qed

lemma deepest_own: "level \<le> deepestOf level n"
proof (induction n arbitrary: level)
  case (ChecklistNode t ns)
  have "level \<le> Max (deepestOf (level + 1) ` set ns)" if "ns \<noteq> []"
  proof -
    obtain x where x: "x \<in> set ns" using \<open>ns \<noteq> []\<close> by (meson list.set_sel(1))
    have "level + 1 \<le> deepestOf (level + 1) x" by (rule ChecklistNode [OF x])
    also have "\<dots> \<le> Max (deepestOf (level + 1) ` set ns)" using x by simp
    finally show ?thesis by simp
  qed
  then show ?case by simp
qed

lemma deepest_clean: "deepestOf level (cleanNode n) = deepestOf level n"
  by (induction n arbitrary: level) (simp add: image_image cong: image_cong)

lemma levels_deepest: "(k, e) \<in> set (levelsOf d c) \<Longrightarrow> int e \<le> deepestOf (int d) (textTree c)"
proof (induction c arbitrary: d)
  case (Copse r ks)
  show ?case
  proof (cases "(k, e) = (itemId r, d)")
    case True
    then show ?thesis using deepest_own [of "int d" "textTree (Copse r ks)"] by simp
  next
    case False
    then obtain x where x: "x \<in> set ks" "(k, e) \<in> set (levelsOf (Suc d) x)" using Copse.prems by auto
    have "int e \<le> deepestOf (int (Suc d)) (textTree x)" by (rule Copse.IH [OF x])
    also have "\<dots> \<le> Max ((\<lambda>c. deepestOf (int d + 1) (textTree c)) ` set ks)" using x(1) by (simp add: add.commute)
    finally show ?thesis using x(1) by (auto simp: image_image)
  qed
qed

definition topLevels :: "(listRow \<times> copse list) list \<Rightarrow> (ident \<times> nat) list" where
  "topLevels tops = concat (map (\<lambda>tp. concat (map (levelsOf 0) (snd tp))) tops)"

lemma topLevels_ids: "map fst (topLevels tops) = map copseId (allSubs tops)"
  by (simp add: topLevels_def allSubs_def forestSubs_def map_concat comp_def levels_ids)

lemma topLevels_link:
  assumes "s \<in> set (allSubs tops)" "k \<in> set (kids s)"
  shows "\<exists>e. (copseId s, e) \<in> set (topLevels tops) \<and> (copseId k, Suc e) \<in> set (topLevels tops)"
proof -
  obtain l cs c where c: "(l, cs) \<in> set tops" "c \<in> set cs" "s \<in> set (subs c)"
    using assms(1) by (auto simp: allSubs_def forestSubs_def)
  have "set (levelsOf 0 c) \<subseteq> set (topLevels tops)" using c(1,2) by (force simp: topLevels_def)
  then show ?thesis using levels_link [OF c(3) assms(2), of 0] by blast
qed

lemma shallow:
  assumes "\<not> int MAX_DEPTH \<le> deepest ns 0" "map textTree cs = map cleanNode ns" "c \<in> set cs" "(k, e) \<in> set (levelsOf 0 c)"
  shows "e < MAX_DEPTH"
proof -
  have "textTree c \<in> set (map cleanNode ns)" using assms(2,3) by (metis image_eqI list.set_map)
  then obtain n where n: "n \<in> set ns" "textTree c = cleanNode n" by auto
  have "int e \<le> deepestOf 0 n" using levels_deepest [OF assms(4)] n(2) by (simp add: deepest_clean)
  also have "\<dots> \<le> deepest ns 0" using n(1) by (auto simp: deepest_def)
  finally show ?thesis using assms(1) by simp
qed

lemma flat_length: "length (flatNode n) = length (flatNode (cleanNode n))"
  by (induction n) (simp add: length_concat comp_def cong: map_cong)

lemma flat_subs: "length (flatNode (textTree c)) = length (subs c)"
  by (induction c) (simp add: length_concat comp_def cong: map_cong)

lemma flat_forest:
  assumes "map textTree cs = map cleanNode ns"
  shows "length (concat (map flatNode ns)) = length (forestSubs cs)"
proof -
  have "length (concat (map flatNode ns)) = sum_list (map (\<lambda>n. length (flatNode n)) (map cleanNode ns))"
    by (simp add: length_concat comp_def flat_length [symmetric])
  also have "\<dots> = length (forestSubs cs)" unfolding assms [symmetric] by (simp add: length_concat comp_def flat_subs forestSubs_def)
  finally show ?thesis .
qed

lemma grown_rows:
  assumes g: "goodIds newId" and made: "rowsFromTree newId n t tree createdBy at = r"
  obtains tops where "grownLists newId t createdBy at 0 n tree = (tops, cr_fresh r)" "cr_lists r = map fst tops" "cr_items r = map root (allSubs tops)"
    "laidOut (cr_lists r) (filter isLive (cr_items r)) tops" "filter isLive (cr_items r) = cr_items r"
proof -
  obtain tops n' where tops: "grownLists newId t createdBy at 0 n tree = (tops, n')" by fastforce
  then have r: "r = \<lparr>cr_lists = map fst tops, cr_items = map root (allSubs tops), cr_fresh = n'\<rparr>"
    using made by (simp add: rowsFromTree_def lists_grown)
  note G = grown_lists [OF tops] g [unfolded goodIds_def]
  have fresh: "freshList t l \<and> laidTops (listId l) cs \<and> (\<forall>c \<in> set (forestSubs cs). laidKids c \<and> freshRow t (listId l) (root c))" if "(l, cs) \<in> set tops" for l cs
    using G that by blast
  have live: "isLive (root c) \<and> laidKids c" if "c \<in> set (allSubs tops)" for c
    using that fresh by (fastforce simp: allSubs_def freshRow_def)
  then have all: "filter isLive (cr_items r) = cr_items r" by (simp add: r filter_id_conv)
  have "liveLists (cr_lists r) = map fst tops"
  proof -
    have "\<forall>l \<in> set (map fst tops). isLiveList l" using fresh by (fastforce simp: freshList_def)
    then have "filter isLiveList (map fst tops) = map fst tops" by (simp only: filter_id_conv)
    moreover have "sorted (map listOrder (map fst tops))"
    proof -
      have "sorted_wrt (\<lambda>a b. listOrder (fst a) < listOrder (fst b)) tops" using G by blast
      then show ?thesis by (induction tops) (auto simp: less_imp_le)
    qed
    ultimately show ?thesis by (simp add: liveLists_def r sorted_sort_id sort_key_id_if_sorted)
  qed
  then have "laidOut (cr_lists r) (filter isLive (cr_items r)) tops"
    using G live fresh unfolding laidOut_def all by (fastforce simp: r)
  then show ?thesis using that [of tops] tops all by (simp add: r)
qed

lemma grown_links:
  assumes o: "laidOut ls is tops" and i: "i \<in> set is" "itemParent i = Some p"
  obtains q e where "q \<in> set is" "itemId q = p" "itemList q = itemList i" "(p, e) \<in> set (topLevels tops)" "(itemId i, Suc e) \<in> set (topLevels tops)"
proof -
  note lo = o [unfolded laidOut_def]
  obtain k where k: "k \<in> set (allSubs tops)" "i = root k" using lo i(1) by blast
  have "\<not> (\<exists>(l, cs) \<in> set tops. k \<in> set cs)" using lo i(2) k(2) by (fastforce simp: laidTops_def)
  then obtain s where s: "s \<in> set (allSubs tops)" "k \<in> set (kids s)" using above_or_listed [OF k(1)] by blast
  then have "laidKids s" using lo by blast
  then have p: "copseId s = p" "itemList (root s) = itemList i" using s(2) i(2) k(2) by (auto simp: laidKids_def)
  have "root s \<in> set is" using lo s(1) by blast
  moreover obtain e where "(copseId s, e) \<in> set (topLevels tops)" "(copseId k, Suc e) \<in> set (topLevels tops)" using topLevels_link [OF s] by blast
  ultimately show ?thesis using that p k(2) by blast
qed

text \<open>What the new rows are: the next ids, live, on the task, unticked, in the new checklists.\<close>

definition sprouted :: "(nat \<Rightarrow> ident) \<Rightarrow> nat \<Rightarrow> ident \<Rightarrow> checklistRows \<Rightarrow> bool" where
  "sprouted newId n t r \<longleftrightarrow> n \<le> cr_fresh r
     \<and> (\<forall>i \<in> set (cr_items r). isLive i \<and> itemTask i = t \<and> itemBatch i = None \<and> \<not> itemDone i
          \<and> (\<exists>l \<in> set (cr_lists r). itemList i = Some (listId l)))
     \<and> (\<forall>l \<in> set (cr_lists r). freshList t l)
     \<and> distinct (map itemId (cr_items r)) \<and> distinct (map listId (cr_lists r))
     \<and> itemId ` set (cr_items r) \<subseteq> newId ` {n..<cr_fresh r} \<and> listId ` set (cr_lists r) \<subseteq> newId ` {n..<cr_fresh r}"

lemma grown_sprouted:
  assumes g: "inj newId" and tops: "grownLists newId t createdBy at 0 n tree = (tops, cr_fresh r)"
    and r: "cr_lists r = map fst tops" "cr_items r = map root (allSubs tops)"
  shows "sprouted newId n t r"
proof -
  note G = grown_lists [OF tops g]
  have fresh: "freshList t l" "\<forall>c \<in> set (forestSubs cs). freshRow t (listId l) (root c)" if "(l, cs) \<in> set tops" for l cs
    using G that by blast+
  have "isLive i \<and> itemTask i = t \<and> itemBatch i = None \<and> \<not> itemDone i \<and> (\<exists>l \<in> set (cr_lists r). itemList i = Some (listId l))"
    if i: "i \<in> set (cr_items r)" for i
  proof -
    obtain c where c: "c \<in> set (allSubs tops)" "i = root c" using i by (auto simp: r)
    then obtain l cs where l: "(l, cs) \<in> set tops" "c \<in> set (forestSubs cs)" by (auto simp: allSubs_def)
    have "l \<in> set (cr_lists r)" using imageI [OF l(1), of fst] by (simp add: r)
    then show ?thesis using fresh(2) [OF l(1)] l(2) c(2) by (auto simp: freshRow_def)
  qed
  moreover have "freshList t l" if l: "l \<in> set (cr_lists r)" for l
  proof -
    obtain cs where "(l, cs) \<in> set tops" using l by (auto simp: r)
    then show ?thesis by (rule fresh)
  qed
  moreover have "itemId ` set (cr_items r) = copseId ` set (allSubs tops)" "listId ` set (cr_lists r) = (listId \<circ> fst) ` set tops"
    by (simp_all add: r image_image)
  moreover have "map itemId (cr_items r) = map copseId (allSubs tops)" "map listId (cr_lists r) = map (listId \<circ> fst) tops"
    by (simp_all add: r)
  ultimately show ?thesis using G unfolding sprouted_def by simp
qed

lemma sprouted_tree:
  assumes g: "goodIds newId" and s: "sprouted newId n t r"
    and links: "liveLinks (cr_items r) ^^ MAX_DEPTH = {}"
    and up: "\<And>i p. i \<in> set (cr_items r) \<Longrightarrow> itemParent i = Some p \<Longrightarrow> \<exists>q \<in> set (cr_items r). itemId q = p \<and> itemList q = itemList i"
  shows "treeOk (nodes (cr_items r))"
proof -
  note S = s [unfolded sprouted_def]
  have real: "[] \<notin> itemId ` set (cr_items r)"
  proof
    assume "[] \<in> itemId ` set (cr_items r)"
    then have "[] \<in> newId ` {n..<cr_fresh r}" using S by blast
    then show False using g unfolding goodIds_def by (metis imageE)
  qed
  have none: "\<not> inBatch b i" if "i \<in> set (cr_items r)" for b i using S that by (simp add: inBatch_def)
  have "batchLinks (cr_items r) b = {}" for b using none by (auto simp: batchLinks_def)
  then have "batchLinks (cr_items r) b ^^ MAX_DEPTH = {}" for b by (simp add: MAX_DEPTH_def relpow_empty)
  moreover have "liveParents (cr_items r)"
    unfolding liveParents_def
  proof (intro ballI impI allI)
    fix i p assume i: "i \<in> set (cr_items r)" "itemParent i = Some p"
    obtain q where q: "q \<in> set (cr_items r)" "itemId q = p" "itemList q = itemList i" using up [OF i] by blast
    then show "\<exists>q \<in> set (cr_items r). itemId q = p \<and> isLive q \<and> itemList q = itemList i" using S by blast
  qed
  moreover have "batchLists (cr_items r)" using none by (auto simp: batchLists_def)
  moreover have "realParents (cr_items r)" unfolding realParents_def using up real by (metis image_eqI)
  ultimately show ?thesis using S real links unfolding treeOk_items set_map by blast
qed

lemma sprouted_ok:
  assumes s: "sprouted newId n t r" and tree: "treeOk (nodes (cr_items r))"
    and most: "length (cr_items r) \<le> MAX_ITEMS" "length (cr_lists r) \<le> MAX_LISTS"
  shows "rowsOk newId t r" "homed r" "usedIds r \<subseteq> newId ` {n..<cr_fresh r}"
proof -
  note S = s [unfolded sprouted_def]
  show "homed r" unfolding homed_def using S by (meson freshList_def)
  have "\<forall>l \<in> set (cr_lists r). listBatch l = None" "\<forall>i \<in> set (cr_items r). itemBatch i = None" using S by (simp_all add: freshList_def)
  then have "usedIds r = listId ` set (cr_lists r) \<union> itemId ` set (cr_items r)" by (auto simp: usedIds_def)
  then show u: "usedIds r \<subseteq> newId ` {n..<cr_fresh r}" using S by simp
  also have "\<dots> \<subseteq> newId ` {..<cr_fresh r}" by (rule image_mono) auto
  finally have "usedIds r \<subseteq> newId ` {..<cr_fresh r}" .
  moreover have "listsOk (cr_lists r)"
  proof -
    have "listBatches_of (cr_lists r) = []"
      using S by (auto simp: listBatches_of_def map_filter_def freshList_def filter_empty_conv)
    moreover have "length (filter isLiveList (cr_lists r)) \<le> MAX_LISTS" using most(2) length_filter_le le_trans by blast
    ultimately show ?thesis using S by (simp add: listsOk_def)
  qed
  moreover have "length (filter isLive (cr_items r)) \<le> MAX_ITEMS" using most(1) length_filter_le le_trans by blast
  moreover have "\<forall>l \<in> set (cr_lists r). listTask l = t" using S by (simp add: freshList_def)
  ultimately show "rowsOk newId t r" unfolding rowsOk_def using tree S by blast
qed

lemma grown_trees:
  "map (\<lambda>(l, cs). \<lparr>tl_title = listTitle l, tl_items = map textTree cs\<rparr>) tops = map cleanList tree
    \<Longrightarrow> list_all2 (\<lambda>tp tl. map textTree (snd tp) = map cleanNode (tl_items tl)) tops tree"
  by (induction tops arbitrary: tree) (auto simp: cleanList_def Cons_eq_map_conv split: prod.splits)

lemma grown_count:
  "list_all2 (\<lambda>tp tl. map textTree (snd tp) = map cleanNode (tl_items tl)) tops tree \<Longrightarrow> length (allSubs tops) = treeItemCount tree"
proof (induction rule: list_all2_induct)
  case (Cons tp tops tl tree)
  obtain l cs where tp: "tp = (l, cs)" by fastforce
  then show ?case using Cons flat_forest [of cs "tl_items tl"] by (simp add: treeItemCount_def flatTexts_def)
qed (simp add: treeItemCount_def flatTexts_def)

lemma treeLimits_None:
  "treeLimits tree = None \<longleftrightarrow> length tree \<le> MAX_LISTS \<and> treeItemCount tree \<le> MAX_ITEMS
    \<and> (\<forall>l \<in> set tree. deepest (tl_items l) 0 < int MAX_DEPTH)"
  by (auto simp: treeLimits_def list_ex_iff not_less)

lemma partner: "list_all2 P xs ys \<Longrightarrow> x \<in> set xs \<Longrightarrow> \<exists>y \<in> set ys. P x y"
  by (induction rule: list_all2_induct) auto

lemma grown_shallow:
  assumes trees: "list_all2 (\<lambda>tp tl. map textTree (snd tp) = map cleanNode (tl_items tl)) tops tree" and lim: "treeLimits tree = None"
    and k: "(k, e) \<in> set (topLevels tops)"
  shows "e < MAX_DEPTH"
proof -
  obtain tp c where c: "tp \<in> set tops" "c \<in> set (snd tp)" "(k, e) \<in> set (levelsOf 0 c)" using k by (auto simp: topLevels_def)
  obtain tl where tl: "tl \<in> set tree" "map textTree (snd tp) = map cleanNode (tl_items tl)"
    using partner [OF trees c(1)] by blast
  have "\<not> int MAX_DEPTH \<le> deepest (tl_items tl) 0" using lim tl(1) by (auto simp: treeLimits_None)
  then show ?thesis using shallow tl(2) c(2,3) by blast
qed

text \<open>A tree within the limits makes well formed rows, with as many items as it has texts.\<close>

lemma rowsFromTree_ok:
  assumes g: "goodIds newId" and made: "rowsFromTree newId n t tree createdBy at = r" and lim: "treeLimits tree = None"
  shows "sprouted newId n t r" "rowsOk newId t r" "homed r" "usedIds r \<subseteq> newId ` {n..<cr_fresh r}" "length (cr_items r) = treeItemCount tree"
proof -
  obtain tops where tops: "grownLists newId t createdBy at 0 n tree = (tops, cr_fresh r)" "cr_lists r = map fst tops" "cr_items r = map root (allSubs tops)"
    and o: "laidOut (cr_lists r) (filter isLive (cr_items r)) tops" "filter isLive (cr_items r) = cr_items r"
    by (rule grown_rows [OF g made])
  have inj: "inj newId" using g by (simp add: goodIds_def)
  note G = grown_lists [OF tops(1) inj]
  show s: "sprouted newId n t r" by (rule grown_sprouted [OF inj tops])
  have trees: "list_all2 (\<lambda>tp tl. map textTree (snd tp) = map cleanNode (tl_items tl)) tops tree"
    by (rule grown_trees) (use G in blast)
  show count: "length (cr_items r) = treeItemCount tree" using grown_count [OF trees] by (simp add: tops(3))
  have levels: "distinct (map fst (topLevels tops))" unfolding topLevels_ids using G by blast
  note link = grown_links [OF o(1) [unfolded o(2)]]
  have up: "\<exists>q \<in> set (cr_items r). itemId q = p \<and> itemList q = itemList i" if "i \<in> set (cr_items r)" "itemParent i = Some p" for i p
    using link [OF that] by metis
  have links: "liveLinks (cr_items r) ^^ MAX_DEPTH = {}"
  proof (rule levels_bound [where f = "\<lambda>k. the (map_of (topLevels tops) k)"])
    fix k p assume "(k, p) \<in> liveLinks (cr_items r)"
    then obtain i where i: "i \<in> set (cr_items r)" "itemId i = k" "itemParent i = Some p" by (auto simp: liveLinks_iff)
    obtain e where e: "(p, e) \<in> set (topLevels tops)" "(itemId i, Suc e) \<in> set (topLevels tops)" using link [OF i(1,3)] by metis
    then have f: "map_of (topLevels tops) p = Some e" "map_of (topLevels tops) k = Some (Suc e)" using levels i(2) by auto
    show "the (map_of (topLevels tops) p) < the (map_of (topLevels tops) k)" using f by simp
    show "the (map_of (topLevels tops) k) < MAX_DEPTH" using f grown_shallow [OF trees lim e(2)] by simp
  qed (simp add: MAX_DEPTH_def)
  have tree: "treeOk (nodes (cr_items r))" by (rule sprouted_tree [OF g s links up])
  have "length tops = length tree" using trees by (rule list_all2_lengthD)
  then have most: "length (cr_items r) \<le> MAX_ITEMS" "length (cr_lists r) \<le> MAX_LISTS"
    using lim count by (simp_all add: treeLimits_None tops(2))
  show "rowsOk newId t r" "homed r" "usedIds r \<subseteq> newId ` {n..<cr_fresh r}" by (rule sprouted_ok [OF s tree most])+
qed

text \<open>The tree of the rows a tree makes: the tree, its texts trimmed and cut as the rows keep them.\<close>

lemma treeFromRows_made:
  assumes g: "goodIds newId" and made: "rowsFromTree newId n t tree createdBy at = r" and lim: "treeLimits tree = None"
  shows "treeFromRows (cr_lists r) (cr_items r) = Some (map cleanList tree)"
proof -
  obtain tops where tops: "grownLists newId t createdBy at 0 n tree = (tops, cr_fresh r)"
    and o: "laidOut (cr_lists r) (filter isLive (cr_items r)) tops"
    by (rule grown_rows [OF g made])
  have "inj newId" using g by (simp add: goodIds_def)
  then have "map (\<lambda>(l, cs). \<lparr>tl_title = listTitle l, tl_items = map textTree cs\<rparr>) tops = map cleanList tree"
    using grown_lists [OF tops(1)] by blast
  then show ?thesis using treeFromRows_laid [OF g rowsFromTree_ok(2,3) [OF assms] o] by simp
qed

section \<open>Trees kept as JSON\<close>

text \<open>A tree as it is kept in a template (\<open>children\<close> only where there are some), and the trees whose texts are clean.\<close>

fun rawNode :: "checklistNode \<Rightarrow> rawJson" where
  "rawNode (ChecklistNode t ns) =
     RawObject ((''text'', RawText t) # (if ns = [] then [] else [(''children'', RawArray (map rawNode ns))]))"

definition rawTree :: "checklistTreeList list \<Rightarrow> rawJson" where
  "rawTree tree = RawArray (map (\<lambda>l. RawObject [(''title'', RawText (tl_title l)), (''items'', RawArray (map rawNode (tl_items l)))]) tree)"

definition tidyText :: "string \<Rightarrow> bool" where
  "tidyText s \<longleftrightarrow> s \<noteq> [] \<and> trim s = s \<and> length s \<le> TEXT_MAX"

fun tidyNode :: "checklistNode \<Rightarrow> bool" where
  "tidyNode (ChecklistNode t ns) \<longleftrightarrow> tidyText t \<and> list_all tidyNode ns"

definition tidyTree :: "checklistTreeList list \<Rightarrow> bool" where
  "tidyTree tree \<longleftrightarrow> list_all (\<lambda>l. tidyText (tl_title l) \<and> list_all tidyNode (tl_items l)) tree"

lemma tidy_clean: "tidyNode n \<Longrightarrow> cleanNode n = n"
  by (induction n) (auto simp: tidyText_def rowText_def list_all_iff intro: map_idI)

lemma tidy_cleanList: "tidyTree tree \<Longrightarrow> map cleanList tree = tree"
proof (rule map_idI)
  fix l assume "tidyTree tree" "l \<in> set tree"
  then have l: "tidyText (tl_title l)" "\<forall>n \<in> set (tl_items l). tidyNode n" by (auto simp: tidyTree_def list_all_iff)
  have "map cleanNode (tl_items l) = tl_items l" using l(2) by (intro map_idI) (simp add: tidy_clean)
  then show "cleanList l = l" using l(1) by (simp add: cleanList_def titleOr_def rowText_def tidyText_def)
qed

lemma raw_text: "rawNodeText (rawNode (ChecklistNode t ns)) = take TEXT_MAX (trim t)"
  by (simp add: rawNodeText_def rawField_def clean_def)

lemma raw_kids: "rawField ''children'' (rawNode (ChecklistNode t ns)) = (if ns = [] then RawNull else RawArray (map rawNode ns))"
  by (simp add: rawField_def)

declare rawNode.simps [simp del]

lemma nodesOf_null [simp]: "nodesOf RawNull depth = []"
  by (simp add: nodesOf.simps)

lemma deepest_kids: "ns \<noteq> [] \<Longrightarrow> n \<in> set ns \<Longrightarrow> deepestOf (level + 1) n \<le> deepestOf level (ChecklistNode t ns)"
  by simp

lemma nodesOf_rawNodes:
  "size_list size ns \<le> m \<Longrightarrow> list_all tidyNode ns \<Longrightarrow> (\<forall>n \<in> set ns. deepestOf (int depth) n < int MAX_DEPTH)
    \<Longrightarrow> nodesOf (RawArray (map rawNode ns)) depth = ns"
proof (induction m arbitrary: ns depth rule: less_induct)
  case (less m)
  show ?case
  proof (cases "ns = []")
    case True
    then show ?thesis by (simp add: nodesOf.simps map_filter_def)
  next
    case False
    then obtain x where "x \<in> set ns" by (meson list.set_sel(1))
    then have depth: "depth \<le> MAX_DEPTH + 5" using less.prems(3) deepest_own [of "int depth" x] by fastforce
    have one: "(let t = rawNodeText (rawNode n)
                  in if t = [] then None else Some (ChecklistNode t (nodesOf (rawField ''children'' (rawNode n)) (Suc depth)))) = Some n"
      if n: "n \<in> set ns" for n
    proof -
      obtain t ks where tk: "n = ChecklistNode t ks" by (cases n)
      have tidy: "tidyText t" "list_all tidyNode ks" using less.prems(2) n tk by (auto simp: list_all_iff)
      have "nodesOf (rawField ''children'' (rawNode n)) (Suc depth) = ks"
      proof (cases "ks = []")
        case True
        then show ?thesis by (simp add: tk raw_kids)
      next
        case kids: False
        have "size_list size ks < size n" by (simp add: tk)
        also have "\<dots> \<le> size_list size ns" using n by (simp add: size_list_estimation')
        finally have "size_list size ks < m" using less.prems(1) by simp
        moreover have "deepestOf (int (Suc depth)) k < int MAX_DEPTH" if "k \<in> set ks" for k
        proof -
          have "deepestOf (int depth + 1) k \<le> deepestOf (int depth) n" unfolding tk by (rule deepest_kids [OF kids that])
          then show ?thesis using less.prems(3) n by (auto simp: add.commute)
        qed
        ultimately show ?thesis using less.IH [OF _ order_refl tidy(2)] kids by (simp add: tk raw_kids)
      qed
      then show ?thesis using tidy(1) unfolding tk raw_text by (simp add: tidyText_def)
    qed
    have "nodesOf (RawArray (map rawNode ns)) depth = List.map_filter Some ns"
      using depth one by (simp add: nodesOf.simps map_filter_def comp_def cong: map_cong filter_cong)
    then show ?thesis by (simp add: map_filter_def)
  qed
qed

text \<open>A clean tree within the limits is read back from its JSON as it is.\<close>

lemma checklistTreeOf_raw:
  assumes "tidyTree tree" "treeLimits tree = None"
  shows "checklistTreeOf (rawTree tree) = tree"
proof (cases "tree = []")
  case True
  then show ?thesis by (simp add: checklistTreeOf_def rawTree_def nodesOf.simps map_filter_def)
next
  case False
  then obtain x xs where x: "tree = x # xs" by (cases tree) auto
  have items: "nodesOf (RawArray (map rawNode (tl_items l))) 0 = tl_items l" if l: "l \<in> set tree" for l
  proof (rule nodesOf_rawNodes [OF order_refl])
    show "list_all tidyNode (tl_items l)" using assms(1) l by (auto simp: tidyTree_def list_all_iff)
    have "deepest (tl_items l) 0 < int MAX_DEPTH" using assms(2) l by (simp add: treeLimits_None)
    then show "\<forall>n \<in> set (tl_items l). deepestOf (int 0) n < int MAX_DEPTH" by (auto simp: deepest_def split: if_splits)
  qed
  have title: "titleOr (clean (RawText (tl_title l))) = tl_title l" if "l \<in> set tree" for l
    using assms(1) that by (auto simp: tidyTree_def list_all_iff titleOr_def clean_def tidyText_def)
  have "\<not> list_all isRawText (map (\<lambda>l. RawObject [(''title'', RawText (tl_title l)), (''items'', RawArray (map rawNode (tl_items l)))]) tree)"
    by (simp add: x isRawText_def)
  then have "checklistTreeOf (rawTree tree) = map (\<lambda>l. \<lparr>tl_title = tl_title l, tl_items = tl_items l\<rparr>) tree"
    by (simp add: checklistTreeOf_def rawTree_def map_filter_def comp_def rawField_def items title cong: map_cong filter_cong)
  then show ?thesis by (auto intro: map_idI)
qed

section \<open>Properties\<close>

text \<open>Ids as the examples draw them.\<close>

definition sampleId :: "nat \<Rightarrow> ident" where
  "sampleId n = CHR ''c'' # replicate n CHR ''x''"

lemma sampleId_good: "goodIds sampleId"
proof -
  have "inj sampleId" by (rule injI) (metis length_replicate list.inject sampleId_def)
  moreover have "take 5 (sampleId n) \<noteq> ''list:''" for n by (simp add: sampleId_def)
  ultimately show ?thesis by (simp add: goodIds_def sampleId_def)
qed

end
