(* ===== verification/ChecklistRepeat.thy ===== *)
theory ChecklistRepeat
  imports ChecklistGrown
begin

text \<open>
  The copy of a task's checklists for its next repeat: well formed, unticked, and with the same tree.
\<close>

section \<open>The forest of well formed rows\<close>

text \<open>What the walk of \<open>arrange\<close> goes through, as a forest.\<close>

fun copseOf :: "nat \<Rightarrow> itemRow list \<Rightarrow> itemRow \<Rightarrow> copse" where
  "copseOf 0 live row = Copse row []"
| "copseOf (Suc fuel) live row = Copse row (map (copseOf fuel live) (childrenOf live (itemId row)))"

lemma root_copseOf [simp]: "root (copseOf fuel live row) = row"
  by (cases fuel) simp_all

lemma walkAll_copse:
  "walkAll w ks = Some (es, d, t) \<Longrightarrow> (\<And>k es d t. k \<in> set ks \<Longrightarrow> w k = Some (es, d, t) \<Longrightarrow> map (\<lambda>e. itemId (ai_row e)) es = map copseId (subs (f k)))
    \<Longrightarrow> map (\<lambda>e. itemId (ai_row e)) es = map copseId (forestSubs (map f ks))"
proof (induction ks arbitrary: es d t)
  case (Cons k ks)
  then obtain es1 d1 t1 es2 d2 t2 where w: "w k = Some (es1, d1, t1)" "walkAll w ks = Some (es2, d2, t2)" "es = es1 @ es2"
    by (auto split: option.splits)
  then show ?case using Cons.IH [OF w(2)] Cons.prems(2) by simp
qed simp

lemma walk_copse: "walk fuel live depth row = Some (es, d, t) \<Longrightarrow> map (\<lambda>e. itemId (ai_row e)) es = map copseId (subs (copseOf fuel live row))"
proof (induction fuel arbitrary: depth row es d t)
  case (Suc fuel)
  show ?case
  proof (cases "childrenOf live (itemId row) = []")
    case True
    then have "map (\<lambda>e. itemId (ai_row e)) es = [itemId row]" using Suc.prems by auto
    then show ?thesis using True by simp
  next
    case False
    then obtain es1 d1 t1 e where w: "walkAll (walk fuel live (depth + 1)) (childrenOf live (itemId row)) = Some (es1, d1, t1)"
        "es = e # es1" "itemId (ai_row e) = itemId row"
      using Suc.prems by (auto simp: Let_def split: option.splits)
    have "map (\<lambda>e. itemId (ai_row e)) es1 = map copseId (forestSubs (map (copseOf fuel live) (childrenOf live (itemId row))))"
      by (rule walkAll_copse [OF w(1)]) (rule Suc.IH)
    then show ?thesis using w(2,3) by (simp add: forestSubs_def comp_def)
  qed
qed simp

definition forestOf :: "nat \<Rightarrow> itemRow list \<Rightarrow> listRow list \<Rightarrow> (listRow \<times> copse list) list" where
  "forestOf fuel live ls = map (\<lambda>l. (l, map (copseOf fuel live) (childrenOf live (''list:'' @ listId l)))) ls"

lemma arrangeLists_copse: "arrangeLists fuel live ls = Some (als, es, d, t) \<Longrightarrow> map (\<lambda>e. itemId (ai_row e)) es = map copseId (allSubs (forestOf fuel live ls))"
proof (induction ls arbitrary: als es d t)
  case (Cons l ls)
  then obtain es1 d1 t1 als2 es2 d2 t2 where
    w: "walkAll (walk fuel live 0) (childrenOf live (''list:'' @ listId l)) = Some (es1, d1, t1)"
    and r: "arrangeLists fuel live ls = Some (als2, es2, d2, t2)" "es = es1 @ es2"
    by (auto split: option.splits)
  have "map (\<lambda>e. itemId (ai_row e)) es1 = map copseId (forestSubs (map (copseOf fuel live) (childrenOf live (''list:'' @ listId l))))"
    by (rule walkAll_copse [OF w]) (rule walk_copse)
  then show ?case using Cons.IH [OF r(1)] r(2) by (simp add: forestOf_def)
qed (simp add: forestOf_def allSubs_def)

lemma copse_members:
  "row \<in> set live \<Longrightarrow> s \<in> set (subs (copseOf fuel live row))
    \<Longrightarrow> root s \<in> set live \<and> (kids s = [] \<or> (\<exists>f. kids s = map (copseOf f live) (childrenOf live (copseId s))))"
proof (induction fuel arbitrary: row s)
  case (Suc fuel)
  show ?case
  proof (cases "s = copseOf (Suc fuel) live row")
    case True
    then show ?thesis using Suc.prems(1) by auto
  next
    case False
    then obtain k where k: "k \<in> set (childrenOf live (itemId row))" "s \<in> set (subs (copseOf fuel live k))"
      using Suc.prems(2) by auto
    then show ?thesis using Suc.IH [OF _ k(2)] childrenOf_subset by blast
  qed
qed simp

lemma childrenOf_order:
  assumes "distinct (map itemId live)"
  shows "inOrder (map (copseOf f live) (childrenOf live key))"
proof -
  let ?xs = "childrenOf live key"
  have "distinct (map itemId ?xs)"
  proof -
    have "distinct (map itemId (filter (\<lambda>i. groupKey live i = key) live))" using assms by (rule distinct_map_filter)
    moreover have "mset (map itemId ?xs) = mset (map itemId (filter (\<lambda>i. groupKey live i = key) live))" by (simp add: childrenOf_def)
    ultimately show ?thesis using mset_eq_imp_distinct_iff by metis
  qed
  then have "distinct (map itemOrder ?xs)" by (auto simp: distinct_map inj_on_def itemOrder_def)
  moreover have "sorted (map itemOrder ?xs)" by (simp add: childrenOf_def)
  ultimately have "sorted_wrt (<) (map itemOrder ?xs)" by (simp add: strict_sorted_iff)
  then show ?thesis by (simp add: inOrder_def sorted_wrt_map)
qed

text \<open>Well formed rows are laid out as the forest that \<open>arrange\<close> walks.\<close>

lemma arranged_forest:
  assumes g: "goodIds newId" and r: "rowsOk newId t r" "homed r"
  obtains tops where "laidOut (cr_lists r) (filter isLive (cr_items r)) tops"
proof -
  let ?live = "filter isLive (cr_items r)"
  let ?tops = "forestOf (Suc (length ?live)) ?live (liveLists (cr_lists r))"
  note h = homed_home [OF g r] and wk = kept_keyed [OF g r(1)] and t = rowsOkD(1) [OF r(1)]
  obtain a where a: "arrange (cr_lists r) (cr_items r) = Some a" using arrange_returns [OF wk(1)] by blast
  then obtain d n where "arrangeLists (Suc (length ?live)) ?live (liveLists (cr_lists r)) = Some (ar_lists a, ar_items a, d, n)"
    by (auto simp: arrange_def h Let_def split: option.splits)
  from arrangeLists_copse [OF this] have ids: "map (\<lambda>e. itemId (ai_row e)) (ar_items a) = map copseId (allSubs ?tops)" .
  have mids: "mset (map copseId (allSubs ?tops)) = mset (map itemId ?live)"
    using arrange_shown [OF wk a] unfolding ids [symmetric] shownIds_def by (simp add: comp_def)
  have dl: "distinct (map itemId ?live)" using rowsOkD(5) [OF r(1)] by (rule distinct_map_filter)
  then have ds: "distinct (map copseId (allSubs ?tops))" using mids mset_eq_imp_distinct_iff by metis
  have member: "root s \<in> set ?live \<and> (kids s = [] \<or> (\<exists>f. kids s = map (copseOf f ?live) (childrenOf ?live (copseId s))))"
    if s: "s \<in> set (allSubs ?tops)" for s
  proof -
    obtain l :: listRow and c where c: "c \<in> set (childrenOf ?live (''list:'' @ listId l))" "s \<in> set (subs (copseOf (Suc (length ?live)) ?live c))"
      using s by (simp add: allSubs_def forestOf_def forestSubs_def del: copseOf.simps) blast
    have "c \<in> set ?live" using c(1) childrenOf_subset by blast
    then show ?thesis using c(2) by (rule copse_members)
  qed
  have all: "set ?live = root ` set (allSubs ?tops)"
  proof
    show "root ` set (allSubs ?tops) \<subseteq> set ?live" using member by blast
    show "set ?live \<subseteq> root ` set (allSubs ?tops)"
    proof
      fix i assume i: "i \<in> set ?live"
      have "itemId i \<in> set (map itemId ?live)" using i by simp
      then have "itemId i \<in> set (map copseId (allSubs ?tops))" using mset_eq_setD [OF mids] by simp
      then obtain s where s: "s \<in> set (allSubs ?tops)" "copseId s = itemId i" by auto
      then have "root s = i" using member [OF s(1)] i same_row [OF dl] by blast
      then show "i \<in> root ` set (allSubs ?tops)" using s(1) by blast
    qed
  qed
  have laid: "laidKids s" if s: "s \<in> set (allSubs ?tops)" for s
  proof (cases "kids s = []")
    case False
    then obtain f where k: "kids s = map (copseOf f ?live) (childrenOf ?live (copseId s))" using member [OF s] by blast
    have "itemParent i = Some (copseId s) \<and> itemList i = itemList (root s)" if i: "i \<in> set (childrenOf ?live (copseId s))" for i
    proof -
      have il: "i \<in> set (cr_items r)" "isLive i" using i childrenOf_subset [of ?live "copseId s"] by auto
      have "wellKeyed ?live" using wk(1) by (simp add: wellKeyed_def distinct_map_filter)
      from childrenOf_row(2) [OF this i] member [OF s] have "itemParent i = Some (copseId s)"
        using real_effective [OF t il] by simp
      moreover from this obtain q where "q \<in> set (cr_items r)" "itemId q = copseId s" "isLive q" "itemList q = itemList i"
        using liveParentsD [OF _ il] t unfolding treeOk_items by blast
      moreover from this have "q = root s" using member [OF s] same_row [OF rowsOkD(5) [OF r(1)], of q "root s"] by simp
      ultimately show ?thesis by simp
    qed
    then show ?thesis unfolding laidKids_def k using childrenOf_order [OF dl] by auto
  qed (simp add: laidKids_def inOrder_def)
  have tops: "laidTops (listId l) cs" if lc: "(l, cs) \<in> set ?tops" for l cs
  proof -
    have cs: "cs = map (copseOf (Suc (length ?live)) ?live) (childrenOf ?live (''list:'' @ listId l))" using lc by (auto simp: forestOf_def)
    have "itemParent i = None \<and> itemList i = Some (listId l)" if i: "i \<in> set (childrenOf ?live (''list:'' @ listId l))" for i
    proof -
      have il: "i \<in> set (cr_items r)" "isLive i" using i childrenOf_subset [of ?live "''list:'' @ listId l"] by auto
      have "wellKeyed ?live" using wk(1) by (simp add: wellKeyed_def distinct_map_filter)
      from childrenOf_list(2) [OF this i] have p: "itemParent i = None" using real_effective [OF t il] by simp
      have "groupKey ?live i = ''list:'' @ listId l" using i by (simp add: childrenOf_def)
      then have "(case itemList i of Some x \<Rightarrow> x | None \<Rightarrow> []) = listId l" using real_group [OF t il] p by simp
      moreover have "itemList i \<noteq> None" using r(2) il by (fastforce simp: homed_def)
      ultimately show ?thesis using p by auto
    qed
    then show ?thesis unfolding laidTops_def cs using childrenOf_order [OF dl] by auto
  qed
  have "liveLists (cr_lists r) = map fst ?tops" by (simp add: forestOf_def comp_def)
  then have "laidOut (cr_lists r) ?live ?tops" unfolding laidOut_def using all ds laid tops by blast
  then show ?thesis by (rule that)
qed

section \<open>The copy of well formed rows\<close>

lemma copiedIds_nth:
  assumes "distinct from" "length from = length to" "j < length from"
  shows "copiedIds from to (from ! j) = Some (to ! j)"
proof -
  have "distinct (map fst (rev (zip from to)))" using assms(1,2) by (simp add: rev_map [symmetric])
  moreover have "(from ! j, to ! j) \<in> set (rev (zip from to))" using assms(2,3) by (auto simp: set_zip)
  ultimately show ?thesis unfolding copiedIds_def by (rule map_of_is_SomeI)
qed

text \<open>A copied row, by the ids the copies of items and checklists get.\<close>

definition repeatRow :: "(ident \<Rightarrow> ident) \<Rightarrow> (ident \<Rightarrow> ident) \<Rightarrow> ident \<Rightarrow> int option \<Rightarrow> instant \<Rightarrow> itemRow \<Rightarrow> itemRow" where
  "repeatRow fi fl t shift at i =
     newItemRow (fi (itemId i)) t (case itemList i of None \<Rightarrow> [] | Some l \<Rightarrow> fl l) (itemText i) (map_option fi (itemParent i))
       (itemPos i) (itemAssignee i) (shiftedDue shift (itemDue i)) at"

definition repeatList :: "(ident \<Rightarrow> ident) \<Rightarrow> ident \<Rightarrow> instant \<Rightarrow> nat \<Rightarrow> listRow \<Rightarrow> listRow" where
  "repeatList fl t at i l = newListRow (fl (listId l)) t (listTitle l) (int i) (listCreatedBy l) at"

lemma laid_parent:
  assumes o: "laidOut ls live tops" and i: "i \<in> set live" "itemParent i = Some p"
  obtains s where "s \<in> set (allSubs tops)" "copseId s = p" "itemList (root s) = itemList i"
proof -
  obtain q e where "q \<in> set live" "itemId q = p" "itemList q = itemList i" by (rule grown_links [OF assms])
  then show ?thesis using that o by (auto simp: laidOut_def)
qed

lemma laid_home:
  assumes g: "goodIds newId" and r: "rowsOk newId t r" "homed r" and o: "laidOut (cr_lists r) (filter isLive (cr_items r)) tops"
    and s: "s \<in> set (allSubs tops)"
  obtains l where "l \<in> set (map fst tops)" "itemList (root s) = Some (listId l)"
proof -
  have "root s \<in> set (filter isLive (cr_items r))" using o s by (auto simp: laidOut_def)
  then obtain l where l: "l \<in> set (cr_lists r)" "isLiveList l" "itemList (root s) = Some (listId l)" using r(2) by (auto simp: homed_def)
  then have "l \<in> set (liveLists (cr_lists r))" by (simp add: liveLists_def)
  then show ?thesis using that l(3) o by (simp add: laidOut_def)
qed

lemma copy_shape:
  assumes g: "goodIds newId" and r: "rowsOk newId t0 r" "homed r" and o: "laidOut (cr_lists r) (filter isLive (cr_items r)) tops"
  obtains fi fl where
    "copyRowsForRepeat newId n r t shift at = Some \<lparr>cr_lists = map (\<lambda>(i, tp). repeatList fl t at i (fst tp)) (enumerate 0 tops),
       cr_items = map (\<lambda>s. repeatRow fi fl t shift at (root s)) (allSubs tops), cr_fresh = n + length tops + length (allSubs tops)\<rparr>"
    "map (\<lambda>s. fi (copseId s)) (allSubs tops) = map newId [n + length tops..<n + length tops + length (allSubs tops)]"
    "map (\<lambda>tp. fl (listId (fst tp))) tops = map newId [n..<n + length tops]"
proof -
  let ?S = "allSubs tops" and ?N = "n + length tops"
  obtain a where a: "arrange (cr_lists r) (cr_items r) = Some a" "map ai_row (ar_items a) = map root ?S" "map al_row (ar_lists a) = map fst tops"
    by (rule arrange_laid [OF g r o])
  note lo = o [unfolded laidOut_def]
  define itemIds where "itemIds = copiedIds (map itemId (map root ?S)) (drawn newId ?N (length ?S))"
  define listIds where "listIds = copiedIds (map listId (map fst tops)) (drawn newId n (length tops))"
  define fi where "fi k = the (itemIds k)" for k
  define fl where "fl k = the (listIds k)" for k
  have ids: "distinct (map itemId (map root ?S))" using lo by (simp add: comp_def)
  have lids: "distinct (map listId (map fst tops))" using kept_keyed(2) [OF g r(1)] lo by simp
  have item: "itemIds (copseId (?S ! j)) = Some (newId (?N + j))" if "j < length ?S" for j
    unfolding itemIds_def using copiedIds_nth [OF ids, of "drawn newId ?N (length ?S)" j] that by (simp add: drawn_def)
  have lst: "listIds (listId (fst (tops ! j))) = Some (newId (n + j))" if "j < length tops" for j
    unfolding listIds_def using copiedIds_nth [OF lids, of "drawn newId n (length tops)" j] that by (simp add: drawn_def)
  have fiS: "map (\<lambda>s. fi (copseId s)) ?S = map newId [?N..<?N + length ?S]"
    by (rule nth_equalityI) (simp_all add: fi_def item)
  have flT: "map (\<lambda>tp. fl (listId (fst tp))) tops = map newId [n..<?N]"
    by (rule nth_equalityI) (simp_all add: fl_def lst)
  have someItem: "itemIds (copseId s) = Some (fi (copseId s))" if s: "s \<in> set ?S" for s
  proof -
    obtain j where "j < length ?S" "s = ?S ! j" using s by (auto simp: in_set_conv_nth)
    then show ?thesis using item by (simp add: fi_def)
  qed
  have someList: "listIds (listId l) = Some (fl (listId l))" if l: "l \<in> set (map fst tops)" for l
  proof -
    obtain tp where tp: "tp \<in> set tops" "l = fst tp" using l by auto
    then obtain j where "j < length tops" "tp = tops ! j" by (auto simp: in_set_conv_nth)
    then show ?thesis using lst tp(2) by (simp add: fl_def)
  qed
  have row: "newItemRow (newId (?N + j)) t
        (case listIds (case itemList i of None \<Rightarrow> [] | Some l \<Rightarrow> l) of None \<Rightarrow> [] | Some l \<Rightarrow> l) (itemText i)
        (case given (itemParent i) of None \<Rightarrow> None | Some p \<Rightarrow> itemIds p) (itemPos i) (itemAssignee i) (shiftedDue shift (itemDue i)) at
      = repeatRow fi fl t shift at i" if j: "j < length ?S" "i = root (?S ! j)" for j i
  proof -
    have s: "?S ! j \<in> set ?S" using j(1) by simp
    obtain l where l: "l \<in> set (map fst tops)" "itemList i = Some (listId l)" using laid_home [OF g r o s] j(2) by metis
    have "fi (itemId i) = newId (?N + j)" using item [OF j(1)] j(2) by (simp add: fi_def)
    moreover have "(case given (itemParent i) of None \<Rightarrow> None | Some p \<Rightarrow> itemIds p) = map_option fi (itemParent i)"
    proof (cases "itemParent i")
      case (Some p)
      have il: "i \<in> set (filter isLive (cr_items r))" using lo s j(2) by blast
      obtain q where q: "q \<in> set ?S" "copseId q = p" by (rule laid_parent [OF o il Some])
      have "root q \<in> set (filter isLive (cr_items r))" using lo q(1) by blast
      then have "root q \<in> set (cr_items r)" by simp
      moreover have "[] \<notin> itemId ` set (cr_items r)" using rowsOkD(1) [OF r(1)] by (simp add: treeOk_items)
      ultimately have "p \<noteq> []" using q(2) by (metis imageI)
      then have "given (itemParent i) = Some p" using Some by simp
      then show ?thesis using someItem [OF q(1)] q(2) Some by simp
    qed simp
    ultimately show ?thesis using someList [OF l(1)] l(2) by (simp add: repeatRow_def)
  qed
  have items: "map2 (\<lambda>k i. newItemRow k t
        (case listIds (case itemList i of None \<Rightarrow> [] | Some l \<Rightarrow> l) of None \<Rightarrow> [] | Some l \<Rightarrow> l) (itemText i)
        (case given (itemParent i) of None \<Rightarrow> None | Some p \<Rightarrow> itemIds p) (itemPos i) (itemAssignee i) (shiftedDue shift (itemDue i)) at)
        (drawn newId ?N (length ?S)) (map root ?S)
      = map (\<lambda>s. repeatRow fi fl t shift at (root s)) ?S"
    by (rule nth_equalityI) (simp_all add: drawn_def row)
  have lists: "map2 (\<lambda>(i, k) l. newListRow k t (listTitle l) (int i) (listCreatedBy l) at) (enumerate 0 (drawn newId n (length tops))) (map fst tops)
      = map (\<lambda>(i, tp). repeatList fl t at i (fst tp)) (enumerate 0 tops)"
    by (rule nth_equalityI) (simp_all add: drawn_def nth_enumerate_eq repeatList_def fl_def lst)
  have len: "length (ar_lists a) = length tops" "length (ar_items a) = length ?S" using arg_cong [OF a(2), of length] arg_cong [OF a(3), of length] by simp_all
  have "copyRowsForRepeat newId n r t shift at = Some \<lparr>cr_lists = map (\<lambda>(i, tp). repeatList fl t at i (fst tp)) (enumerate 0 tops),
       cr_items = map (\<lambda>s. repeatRow fi fl t shift at (root s)) ?S, cr_fresh = n + length tops + length ?S\<rparr>"
    unfolding copyRowsForRepeat_def a(1) option.case Let_def a(2,3) length_map len itemIds_def [symmetric] listIds_def [symmetric] items lists
    by (rule refl)
  then show ?thesis using that fiS flT by blast
qed

text \<open>A renaming of the links has chains only where the links have.\<close>

lemma relpow_renamed:
  fixes f :: "'a \<Rightarrow> 'b" and R :: "('a \<times> 'a) set"
  assumes "inj_on f A" "R \<subseteq> A \<times> A"
  shows "(x, y) \<in> (map_prod f f ` R) ^^ Suc n \<Longrightarrow> \<exists>a b. x = f a \<and> y = f b \<and> (a, b) \<in> R ^^ Suc n"
proof (induction n arbitrary: x)
  case (Suc n)
  obtain z where z: "(x, z) \<in> map_prod f f ` R" "(z, y) \<in> (map_prod f f ` R) ^^ Suc n" using relpow_Suc_D2 [OF Suc.prems] by blast
  obtain a b where ab: "x = f a" "z = f b" "(a, b) \<in> R" using z(1) by auto
  obtain a' b' where ab': "z = f a'" "y = f b'" "(a', b') \<in> R ^^ Suc n" using Suc.IH [OF z(2)] by blast
  obtain c where "(a', c) \<in> R" using relpow_Suc_D2 [OF ab'(3)] by blast
  then have "a' = b" using assms ab(2,3) ab'(1) by (auto dest: inj_onD)
  then have "(a, b') \<in> R ^^ Suc (Suc n)" using relpow_Suc_I2 [OF ab(3)] ab'(3) by blast
  then show ?case using ab(1) ab'(2) by blast
qed auto

lemma renamed_levels:
  fixes f :: "'a \<Rightarrow> 'b" and R :: "('a \<times> 'a) set"
  assumes "inj_on f A" "R \<subseteq> A \<times> A" "R ^^ MAX_DEPTH = {}"
  shows "(map_prod f f ` R) ^^ MAX_DEPTH = {}"
proof (rule ccontr)
  have d: "MAX_DEPTH = Suc 19" by (simp add: MAX_DEPTH_def)
  assume "(map_prod f f ` R) ^^ MAX_DEPTH \<noteq> {}"
  then obtain x y where "(x, y) \<in> (map_prod f f ` R) ^^ Suc 19" unfolding d by auto
  from relpow_renamed [OF assms(1,2) this] show False using assms(3) unfolding d by auto
qed

lemma renamed_pairs: "map_prod f f ` {(g s, p) | s p. P s p} = {(f (g s), f p) | s p. P s p}"
  by force

lemma parentRel_mapped: "parentRel (map f xs) = {(itemId (f x), p) | x p. x \<in> set xs \<and> itemParent (f x) = Some p}"
  unfolding parentRel_def by auto

lemma repeatRow_fields [simp]:
  "itemId (repeatRow fi fl t shift at i) = fi (itemId i)" "itemTask (repeatRow fi fl t shift at i) = t"
  "itemParent (repeatRow fi fl t shift at i) = map_option fi (itemParent i)" "isLive (repeatRow fi fl t shift at i)"
  "itemBatch (repeatRow fi fl t shift at i) = None" "\<not> itemDone (repeatRow fi fl t shift at i)"
  "itemPos (repeatRow fi fl t shift at i) = itemPos i" "itemText (repeatRow fi fl t shift at i) = itemText i"
  "itemList i = Some l \<Longrightarrow> itemList (repeatRow fi fl t shift at i) = Some (fl l)"
  by (simp_all add: repeatRow_def)

lemma repeatList_fields [simp]:
  "listId (repeatList fl t at i l) = fl (listId l)" "listTitle (repeatList fl t at i l) = listTitle l" "freshList t (repeatList fl t at i l)"
  "listPos (repeatList fl t at i l) = int i" "isLiveList (repeatList fl t at i l)"
  by (simp_all add: repeatList_def freshList_def)

lemma repeated_ids: "map f xs = map newId [a..<b] \<Longrightarrow> inj newId \<Longrightarrow> distinct (map f xs) \<and> set (map f xs) = newId ` {a..<b}"
  using inj_on_subset [of newId UNIV "{a..<b}"] by (simp add: distinct_map)

text \<open>The copy of well formed rows is well formed, and nothing of it is ticked.\<close>

lemma copy_ok:
  assumes g: "goodIds newId" and r: "rowsOk newId t0 r" "homed r" and made: "copyRowsForRepeat newId n r t shift at = Some r'"
  shows "sprouted newId n t r'" "rowsOk newId t r'" "homed r'" "usedIds r' \<subseteq> newId ` {n..<cr_fresh r'}"
proof -
  obtain tops where o: "laidOut (cr_lists r) (filter isLive (cr_items r)) tops" by (rule arranged_forest [OF g r])
  note lo = o [unfolded laidOut_def]
  let ?S = "allSubs tops"
  obtain fi fl where c: "copyRowsForRepeat newId n r t shift at = Some \<lparr>cr_lists = map (\<lambda>(i, tp). repeatList fl t at i (fst tp)) (enumerate 0 tops),
       cr_items = map (\<lambda>s. repeatRow fi fl t shift at (root s)) ?S, cr_fresh = n + length tops + length ?S\<rparr>"
    and fi: "map (\<lambda>s. fi (copseId s)) ?S = map newId [n + length tops..<n + length tops + length ?S]"
    and fl: "map (\<lambda>tp. fl (listId (fst tp))) tops = map newId [n..<n + length tops]"
    by (rule copy_shape [OF g r o])
  have r': "cr_lists r' = map (\<lambda>(i, tp). repeatList fl t at i (fst tp)) (enumerate 0 tops)"
      "cr_items r' = map (\<lambda>s. repeatRow fi fl t shift at (root s)) ?S" "cr_fresh r' = n + length tops + length ?S"
    using made unfolding c by auto
  have inj: "inj newId" using g by (simp add: goodIds_def)
  note fiD = repeated_ids [OF fi inj] and flD = repeated_ids [OF fl inj]
  have lids: "map listId (cr_lists r') = map (\<lambda>tp. fl (listId (fst tp))) tops"
    by (rule nth_equalityI) (simp_all add: r' nth_enumerate_eq)
  have iids: "map itemId (cr_items r') = map (\<lambda>s. fi (copseId s)) ?S" by (simp add: r')
  have home: "\<exists>l. itemList (root s) = Some l \<and> itemList (repeatRow fi fl t shift at (root s)) = Some (fl l) \<and> fl l \<in> set (map listId (cr_lists r'))"
    if s: "s \<in> set ?S" for s
  proof -
    obtain l where l: "l \<in> set (map fst tops)" "itemList (root s) = Some (listId l)" by (rule laid_home [OF g r o s])
    have "fl (listId l) \<in> set (map listId (cr_lists r'))" unfolding lids using l(1) by auto
    then show ?thesis using l(2) by simp
  qed
  show s: "sprouted newId n t r'"
  proof -
    have "\<forall>i \<in> set (cr_items r'). isLive i \<and> itemTask i = t \<and> itemBatch i = None \<and> \<not> itemDone i \<and> (\<exists>l \<in> set (cr_lists r'). itemList i = Some (listId l))"
    proof
      fix i assume "i \<in> set (cr_items r')"
      then obtain s where si: "s \<in> set ?S" "i = repeatRow fi fl t shift at (root s)" by (auto simp: r')
      have "\<exists>l \<in> set (cr_lists r'). itemList i = Some (listId l)" using home [OF si(1)] unfolding si(2) [symmetric] by auto
      then show "isLive i \<and> itemTask i = t \<and> itemBatch i = None \<and> \<not> itemDone i \<and> (\<exists>l \<in> set (cr_lists r'). itemList i = Some (listId l))"
        by (simp add: si(2))
    qed
    moreover have "\<forall>l \<in> set (cr_lists r'). freshList t l" by (auto simp: r')
    moreover have "itemId ` set (cr_items r') \<subseteq> newId ` {n..<cr_fresh r'}"
      unfolding set_map [symmetric] iids fiD [THEN conjunct2] r'(3) by (rule image_mono) auto
    moreover have "listId ` set (cr_lists r') \<subseteq> newId ` {n..<cr_fresh r'}"
      unfolding set_map [symmetric] lids flD [THEN conjunct2] r'(3) by (rule image_mono) auto
    ultimately show ?thesis unfolding sprouted_def iids lids using fiD flD r'(3) by simp
  qed
  have up: "\<exists>q \<in> set (cr_items r'). itemId q = p \<and> itemList q = itemList i" if i: "i \<in> set (cr_items r')" "itemParent i = Some p" for i p
  proof -
    obtain s where si: "s \<in> set ?S" "i = repeatRow fi fl t shift at (root s)" using i(1) by (auto simp: r')
    then obtain k where k: "itemParent (root s) = Some k" "p = fi k" using i(2) by auto
    have live: "root s \<in> set (filter isLive (cr_items r))" using lo si(1) by blast
    obtain q where q: "q \<in> set ?S" "copseId q = k" "itemList (root q) = itemList (root s)" by (rule laid_parent [OF o live k(1)])
    have "itemList (repeatRow fi fl t shift at (root q)) = itemList i" using home [OF q(1)] home [OF si(1)] q(3) si(2) by auto
    moreover have "repeatRow fi fl t shift at (root q) \<in> set (cr_items r')" using q(1) by (simp add: r')
    ultimately show ?thesis using q(2) k(2) by (intro bexI [of _ "repeatRow fi fl t shift at (root q)"]) simp_all
  qed
  have links: "liveLinks (cr_items r') ^^ MAX_DEPTH = {}"
  proof -
    have src: "liveLinks (cr_items r) = {(copseId s, p) | s p. s \<in> set ?S \<and> itemParent (root s) = Some p}"
    proof -
      have "set (filter isLive (cr_items r)) = root ` set ?S" using lo by blast
      then show ?thesis unfolding parentRel_def by auto
    qed
    have "liveLinks (cr_items r') = map_prod fi fi ` liveLinks (cr_items r)"
    proof -
      have "filter isLive (cr_items r') = cr_items r'" by (simp add: r' filter_id_conv)
      moreover have "parentRel (cr_items r') = {(fi (copseId s), fi p) | s p. s \<in> set ?S \<and> itemParent (root s) = Some p}"
        unfolding r'(2) parentRel_mapped by (auto simp: Option.map_option_case split: option.splits)
      ultimately show ?thesis unfolding src renamed_pairs by simp
    qed
    moreover have "liveLinks (cr_items r) \<subseteq> copseId ` set ?S \<times> copseId ` set ?S"
    proof -
      have "(copseId s, p) \<in> copseId ` set ?S \<times> copseId ` set ?S" if sp: "s \<in> set ?S" "itemParent (root s) = Some p" for s p
      proof -
        have live: "root s \<in> set (filter isLive (cr_items r))" using lo sp(1) by blast
        obtain q where "q \<in> set ?S" "copseId q = p" by (rule laid_parent [OF o live sp(2)])
        then show ?thesis using sp(1) by blast
      qed
      then show ?thesis unfolding src by auto
    qed
    moreover have "inj_on fi (copseId ` set ?S)"
      using fiD [THEN conjunct1] by (intro inj_on_imageI) (simp add: distinct_map comp_def)
    moreover have "liveLinks (cr_items r) ^^ MAX_DEPTH = {}" using rowsOkD(1) [OF r(1)] unfolding treeOk_items by blast
    ultimately show ?thesis using renamed_levels by metis
  qed
  have tree: "treeOk (nodes (cr_items r'))" by (rule sprouted_tree [OF g s links up])
  have "length ?S = length (filter isLive (cr_items r))"
  proof -
    have "distinct (map itemId (map root ?S))" using lo by (simp add: comp_def)
    then have "distinct (map root ?S)" unfolding distinct_map by blast
    moreover have "set (map root ?S) = set (filter isLive (cr_items r))" using lo by simp
    ultimately show ?thesis using live_distinct [OF rowsOkD(1) [OF r(1)]] by (metis distinct_card length_map)
  qed
  then have "length (cr_items r') \<le> MAX_ITEMS" using rowsOkD(3) [OF r(1)] by (simp add: r')
  moreover have "length (cr_lists r') \<le> MAX_LISTS"
  proof -
    have "length tops = length (liveLists (cr_lists r))" using lo by simp
    then show ?thesis using rowsOkD(2) [OF r(1)] by (simp add: r' liveLists_def listsOk_def)
  qed
  ultimately show "rowsOk newId t r'" "homed r'" "usedIds r' \<subseteq> newId ` {n..<cr_fresh r'}" by (rule sprouted_ok [OF s tree])+
qed

text \<open>The copy keeps the order when ids drawn later sort later: then it shows the same tree.\<close>

fun mapCopse :: "(itemRow \<Rightarrow> itemRow) \<Rightarrow> copse \<Rightarrow> copse" where
  "mapCopse f (Copse r ks) = Copse (f r) (map (mapCopse f) ks)"

lemma mapCopse_parts [simp]: "root (mapCopse f c) = f (root c)" "kids (mapCopse f c) = map (mapCopse f) (kids c)"
  by (cases c, simp)+

lemma subs_map: "subs (mapCopse f c) = map (mapCopse f) (subs c)"
  by (induction c) (simp add: map_concat comp_def cong: map_cong)

lemma forest_map: "forestSubs (map (mapCopse f) cs) = map (mapCopse f) (forestSubs cs)"
  by (simp add: forestSubs_def map_concat comp_def subs_map)

lemma text_map: "(\<And>i. itemText (f i) = itemText i) \<Longrightarrow> textTree (mapCopse f c) = textTree c"
  by (induction c) simp

lemma roots_sorted: "sorted_wrt P (forestSubs cs) \<Longrightarrow> sorted_wrt P cs"
proof (induction cs)
  case (Cons c cs)
  have "P c x" if "x \<in> set cs" for x
  proof -
    have "x \<in> set (forestSubs cs)" using that forest_roots by blast
    then show ?thesis using Cons.prems root_in_subs [of c] by (simp add: sorted_wrt_append)
  qed
  then show ?case using Cons by (simp add: sorted_wrt_append)
qed simp

lemma kids_sorted: "sorted_wrt P (subs c) \<Longrightarrow> s \<in> set (subs c) \<Longrightarrow> sorted_wrt P (kids s)"
proof (induction c arbitrary: s)
  case (Copse r ks)
  have ks: "sorted_wrt P (forestSubs ks)" using Copse.prems(1) by (simp add: forestSubs_def)
  show ?case
  proof (cases "s = Copse r ks")
    case True
    then show ?thesis using roots_sorted [OF ks] by simp
  next
    case False
    then obtain x where x: "x \<in> set ks" "s \<in> set (subs x)" using Copse.prems(2) by auto
    then obtain as bs where "ks = as @ x # bs" by (meson split_list)
    then have "sorted_wrt P (subs x)" using ks by (simp add: sorted_wrt_append)
    then show ?thesis using Copse.IH [OF x(1) _ x(2)] by simp
  qed
qed

lemma all_sorted:
  "sorted_wrt P (allSubs tops) \<Longrightarrow> (\<forall>s \<in> set (allSubs tops). sorted_wrt P (kids s)) \<and> (\<forall>tp \<in> set tops. sorted_wrt P (snd tp))"
proof (induction tops)
  case (Cons tp tops)
  obtain l cs where tp: "tp = (l, cs)" by fastforce
  have cs: "sorted_wrt P (forestSubs cs)" "sorted_wrt P (allSubs tops)" using Cons.prems by (simp_all add: tp sorted_wrt_append)
  have "sorted_wrt P (kids s)" if s: "s \<in> set (forestSubs cs)" for s
  proof -
    obtain c where c: "c \<in> set cs" "s \<in> set (subs c)" using s by (auto simp: forestSubs_def)
    then obtain as bs where "cs = as @ c # bs" by (meson split_list)
    then have "sorted_wrt P (subs c)" using cs(1) by (simp add: sorted_wrt_append)
    then show ?thesis using c(2) by (rule kids_sorted)
  qed
  then show ?case using Cons.IH [OF cs(2)] roots_sorted [OF cs(1)] by (auto simp: tp)
qed simp

text \<open>
  No two live items of one group have the same position. (The rows of a copy are made at one instant, so
  items tied in position would be shown in the order of their new ids.)
\<close>

definition untied :: "itemRow list \<Rightarrow> bool" where
  "untied is \<longleftrightarrow> (\<forall>i \<in> set is. \<forall>j \<in> set is. isLive i \<and> isLive j \<and> itemList i = itemList j \<and> itemParent i = itemParent j
     \<and> itemPos i = itemPos j \<longrightarrow> i = j)"

lemma inOrder_repeated:
  assumes "inOrder cs" "untied is" "\<And>c. c \<in> set cs \<Longrightarrow> root c \<in> set (filter isLive is) \<and> itemList (root c) = l \<and> itemParent (root c) = p"
  shows "inOrder (map (mapCopse (repeatRow fi fl t shift at)) cs)"
proof -
  have "sorted_wrt (\<lambda>a b. itemOrder (repeatRow fi fl t shift at (root a)) < itemOrder (repeatRow fi fl t shift at (root b))) cs"
  proof (rule sorted_wrt_mono_rel [OF _ assms(1) [unfolded inOrder_def]])
    fix a b assume ab: "a \<in> set cs" "b \<in> set cs" "itemOrder (root a) < itemOrder (root b)"
    have "itemPos (root a) \<noteq> itemPos (root b)"
    proof
      assume "itemPos (root a) = itemPos (root b)"
      then have "root a = root b" using assms(2) assms(3) [OF ab(1)] assms(3) [OF ab(2)] by (auto simp: untied_def)
      then show False using ab(3) by simp
    qed
    then show "itemOrder (repeatRow fi fl t shift at (root a)) < itemOrder (repeatRow fi fl t shift at (root b))"
      using ab(3) by (auto simp: itemOrder_def repeatRow_def newItemRow_def)
  qed
  then show ?thesis by (simp add: inOrder_def sorted_wrt_map)
qed

lemma copy_same_tree:
  assumes g: "goodIds newId" "untied (cr_items r)" and r: "rowsOk newId t0 r" "homed r"
    and made: "copyRowsForRepeat newId n r t shift at = Some r'"
  shows "treeFromRows (cr_lists r') (cr_items r') = treeFromRows (cr_lists r) (cr_items r)"
proof -
  obtain tops where o: "laidOut (cr_lists r) (filter isLive (cr_items r)) tops" by (rule arranged_forest [OF g(1) r])
  note lo = o [unfolded laidOut_def]
  let ?S = "allSubs tops"
  obtain fi fl where c: "copyRowsForRepeat newId n r t shift at = Some \<lparr>cr_lists = map (\<lambda>(i, tp). repeatList fl t at i (fst tp)) (enumerate 0 tops),
       cr_items = map (\<lambda>s. repeatRow fi fl t shift at (root s)) ?S, cr_fresh = n + length tops + length ?S\<rparr>"
    and fi: "map (\<lambda>s. fi (copseId s)) ?S = map newId [n + length tops..<n + length tops + length ?S]"
    and fl: "map (\<lambda>tp. fl (listId (fst tp))) tops = map newId [n..<n + length tops]"
    by (rule copy_shape [OF g(1) r o])
  have r': "cr_lists r' = map (\<lambda>(i, tp). repeatList fl t at i (fst tp)) (enumerate 0 tops)"
      "cr_items r' = map (\<lambda>s. repeatRow fi fl t shift at (root s)) ?S"
    using made unfolding c by auto
  let ?copse = "mapCopse (repeatRow fi fl t shift at)"
  define tops' where "tops' = map (\<lambda>(i, tp). (repeatList fl t at i (fst tp), map ?copse (snd tp))) (enumerate 0 tops)"
  have subs': "allSubs tops' = map ?copse ?S"
  proof -
    have "allSubs tops' = concat (map (\<lambda>x. map ?copse (forestSubs (snd (snd x)))) (enumerate 0 tops))"
      by (simp add: allSubs_def tops'_def comp_def forest_map case_prod_beta)
    also have "\<dots> = concat (map (\<lambda>tp. map ?copse (forestSubs (snd tp))) (map snd (enumerate 0 tops)))"
      by (simp add: comp_def case_prod_beta del: map_snd_enumerate)
    also have "\<dots> = map ?copse ?S" by (simp add: allSubs_def map_concat comp_def)
    finally show ?thesis .
  qed
  have inj: "inj newId" using g by (simp add: goodIds_def)
  have lists: "liveLists (cr_lists r') = map fst tops'"
  proof -
    have "filter isLiveList (cr_lists r') = cr_lists r'" by (auto simp: r' filter_id_conv)
    moreover have "sorted (map listOrder (cr_lists r'))"
      by (auto simp: r' sorted_iff_nth_mono_less nth_enumerate_eq listOrder_def less_eq_prod_def)
    moreover have "cr_lists r' = map fst tops'" by (simp add: r' tops'_def comp_def case_prod_beta)
    ultimately show ?thesis by (simp add: liveLists_def sort_key_id_if_sorted)
  qed
  have items: "set (filter isLive (cr_items r')) = root ` set (allSubs tops')"
    by (auto simp: r' subs' image_image)
  have ids: "distinct (map copseId (allSubs tops'))"
    using repeated_ids [OF fi inj] by (simp add: subs' comp_def)
  have member: "root s \<in> set (filter isLive (cr_items r))" if "s \<in> set ?S" for s using lo that by blast
  have sameList: "itemList (repeatRow fi fl t shift at i) = itemList (repeatRow fi fl t shift at j)" if "itemList i = itemList j" for i j
    using that by (simp add: repeatRow_def)
  have laid: "laidKids s'" if s': "s' \<in> set (allSubs tops')" for s'
  proof -
    obtain s where s: "s \<in> set ?S" "s' = ?copse s" using s' by (auto simp: subs')
    have lk: "laidKids s" using lo s(1) by blast
    have "inOrder (map ?copse (kids s))"
    proof (rule inOrder_repeated [OF _ g(2)])
      show "inOrder (kids s)" using lk by (simp add: laidKids_def)
      show "root c \<in> set (filter isLive (cr_items r)) \<and> itemList (root c) = itemList (root s) \<and> itemParent (root c) = Some (copseId s)"
        if "c \<in> set (kids s)" for c
        using member kid_in_all [OF s(1) that] lk that by (simp add: laidKids_def)
    qed
    moreover have "itemParent (root (?copse k)) = Some (copseId (?copse s)) \<and> itemList (root (?copse k)) = itemList (root (?copse s))"
      if "k \<in> set (kids s)" for k
      using lk that sameList [of "root k" "root s"] by (simp add: laidKids_def)
    ultimately show ?thesis unfolding laidKids_def s(2) by simp
  qed
  have tp: "laidTops (listId l) cs" if lc: "(l, cs) \<in> set tops'" for l cs
  proof -
    obtain j where j: "j < length tops" "l = repeatList fl t at j (fst (tops ! j))" "cs = map ?copse (snd (tops ! j))"
      using lc by (auto simp: tops'_def in_set_enumerate_eq)
    then have old: "laidTops (listId (fst (tops ! j))) (snd (tops ! j))" using lo nth_mem [OF j(1)] by (metis (mono_tags, lifting) case_prod_beta)
    have "inOrder cs" unfolding j(3)
    proof (rule inOrder_repeated [OF _ g(2)])
      show "inOrder (snd (tops ! j))" using old by (simp add: laidTops_def)
      show "root c \<in> set (filter isLive (cr_items r)) \<and> itemList (root c) = Some (listId (fst (tops ! j))) \<and> itemParent (root c) = None"
        if c: "c \<in> set (snd (tops ! j))" for c
      proof -
        have "c \<in> set (forestSubs (snd (tops ! j)))" using forest_roots c by blast
        then have "c \<in> set ?S" using nth_mem [OF j(1)] by (auto simp: allSubs_def)
        then show ?thesis using member old c by (simp add: laidTops_def)
      qed
    qed
    then show ?thesis using old unfolding laidTops_def j(2,3) by auto
  qed
  have o': "laidOut (cr_lists r') (filter isLive (cr_items r')) tops'"
    unfolding laidOut_def using lists items ids laid tp by blast
  have "map (\<lambda>(l, cs). \<lparr>tl_title = listTitle l, tl_items = map textTree cs\<rparr>) tops'
      = map (\<lambda>(l, cs). \<lparr>tl_title = listTitle l, tl_items = map textTree cs\<rparr>) tops"
    by (rule nth_equalityI) (simp_all add: tops'_def nth_enumerate_eq text_map case_prod_beta)
  then show ?thesis
    using treeFromRows_laid [OF g(1) r o] treeFromRows_laid [OF g(1) copy_ok(2,3) [OF g(1) r made] o'] by simp
qed

declare newItemRow_fields [simp del] newListRow_fields [simp del]

end
