(* ===== verification/ChecklistLaws.thy ===== *)
theory ChecklistLaws
  imports ChecklistRestore ChecklistService ChecklistRepeat
begin

text \<open>
  What holds of the checklist tables whatever the checklist service has been asked to do: the invariant
  of the tables, and that every operation of the service keeps it and returns.
\<close>

section \<open>The invariant of a task's rows\<close>

definition parentsFollow :: "itemRow list \<Rightarrow> bool" where
  "parentsFollow live \<longleftrightarrow> (\<forall>i \<in> set live. kidsOf live i \<noteq> [] \<longrightarrow> (itemDone i \<longleftrightarrow> (\<forall>c \<in> set (kidsOf live i). itemDone c)))"

definition wellKept :: "(nat \<Rightarrow> ident) \<Rightarrow> ident \<Rightarrow> checklistRows \<Rightarrow> bool" where
  "wellKept newId t r \<longleftrightarrow> rowsOk newId t r \<and> homed r \<and> parentsFollow (filter isLive (cr_items r))"

definition tablesOk :: "(nat \<Rightarrow> ident) \<Rightarrow> checklistDb \<Rightarrow> bool" where
  "tablesOk newId db \<longleftrightarrow> uniqueRowIds db \<and> (\<forall>t. wellKept newId t (taskRows db t))"

text \<open>With every live item in a live checklist there is no home to give.\<close>

lemma home_of_homed:
  assumes "goodIds newId" "rowsOk newId t r" "homed r"
  shows "home newId t actor at r = r"
proof -
  have "\<not> homeless (liveListIds (cr_lists r)) i" if i: "i \<in> set (cr_items r)" for i
  proof (cases "isLive i")
    case True
    then obtain l where l: "l \<in> set (cr_lists r)" "isLiveList l" "itemList i = Some (listId l)" using assms(3) i by (auto simp: homed_def)
    have "listId l \<in> newId ` {..<cr_fresh r}" using rowsOkD(4) [OF assms(2)] l(1) by (auto simp: usedIds_def)
    then have "listId l \<noteq> []" using assms(1) unfolding goodIds_def by (metis imageE)
    then show ?thesis using l by (auto simp: homeless_def liveListIds_def)
  qed (simp add: homeless_def)
  then have "\<not> needsHome r" by (auto simp: needsHome_def list_ex_iff)
  then show ?thesis by (simp add: home_def)
qed

lemma under_links: "underRel (filter isLive is) \<subseteq> liveLinks is"
  by (auto simp: underRel_def kidsOf_def isUnder_def parentRel_def)

text \<open>After the parent rule the parents follow.\<close>

lemma settled_follow:
  assumes "treeOk (nodes is)"
  shows "parentsFollow (filter isLive (fst (settleParents is at actor)))"
proof -
  note t = assms [unfolded treeOk_items]
  have d: "distinct (map itemId (filter isLive is))" using t by (simp add: distinct_map_filter)
  have "acyclic (liveLinks is)" using bound_acyclic t by blast
  then have ac: "acyclic (underRel (filter isLive is))" using acyclic_subset [OF _ under_links] by blast
  show ?thesis unfolding settleParents_eq [OF d ac] parentsFollow_def fst_conv using parent_follows [OF ac] by blast
qed

text \<open>A change made in the hold, on well kept rows.\<close>

lemma held_keeps:
  assumes g: "goodIds newId" and r: "wellKept newId t r" and c: "heldEdit newId t actor at change r = Ok (v, r')"
    and k: "\<And>v r1. change r = Ok (v, r1) \<Longrightarrow> rowsOk newId t r1 \<and> homed r1 \<and> grown newId r r1"
  shows "wellKept newId t r' \<and> grown newId r r'"
proof -
  have "home newId t actor at r = r" using r by (intro home_of_homed [OF g]) (simp_all add: wellKept_def)
  then obtain r1 where r1: "change r = Ok (v, r1)" "r' = r1\<lparr>cr_items := fst (settleParents (cr_items r1) at actor)\<rparr>"
    using c unfolding heldEdit_def by (cases "change r") auto
  note o = k [OF r1(1)]
  have "list_all2 sameShape (fst (settleParents (cr_items r1) at actor)) (cr_items r1)" by (rule settleParents_shape)
  from rowsOk_reshaped [OF _ _ this] o have "rowsOk newId t r' \<and> homed r' \<and> grown newId r1 r'" unfolding r1(2) by blast
  moreover have "parentsFollow (filter isLive (cr_items r'))"
  proof -
    have "rowsOk newId t r1" using o by blast
    from settled_follow [OF rowsOkD(1) [OF this]] show ?thesis unfolding r1(2) by simp
  qed
  ultimately show ?thesis using o grown_trans unfolding wellKept_def by blast
qed

section \<open>The tables after an edit\<close>

lemma task_row: "i \<in> set (cdb_items db) \<Longrightarrow> i \<in> set (cr_items (taskRows db (itemTask i)))"
  "l \<in> set (cdb_lists db) \<Longrightarrow> l \<in> set (cr_lists (taskRows db (listTask l)))"
  by (simp_all add: taskRows_def)

lemma tables_used:
  assumes "tablesOk newId db"
  shows "itemId ` set (cdb_items db) \<subseteq> newId ` {..<cdb_fresh db}" "listId ` set (cdb_lists db) \<subseteq> newId ` {..<cdb_fresh db}"
proof -
  have u: "usedIds (taskRows db t) \<subseteq> newId ` {..<cdb_fresh db}" for t
    using assms rowsOkD(4) [of newId t "taskRows db t"] by (simp add: tablesOk_def wellKept_def taskRows_def)
  show "itemId ` set (cdb_items db) \<subseteq> newId ` {..<cdb_fresh db}"
  proof (rule image_subsetI)
    fix i assume "i \<in> set (cdb_items db)"
    then show "itemId i \<in> newId ` {..<cdb_fresh db}" using task_row(1) u [of "itemTask i"] unfolding usedIds_def by blast
  qed
  show "listId ` set (cdb_lists db) \<subseteq> newId ` {..<cdb_fresh db}"
  proof (rule image_subsetI)
    fix l assume "l \<in> set (cdb_lists db)"
    then show "listId l \<in> newId ` {..<cdb_fresh db}" using task_row(2) u [of "listTask l"] unfolding usedIds_def by blast
  qed
qed

lemma grown_ids:
  fixes newId :: "nat \<Rightarrow> ident"
  assumes inj: "inj newId" and ids: "map idOf after = map idOf before @ map newId ns" "distinct ns" "set ns \<subseteq> {n..<m}"
    and used: "idOf ` set table \<subseteq> newId ` {..<n}"
  shows "grownFrom idOf table before after"
proof -
  have "length before + length ns = length after" using arg_cong [OF ids(1), of length] by simp
  then have d: "map idOf (drop (length before) after) = map newId ns" using ids(1) by (simp add: drop_map [symmetric])
  have "take (length before) (map idOf after) = map idOf before" using ids(1) by simp
  moreover have "distinct (map newId ns)" using ids(2) inj_on_subset [OF inj] by (simp add: distinct_map)
  moreover have "newId k \<notin> idOf ` set table" if k: "k \<in> set ns" for k
  proof
    assume "newId k \<in> idOf ` set table"
    then obtain m where "m < n" "newId k = newId m" using used by auto
    moreover have "n \<le> k" using k ids(3) by auto
    ultimately show False using injD [OF inj, of k m] by simp
  qed
  then have "\<forall>x \<in> set (map newId ns). x \<notin> set (map idOf table)" by auto
  then have "list_all (\<lambda>r. idOf r \<notin> set (map idOf table)) (drop (length before) after)"
    unfolding d [symmetric] list_all_iff by simp
  ultimately show ?thesis using d by (simp add: grownFrom_def)
qed

lemma grown_draft:
  assumes g: "goodIds newId" and db: "tablesOk newId db" and r: "rowsOk newId t r" "grown newId (taskRows db t) r"
  shows "goodDraft db t r"
proof -
  have inj: "inj newId" using g by (simp add: goodIds_def)
  have f: "cr_fresh (taskRows db t) = cdb_fresh db" by (simp add: taskRows_def)
  from r(2) obtain ni nl where
    i: "map itemId (cr_items r) = map itemId (cr_items (taskRows db t)) @ map newId ni" "distinct ni" "set ni \<subseteq> {cdb_fresh db..<cr_fresh r}" and
    l: "map listId (cr_lists r) = map listId (cr_lists (taskRows db t)) @ map newId nl" "distinct nl" "set nl \<subseteq> {cdb_fresh db..<cr_fresh r}"
    unfolding grown_def f by blast
  show ?thesis
    using grown_ids [OF inj i tables_used(1) [OF db]] grown_ids [OF inj l tables_used(2) [OF db]] r(1)
    by (simp add: goodDraft_def rowsOk_def list_all_iff)
qed

lemma fresher:
  assumes "wellKept newId t r" "cr_fresh r \<le> n"
  shows "wellKept newId t (r\<lparr>cr_fresh := n\<rparr>)"
proof -
  have "usedIds (r\<lparr>cr_fresh := n\<rparr>) = usedIds r" by (simp add: usedIds_def)
  moreover have "homed (r\<lparr>cr_fresh := n\<rparr>) = homed r" by (simp add: homed_def)
  moreover have "usedIds r \<subseteq> newId ` {..<n}" using assms(1) unfolding wellKept_def by (intro used_later [OF rowsOkD(4) assms(2)]) blast
  ultimately show ?thesis using assms(1) unfolding wellKept_def rowsOk_def by simp
qed

lemma stored_ok:
  assumes g: "goodIds newId" and db: "tablesOk newId db" and s: "stored db t draft db'"
    and d: "wellKept newId t draft" "grown newId (taskRows db t) draft"
  shows "tablesOk newId db'"
proof -
  have k: "keptRows db' u = (if u = t then (cr_lists draft, cr_items draft) else keptRows db u)" for u
    using s by (simp add: stored_def)
  have f: "cdb_fresh db' = cr_fresh draft" "cdb_fresh db \<le> cr_fresh draft"
    using s d(2) by (simp_all add: stored_def grown_def taskRows_def)
  have "wellKept newId u (taskRows db' u)" for u
  proof (cases "u = t")
    case True
    then have "filter (\<lambda>l. listTask l = u) (cdb_lists db') = cr_lists draft" "filter (\<lambda>i. itemTask i = u) (cdb_items db') = cr_items draft"
      using k [of t] by (simp_all add: keptRows_def)
    then have "taskRows db' u = \<lparr>cr_lists = cr_lists draft, cr_items = cr_items draft, cr_fresh = cr_fresh draft\<rparr>"
      using f(1) by (simp add: taskRows_def)
    then have "taskRows db' u = draft" by (cases draft) simp
    then show ?thesis using d(1) True by simp
  next
    case False
    then have "filter (\<lambda>l. listTask l = u) (cdb_lists db') = filter (\<lambda>l. listTask l = u) (cdb_lists db)"
        "filter (\<lambda>i. itemTask i = u) (cdb_items db') = filter (\<lambda>i. itemTask i = u) (cdb_items db)"
      using k [of u] by (simp_all add: keptRows_def)
    then have "taskRows db' u = (taskRows db u)\<lparr>cr_fresh := cr_fresh draft\<rparr>" using f(1) by (simp add: taskRows_def)
    moreover have "wellKept newId u (taskRows db u)" using db by (simp add: tablesOk_def)
    ultimately show ?thesis using fresher [of newId u "taskRows db u" "cr_fresh draft"] f by (simp add: taskRows_def)
  qed
  then show ?thesis using s by (simp add: tablesOk_def stored_def)
qed

text \<open>An edit whose change keeps the task's rows well formed keeps the tables so.\<close>

lemma edit_keeps:
  assumes g: "goodIds newId" and db: "tablesOk newId db" and e: "edit newId db t actor at words change = Ok (x, told, db')"
    and k: "\<And>v r1. change (taskRows db t) = Ok (v, r1) \<Longrightarrow> rowsOk newId t r1 \<and> homed r1 \<and> grown newId (taskRows db t) r1"
  shows "tablesOk newId db'"
proof -
  define c where "c rows = thenDo (heldEdit newId t actor at change rows) (\<lambda>(v, r). Ok ((v, r), r))" for rows
  obtain v rows where p: "prismaEdit db t c = Ok (Some (v, rows), db')"
    using e unfolding edit_def c_def [abs_def] by (auto simp: thenDo_Ok split: option.splits prod.splits)
  have w: "wellKept newId t (taskRows db t)" and u: "uniqueRowIds db" using db by (simp_all add: tablesOk_def)
  have held: "wellKept newId t draft \<and> grown newId (taskRows db t) draft" if y: "c (taskRows db t) = Ok (y, draft)" for y draft
  proof -
    obtain v' where "heldEdit newId t actor at change (taskRows db t) = Ok (v', draft)" using y by (auto simp: c_def thenDo_Ok)
    then show ?thesis by (rule held_keeps [OF g w _ k])
  qed
  have "goodDraft db t draft" if "prismaRead db t = Some r" "c r = Ok (y, draft)" for r y draft
  proof -
    have "r = taskRows db t" using that(1) by (simp add: prismaRead_def split: if_splits)
    then show ?thesis using held that(2) grown_draft [OF g db] unfolding wellKept_def by blast
  qed
  then have "\<exists>y draft. c (taskRows db t) = Ok (y, draft) \<and> stored db t draft db'"
    using prismaStore.edit_outcome [where c = c, OF u p] by blast
  then obtain y draft where "c (taskRows db t) = Ok (y, draft)" "stored db t draft db'" by blast
  then show ?thesis using stored_ok [OF g db] held by blast
qed

section \<open>The purge\<close>

definition unlinked :: "ident list \<Rightarrow> itemRow \<Rightarrow> itemRow" where
  "unlinked old i = (case itemList i of None \<Rightarrow> i | Some l \<Rightarrow> if l \<in> set old then i\<lparr>itemList := None\<rparr> else i)"

lemma unlinked_fields [simp]:
  "itemId (unlinked old i) = itemId i" "itemTask (unlinked old i) = itemTask i" "itemParent (unlinked old i) = itemParent i"
  "isLive (unlinked old i) = isLive i" "itemBatch (unlinked old i) = itemBatch i"
  "itemList (unlinked old i) = (case itemList i of None \<Rightarrow> None | Some l \<Rightarrow> if l \<in> set old then None else Some l)"
  by (simp_all add: unlinked_def isLive_def split: option.split)

lemma unlinked_again: "unlinked b (unlinked a i) = unlinked (a @ b) i"
  by (auto simp: unlinked_def split: option.split)

lemma unlinkOld_map: "unlinkOld old is = map (unlinked old) is"
proof (induction old "is" rule: unlinkOld.induct)
  case (1 old "is")
  show ?case
  proof (cases "old = []")
    case True
    then show ?thesis by (subst unlinkOld.simps) (auto simp: unlinked_def intro!: map_idI [symmetric] split: option.split)
  next
    case False
    have step: "map (\<lambda>i. case itemList i of None \<Rightarrow> i | Some l \<Rightarrow> if l \<in> set (take 500 old) then i\<lparr>itemList := None\<rparr> else i) is
        = map (unlinked (take 500 old)) is" by (simp add: unlinked_def)
    have "unlinkOld old is = map (unlinked (drop 500 old)) (map (unlinked (take 500 old)) is)"
      using 1 [OF False] False unfolding step by (subst unlinkOld.simps) (simp add: step)
    then show ?thesis by (simp add: unlinked_again)
  qed
qed

lemma live_kept: "isLive i \<Longrightarrow> keepItem before i" "isLiveList l \<Longrightarrow> keepList before l"
  by (simp_all add: isLive_def isLiveList_def keepItem_def keepList_def)

lemma batches_filter: "set (listBatches_of (filter P ls)) \<subseteq> set (listBatches_of ls)"
  "distinct (listBatches_of ls) \<Longrightarrow> distinct (listBatches_of (filter P ls))"
proof -
  have "set (listBatches_of (filter P ls)) \<subseteq> set (listBatches_of ls)
      \<and> (distinct (listBatches_of ls) \<longrightarrow> distinct (listBatches_of (filter P ls)))"
    by (induction ls) (auto simp: listBatches_of_def map_filter_simps split: option.splits)
  then show "set (listBatches_of (filter P ls)) \<subseteq> set (listBatches_of ls)"
    "distinct (listBatches_of ls) \<Longrightarrow> distinct (listBatches_of (filter P ls))" by blast+
qed

lemma purge_tree:
  assumes t: "treeOk (nodes is)" and live: "\<And>i. i \<in> set is \<Longrightarrow> isLive i \<Longrightarrow> P i \<and> unlinked old i = i"
  shows "treeOk (nodes (map (unlinked old) (filter P is)))" "filter isLive (map (unlinked old) (filter P is)) = filter isLive is"
proof -
  note o = t [unfolded treeOk_items]
  let ?is = "map (unlinked old) (filter P is)"
  have "filter isLive ?is = map (unlinked old) (filter isLive (filter P is))" by (simp add: filter_map comp_def)
  also have "filter isLive (filter P is) = filter isLive is" unfolding filter_filter by (rule filter_cong) (use live in auto)
  also have "map (unlinked old) \<dots> = \<dots>" using live by (intro map_idI) auto
  finally show fl: "filter isLive ?is = filter isLive is" .
  have ids: "map itemId ?is = map itemId (filter P is)" by simp
  have sub: "\<exists>i \<in> set is. j = unlinked old i" if "j \<in> set ?is" for j using that by auto
  have rp: "realParents ?is" using o by (auto simp: realParents_def)
  have lp: "liveParents ?is"
    unfolding liveParents_def
  proof (intro ballI impI allI)
    fix c p assume c: "c \<in> set ?is" "isLive c" "itemParent c = Some p"
    have mem: "x \<in> set ?is \<and> isLive x \<longleftrightarrow> x \<in> set is \<and> isLive x" for x using arg_cong [OF fl, of set] by auto
    then have "c \<in> set is" using c by blast
    then obtain q where "q \<in> set is" "itemId q = p" "isLive q" "itemList q = itemList c" using liveParentsD [of "is", OF _ _ c(2,3)] o by blast
    then show "\<exists>q \<in> set ?is. itemId q = p \<and> isLive q \<and> itemList q = itemList c" using mem by blast
  qed
  have bl: "batchLists ?is"
    unfolding batchLists_def
  proof (intro ballI allI impI, elim conjE)
    fix c p b assume cp: "c \<in> set ?is" "p \<in> set ?is" "inBatch b c" "inBatch b p" "itemParent c = Some (itemId p)"
    obtain c' p' where x: "c' \<in> set is" "c = unlinked old c'" "p' \<in> set is" "p = unlinked old p'" using sub cp(1,2) by metis
    then have "itemList c' = itemList p'" using o cp(3-5) unfolding batchLists_def inBatch_def by simp
    then show "itemList c = itemList p" by (simp add: x)
  qed
  have bb: "batchLinks ?is b ^^ MAX_DEPTH = {}" for b
  proof (rule fewer_levels [where S = "batchLinks is b"])
    show "batchLinks is b ^^ MAX_DEPTH = {}" using o by blast
    show "batchLinks ?is b \<subseteq> batchLinks is b"
    proof (rule subrelI)
      fix k p assume "(k, p) \<in> batchLinks ?is b"
      then obtain x y where "x \<in> set is" "y \<in> set is" "inBatch b x" "inBatch b y" "itemParent x = Some (itemId y)" "k = itemId x" "p = itemId y"
        unfolding batchLinks_def by (auto simp: inBatch_def)
      then show "(k, p) \<in> batchLinks is b" unfolding batchLinks_def by blast
    qed
  qed
  have "distinct (map itemId (filter P is)) \<and> [] \<notin> set (map itemId (filter P is))" using o by (auto simp: distinct_map_filter)
  moreover have "liveLinks ?is ^^ MAX_DEPTH = {}" using o unfolding fl by blast
  ultimately show "treeOk (nodes ?is)" unfolding treeOk_items ids using rp lp bl bb by blast
qed

lemma purge_keeps:
  assumes r: "wellKept newId t r" and old: "\<And>l. l \<in> set (cr_lists r) \<Longrightarrow> isLiveList l \<Longrightarrow> listId l \<notin> set old"
  shows "wellKept newId t (r\<lparr>cr_lists := filter (keepList before) (cr_lists r), cr_items := map (unlinked old) (filter (keepItem before) (cr_items r))\<rparr>)"
proof -
  let ?is = "map (unlinked old) (filter (keepItem before) (cr_items r))"
  let ?ls = "filter (keepList before) (cr_lists r)"
  let ?r = "r\<lparr>cr_lists := ?ls, cr_items := ?is\<rparr>"
  have ok: "rowsOk newId t r" and h: "homed r" using r by (simp_all add: wellKept_def)
  have same: "keepItem before i \<and> unlinked old i = i" if i: "i \<in> set (cr_items r)" "isLive i" for i
  proof -
    obtain l where "l \<in> set (cr_lists r)" "isLiveList l" "itemList i = Some (listId l)" using h i unfolding homed_def by blast
    then show ?thesis using old live_kept(1) [OF i(2)] by (simp add: unlinked_def)
  qed
  note p = purge_tree [of "cr_items r" "keepItem before" old, OF rowsOkD(1) [OF ok] same]
  have lf: "filter isLiveList ?ls = filter isLiveList (cr_lists r)" unfolding filter_filter by (rule filter_cong) (use live_kept(2) in auto)
  have "listsOk ?ls" using rowsOkD(2) [OF ok] batches_filter(2) unfolding listsOk_def lf by (simp add: distinct_map_filter)
  moreover have "usedIds ?r \<subseteq> usedIds r" by (auto simp: usedIds_def)
  moreover have "homed ?r"
    unfolding homed_def
  proof (intro ballI impI)
    fix i assume "i \<in> set (cr_items ?r)" "isLive i"
    then have "i \<in> set (filter isLive ?is)" by simp
    then have "i \<in> set (filter isLive (cr_items r))" by (simp only: p(2))
    then have "i \<in> set (cr_items r)" "isLive i" by simp_all
    then obtain l where "l \<in> set (filter isLiveList (cr_lists r))" "itemList i = Some (listId l)" using h unfolding homed_def by auto
    then show "\<exists>l \<in> set (cr_lists ?r). isLiveList l \<and> itemList i = Some (listId l)" unfolding lf [symmetric] by auto
  qed
  ultimately show ?thesis using r p ok unfolding wellKept_def rowsOk_def by (auto simp del: filter_map)
qed

lemma purge_ok:
  assumes db: "tablesOk newId db"
  shows "tablesOk newId (snd (prismaPurge db before))"
proof -
  define old where "old = map listId (filter (\<lambda>l. \<not> keepList before l) (cdb_lists db))"
  let ?db = "snd (prismaPurge db before)"
  have lists: "cdb_lists ?db = filter (keepList before) (cdb_lists db)"
  proof (cases "old = []")
    case True
    then have "filter (keepList before) (cdb_lists db) = cdb_lists db" by (simp add: old_def filter_empty_conv filter_id_conv)
    then show ?thesis using True by (simp add: prismaPurge_def old_def [symmetric] Let_def)
  next
    case False
    have "filter (\<lambda>l. \<not> (listId l \<in> set old \<and> \<not> keepList before l)) (cdb_lists db) = filter (keepList before) (cdb_lists db)"
      by (rule filter_cong) (auto simp: old_def)
    then show ?thesis using False by (simp add: prismaPurge_def old_def [symmetric] Let_def)
  qed
  have items: "cdb_items ?db = map (unlinked old) (filter (keepItem before) (cdb_items db))"
  proof (cases "old = []")
    case True
    have "unlinked [] = (\<lambda>i. i)" by (rule ext) (simp add: unlinked_def split: option.split)
    then show ?thesis using True by (simp add: prismaPurge_def old_def [symmetric] Let_def)
  next
    case False
    then show ?thesis by (simp add: prismaPurge_def old_def [symmetric] Let_def unlinkOld_map)
  qed
  have fresh: "cdb_fresh ?db = cdb_fresh db" by (simp add: prismaPurge_def Let_def)
  have rows: "taskRows ?db t = (taskRows db t)\<lparr>cr_lists := filter (keepList before) (cr_lists (taskRows db t)),
      cr_items := map (unlinked old) (filter (keepItem before) (cr_items (taskRows db t)))\<rparr>" for t
    unfolding taskRows_def lists items fresh by (simp add: filter_map comp_def conj_commute)
  have "listId l \<notin> set old" if l: "l \<in> set (cr_lists (taskRows db t))" "isLiveList l" for l t
  proof
    assume "listId l \<in> set old"
    then obtain m where m: "m \<in> set (cdb_lists db)" "listId m = listId l" "\<not> keepList before m" by (auto simp: old_def)
    have "l \<in> set (cdb_lists db)" using l(1) by (simp add: taskRows_def)
    then have "m = l" using m(1,2) db unfolding tablesOk_def uniqueRowIds_def distinct_map by (auto dest: inj_onD)
    then show False using m(3) live_kept(2) [OF l(2)] by blast
  qed
  then have "wellKept newId t (taskRows ?db t)" for t
    unfolding rows using db by (intro purge_keeps) (auto simp: tablesOk_def)
  moreover have "uniqueRowIds ?db" using db unfolding tablesOk_def uniqueRowIds_def lists items by (simp add: distinct_map_filter comp_def)
  ultimately show ?thesis by (simp add: tablesOk_def)
qed

section \<open>What the service can make of the tables\<close>

text \<open>
  From empty tables: tasks come and go, ids are drawn, each operation's edit is run (with any arguments,
  on any task, whether or not the views it answers with can be made afterwards), and old rows are purged.
\<close>

definition noRows :: "checklistDb \<Rightarrow> ident \<Rightarrow> bool" where
  "noRows db t \<longleftrightarrow> cr_lists (taskRows db t) = [] \<and> cr_items (taskRows db t) = []"

inductive tablesReached :: "(nat \<Rightarrow> ident) \<Rightarrow> checklistDb \<Rightarrow> bool" for newId where
  start: "cdb_lists db = [] \<Longrightarrow> cdb_items db = [] \<Longrightarrow> tablesReached newId db"
| tasksChange: "tablesReached newId db \<Longrightarrow> tablesReached newId (db\<lparr>cdb_liveTasks := ts\<rparr>)"
| idDrawn: "tablesReached newId db \<Longrightarrow> tablesReached newId (nextId db)"
| itemsAdded: "tablesReached newId db
    \<Longrightarrow> edit newId db t actor at words (addChange newId t actor at texts assignee due place) = Ok (x, told, db') \<Longrightarrow> tablesReached newId db'"
| itemUpdated: "tablesReached newId db
    \<Longrightarrow> edit newId db t actor at words (updateChange actor at k patch) = Ok (y, told, db') \<Longrightarrow> tablesReached newId db'"
| itemRemoved: "tablesReached newId db
    \<Longrightarrow> edit newId (nextId db) t actor at words (removeChange actor at (newId (cdb_fresh db)) k) = Ok (z, told, db') \<Longrightarrow> tablesReached newId db'"
| itemCopied: "tablesReached newId db
    \<Longrightarrow> edit newId db t actor at words (duplicateChange newId at k) = Ok (u, told, db') \<Longrightarrow> tablesReached newId db'"
| itemMoved: "tablesReached newId db
    \<Longrightarrow> edit newId db t actor at words (moveChange at k move) = Ok (v, told, db') \<Longrightarrow> tablesReached newId db'"
| itemsReordered: "tablesReached newId db
    \<Longrightarrow> edit newId db t actor at words (reorderChange at ids) = Ok (w, told, db') \<Longrightarrow> tablesReached newId db'"
| listAdded: "tablesReached newId db
    \<Longrightarrow> edit newId db t actor at words (addListChange newId t actor at title after) = Ok (l, told, db') \<Longrightarrow> tablesReached newId db'"
| listRenamed: "tablesReached newId db
    \<Longrightarrow> edit newId db t actor at words (renameChange at k title) = Ok (m, told, db') \<Longrightarrow> tablesReached newId db'"
| listCopied: "tablesReached newId db
    \<Longrightarrow> edit newId db t actor at words (duplicateListChange newId t actor at k) = Ok (n, told, db') \<Longrightarrow> tablesReached newId db'"
| listRemoved: "tablesReached newId db
    \<Longrightarrow> edit newId (nextId db) t actor at words (removeListChange actor at (newId (cdb_fresh db)) k) = Ok (o', told, db') \<Longrightarrow> tablesReached newId db'"
| batchRestored: "tablesReached newId db
    \<Longrightarrow> edit newId db t actor at words (restoreChange newId t actor at since batch) = Ok (p, told, db') \<Longrightarrow> tablesReached newId db'"
| oldPurged: "tablesReached newId db \<Longrightarrow> tablesReached newId (snd (purge_cl at db))"
| taskMade: "tablesReached newId db \<Longrightarrow> noRows db t \<Longrightarrow> treeLimits tree = None
    \<Longrightarrow> tablesReached newId (writeNew db (rowsFromTree newId (cdb_fresh db) t tree actor at))"
| taskRepeated: "tablesReached newId db \<Longrightarrow> noRows db t
    \<Longrightarrow> copyRowsForRepeat newId (cdb_fresh db) (taskRows db source) t shift at = Some r
    \<Longrightarrow> tablesReached newId (writeNew db (r\<lparr>cr_items := withPeople allowed (cr_items r)\<rparr>))"

lemma keepsD: "keeps newId t change \<Longrightarrow> wellKept newId t r \<Longrightarrow> change r = Ok (v, r') \<Longrightarrow> rowsOk newId t r' \<and> homed r' \<and> grown newId r r'"
  unfolding keeps_def wellKept_def by blast

lemma edit_of_keeps:
  assumes "goodIds newId" "keeps newId t change" "tablesOk newId db" "edit newId db t actor at words change = Ok (x, told, db')"
  shows "tablesOk newId db'"
  by (rule edit_keeps [OF assms(1,3,4)]) (rule keepsD [OF assms(2)], use assms(3) in \<open>simp_all add: tablesOk_def\<close>)

lemma nextId_ok: "tablesOk newId db \<Longrightarrow> tablesOk newId (nextId db)"
proof -
  assume db: "tablesOk newId db"
  have "taskRows (nextId db) t = (taskRows db t)\<lparr>cr_fresh := Suc (cdb_fresh db)\<rparr>" for t by (simp add: taskRows_def nextId_def)
  moreover have "wellKept newId t ((taskRows db t)\<lparr>cr_fresh := Suc (cdb_fresh db)\<rparr>)" for t
    by (rule fresher) (use db in \<open>simp_all add: tablesOk_def taskRows_def\<close>)
  ultimately show ?thesis using db by (simp add: tablesOk_def uniqueRowIds_def nextId_def)
qed

text \<open>A batch id drawn just before: no row has it yet.\<close>

lemma edit_of_keepsFrom:
  assumes g: "goodIds newId" and k: "keepsFrom newId t (newId (cdb_fresh db)) change" and db: "tablesOk newId db"
    and e: "edit newId (nextId db) t actor at words change = Ok (x, told, db')"
  shows "tablesOk newId db'"
proof (rule edit_keeps [OF g nextId_ok [OF db] e])
  let ?r = "taskRows (nextId db) t"
  fix v r1 assume c: "change ?r = Ok (v, r1)"
  have w: "rowsOk newId t (taskRows db t)" using db by (simp add: tablesOk_def wellKept_def)
  have "newId (cdb_fresh db) \<notin> usedIds (taskRows db t)" by (rule newId_unused [OF g rowsOkD(4) [OF w]]) (simp add: taskRows_def)
  then have "unusedBatch ?r (newId (cdb_fresh db))" by (simp add: unusedBatch_def usedIds_def taskRows_def nextId_def)
  moreover have "newId (cdb_fresh db) \<in> newId ` {..<cr_fresh ?r}" by (simp add: taskRows_def nextId_def)
  moreover have "rowsOk newId t ?r" "homed ?r" using nextId_ok [OF db] by (simp_all add: tablesOk_def wellKept_def)
  ultimately show "rowsOk newId t r1 \<and> homed r1 \<and> grown newId ?r r1" using k c unfolding keepsFrom_def by blast
qed

lemma start_ok: "cdb_lists db = [] \<Longrightarrow> cdb_items db = [] \<Longrightarrow> tablesOk newId db"
  by (simp add: tablesOk_def uniqueRowIds_def taskRows_def wellKept_def rowsOk_def treeOk_items realParents_def liveParents_def
      batchLists_def batchLinks_def parentRel_def listsOk_def listBatches_of_def map_filter_simps usedIds_def homed_def parentsFollow_def
      MAX_DEPTH_def relpow_empty)

lemma restore_keeps: "goodIds newId \<Longrightarrow> keeps newId t (restoreChange newId t actor at since batch)"
  by (rule keepsI) (rule restoreChange_ok(2))

text \<open>Rows written for a task that has none: those a tree makes, and the copy for a repeat.\<close>

lemma unticked_follow: "(\<And>i. i \<in> set live \<Longrightarrow> \<not> itemDone i) \<Longrightarrow> parentsFollow live"
  unfolding parentsFollow_def using kidsOf_live by (metis list.set_sel(1) subsetD)

lemma disjoint_within: "A \<subseteq> X \<Longrightarrow> B \<subseteq> Y \<Longrightarrow> X \<inter> Y = {} \<Longrightarrow> A \<inter> B = {}"
  by blast

lemma written_ok:
  assumes g: "goodIds newId" and db: "tablesOk newId db" and none: "noRows db t"
    and s: "sprouted newId (cdb_fresh db) t r" and r: "rowsOk newId t r" "homed r"
  shows "tablesOk newId (writeNew db r)"
proof -
  note S = s [unfolded sprouted_def]
  have le: "cdb_fresh db \<le> cr_fresh r" using S by blast
  have "wellKept newId u (taskRows (writeNew db r) u)" for u
  proof (cases "u = t")
    case True
    have "taskRows (writeNew db r) u = r"
      using none S True by (simp add: noRows_def taskRows_def writeNew_def freshList_def filter_id_conv)
    moreover have "parentsFollow (filter isLive (cr_items r))" using S by (intro unticked_follow) simp
    ultimately show ?thesis using r True by (simp add: wellKept_def)
  next
    case False
    have "filter (\<lambda>l. listTask l = u) (cr_lists r) = []" "filter (\<lambda>i. itemTask i = u) (cr_items r) = []"
      using S False by (auto simp: filter_empty_conv freshList_def)
    then have "taskRows (writeNew db r) u = (taskRows db u)\<lparr>cr_fresh := cr_fresh r\<rparr>" by (simp add: taskRows_def writeNew_def)
    moreover have "wellKept newId u (taskRows db u)" using db by (simp add: tablesOk_def)
    ultimately show ?thesis using fresher [of newId u "taskRows db u" "cr_fresh r"] le by (simp add: taskRows_def)
  qed
  moreover have "uniqueRowIds (writeNew db r)"
  proof -
    have inj: "inj newId" using g by (simp add: goodIds_def)
    have apart: "newId ` {..<cdb_fresh db} \<inter> newId ` {cdb_fresh db..<cr_fresh r} = {}" using inj by (auto simp: inj_eq)
    have new: "itemId ` set (cr_items r) \<subseteq> newId ` {cdb_fresh db..<cr_fresh r}" "listId ` set (cr_lists r) \<subseteq> newId ` {cdb_fresh db..<cr_fresh r}"
      using S by blast+
    have "itemId ` set (cdb_items db) \<inter> itemId ` set (cr_items r) = {}" "listId ` set (cdb_lists db) \<inter> listId ` set (cr_lists r) = {}"
      using disjoint_within [OF tables_used(1) [OF db] new(1) apart] disjoint_within [OF tables_used(2) [OF db] new(2) apart] by simp_all
    then show ?thesis using db S by (simp add: tablesOk_def uniqueRowIds_def writeNew_def)
  qed
  ultimately show ?thesis by (simp add: tablesOk_def)
qed

lemma withPeople_shape: "list_all2 sameShape (withPeople allowed is) is"
  unfolding withPeople_def
  by (auto simp: list_all2_map1 list.rel_refl sameShape_def nodeOf_def isLive_def split: option.split intro!: list.rel_refl_strong)

lemma withPeople_sprouted:
  assumes s: "sprouted newId n t r"
  shows "sprouted newId n t (r\<lparr>cr_items := withPeople allowed (cr_items r)\<rparr>)"
proof -
  let ?f = "\<lambda>i. case itemAssignee i of None \<Rightarrow> i | Some u \<Rightarrow> if u \<in> allowed then i else i\<lparr>itemAssignee := None\<rparr>"
  have f: "itemId (?f i) = itemId i \<and> isLive (?f i) = isLive i \<and> itemTask (?f i) = itemTask i \<and> itemBatch (?f i) = itemBatch i
      \<and> itemDone (?f i) = itemDone i \<and> itemList (?f i) = itemList i" for i
    by (simp add: isLive_def split: option.split)
  show ?thesis using s unfolding sprouted_def withPeople_def by (simp add: f image_image comp_def)
qed

lemma tables_reached_ok:
  assumes g: "goodIds newId"
  shows "tablesReached newId db \<Longrightarrow> tablesOk newId db"
proof (induction rule: tablesReached.induct)
  case (start db)
  then show ?case by (rule start_ok)
next
  case (tasksChange db ts)
  have "taskRows (db\<lparr>cdb_liveTasks := ts\<rparr>) t = taskRows db t" for t by (simp add: taskRows_def)
  then show ?case using tasksChange by (simp add: tablesOk_def uniqueRowIds_def)
next
  case itemsAdded
  show ?case by (rule edit_of_keeps [OF g add_keeps [OF g] itemsAdded.IH itemsAdded.hyps(2)])
next
  case itemUpdated
  show ?case by (rule edit_of_keeps [OF g update_keeps itemUpdated.IH itemUpdated.hyps(2)])
next
  case itemRemoved
  show ?case by (rule edit_of_keepsFrom [OF g remove_keeps [OF g] itemRemoved.IH itemRemoved.hyps(2)])
next
  case itemCopied
  show ?case by (rule edit_of_keeps [OF g duplicate_keeps [OF g] itemCopied.IH itemCopied.hyps(2)])
next
  case itemMoved
  show ?case by (rule edit_of_keeps [OF g move_keeps itemMoved.IH itemMoved.hyps(2)])
next
  case itemsReordered
  show ?case by (rule edit_of_keeps [OF g reorder_keeps itemsReordered.IH itemsReordered.hyps(2)])
next
  case listAdded
  show ?case by (rule edit_of_keeps [OF g add_list_keeps [OF g] listAdded.IH listAdded.hyps(2)])
next
  case listRenamed
  show ?case by (rule edit_of_keeps [OF g rename_keeps listRenamed.IH listRenamed.hyps(2)])
next
  case listCopied
  show ?case by (rule edit_of_keeps [OF g duplicate_list_keeps [OF g] listCopied.IH listCopied.hyps(2)])
next
  case listRemoved
  show ?case by (rule edit_of_keepsFrom [OF g remove_list_keeps [OF g] listRemoved.IH listRemoved.hyps(2)])
next
  case batchRestored
  show ?case by (rule edit_of_keeps [OF g restore_keeps [OF g] batchRestored.IH batchRestored.hyps(2)])
next
  case (oldPurged db at)
  then show ?case unfolding purge_cl_def by (intro purge_ok)
next
  case (idDrawn db)
  then show ?case by (intro nextId_ok)
next
  case (taskMade db t tree actor at)
  show ?case using rowsFromTree_ok [OF g refl taskMade.hyps(3)] by (intro written_ok [OF g taskMade.IH taskMade.hyps(2)])
next
  case (taskRepeated db t source shift at r allowed)
  have src: "rowsOk newId source (taskRows db source)" "homed (taskRows db source)"
    using taskRepeated.IH by (simp_all add: tablesOk_def wellKept_def)
  note c = copy_ok [OF g src taskRepeated.hyps(3)]
  show ?case
    using rowsOk_reshaped [OF c(2,3) withPeople_shape]
    by (intro written_ok [OF g taskRepeated.IH taskRepeated.hyps(2) withPeople_sprouted [OF c(1)]]) blast+
qed

text \<open>An item's level counts a chain of links, so within the levels of the tree.\<close>

lemma depthFrom_is_chain: "\<exists>n a. depthFrom live seen d k = d + int n \<and> (k, a) \<in> parentRel live ^^ n"
proof (induction live seen d k rule: depthFrom.induct)
  case (1 live seen d k)
  show ?case
  proof (cases "\<exists>cur p. byId live k = Some cur \<and> itemParent cur = Some p \<and> p \<noteq> [] \<and> byId live p \<noteq> None \<and> itemId cur \<notin> set seen")
    case True
    then obtain cur p where c: "byId live k = Some cur" "itemParent cur = Some p" "p \<noteq> [] \<and> byId live p \<noteq> None \<and> itemId cur \<notin> set seen" by blast
    from "1.IH" [OF c] obtain n a where n: "depthFrom live (itemId cur # seen) (d + 1) p = d + 1 + int n" "(p, a) \<in> parentRel live ^^ n" by blast
    have "(k, p) \<in> parentRel live" using byId_mem [OF c(1)] c(2) by (auto simp: parentRel_def)
    then have "(k, a) \<in> parentRel live ^^ Suc n" using n(2) by (rule relpow_Suc_I2)
    moreover have "depthFrom live seen d k = d + int (Suc n)" using n(1) c by (subst depthFrom.simps) simp
    ultimately show ?thesis by blast
  next
    case False
    have "depthFrom live seen d k = d"
    proof (cases "byId live k")
      case None
      then show ?thesis unfolding depthFrom.simps [of live seen d k] by simp
    next
      case (Some cur)
      then show ?thesis unfolding depthFrom.simps [of live seen d k] using False by (cases "itemParent cur") auto
    qed
    then have "depthFrom live seen d k = d + int 0 \<and> (k, k) \<in> parentRel live ^^ 0" by simp
    then show ?thesis by (intro exI)
  qed
qed

lemma depth_within:
  assumes "liveLinks is ^^ MAX_DEPTH = {}"
  shows "depthOf is (Some k) < int MAX_DEPTH"
proof (cases "k = []")
  case False
  obtain n a where "depthFrom (filter isLive is) [] 0 k = 0 + int n" "(k, a) \<in> liveLinks is ^^ n" using depthFrom_is_chain by blast
  then show ?thesis using chain_bound [OF assms] False by (simp add: depthOf_def)
qed (simp add: depthOf_def)

subsection \<open>Tables made by the service\<close>

definition emptyDb :: checklistDb where
  "emptyDb = \<lparr>cdb_lists = [], cdb_items = [], cdb_fresh = 0, cdb_liveTasks = [''t'']\<rparr>"

text \<open>Two items added, one below the first, the sub-item ticked, the first deleted with its sub-item.\<close>

definition dbAfter :: "('a \<times> checklistRows) served \<Rightarrow> checklistDb" where
  "dbAfter res = (case res of Ok (x, told, db) \<Rightarrow> db | _ \<Rightarrow> emptyDb)"

definition addTwo :: "((ident list \<times> string \<times> string option) \<times> checklistRows) served" where
  "addTwo = edit sampleId emptyDb ''t'' None 1 True (addChange sampleId ''t'' None 1 [''A'', ''B''] None None ANYWHERE)"

definition addBelow :: "((ident list \<times> string \<times> string option) \<times> checklistRows) served" where
  "addBelow = edit sampleId (dbAfter addTwo) ''t'' None 2 True
     (addChange sampleId ''t'' None 2 [''A1''] None None (ANYWHERE\<lparr>pl_parent := Some (sampleId 1)\<rparr>))"

definition tickBelow :: "(arrangedItem \<times> checklistRows) served" where
  "tickBelow = edit sampleId (dbAfter addBelow) ''t'' (Some ''u'') 3 False (updateChange (Some ''u'') 3 (sampleId 3) (NO_PATCH\<lparr>ip_done := Some True\<rparr>))"

definition deleteFirst :: "((nat \<times> string) \<times> checklistRows) served" where
  "deleteFirst = edit sampleId (nextId (dbAfter tickBelow)) ''t'' None 4 True
     (removeChange None 4 (sampleId (cdb_fresh (dbAfter tickBelow))) (sampleId 1))"

fun isOk :: "'a outcome \<Rightarrow> bool" where
  "isOk (Ok a) = True"
| "isOk r = False"

lemma isOk_after: "isOk res \<Longrightarrow> \<exists>x told. res = Ok (x, told, dbAfter res)"
  by (cases res) (auto simp: dbAfter_def)

lemma sample_runs: "isOk addTwo" "isOk addBelow" "isOk tickBelow" "isOk deleteFirst"
  by code_simp+

lemma sample_rows_after:
  "map (\<lambda>i. (itemId i, itemParent i, itemDone i)) (cdb_items (dbAfter tickBelow))
     = [(sampleId 1, None, True), (sampleId 2, None, False), (sampleId 3, Some (sampleId 1), True)]"
  "map (\<lambda>i. (itemId i, itemBatch i)) (cdb_items (dbAfter deleteFirst))
     = [(sampleId 1, Some (sampleId 4)), (sampleId 2, None), (sampleId 3, Some (sampleId 4))]"
  by code_simp+

lemma sample_reached: "tablesReached sampleId (dbAfter tickBelow)" "tablesReached sampleId (dbAfter deleteFirst)"
proof -
  have "tablesReached sampleId emptyDb" by (rule tablesReached.start) (simp_all add: emptyDb_def)
  then have "tablesReached sampleId (dbAfter addTwo)"
    using isOk_after [OF sample_runs(1)] unfolding addTwo_def by (blast intro: tablesReached.itemsAdded)
  then have "tablesReached sampleId (dbAfter addBelow)"
    using isOk_after [OF sample_runs(2)] unfolding addBelow_def by (blast intro: tablesReached.itemsAdded)
  then show t: "tablesReached sampleId (dbAfter tickBelow)"
    using isOk_after [OF sample_runs(3)] unfolding tickBelow_def by (blast intro: tablesReached.itemUpdated)
  show "tablesReached sampleId (dbAfter deleteFirst)"
    using t isOk_after [OF sample_runs(4)] unfolding deleteFirst_def by (blast intro: tablesReached.itemRemoved)
qed

section \<open>Properties\<close>

definition liveItemsOf :: "checklistDb \<Rightarrow> ident \<Rightarrow> itemRow list" where
  "liveItemsOf db t = filter isLive (cr_items (taskRows db t))"

definition liveListsOf :: "checklistDb \<Rightarrow> ident \<Rightarrow> listRow list" where
  "liveListsOf db t = filter isLiveList (cr_lists (taskRows db t))"

text \<open>
  C1. Whatever the checklist service is asked to do, in whatever order (adding, ticking and editing,
  deleting, copying, moving, reordering, restoring, purging, for any tasks): ids stay unique, and of every
  task at most 500 items and 50 checklists are live, no live item is below itself or deeper than 20 levels,
  each is in a live checklist, its parent is a live item of the same checklist, and a parent is ticked
  exactly when all its sub-items are.
\<close>

theorem checklists_stay_well_formed:
  assumes "goodIds newId" "tablesReached newId db"
  shows "uniqueRowIds db \<and> length (liveItemsOf db t) \<le> MAX_ITEMS \<and> length (liveListsOf db t) \<le> MAX_LISTS \<and> acyclic (parentRel (liveItemsOf db t))
    \<and> (\<forall>i \<in> set (liveItemsOf db t).
         depthOf (liveItemsOf db t) (Some (itemId i)) < int MAX_DEPTH
         \<and> (\<exists>l \<in> set (liveListsOf db t). itemList i = Some (listId l))
         \<and> (\<forall>p. itemParent i = Some p \<longrightarrow> (\<exists>q \<in> set (liveItemsOf db t). itemId q = p \<and> itemList q = itemList i))
         \<and> (kidsOf (liveItemsOf db t) i \<noteq> [] \<longrightarrow> (itemDone i \<longleftrightarrow> (\<forall>c \<in> set (kidsOf (liveItemsOf db t) i). itemDone c))))"
proof -
  have ok: "tablesOk newId db" by (rule tables_reached_ok [OF assms(1,2)])
  then have w: "rowsOk newId t (taskRows db t)" "homed (taskRows db t)" "parentsFollow (liveItemsOf db t)"
    by (simp_all add: tablesOk_def wellKept_def liveItemsOf_def)
  note o = rowsOkD [OF w(1)]
  have lv: "liveLinks (cr_items (taskRows db t)) ^^ MAX_DEPTH = {}" and lp: "liveParents (cr_items (taskRows db t))"
    using o(1) by (simp_all add: treeOk_items)
  have "depthOf (liveItemsOf db t) (Some k) < int MAX_DEPTH" for k by (rule depth_within) (use lv in \<open>simp add: liveItemsOf_def\<close>)
  moreover have "\<exists>l \<in> set (liveListsOf db t). itemList i = Some (listId l)" if "i \<in> set (liveItemsOf db t)" for i
    using w(2) that by (auto simp: homed_def liveItemsOf_def liveListsOf_def)
  moreover have "\<exists>q \<in> set (liveItemsOf db t). itemId q = p \<and> itemList q = itemList i" if "i \<in> set (liveItemsOf db t)" "itemParent i = Some p" for i p
    using lp that unfolding liveParents_def liveItemsOf_def by auto
  moreover have "acyclic (parentRel (liveItemsOf db t))" using bound_acyclic [OF lv] by (simp add: liveItemsOf_def)
  moreover have "length (liveListsOf db t) \<le> MAX_LISTS" "length (liveItemsOf db t) \<le> MAX_ITEMS" using o(2,3) by (simp_all add: listsOk_def liveListsOf_def liveItemsOf_def)
  ultimately show ?thesis using ok w(3) unfolding parentsFollow_def tablesOk_def by blast
qed

theorem checklists_stay_well_formed_witness:
  "uniqueRowIds (dbAfter tickBelow) \<and> acyclic (parentRel (liveItemsOf (dbAfter tickBelow) ''t''))
    \<and> map (\<lambda>i. (itemId i, itemParent i, itemDone i)) (cdb_items (dbAfter tickBelow))
        = [(sampleId 1, None, True), (sampleId 2, None, False), (sampleId 3, Some (sampleId 1), True)]"
  using checklists_stay_well_formed [OF sampleId_good sample_reached(1), of "''t''"] sample_rows_after(1) by blast

text \<open>
  C4. Restoring a deleted batch always returns (or throws): the \<open>while\<close> loop that brings an item up until
  it is within the levels ends, for every batch, task and time, in whatever state the service made.
\<close>

theorem restore_always_returns:
  assumes "goodIds newId" "tablesReached newId db"
  shows "restore deps newId now db t actor batch \<noteq> Endless"
proof -
  have ok: "tablesOk newId db" by (rule tables_reached_ok [OF assms])
  let ?r = "taskRows db t" and ?since = "now - RESTORE_DAYS * DAY_MS_cl"
  have w: "rowsOk newId t ?r" "homed ?r" using ok by (simp_all add: tablesOk_def wellKept_def)
  have "heldEdit newId t actor now (restoreChange newId t actor now ?since batch) ?r \<noteq> Endless"
    unfolding heldEdit_def home_of_homed [OF assms(1) w] thenDo_Endless
    using restoreChange_ok(1) [OF assms(1) w] by (auto split: prod.splits)
  then have "edit newId db t actor now True (restoreChange newId t actor now ?since batch) \<noteq> Endless"
    unfolding edit_def prismaEdit_def thenDo_Endless by (auto simp: thenDo_Endless Let_def split: option.splits prod.splits if_splits)
  moreover have "ensureTask_cl deps t \<noteq> Endless" by (auto simp: ensureTask_cl_def split: option.split)
  ultimately show ?thesis unfolding restore_def Let_def thenDo_Endless by (auto split: prod.splits)
qed

theorem restore_always_returns_witness:
  "restore \<lparr>cd_taskExists = None, cd_eligible = None, cd_namesOf = None\<rparr> sampleId 5 (dbAfter deleteFirst) ''t'' None (sampleId 4) \<noteq> Endless
    \<and> map (\<lambda>i. (itemId i, itemBatch i)) (cdb_items (dbAfter deleteFirst))
        = [(sampleId 1, Some (sampleId 4)), (sampleId 2, None), (sampleId 3, Some (sampleId 4))]"
  using restore_always_returns [OF sampleId_good sample_reached(2)] sample_rows_after(2) by blast

end
