(* ===== verification/ChecklistAnswers.thy ===== *)
theory ChecklistAnswers
  imports ChecklistLaws
begin

text \<open>
  What the service answers with after a change is there: the items and checklists a change made, copied or
  moved are among the arranged ones, so nothing the code takes for present is missing, and no operation
  throws once its change is saved.
\<close>

section \<open>What is live is arranged\<close>

lemma thenDo_Thrown: "thenDo r f = Thrown e \<longleftrightarrow> r = Thrown e \<or> (\<exists>a. r = Ok a \<and> f a = Thrown e)"
  by (cases r) auto

lemma arranged_live:
  assumes "goodIds newId" "rowsOk newId t r" "i \<in> set (cr_items r)" "isLive i"
  shows "\<exists>a \<in> set (arrangedItems r). itemId (ai_row a) = itemId i"
proof -
  obtain a where a: "arrange (cr_lists r) (cr_items r) = Some a" using arrange_returns [OF kept_keyed(1) [OF assms(1,2)]] by blast
  have "itemId i \<in># shownIds (ar_items a)" using arrange_shown [OF kept_keyed [OF assms(1,2)] a] assms(3,4) by simp
  then show ?thesis using a by (auto simp: shownIds_def arrangedItems_def)
qed

lemma arrangeLists_lists: "arrangeLists fuel live ls = Some (als, es, d, t) \<Longrightarrow> map al_row als = ls"
  by (induction ls arbitrary: als es d t) (auto split: option.splits)

lemma arranged_lists:
  assumes g: "goodIds newId" and r: "rowsOk newId t r" and l: "l \<in> set (cr_lists r)" "isLiveList l"
  shows "\<exists>a \<in> set (arrangedLists r). listId (al_row a) = listId l"
proof -
  obtain a where a: "arrange (cr_lists r) (cr_items r) = Some a" using arrange_returns [OF kept_keyed(1) [OF g r]] by blast
  obtain ls "is" where h: "withHome (cr_lists r) (cr_items r) = (ls, is)" by fastforce
  have "l \<in> set (liveLists ls)"
    using h l by (auto simp: withHome_def Let_def mem_liveLists split: list.splits)
  moreover have "map al_row (ar_lists a) = liveLists ls"
    using a arrangeLists_lists by (auto simp: arrange_def h Let_def split: option.splits)
  ultimately have "l \<in> al_row ` set (ar_lists a)" by (metis list.set_map)
  then show ?thesis using a by (auto simp: arrangedLists_def)
qed

lemma found_Some: "x \<in> set xs \<Longrightarrow> P x \<Longrightarrow> \<exists>y. find P xs = Some y"
  by (induction xs) auto

text \<open>A live item and a live checklist of the rows, by their ids.\<close>

definition hasItem :: "checklistRows \<Rightarrow> ident \<Rightarrow> bool" where
  "hasItem r k \<longleftrightarrow> (\<exists>i \<in> set (cr_items r). itemId i = k \<and> isLive i)"

definition hasList :: "checklistRows \<Rightarrow> ident \<Rightarrow> bool" where
  "hasList r k \<longleftrightarrow> (\<exists>l \<in> set (cr_lists r). listId l = k \<and> isLiveList l)"

lemma itemFrom_found: "goodIds newId \<Longrightarrow> rowsOk newId t r \<Longrightarrow> hasItem r k \<Longrightarrow> \<exists>v. itemFrom deps r k = Ok v"
  using arranged_live [of newId t r] found_Some [of _ "arrangedItems r" "\<lambda>a. itemId (ai_row a) = k"]
  unfolding hasItem_def itemFrom_def by force

lemma listFrom_found: "goodIds newId \<Longrightarrow> rowsOk newId t r \<Longrightarrow> hasList r k \<Longrightarrow> \<exists>v. listFrom r k = Ok v"
  using arranged_lists [of newId t r] found_Some [of _ "arrangedLists r" "\<lambda>l. listId (al_row l) = k"]
  unfolding hasList_def listFrom_def by force

lemma hasItem_shape: "list_all2 sameShape (cr_items r') (cr_items r) \<Longrightarrow> hasItem r' k = hasItem r k"
proof -
  assume "list_all2 sameShape (cr_items r') (cr_items r)"
  then have "map (\<lambda>i. (itemId i, isLive i)) (cr_items r') = map (\<lambda>i. (itemId i, isLive i)) (cr_items r)"
    by (induction rule: list_all2_induct) (auto dest: sameShapeD)
  then have "(\<lambda>i. (itemId i, isLive i)) ` set (cr_items r') = (\<lambda>i. (itemId i, isLive i)) ` set (cr_items r)" by (rule map_image_eq)
  moreover have "hasItem x k \<longleftrightarrow> (k, True) \<in> (\<lambda>i. (itemId i, isLive i)) ` set (cr_items x)" for x by (auto simp: hasItem_def image_iff)
  ultimately show ?thesis by simp
qed

lemma hasList_shape: "map listShape ls = map listShape (cr_lists r) \<Longrightarrow> hasList (r\<lparr>cr_lists := ls\<rparr>) k = hasList r k"
proof -
  assume "map listShape ls = map listShape (cr_lists r)"
  from listShape_fields(6) [OF this] have "k \<in> set (map listId (filter isLiveList ls)) \<longleftrightarrow> k \<in> set (map listId (filter isLiveList (cr_lists r)))" by simp
  then show ?thesis unfolding hasList_def by (auto simp: image_iff)
qed

section \<open>The rows an edit answers with\<close>

lemma edit_rows:
  assumes g: "goodIds newId" and db: "tablesOk newId db" and e: "edit newId db t actor at words change = Ok ((v, rows), told, db')"
    and k: "keeps newId t change"
  obtains r1 where "change (taskRows db t) = Ok (v, r1)" "rowsOk newId t rows" "list_all2 sameShape (cr_items rows) (cr_items r1)"
    "cr_lists rows = cr_lists r1"
proof -
  have w: "wellKept newId t (taskRows db t)" using db by (simp add: tablesOk_def)
  then have home: "home newId t actor at (taskRows db t) = taskRows db t" by (intro home_of_homed [OF g]) (simp_all add: wellKept_def)
  have held: "heldEdit newId t actor at change (taskRows db t) = Ok (v, rows)"
    using e unfolding edit_def prismaEdit_def by (auto simp: Let_def split: option.splits prod.splits if_splits)
  then obtain r1 where r1: "change (taskRows db t) = Ok (v, r1)" "rows = r1\<lparr>cr_items := fst (settleParents (cr_items r1) at actor)\<rparr>"
    unfolding heldEdit_def home by (cases "change (taskRows db t)") auto
  have "\<And>v r1. change (taskRows db t) = Ok (v, r1) \<Longrightarrow> rowsOk newId t r1 \<and> homed r1 \<and> grown newId (taskRows db t) r1"
    by (rule keepsD [OF k w])
  from held_keeps [OF g w held this] have "wellKept newId t rows" by simp
  then show ?thesis using that [OF r1(1)] settleParents_shape r1(2) by (simp add: wellKept_def)
qed

section \<open>What the changes leave\<close>

lemma add_made:
  assumes "addChange newId t actor at texts assignee due place r = Ok ((ids, title, parentText), r')" "k \<in> set ids"
  shows "hasItem r' k"
proof -
  obtain l parent r1 where p: "placeFor newId t actor at place r = Ok ((l, parent), r1)" and room: "length (filter isLive (cr_items r)) + length texts \<le> MAX_ITEMS"
    using assms(1) by (auto simp: addChange_def roomFor_def split: if_splits)
  define made where "made = map2 (\<lambda>k text. newItemRow k t (listId l) text (map_option itemId parent) 0 assignee due at) ids texts"
  have ids: "ids = drawn newId (cr_fresh r1) (length texts)" using assms(1) p room by (auto simp: addChange_def roomFor_def Let_def)
  have "\<exists>after. r' = r1\<lparr>cr_items := fst (placeInGroup (cr_items r1 @ made) (listId l) (map_option itemId parent) ids after at),
      cr_fresh := cr_fresh r1 + length texts\<rparr>"
    using assms(1) p room by (auto simp: addChange_def roomFor_def Let_def made_def ids)
  then have s: "list_all2 sameShape (cr_items r') (cr_items (r1\<lparr>cr_items := cr_items r1 @ made\<rparr>))" by (auto simp: placeInGroup_shape)
  have "map itemId made = ids" by (rule nth_equalityI) (simp_all add: made_def ids drawn_def newItemRow_def)
  then have "k \<in> itemId ` set made" using assms(2) by (metis list.set_map)
  moreover have "isLive i" if "i \<in> set made" for i using that by (auto simp: made_def newItemRow_def isLive_def)
  ultimately have "hasItem (r1\<lparr>cr_items := cr_items r1 @ made\<rparr>) k" by (auto simp: hasItem_def)
  then show ?thesis using hasItem_shape [OF s] by blast
qed

lemma update_has: "updateChange actor at k patch r = Ok (v, r') \<Longrightarrow> hasItem r' k"
proof -
  assume c: "updateChange actor at k patch r = Ok (v, r')"
  let ?f = "patchDue at patch \<circ> patchAssignee at patch \<circ> patchText at patch"
  have f: "sameShape (?f i) i" for i unfolding comp_apply by (blast intro: sameShape_trans patch_shape)
  have g: "sameShape ((?f \<circ> patchDone actor at patch) i) i" for i
    using f [of "patchDone actor at patch i"] patch_shape(1) [of actor at patch i] by (auto intro: sameShape_trans)
  obtain row where row: "liveItem r k = Ok row" using c by (auto simp: updateChange_def split: option.splits)
  from c have "r' = r\<lparr>cr_items := updateItem k ?f (cr_items r)\<rparr>
      \<or> r' = r\<lparr>cr_items := updateItem k (?f \<circ> patchDone actor at patch) (cr_items r)\<rparr>"
    unfolding updateChange_def by (cases "ip_done patch") (auto split: option.splits if_splits)
  then have "list_all2 sameShape (cr_items r') (cr_items r)"
    using updateItem_shape [of ?f k "cr_items r", OF f] updateItem_shape [of "?f \<circ> patchDone actor at patch" k "cr_items r", OF g] by auto
  then show ?thesis using hasItem_shape liveItem_Ok [OF row] by (auto simp: hasItem_def)
qed

lemma move_has: "moveChange at k move r = Ok (v, r') \<Longrightarrow> hasItem r' k"
proof (rule moveChange_parts)
  assume "moveChange at k move r = Ok (v, r')" then show "moveChange at k move r = Ok (v, r')" .
next
  fix row :: itemRow and target :: moveTarget
  let ?moved = "updateItem k (\<lambda>i. i\<lparr>itemParent := mt_parent target, itemUpdatedAt := at\<rparr>)
        (if Some (mt_list target) \<noteq> itemList row
         then map (\<lambda>i. if itemId i \<in> set (itemId row # descendantIds (cr_items r) (itemId row) True)
                then i\<lparr>itemList := Some (mt_list target), itemUpdatedAt := at\<rparr> else i) (cr_items r)
         else cr_items r)"
  assume row: "liveItem r k = Ok row" and r': "r' = r \<or> (\<exists>is. list_all2 sameShape is ?moved \<and> r' = r\<lparr>cr_items := is\<rparr>)"
  have here: "hasItem r k" using liveItem_Ok [OF row] by (auto simp: hasItem_def)
  let ?plain = "map (movedRow k (if Some (mt_list target) \<noteq> itemList row then set (itemId row # descendantIds (cr_items r) (itemId row) True) else {})
      (mt_list target) (mt_parent target)) (cr_items r)"
  have "list_all2 sameShape (cr_items (r\<lparr>cr_items := ?moved\<rparr>)) (cr_items (r\<lparr>cr_items := ?plain\<rparr>))"
    using moved_shape by simp
  moreover have "hasItem (r\<lparr>cr_items := ?plain\<rparr>) k" using here by (auto simp: hasItem_def)
  ultimately have moved: "hasItem (r\<lparr>cr_items := ?moved\<rparr>) k" using hasItem_shape by blast
  show "hasItem r' k"
    using r'
  proof (elim disjE exE conjE)
    fix "is" assume i: "list_all2 sameShape is ?moved" "r' = r\<lparr>cr_items := is\<rparr>"
    then have "list_all2 sameShape (cr_items r') (cr_items (r\<lparr>cr_items := ?moved\<rparr>))" by simp
    from hasItem_shape [OF this] show ?thesis using moved by blast
  qed (use here in simp)
qed

section \<open>Copies\<close>

lemma copyLoop_roots:
  "copyLoop newId wanted rootIds l at ids n as = (roots, all, n') \<Longrightarrow> set roots \<subseteq> set (map itemId all)
    \<and> (\<forall>a \<in> set as. itemId (ai_row a) \<in> set wanted \<inter> set rootIds \<longrightarrow> roots \<noteq> [])"
proof (induction as arbitrary: ids n roots all n')
  case Nil
  then show ?case by simp
next
  case (Cons a rest)
  show ?case
  proof (cases "itemId (ai_row a) \<in> set wanted")
    case False
    then show ?thesis using Cons by auto
  next
    case True
    let ?i = "ai_row a"
    let ?copy = "newItemRow (newId n) (itemTask ?i) l (itemText ?i) (if itemId ?i \<in> set rootIds then itemParent ?i
       else ids (case itemParent ?i of None \<Rightarrow> [] | Some p \<Rightarrow> p)) (itemPos ?i) (itemAssignee ?i) (itemDue ?i) at"
    obtain roots' all' n1 where c: "copyLoop newId wanted rootIds l at (ids(itemId ?i \<mapsto> itemId ?copy)) (Suc n) rest = (roots', all', n1)"
      by (cases "copyLoop newId wanted rootIds l at (ids(itemId ?i \<mapsto> itemId ?copy)) (Suc n) rest") auto
    have "all = ?copy # all'" "roots = (if itemId ?i \<in> set rootIds then itemId ?copy # roots' else roots')"
      using Cons.prems True c by (auto simp: Let_def)
    then show ?thesis using Cons.IH [OF c] by auto
  qed
qed

lemma duplicate_has:
  assumes g: "goodIds newId" and r: "rowsOk newId t r" "homed r"
  shows "duplicateChange newId at k r \<noteq> Thrown InternalError"
    and "duplicateChange newId at k r = Ok ((copy, n, s), r') \<Longrightarrow> hasItem r' copy"
proof -
  have "duplicateChange newId at k r \<noteq> Thrown InternalError
      \<and> (\<forall>copy n s r'. duplicateChange newId at k r = Ok ((copy, n, s), r') \<longrightarrow> hasItem r' copy)"
  proof (cases "liveItem r k")
    case (Ok row)
    then have rk: "row \<in> set (cr_items r)" "itemId row = k" "isLive row" using liveItem_Ok by blast+
    let ?l = "case itemList row of None \<Rightarrow> [] | Some x \<Rightarrow> x"
    obtain roots all n where cs: "copySubtree newId r (cr_fresh r) [k] ?l at = (roots, all, n)" by (metis prod_cases3)
    have loop: "copyLoop newId (k # descendantIds (cr_items r) k False) [k] ?l at Map.empty (cr_fresh r) (arrangedItems r) = (roots, all, n)"
      using cs by (simp add: copySubtree_def)
    obtain a where "a \<in> set (arrangedItems r)" "itemId (ai_row a) = k" using arranged_live [OF g r(1) rk(1,3)] rk(2) by blast
    then have "roots \<noteq> []" "set roots \<subseteq> itemId ` set all" using copyLoop_roots [OF loop] by auto
    then obtain root rest where roots: "roots = root # rest" "root \<in> itemId ` set all" by (cases roots) auto
    obtain f where "\<forall>c \<in> set all. isLive c \<and> itemTask c = t \<and> itemBatch c = None \<and> itemList c = Some ?l"
      by (rule copy_made [OF g r cs order_refl])
    then obtain c where c: "c \<in> set all" "itemId c = root" "isLive c" using roots(2) by auto
    let ?named = "updateItem root (\<lambda>i. i\<lparr>itemText := withCopy (itemText row)\<rparr>) all"
    have "c\<lparr>itemText := withCopy (itemText row)\<rparr> \<in> set ?named"
      using imageI [OF c(1), of "\<lambda>i. if itemId i = root then i\<lparr>itemText := withCopy (itemText row)\<rparr> else i"] c(2) by (simp add: updateItem_def)
    moreover have "itemId (c\<lparr>itemText := withCopy (itemText row)\<rparr>) = root \<and> isLive (c\<lparr>itemText := withCopy (itemText row)\<rparr>)"
      using c(2,3) by (simp add: isLive_def)
    ultimately have "\<exists>x \<in> set ?named. itemId x = root \<and> isLive x" by blast
    then have here: "hasItem (r\<lparr>cr_items := cr_items r @ ?named\<rparr>) root" by (auto simp: hasItem_def)
    have "hasItem (r\<lparr>cr_items := fst (placeInGroup (cr_items r @ ?named) ?l (itemParent row) [root] (Some k) at), cr_fresh := n\<rparr>) root"
      using hasItem_shape [of _ "r\<lparr>cr_items := cr_items r @ ?named\<rparr>" root] here by (simp add: placeInGroup_shape)
    then show ?thesis using Ok rk(2) cs roots(1) by (auto simp: duplicateChange_def roomFor_def Let_def thenDo_Thrown)
  next
    case (Thrown e)
    then have "e = ItemNotFound" by (auto simp: liveItem_def split: option.splits)
    then show ?thesis using Thrown by (simp add: duplicateChange_def)
  next
    case Endless
    then show ?thesis by (simp add: duplicateChange_def)
  qed
  then show "duplicateChange newId at k r \<noteq> Thrown InternalError"
    "duplicateChange newId at k r = Ok ((copy, n, s), r') \<Longrightarrow> hasItem r' copy" by blast+
qed

section \<open>Checklists\<close>

lemma ordered_has:
  assumes "listId l = k" "isLiveList l"
  shows "hasList (r\<lparr>cr_lists := orderLists ids at (cr_lists r @ [l]), cr_items := is, cr_fresh := n\<rparr>) k"
proof -
  have "hasList (r\<lparr>cr_lists := cr_lists r @ [l]\<rparr>) k" using assms by (auto simp: hasList_def)
  moreover have "map listShape (orderLists ids at (cr_lists r @ [l])) = map listShape (cr_lists (r\<lparr>cr_lists := cr_lists r @ [l]\<rparr>))"
    by (simp add: orderLists_shape)
  ultimately have "hasList ((r\<lparr>cr_lists := cr_lists r @ [l]\<rparr>)\<lparr>cr_lists := orderLists ids at (cr_lists r @ [l])\<rparr>) k"
    using hasList_shape by blast
  then show ?thesis by (simp add: hasList_def)
qed

lemma add_list_has: "addListChange newId t actor at title after r = Ok (k, r') \<Longrightarrow> hasList r' k"
proof -
  assume c: "addListChange newId t actor at title after r = Ok (k, r')"
  define l where "l = newListRow (newId (cr_fresh r)) t title (int (length (liveLists (cr_lists r)))) actor at"
  have "\<exists>order. r' = r\<lparr>cr_lists := orderLists order at (cr_lists r @ [l]), cr_items := cr_items r, cr_fresh := Suc (cr_fresh r)\<rparr>" "k = listId l"
    using c by (auto simp: addListChange_def roomForList_def l_def [symmetric] Let_def split: if_splits)
  moreover have "isLiveList l" by (simp add: l_def newListRow_def isLiveList_def)
  ultimately show ?thesis using ordered_has by blast
qed

lemma rename_has: "renameChange at k title r = Ok (v, r') \<Longrightarrow> hasList r' k"
proof -
  assume c: "renameChange at k title r = Ok (v, r')"
  then obtain l where l: "liveList r (Some k) = Ok l" by (auto simp: renameChange_def)
  have here: "hasList r k" using liveList_Ok [OF l] by (auto simp: hasList_def)
  have "map listShape (updateListRow k (\<lambda>x. x\<lparr>listTitle := title, listUpdatedAt := at\<rparr>) (cr_lists r)) = map listShape (cr_lists r)"
    by (rule updateListRow_shape) (simp add: listShape_def isLiveList_def)
  from hasList_shape [OF this] show ?thesis using c l here by (auto simp: renameChange_def split: if_splits)
qed

lemma duplicate_list_has: "duplicateListChange newId t actor at k r = Ok ((copy, n, title), r') \<Longrightarrow> hasList r' copy"
proof -
  assume d: "duplicateListChange newId t actor at k r = Ok ((copy, n, title), r')"
  obtain source where s: "liveList r (Some k) = Ok source" using d unfolding duplicateListChange_def by (simp only: thenDo_Ok) blast
  define l where "l = newListRow (newId (cr_fresh r)) t (withCopy (listTitle source)) (int (length (liveLists (cr_lists r)))) actor at"
  obtain roots all m where cs: "copySubtree newId r (Suc (cr_fresh r)) (map itemId (siblingsOf (cr_items r) k None)) (listId l) at = (roots, all, m)"
    by (metis prod_cases3)
  have "\<exists>order. r' = r\<lparr>cr_lists := orderLists order at (cr_lists r @ [l]), cr_items := cr_items r @ all, cr_fresh := m\<rparr>" "copy = listId l"
    using d s cs by (auto simp: duplicateListChange_def roomFor_def roomForList_def l_def [symmetric] Let_def split: if_splits)
  moreover have "isLiveList l" by (simp add: l_def newListRow_def isLiveList_def)
  ultimately show ?thesis using ordered_has by blast
qed


section \<open>No error inside\<close>

lemma placeFor_fair: "placeFor newId t actor at place r \<noteq> Thrown InternalError"
proof -
  have i: "liveItem r k \<noteq> Thrown InternalError" for k by (simp add: liveItem_def split: option.split)
  have l: "liveList r k \<noteq> Thrown InternalError" for k by (simp add: liveList_def split: option.split)
  have p: "placeParent r place \<noteq> Thrown InternalError" using i by (auto simp: placeParent_def thenDo_Thrown split: option.splits)
  show ?thesis
    unfolding placeFor_def thenDo_Thrown using i l p
    by (auto simp: thenDo_Thrown split: option.splits if_splits)
qed

lemma change_fair:
  "addChange newId t actor at texts assignee due place r \<noteq> Thrown InternalError"
  "addListChange newId t actor at title after r \<noteq> Thrown InternalError"
  "renameChange at k title r \<noteq> Thrown InternalError"
  "duplicateListChange newId t actor at k r \<noteq> Thrown InternalError"
proof -
  have l: "liveList r k \<noteq> Thrown InternalError" for k by (simp add: liveList_def split: option.split)
  show "addChange newId t actor at texts assignee due place r \<noteq> Thrown InternalError"
    using placeFor_fair [of newId t actor at place r] by (auto simp: addChange_def roomFor_def thenDo_Thrown Let_def)
  show "addListChange newId t actor at title after r \<noteq> Thrown InternalError"
    by (simp add: addListChange_def roomForList_def thenDo_Thrown Let_def)
  show "renameChange at k title r \<noteq> Thrown InternalError" using l by (auto simp: renameChange_def thenDo_Thrown)
  show "duplicateListChange newId t actor at k r \<noteq> Thrown InternalError"
    using l by (auto simp: duplicateListChange_def roomFor_def roomForList_def thenDo_Thrown Let_def split: prod.splits)
qed

lemma edit_fair:
  assumes g: "goodIds newId" and db: "tablesOk newId db" and c: "change (taskRows db t) \<noteq> Thrown InternalError"
  shows "edit newId db t actor at words change \<noteq> Thrown InternalError"
proof -
  have w: "wellKept newId t (taskRows db t)" using db by (simp add: tablesOk_def)
  then have home: "home newId t actor at (taskRows db t) = taskRows db t" by (intro home_of_homed [OF g]) (simp_all add: wellKept_def)
  then have "heldEdit newId t actor at change (taskRows db t) \<noteq> Thrown InternalError"
    using c by (auto simp: heldEdit_def thenDo_Thrown)
  then show ?thesis unfolding edit_def prismaEdit_def by (auto simp: thenDo_Thrown Let_def split: option.splits prod.splits if_splits)
qed

lemma checks_fair:
  "ensureTask_cl deps t \<noteq> Thrown InternalError" "assertAssignable deps t a \<noteq> Thrown InternalError" "cleanText w x \<noteq> Thrown InternalError"
  "taskOfItem db k \<noteq> Thrown InternalError" "taskOfList db k \<noteq> Thrown InternalError" "cleanTexts xs \<noteq> Thrown InternalError"
proof -
  show c: "cleanText w x \<noteq> Thrown InternalError" for w x by (simp add: cleanText_def Let_def)
  show "cleanTexts xs \<noteq> Thrown InternalError" by (induction xs) (auto simp: thenDo_Thrown c)
qed (auto simp: ensureTask_cl_def assertAssignable_def taskOfItem_def taskOfList_def split: option.splits)

text \<open>An operation that answers with a checklist, and one that answers with an item, of its edit.\<close>

lemma answers_list:
  assumes g: "goodIds newId" and db: "tablesOk newId db" and k: "keeps newId t change" and c: "\<And>r. change r \<noteq> Thrown InternalError"
    and has: "\<And>v r'. change (taskRows db t) = Ok (v, r') \<Longrightarrow> hasList r' (idOf v)"
  shows "thenDo (edit newId db t actor at words change) (\<lambda>((v, rows), told, db'). thenDo (listFrom rows (idOf v)) (\<lambda>l. Ok (f v l told db')))
    \<noteq> Thrown InternalError"
proof
  assume "thenDo (edit newId db t actor at words change) (\<lambda>((v, rows), told, db'). thenDo (listFrom rows (idOf v)) (\<lambda>l. Ok (f v l told db')))
    = Thrown InternalError"
  then obtain v rows told db' where e: "edit newId db t actor at words change = Ok ((v, rows), told, db')" "listFrom rows (idOf v) = Thrown InternalError"
    using edit_fair [OF g db c] unfolding thenDo_Thrown by (auto simp: thenDo_Thrown)
  obtain r1 where r1: "change (taskRows db t) = Ok (v, r1)" "rowsOk newId t rows" "cr_lists rows = cr_lists r1"
    using edit_rows [OF g db e(1) k] by blast
  have "hasList rows (idOf v)" using has [OF r1(1)] r1(3) by (simp add: hasList_def)
  then show False using listFrom_found [OF g r1(2)] e(2) by force
qed

lemma answers_item:
  assumes g: "goodIds newId" and db: "tablesOk newId db" and k: "keeps newId t change"
    and has: "\<And>v r'. change (taskRows db t) = Ok (v, r') \<Longrightarrow> hasItem r' (idOf v)"
    and e: "edit newId db t actor at words change = Ok ((v, rows), told, db')"
  shows "\<exists>i. itemFrom deps rows (idOf v) = Ok i"
proof -
  obtain r1 where r1: "change (taskRows db t) = Ok (v, r1)" "rowsOk newId t rows" "list_all2 sameShape (cr_items rows) (cr_items r1)"
    using edit_rows [OF g db e k] by blast
  have "hasItem rows (idOf v)" using has [OF r1(1)] hasItem_shape [OF r1(3)] by blast
  then show ?thesis by (rule itemFrom_found [OF g r1(2)])
qed

lemma addItems_fair:
  assumes g: "goodIds newId" and db: "tablesOk newId db"
  shows "addItems deps newId now db t actor texts assignee due place \<noteq> Thrown InternalError"
proof
  assume "addItems deps newId now db t actor texts assignee due place = Thrown InternalError"
  then obtain clean ids title parentText rows told db' where
    e: "edit newId db t actor now True (addChange newId t actor now clean assignee due place) = Ok (((ids, title, parentText), rows), told, db')"
    and n: "None \<in> set (map (\<lambda>k. find (\<lambda>a. itemId (ai_row a) = k) (arrangedItems rows)) ids)"
    using checks_fair edit_fair [OF g db change_fair(1)] unfolding addItems_def
    by (auto simp: thenDo_Thrown Let_def split: prod.splits if_splits)
  obtain r1 where r1: "addChange newId t actor now clean assignee due place (taskRows db t) = Ok ((ids, title, parentText), r1)"
      "rowsOk newId t rows" "list_all2 sameShape (cr_items rows) (cr_items r1)"
    using edit_rows [OF g db e add_keeps [OF g]] by blast
  obtain k where k: "k \<in> set ids" "find (\<lambda>a. itemId (ai_row a) = k) (arrangedItems rows) = None" using n by auto
  have "hasItem rows k" using add_made [OF r1(1) k(1)] hasItem_shape [OF r1(3)] by blast
  then show False using arranged_live [OF g r1(2)] k(2) found_Some [of _ "arrangedItems rows" "\<lambda>a. itemId (ai_row a) = k"]
    unfolding hasItem_def by force
qed

lemma toggle_patch: "(NO_PATCH\<lparr>ip_done := Some d\<rparr>)\<lparr>ip_text := None\<rparr> = NO_PATCH\<lparr>ip_done := Some d\<rparr>"
  by (simp add: NO_PATCH_def)

lemma duplicate_answers:
  assumes g: "goodIds newId" and db: "tablesOk newId db" and t: "taskOfItem db k = Ok t"
    and ed: "edit newId db t actor now True (duplicateChange newId now k) = Ok (x, told, db')"
  shows "\<exists>v. duplicateItem deps newId now db k actor = Ok (v, told, db')"
proof -
  have w: "rowsOk newId t (taskRows db t)" "homed (taskRows db t)" using db by (simp_all add: tablesOk_def wellKept_def)
  obtain c m s rows where x: "x = ((c, m, s), rows)" by (metis prod_cases3 surj_pair)
  have e: "edit newId db t actor now True (duplicateChange newId now k) = Ok (((c, m, s), rows), told, db')" using ed unfolding x .
  have has: "hasItem r' (fst v)" if "duplicateChange newId now k (taskRows db t) = Ok (v, r')" for v r'
    using duplicate_has(2) [OF g w, where at = now and k = k and copy = "fst v" and n = "fst (snd v)" and s = "snd (snd v)" and r' = r'] that by simp
  obtain i where "itemFrom deps rows c = Ok i"
    using answers_item [where idOf = fst and deps = deps, OF g db duplicate_keeps [OF g] has e] by auto
  then show ?thesis using t ed unfolding x by (simp add: duplicateItem_def)
qed

lemma move_answers:
  assumes g: "goodIds newId" and db: "tablesOk newId db" and t: "taskOfItem db k = Ok t"
    and ed: "edit newId db t actor now False (moveChange now k move) = Ok (y, told, db')"
  shows "\<exists>v. moveItem deps newId now db k actor move = Ok (v, told, db')"
proof -
  obtain s rows where y: "y = (s, rows)" by (cases y)
  have e: "edit newId db t actor now False (moveChange now k move) = Ok ((s, rows), told, db')" using ed unfolding y .
  obtain i where "itemFrom deps rows k = Ok i"
    using answers_item [where idOf = "\<lambda>_. k" and deps = deps, OF g db move_keeps _ e] move_has by blast
  then show ?thesis using t ed unfolding y by (simp add: moveItem_def)
qed

lemma toggle_answers:
  assumes g: "goodIds newId" and db: "tablesOk newId db" and t: "taskOfItem db k = Ok t"
    and ed: "edit newId db t actor now False (updateChange actor now k (NO_PATCH\<lparr>ip_done := Some d\<rparr>)) = Ok (z, told, db')"
  shows "\<exists>v. toggleItem deps newId now db k d actor = Ok (v, told, db')"
proof -
  obtain was rows where z: "z = (was, rows)" by (cases z)
  have e: "edit newId db t actor now False (updateChange actor now k (NO_PATCH\<lparr>ip_done := Some d\<rparr>)) = Ok ((was, rows), told, db')"
    using ed unfolding z .
  obtain i where "itemFrom deps rows k = Ok i"
    using answers_item [where idOf = "\<lambda>_. k" and deps = deps, OF g db update_keeps _ e] update_has by blast
  then show ?thesis using t ed unfolding z by (simp add: toggleItem_def updateItemCall_def toggle_patch) (simp add: NO_PATCH_def)
qed

section \<open>Properties\<close>

text \<open>
  C9. No request about checklists fails inside: what the code takes for present -- the items just added,
  the first copy of an item, a new, renamed or copied checklist -- is always there (no TypeError), and once
  the change of a tick, a move or a copy is saved the operation answers with the item, never with an error
  about a change that was made.
\<close>

theorem checklist_requests_answer:
  assumes "goodIds newId" "tablesReached newId db"
  shows "addItems deps newId now db t actor texts assignee due place \<noteq> Thrown InternalError
    \<and> addList deps newId now db t actor title after \<noteq> Thrown InternalError
    \<and> renameList newId now db k actor title \<noteq> Thrown InternalError
    \<and> duplicateList newId now db k actor \<noteq> Thrown InternalError
    \<and> duplicateItem deps newId now db k actor \<noteq> Thrown InternalError
    \<and> (taskOfItem db k = Ok t \<longrightarrow>
        (edit newId db t actor now True (duplicateChange newId now k) = Ok (x, told, db')
          \<longrightarrow> (\<exists>v. duplicateItem deps newId now db k actor = Ok (v, told, db')))
        \<and> (edit newId db t actor now False (moveChange now k move) = Ok (y, told, db')
          \<longrightarrow> (\<exists>v. moveItem deps newId now db k actor move = Ok (v, told, db')))
        \<and> (edit newId db t actor now False (updateChange actor now k (NO_PATCH\<lparr>ip_done := Some d\<rparr>)) = Ok (z, told, db')
          \<longrightarrow> (\<exists>v. toggleItem deps newId now db k d actor = Ok (v, told, db'))))"
proof (intro conjI impI)
  note g = assms(1)
  have db: "tablesOk newId db" by (rule tables_reached_ok [OF assms])
  then have w: "rowsOk newId t (taskRows db t)" "homed (taskRows db t)" for t by (simp_all add: tablesOk_def wellKept_def)
  show "addItems deps newId now db t actor texts assignee due place \<noteq> Thrown InternalError" by (rule addItems_fair [OF g db])
  show "addList deps newId now db t actor title after \<noteq> Thrown InternalError"
    unfolding addList_def thenDo_Thrown using checks_fair answers_list [OF g db add_list_keeps [OF g] change_fair(2) add_list_has, where idOf = "\<lambda>k. k"]
    by (auto simp: thenDo_Thrown)
  show "renameList newId now db k actor title \<noteq> Thrown InternalError"
    unfolding renameList_def thenDo_Thrown using checks_fair answers_list [OF g db rename_keeps change_fair(3) rename_has, where idOf = "\<lambda>_. k"]
    by (auto simp: thenDo_Thrown)
  show "duplicateList newId now db k actor \<noteq> Thrown InternalError"
    unfolding duplicateList_def thenDo_Thrown
    using checks_fair answers_list [OF g db duplicate_list_keeps [OF g] change_fair(4), where idOf = "\<lambda>(c, n, s). c"] duplicate_list_has
    by (fastforce simp: thenDo_Thrown)
  have fair: "duplicateChange newId now k (taskRows db u) \<noteq> Thrown InternalError" for u by (rule duplicate_has(1) [OF g w])
  show "duplicateItem deps newId now db k actor \<noteq> Thrown InternalError"
    unfolding duplicateItem_def thenDo_Thrown using checks_fair edit_fair [where change = "duplicateChange newId now k", OF g db fair]
    by (auto simp: thenDo_Thrown itemFrom_def split: option.splits)
  assume t: "taskOfItem db k = Ok t"
  show "\<exists>v. duplicateItem deps newId now db k actor = Ok (v, told, db')"
    if "edit newId db t actor now True (duplicateChange newId now k) = Ok (x, told, db')"
    by (rule duplicate_answers [OF g db t that])
  show "\<exists>v. moveItem deps newId now db k actor move = Ok (v, told, db')"
    if "edit newId db t actor now False (moveChange now k move) = Ok (y, told, db')"
    by (rule move_answers [OF g db t that])
  show "\<exists>v. toggleItem deps newId now db k d actor = Ok (v, told, db')"
    if "edit newId db t actor now False (updateChange actor now k (NO_PATCH\<lparr>ip_done := Some d\<rparr>)) = Ok (z, told, db')"
    by (rule toggle_answers [OF g db t that])
qed

lemma sample_toggle:
  "isOk (edit sampleId (dbAfter tickBelow) ''t'' None 5 False (updateChange None 5 (sampleId 3) (NO_PATCH\<lparr>ip_done := Some False\<rparr>)))"
  "taskOfItem (dbAfter tickBelow) (sampleId 3) = Ok ''t''"
  by code_simp+

theorem checklist_requests_answer_witness:
  "(\<exists>v told db'. toggleItem \<lparr>cd_taskExists = None, cd_eligible = None, cd_namesOf = None\<rparr> sampleId 5 (dbAfter tickBelow) (sampleId 3) False None
      = Ok (v, told, db'))
    \<and> duplicateItem \<lparr>cd_taskExists = None, cd_eligible = None, cd_namesOf = None\<rparr> sampleId 5 (dbAfter tickBelow) (sampleId 3) None
      \<noteq> Thrown InternalError"
proof -
  obtain x told db' where e: "edit sampleId (dbAfter tickBelow) ''t'' None 5 False (updateChange None 5 (sampleId 3) (NO_PATCH\<lparr>ip_done := Some False\<rparr>))
      = Ok (x, told, db')"
    using isOk_after [OF sample_toggle(1)] by blast
  note c = checklist_requests_answer [OF sampleId_good sample_reached(1), where now = 5 and k = "sampleId 3" and actor = None and t = "''t''"
      and told = told and d = False and z = x and deps = "\<lparr>cd_taskExists = None, cd_eligible = None, cd_namesOf = None\<rparr>" and db' = db']
  note after = c [THEN conjunct2, THEN conjunct2, THEN conjunct2, THEN conjunct2, THEN conjunct2]
  show ?thesis
    using after [THEN mp, OF sample_toggle(2), THEN conjunct2, THEN conjunct2, THEN mp, OF e]
      c [THEN conjunct2, THEN conjunct2, THEN conjunct2, THEN conjunct2, THEN conjunct1] by blast
qed

end
