(* ===== verification/ChecklistTrees.thy ===== *)
theory ChecklistTrees
  imports ChecklistAnswers
begin

text \<open>
  What the trees of checklists promise: a tree survives its JSON and the rows of a task, and the next copy
  of a repeating task shows the checklists the task showed.
\<close>

lemma made_kept:
  assumes g: "goodIds newId" and lim: "treeLimits tree = None"
  shows "wellKept newId t (rowsFromTree newId n t tree createdBy at)"
proof -
  note m = rowsFromTree_ok [OF g refl lim, where n = n and t = t and createdBy = createdBy and at = at]
  have "parentsFollow (filter isLive (cr_items (rowsFromTree newId n t tree createdBy at)))"
    by (rule unticked_follow) (use m(1) in \<open>simp add: sprouted_def\<close>)
  then show ?thesis using m(2,3) by (simp add: wellKept_def)
qed

text \<open>The items of the copy, beside the items the task shows.\<close>

lemma copy_items:
  assumes g: "goodIds newId" and r: "rowsOk newId t0 r" "homed r"
  shows "\<exists>r'. copyRowsForRepeat newId n r t shift at = Some r'
    \<and> map (\<lambda>i. (itemText i, itemPos i, itemAssignee i, itemDue i)) (cr_items r')
      = map (\<lambda>a. (itemText (ai_row a), itemPos (ai_row a), itemAssignee (ai_row a), shiftedDue shift (itemDue (ai_row a)))) (arrangedItems r)"
proof -
  obtain tops where o: "laidOut (cr_lists r) (filter isLive (cr_items r)) tops" by (rule arranged_forest [OF g r])
  obtain a where a: "arrange (cr_lists r) (cr_items r) = Some a" "map ai_row (ar_items a) = map root (allSubs tops)"
    by (rule arrange_laid [OF g r o])
  obtain fi fl where "copyRowsForRepeat newId n r t shift at = Some \<lparr>cr_lists = map (\<lambda>(i, tp). repeatList fl t at i (fst tp)) (enumerate 0 tops),
       cr_items = map (\<lambda>s. repeatRow fi fl t shift at (root s)) (allSubs tops), cr_fresh = n + length tops + length (allSubs tops)\<rparr>"
    by (rule copy_shape [OF g r o])
  moreover have "map (\<lambda>a. (itemText (ai_row a), itemPos (ai_row a), itemAssignee (ai_row a), shiftedDue shift (itemDue (ai_row a)))) (arrangedItems r)
      = map (\<lambda>s. (itemText (root s), itemPos (root s), itemAssignee (root s), shiftedDue shift (itemDue (root s)))) (allSubs tops)"
    using arg_cong [OF a(2), of "map (\<lambda>i. (itemText i, itemPos i, itemAssignee i, shiftedDue shift (itemDue i)))"] a(1)
    by (simp add: arrangedItems_def comp_def)
  ultimately show ?thesis by (simp add: repeatRow_def newItemRow_def comp_def)
qed

lemma shifted_by: "shiftedDue shift due = (case shift of None \<Rightarrow> None | Some ms \<Rightarrow> map_option (\<lambda>d. d + ms) due)"
  by (simp add: shiftedDue_def split: option.split)

section \<open>Properties\<close>

text \<open>
  C7. A clean tree within the limits (titles and texts trimmed, not empty, at most 191 characters; at most 50
  checklists, 500 items, 20 levels) comes back the same from the JSON a template keeps it as and from the
  rows it makes on a new task; those rows are well formed, one for each text, and nothing is ticked.
\<close>

theorem checklist_tree_round_trip:
  assumes "goodIds newId" "tidyTree tree" "treeLimits tree = None"
  shows "checklistTreeOf (rawTree tree) = tree
    \<and> (let r = rowsFromTree newId n t tree createdBy at in
        treeFromRows (cr_lists r) (cr_items r) = Some tree \<and> wellKept newId t r
        \<and> length (cr_items r) = length (flatTexts tree) \<and> (\<forall>i \<in> set (cr_items r). isLive i \<and> \<not> itemDone i))"
proof -
  note m = rowsFromTree_ok [OF assms(1) refl assms(3)]
  show ?thesis
    unfolding Let_def
    using checklistTreeOf_raw [OF assms(2,3)] treeFromRows_made [OF assms(1) refl assms(3)] tidy_cleanList [OF assms(2)]
      made_kept [OF assms(1,3)] m(5) m(1) by (simp add: treeItemCount_def sprouted_def)
qed

definition sampleTree :: "checklistTreeList list" where
  "sampleTree = [\<lparr>tl_title = ''Site'', tl_items = [ChecklistNode ''Plan'' [ChecklistNode ''Draw'' [], ChecklistNode ''Send'' []], ChecklistNode ''Visit'' []]\<rparr>,
     \<lparr>tl_title = ''Later'', tl_items = []\<rparr>]"

lemma sample_tree: "tidyTree sampleTree" "treeLimits sampleTree = None"
  by code_simp+

theorem checklist_tree_round_trip_witness:
  "checklistTreeOf (rawTree sampleTree) = sampleTree
    \<and> (let r = rowsFromTree sampleId 0 ''t'' sampleTree None 5 in
        treeFromRows (cr_lists r) (cr_items r) = Some sampleTree \<and> length (cr_items r) = length (flatTexts sampleTree))"
  using checklist_tree_round_trip [OF sampleId_good sample_tree, of 0 "''t''" None 5] unfolding Let_def by blast

text \<open>Taking people off items leaves the tree as it is.\<close>

lemma people_same_tree:
  assumes g: "goodIds newId" and r: "rowsOk newId t r" "homed r"
  shows "treeFromRows (cr_lists r) (withPeople allowed (cr_items r)) = treeFromRows (cr_lists r) (cr_items r)"
proof -
  obtain tops where o: "laidOut (cr_lists r) (filter isLive (cr_items r)) tops" by (rule arranged_forest [OF g r])
  note lo = o [unfolded laidOut_def]
  let ?f = "\<lambda>i. case itemAssignee i of None \<Rightarrow> i | Some u \<Rightarrow> if u \<in> allowed then i else i\<lparr>itemAssignee := None\<rparr>"
  have f: "itemId (?f i) = itemId i" "itemList (?f i) = itemList i" "itemParent (?f i) = itemParent i" "itemText (?f i) = itemText i"
    "itemOrder (?f i) = itemOrder i" "isLive (?f i) = isLive i" for i
    by (simp_all add: itemOrder_def isLive_def split: option.split)
  have w: "withPeople allowed (cr_items r) = map ?f (cr_items r)" by (simp add: withPeople_def)
  let ?tops = "map (\<lambda>tp. (fst tp, map (mapCopse ?f) (snd tp))) tops"
  have subs: "allSubs ?tops = map (mapCopse ?f) (allSubs tops)"
    by (simp add: allSubs_def comp_def forest_map map_concat)
  have ids: "copseId (mapCopse ?f c) = copseId c" for c by (simp add: f)
  have order: "inOrder (map (mapCopse ?f) cs) = inOrder cs" for cs by (simp add: inOrder_def sorted_wrt_map f)
  have "laidOut (cr_lists r) (filter isLive (withPeople allowed (cr_items r))) ?tops"
    unfolding laidOut_def
  proof (intro conjI)
    show "liveLists (cr_lists r) = map fst ?tops" using lo by (simp add: comp_def)
    show "set (filter isLive (withPeople allowed (cr_items r))) = root ` set (allSubs ?tops)"
    proof -
      have "set (filter isLive (withPeople allowed (cr_items r))) = ?f ` set (filter isLive (cr_items r))" by (auto simp: w f)
      also have "\<dots> = root ` set (allSubs ?tops)" using lo by (simp add: subs image_image)
      finally show ?thesis .
    qed
    show "distinct (map copseId (allSubs ?tops))" using lo by (simp add: subs comp_def f)
    show "\<forall>c \<in> set (allSubs ?tops). laidKids c" using lo by (auto simp: subs laidKids_def order f)
    show "\<forall>(l, cs) \<in> set ?tops. laidTops (listId l) cs" using lo by (fastforce simp: laidTops_def order f)
  qed
  moreover have "rowsOk newId t (r\<lparr>cr_items := withPeople allowed (cr_items r)\<rparr>)" "homed (r\<lparr>cr_items := withPeople allowed (cr_items r)\<rparr>)"
    using rowsOk_reshaped [OF r withPeople_shape] by blast+
  ultimately have "treeFromRows (cr_lists r) (withPeople allowed (cr_items r))
      = Some (map (\<lambda>(l, cs). \<lparr>tl_title = listTitle l, tl_items = map textTree cs\<rparr>) ?tops)"
    using treeFromRows_laid [OF g, of t "r\<lparr>cr_items := withPeople allowed (cr_items r)\<rparr>" ?tops] by simp
  then show ?thesis unfolding treeFromRows_laid [OF g r o] by (simp add: comp_def case_prod_beta text_map f)
qed

text \<open>
  C8. The next copy of a repeating task has the checklists of the task. Whatever the service made of the
  tables, the rows of the copy are made, and with the people who may no longer open the project taken off they
  are well formed: every item shown is there with its text, its person (if \<open>allowed\<close>) and its due date moved
  by \<open>shift\<close> (none when either task has no due date), none is ticked or deleted, and they show the same tree,
  titles, texts, nesting and order -- the order as far as no two items of a group are tied in position
  (the copy is made at one instant, and ids drawn later need not sort later).
\<close>

theorem repeat_keeps_checklists:
  assumes "goodIds newId" "tablesReached newId db"
  shows "\<exists>r'. copyRowsForRepeat newId (cdb_fresh db) (taskRows db source) t shift at = Some r'
    \<and> (let copies = withPeople allowed (cr_items r') in
       wellKept newId t (r'\<lparr>cr_items := copies\<rparr>)
       \<and> map (\<lambda>i. (itemText i, itemAssignee i, itemDue i)) copies
          = map (\<lambda>a. (itemText (ai_row a),
                case itemAssignee (ai_row a) of None \<Rightarrow> None | Some u \<Rightarrow> if u \<in> allowed then Some u else None,
                case shift of None \<Rightarrow> None | Some ms \<Rightarrow> map_option (\<lambda>d. d + ms) (itemDue (ai_row a)))) (arrangedItems (taskRows db source))
       \<and> (\<forall>i \<in> set copies. isLive i \<and> \<not> itemDone i)
       \<and> (untied (cr_items (taskRows db source))
          \<longrightarrow> treeFromRows (cr_lists r') copies = treeFromRows (cr_lists (taskRows db source)) (cr_items (taskRows db source))))"
proof -
  have "tablesOk newId db" by (rule tables_reached_ok [OF assms])
  then have r: "rowsOk newId source (taskRows db source)" "homed (taskRows db source)" by (simp_all add: tablesOk_def wellKept_def)
  obtain r' where r': "copyRowsForRepeat newId (cdb_fresh db) (taskRows db source) t shift at = Some r'"
    "map (\<lambda>i. (itemText i, itemPos i, itemAssignee i, itemDue i)) (cr_items r')
      = map (\<lambda>a. (itemText (ai_row a), itemPos (ai_row a), itemAssignee (ai_row a), shiftedDue shift (itemDue (ai_row a)))) (arrangedItems (taskRows db source))"
    using copy_items [OF assms(1) r] by blast
  note c = copy_ok [OF assms(1) r r'(1)]
  let ?copies = "withPeople allowed (cr_items r')"
  let ?keep = "\<lambda>p. case p of None \<Rightarrow> None | Some u \<Rightarrow> if u \<in> allowed then Some u else None"
  have fields: "map (\<lambda>i. (itemText i, itemAssignee i, itemDue i)) (withPeople allowed is)
      = map (\<lambda>(s, p, u, d). (s, ?keep u, d)) (map (\<lambda>i. (itemText i, itemPos i, itemAssignee i, itemDue i)) is)" for "is"
    by (simp add: withPeople_def comp_def split: option.split)
  have same: "isLive (case itemAssignee i of None \<Rightarrow> i | Some u \<Rightarrow> if u \<in> allowed then i else i\<lparr>itemAssignee := None\<rparr>) = isLive i"
    "itemDone (case itemAssignee i of None \<Rightarrow> i | Some u \<Rightarrow> if u \<in> allowed then i else i\<lparr>itemAssignee := None\<rparr>) = itemDone i" for i
    by (simp_all add: isLive_def split: option.split)
  have new: "\<forall>i \<in> set ?copies. isLive i \<and> \<not> itemDone i" using c(1) by (simp add: sprouted_def withPeople_def same)
  moreover from this have "wellKept newId t (r'\<lparr>cr_items := ?copies\<rparr>)"
    using rowsOk_reshaped [OF c(2,3) withPeople_shape] by (auto simp: wellKept_def intro!: unticked_follow)
  moreover have "treeFromRows (cr_lists r') ?copies = treeFromRows (cr_lists (taskRows db source)) (cr_items (taskRows db source))"
    if "untied (cr_items (taskRows db source))"
    using people_same_tree [OF assms(1) c(2,3)] copy_same_tree [OF assms(1) that r r'(1)] by simp
  moreover have "map (\<lambda>i. (itemText i, itemAssignee i, itemDue i)) ?copies
      = map (\<lambda>a. (itemText (ai_row a), ?keep (itemAssignee (ai_row a)), shiftedDue shift (itemDue (ai_row a)))) (arrangedItems (taskRows db source))"
    unfolding fields r'(2) by (simp add: comp_def)
  ultimately show ?thesis using r'(1) unfolding Let_def shifted_by by blast
qed

lemma sample_shown: "map (\<lambda>a. (itemText (ai_row a), ai_depth a)) (arrangedItems (taskRows (dbAfter tickBelow) ''t''))
    = [(''A'', 0), (''A1'', 1), (''B'', 0)]"
  by code_simp

theorem repeat_keeps_checklists_witness:
  "\<exists>r'. copyRowsForRepeat sampleId (cdb_fresh (dbAfter tickBelow)) (taskRows (dbAfter tickBelow) ''t'') ''next'' None 9 = Some r'
    \<and> map itemText (withPeople {} (cr_items r')) = [''A'', ''A1'', ''B''] \<and> (\<forall>i \<in> set (withPeople {} (cr_items r')). isLive i \<and> \<not> itemDone i)
    \<and> treeFromRows (cr_lists r') (withPeople {} (cr_items r'))
        = treeFromRows (cr_lists (taskRows (dbAfter tickBelow) ''t'')) (cr_items (taskRows (dbAfter tickBelow) ''t''))"
proof -
  have "untied (cr_items (taskRows (dbAfter tickBelow) ''t''))" by code_simp
  then obtain r' where r': "copyRowsForRepeat sampleId (cdb_fresh (dbAfter tickBelow)) (taskRows (dbAfter tickBelow) ''t'') ''next'' None 9 = Some r'"
      "map (\<lambda>i. (itemText i, itemAssignee i, itemDue i)) (withPeople {} (cr_items r'))
        = map (\<lambda>a. (itemText (ai_row a), case itemAssignee (ai_row a) of None \<Rightarrow> None | Some u \<Rightarrow> if u \<in> {} then Some u else None, None)) (arrangedItems (taskRows (dbAfter tickBelow) ''t''))"
      "\<forall>i \<in> set (withPeople {} (cr_items r')). isLive i \<and> \<not> itemDone i"
      "treeFromRows (cr_lists r') (withPeople {} (cr_items r'))
        = treeFromRows (cr_lists (taskRows (dbAfter tickBelow) ''t'')) (cr_items (taskRows (dbAfter tickBelow) ''t''))"
    using repeat_keeps_checklists [OF sampleId_good sample_reached(1), of "''t''" "''next''" None 9 "{}"] unfolding option.case Let_def by blast
  have "map itemText (withPeople {} (cr_items r')) = map (\<lambda>a. itemText (ai_row a)) (arrangedItems (taskRows (dbAfter tickBelow) ''t''))"
    using arg_cong [OF r'(2), of "map fst"] by (simp add: comp_def)
  also have "\<dots> = [''A'', ''A1'', ''B'']" using arg_cong [OF sample_shown, of "map fst"] by (simp add: comp_def)
  finally show ?thesis using r'(1,3,4) by simp
qed

end
