(* ===== verification/JsDate.thy ===== *)
theory JsDate
  imports Prelude
begin

text \<open>
  The part of JavaScript's \<open>Date\<close> that the program computes with: the proleptic Gregorian
  calendar of the language's specification (\<open>DayFromYear\<close>, \<open>YearFromTime\<close>, \<open>MonthFromTime\<close>,
  \<open>DateFromTime\<close>, \<open>WeekDay\<close>, \<open>MakeDay\<close>), \<open>Date.UTC\<close>, the UTC getters, and the first ten
  characters of \<open>toISOString()\<close> with the way back. A time value is an unbounded \<open>int\<close>: the
  language's range of plus or minus 8.64e15 ms (years -271821 to 275760) is not modelled.
\<close>

section \<open>Years\<close>

definition ms_per_day :: int where "ms_per_day = 86400000"

text \<open>The day number of 1 January of a year (\<open>DayFromYear\<close>).\<close>

definition day_from_year :: "int \<Rightarrow> day" where
  "day_from_year y = 365 * (y - 1970) + (y - 1969) div 4 - (y - 1901) div 100 + (y - 1601) div 400"

definition leap_year :: "int \<Rightarrow> bool" where
  "leap_year y \<longleftrightarrow> y mod 4 = 0 \<and> (y mod 100 \<noteq> 0 \<or> y mod 400 = 0)"

definition year_len :: "int \<Rightarrow> int" where
  "year_len y = (if leap_year y then 366 else 365)"

text \<open>The year a day falls in: an estimate by the mean length of a year, corrected by one.\<close>

definition year_of_day :: "day \<Rightarrow> int" where
  "year_of_day d =
     (let y = 1970 + (400 * d) div 146097
      in if d < day_from_year y then y - 1
         else if day_from_year (y + 1) \<le> d then y + 1 else y)"

lemma div_step:
  fixes z n :: int
  assumes "0 < n"
  shows "(z + 1) div n = z div n + (if (z + 1) mod n = 0 then 1 else 0)"
proof -
  have z: "z = n * (z div n) + z mod n" by simp
  have r: "0 \<le> z mod n" "z mod n < n" using assms by simp_all
  show ?thesis
  proof (cases "z mod n = n - 1")
    case True
    then have e: "z + 1 = n * (z div n + 1)"
      using z by (simp only: distrib_left mult_1_right)
    have "(z + 1) mod n = 0" unfolding e by simp
    moreover have "(z + 1) div n = z div n + 1"
      using assms by (subst e) simp
    ultimately show ?thesis by simp
  next
    case False
    then have s: "0 \<le> z mod n + 1" "z mod n + 1 < n" using r by simp_all
    have e: "z + 1 = (z mod n + 1) + n * (z div n)" using z by linarith
    have "(z + 1) div n = z div n" "(z + 1) mod n = z mod n + 1"
      unfolding e using assms s by (simp_all only: div_mult_self2 mod_mult_self2 div_pos_pos_trivial mod_pos_pos_trivial, auto?)
    then show ?thesis using r by simp
  qed
qed

lemma div_bounds:
  fixes z n :: int
  assumes "0 < n"
  shows "n * (z div n) \<le> z" "z < n * (z div n) + n"
  using assms mult_div_mod_eq [of n z] pos_mod_bound [of n z] pos_mod_sign [of n z] by linarith+

lemma le_div_iff:
  fixes d x c :: int
  assumes "0 < c"
  shows "d \<le> x div c \<longleftrightarrow> d * c \<le> x"
proof
  assume "d \<le> x div c"
  then have "c * d \<le> c * (x div c)" using assms by (intro mult_left_mono) simp_all
  then show "d * c \<le> x" using div_bounds(1) [OF assms, of x] by (simp add: mult.commute)
next
  assume "d * c \<le> x"
  then have "d * c div c \<le> x div c" using assms by (rule zdiv_mono1)
  then show "d \<le> x div c" using assms by simp
qed

lemma mod_shift: "(y - k * n :: int) mod n = y mod n"
  by (metis mod_mult_self1 diff_add_cancel)

lemma day_from_year_step: "day_from_year (y + 1) = day_from_year y + year_len y"
proof -
  have n: "1968 = 492 * (4 :: int)" "1900 = 19 * (100 :: int)" "1600 = 4 * (400 :: int)" by simp_all
  have m: "(y - 1968) mod 4 = y mod 4" "(y - 1900) mod 100 = y mod 100" "(y - 1600) mod 400 = y mod 400"
    unfolding n by (rule mod_shift)+
  have e: "y - 1969 + 1 = y - 1968" "y - 1901 + 1 = y - 1900" "y - 1601 + 1 = y - 1600" by simp_all
  have s: "(y - 1968) div 4 = (y - 1969) div 4 + (if y mod 4 = 0 then 1 else 0)"
    "(y - 1900) div 100 = (y - 1901) div 100 + (if y mod 100 = 0 then 1 else 0)"
    "(y - 1600) div 400 = (y - 1601) div 400 + (if y mod 400 = 0 then 1 else 0)"
    using div_step [of 4 "y - 1969"] div_step [of 100 "y - 1901"] div_step [of 400 "y - 1601"]
    unfolding e m by (simp_all only: zero_less_numeral simp_thms if_True)
  have d: "y mod 100 = 0 \<Longrightarrow> y mod 4 = 0" "y mod 400 = 0 \<Longrightarrow> y mod 100 = 0"
    using dvd_trans [of 4 100 y] dvd_trans [of 100 400 y] by (simp_all add: dvd_eq_mod_eq_0)
  have len: "year_len y = 365 + (if y mod 4 = 0 then 1 else 0) - (if y mod 100 = 0 then 1 else 0)
      + (if y mod 400 = 0 then 1 else 0)"
    unfolding year_len_def leap_year_def using d by presburger
  have f: "y + 1 - 1970 = (y - 1970) + 1" "y + 1 - 1969 = y - 1968" "y + 1 - 1901 = y - 1900"
    "y + 1 - 1601 = y - 1600" by simp_all
  show ?thesis
    unfolding day_from_year_def f s len by (simp only: distrib_left algebra_simps)
qed

lemma year_len_bounds: "365 \<le> year_len y" "year_len y \<le> 366"
  by (simp_all add: year_len_def)

lemma day_from_year_strict: "y < z \<Longrightarrow> day_from_year y < day_from_year z"
proof (induction rule: int_gr_induct)
  case base
  show ?case using day_from_year_step [of y] year_len_bounds [of y] by simp
next
  case (step i)
  then show ?case using day_from_year_step [of i] year_len_bounds [of i] by simp
qed

lemma day_from_year_less_iff: "day_from_year y < day_from_year z \<longleftrightarrow> y < z"
  by (metis day_from_year_strict less_irrefl not_less_iff_gr_or_eq order_less_trans)

lemma day_from_year_mono: "y \<le> z \<Longrightarrow> day_from_year y \<le> day_from_year z"
  using day_from_year_less_iff by (metis linorder_not_less)

text \<open>A year starts where the mean length of a year puts it, give or take less than two days.\<close>

lemma day_from_year_linear:
  "400 * day_from_year y \<le> 146097 * (y - 1970) + 593"
  "146097 * (y - 1970) - 607 \<le> 400 * day_from_year y"
proof -
  define a b c where "a = (y - 1969) div 4" and "b = (y - 1901) div 100" and "c = (y - 1601) div 400"
  have "4 * a \<le> y - 1969" "y - 1969 < 4 * a + 4" "100 * b \<le> y - 1901" "y - 1901 < 100 * b + 100"
    "400 * c \<le> y - 1601" "y - 1601 < 400 * c + 400"
    unfolding a_def b_def c_def by (rule div_bounds; simp)+
  moreover have "day_from_year y = 365 * (y - 1970) + a - b + c"
    by (simp add: day_from_year_def a_def b_def c_def)
  note facts = calculation this
  show "400 * day_from_year y \<le> 146097 * (y - 1970) + 593"
    using facts by (simp add: algebra_simps)
  show "146097 * (y - 1970) - 607 \<le> 400 * day_from_year y"
    using facts by (simp add: algebra_simps)
qed

lemma year_estimate:
  defines "y \<equiv> \<lambda>d. 1970 + (400 * d) div 146097"
  shows "day_from_year (y d - 1) \<le> d" and "d < day_from_year (y d + 2)"
proof -
  define q where "q = (400 * d) div 146097"
  have q: "146097 * q \<le> 400 * d" "400 * d < 146097 * q + 146097"
    unfolding q_def by (rule div_bounds; simp)+
  have y: "y d = 1970 + q" by (simp add: y_def q_def)
  show "day_from_year (y d - 1) \<le> d"
    using q day_from_year_linear(1) [of "y d - 1"] unfolding y by (simp add: algebra_simps)
  show "d < day_from_year (y d + 2)"
    using q day_from_year_linear(2) [of "y d + 2"] unfolding y by (simp add: algebra_simps)
qed

lemma year_of_day_bounds: "day_from_year (year_of_day d) \<le> d" "d < day_from_year (year_of_day d + 1)"
proof -
  define y where "y = 1970 + (400 * d) div 146097"
  have e: "day_from_year (y - 1) \<le> d" "d < day_from_year (y + 2)"
    using year_estimate [of d] by (simp_all add: y_def)
  have "year_of_day d = (if d < day_from_year y then y - 1 else if day_from_year (y + 1) \<le> d then y + 1 else y)"
    by (simp add: year_of_day_def y_def Let_def)
  then show "day_from_year (year_of_day d) \<le> d" "d < day_from_year (year_of_day d + 1)"
    using e by (auto simp: add.commute not_less)
qed

lemma year_of_day_unique:
  assumes "day_from_year y \<le> d" and "d < day_from_year (y + 1)"
  shows "year_of_day d = y"
proof -
  have "day_from_year (year_of_day d) < day_from_year (y + 1)" "day_from_year y < day_from_year (year_of_day d + 1)"
    using year_of_day_bounds [of d] assms by linarith+
  then show ?thesis by (simp add: day_from_year_less_iff)
qed

lemma year_of_day_mono: "d \<le> e \<Longrightarrow> year_of_day d \<le> year_of_day e"
proof -
  assume "d \<le> e"
  then have "day_from_year (year_of_day d) < day_from_year (year_of_day e + 1)"
    using year_of_day_bounds(1) [of d] year_of_day_bounds(2) [of e] by linarith
  then show ?thesis by (simp add: day_from_year_less_iff)
qed

section \<open>Months\<close>

text \<open>The first day of a month; months count from 0, and month 12 is the next year's first.\<close>

definition cum_days :: "int \<Rightarrow> int" where
  "cum_days m = [0, 31, 59, 90, 120, 151, 181, 212, 243, 273, 304, 334, 365] ! nat m"

definition month_start :: "int \<Rightarrow> int \<Rightarrow> day" where
  "month_start y m = day_from_year y + cum_days m + (if 2 \<le> m \<and> leap_year y then 1 else 0)"

definition month_len :: "int \<Rightarrow> int \<Rightarrow> int" where
  "month_len y m = month_start y (m + 1) - month_start y m"

definition month_of_day :: "day \<Rightarrow> int" where
  "month_of_day d =
     int (length (filter (\<lambda>m. month_start (year_of_day d) m \<le> d) [1, 2, 3, 4, 5, 6, 7, 8, 9, 10, 11]))"

definition date_of_day :: "day \<Rightarrow> int" where
  "date_of_day d = d - month_start (year_of_day d) (month_of_day d) + 1"

text \<open>0 is Sunday; 1970-01-01 was a Thursday.\<close>

definition weekday_of_day :: "day \<Rightarrow> int" where
  "weekday_of_day d = (d + 4) mod 7"

definition make_day :: "int \<Rightarrow> int \<Rightarrow> int \<Rightarrow> day" where
  "make_day y m dt = month_start (y + m div 12) (m mod 12) + dt - 1"

lemma months_cases:
  assumes "0 \<le> m" "m < (12 :: int)"
  obtains "m = 0" | "m = 1" | "m = 2" | "m = 3" | "m = 4" | "m = 5" | "m = 6" | "m = 7" | "m = 8"
    | "m = 9" | "m = 10" | "m = 11"
proof -
  have "m = 0 \<or> m = 1 \<or> m = 2 \<or> m = 3 \<or> m = 4 \<or> m = 5 \<or> m = 6 \<or> m = 7 \<or> m = 8
    \<or> m = 9 \<or> m = 10 \<or> m = 11"
    using assms by presburger
  then show thesis using that by blast
qed

lemma cum_days_simps [simp]:
  "cum_days 0 = 0" "cum_days 1 = 31" "cum_days 2 = 59" "cum_days 3 = 90" "cum_days 4 = 120"
  "cum_days 5 = 151" "cum_days 6 = 181" "cum_days 7 = 212" "cum_days 8 = 243" "cum_days 9 = 273"
  "cum_days 10 = 304" "cum_days 11 = 334" "cum_days 12 = 365"
  by (simp_all add: cum_days_def)

lemma month_start_0 [simp]: "month_start y 0 = day_from_year y"
  by (simp add: month_start_def)

lemma month_start_12: "month_start y 12 = day_from_year (y + 1)"
  by (simp add: month_start_def day_from_year_step year_len_def)

lemma month_len_eq:
  assumes "0 \<le> m" "m < 12"
  shows "month_len y m = (if m = 1 then (if leap_year y then 29 else 28)
     else if m \<in> {3, 5, 8, 10} then 30 else 31)"
  using assms by (cases m rule: months_cases) (simp_all add: month_len_def month_start_def)

lemma month_len_bounds:
  assumes "0 \<le> m" "m < 12"
  shows "28 \<le> month_len y m" "month_len y m \<le> 31"
  using month_len_eq [OF assms, of y] by (auto split: if_splits)

lemma month_of_day_unique:
  assumes m: "0 \<le> m" "m < 12" and d: "month_start y m \<le> d" "d < month_start y (m + 1)"
  shows "year_of_day d = y" "month_of_day d = m" "date_of_day d = d - month_start y m + 1"
proof -
  have "day_from_year y \<le> month_start y m" "month_start y (m + 1) \<le> day_from_year (y + 1)"
    using m by (cases m rule: months_cases; simp add: month_start_def day_from_year_step year_len_def)+
  then show y: "year_of_day d = y"
    using d by (intro year_of_day_unique) auto
  show mm: "month_of_day d = m"
    using m d unfolding month_of_day_def y
    by (cases m rule: months_cases) (simp_all add: month_start_def split: if_splits)
  show "date_of_day d = d - month_start y m + 1"
    by (simp add: date_of_day_def y mm)
qed

lemma month_exists: "\<exists>m. 0 \<le> m \<and> m < 12 \<and> month_start (year_of_day d) m \<le> d \<and> d < month_start (year_of_day d) (m + 1)"
proof -
  let ?y = "year_of_day d"
  define k where "k = (LEAST k. d < month_start ?y (int k + 1))"
  have "d < month_start ?y (int 11 + 1)"
    using year_of_day_bounds(2) [of d] by (simp add: month_start_12)
  then have k: "d < month_start ?y (int k + 1)" "k \<le> 11"
    unfolding k_def by (rule LeastI, rule Least_le)
  have "month_start ?y (int k) \<le> d"
  proof (cases k)
    case 0
    then show ?thesis using year_of_day_bounds(1) [of d] by simp
  next
    case (Suc j)
    then have "\<not> d < month_start ?y (int j + 1)"
      unfolding k_def using not_less_Least [of j "\<lambda>k. d < month_start ?y (int k + 1)"] by (simp add: k_def [symmetric])
    then show ?thesis using Suc by (simp add: add.commute)
  qed
  then show ?thesis using k by (intro exI [of _ "int k"]) simp
qed

lemma month_of_day_bounds:
  "0 \<le> month_of_day d" "month_of_day d < 12"
  "month_start (year_of_day d) (month_of_day d) \<le> d"
  "d < month_start (year_of_day d) (month_of_day d + 1)"
proof -
  obtain m where m: "0 \<le> m" "m < 12" "month_start (year_of_day d) m \<le> d" "d < month_start (year_of_day d) (m + 1)"
    using month_exists by blast
  then have "month_of_day d = m" by (rule month_of_day_unique)
  then show "0 \<le> month_of_day d" "month_of_day d < 12"
    "month_start (year_of_day d) (month_of_day d) \<le> d"
    "d < month_start (year_of_day d) (month_of_day d + 1)" using m by simp_all
qed

lemma date_of_day_bounds:
  "1 \<le> date_of_day d" "date_of_day d \<le> month_len (year_of_day d) (month_of_day d)"
  using month_of_day_bounds [of d] by (simp_all add: date_of_day_def month_len_def)

lemma date_of_day_le_31: "date_of_day d \<le> 31"
  using date_of_day_bounds(2) month_len_bounds(2) month_of_day_bounds(1,2) order_trans by blast

text \<open>\<open>MakeDay\<close> of a real calendar date gives that date back, and of a day's own parts the day.\<close>

lemma make_day_parts:
  assumes "0 \<le> m" "m < 12" "1 \<le> dt" "dt \<le> month_len y m"
  shows "year_of_day (make_day y m dt) = y" "month_of_day (make_day y m dt) = m"
    "date_of_day (make_day y m dt) = dt"
proof -
  have e: "make_day y m dt = month_start y m + dt - 1"
    using assms by (simp add: make_day_def)
  have "month_start y m \<le> make_day y m dt" "make_day y m dt < month_start y (m + 1)"
    using assms by (simp_all add: e month_len_def)
  from month_of_day_unique [OF assms(1,2) this]
  show "year_of_day (make_day y m dt) = y" "month_of_day (make_day y m dt) = m"
    "date_of_day (make_day y m dt) = dt" by (simp_all add: e)
qed

lemma make_day_shift: "make_day y m (dt + n) = make_day y m dt + n"
  by (simp add: make_day_def)

lemma make_day_of_parts [simp]: "make_day (year_of_day d) (month_of_day d) (date_of_day d) = d"
  using month_of_day_bounds [of d] by (simp add: make_day_def date_of_day_def)

lemma make_day_month_carry: "make_day (y + m div 12) (m mod 12) dt = make_day y m dt"
  by (simp add: make_day_def)

text \<open>The total month number \<open>12 * year + month\<close> orders the months.\<close>

definition month_index :: "day \<Rightarrow> int" where
  "month_index d = year_of_day d * 12 + month_of_day d"

lemma month_start_mono:
  assumes "m \<le> n" and "0 \<le> m" and "n \<le> 12"
  shows "month_start y m \<le> month_start y n"
  using assms
proof (induction n rule: int_ge_induct)
  case base
  show ?case by simp
next
  case (step i)
  then show ?case using month_len_bounds(1) [of i y] by (simp add: month_len_def)
qed

lemma month_index_strict:
  assumes "month_index d < month_index e"
  shows "d < e"
proof (cases "year_of_day d < year_of_day e")
  case True
  then have "day_from_year (year_of_day d + 1) \<le> day_from_year (year_of_day e)"
    by (intro day_from_year_mono) simp
  then show ?thesis using year_of_day_bounds(2) [of d] year_of_day_bounds(1) [of e] by linarith
next
  case False
  have "month_of_day d < 12" "0 \<le> month_of_day d" "month_of_day e < 12" "0 \<le> month_of_day e"
    by (rule month_of_day_bounds)+
  then have y: "year_of_day d = year_of_day e" and m: "month_of_day d + 1 \<le> month_of_day e"
    using False assms by (simp_all add: month_index_def)
  have "month_start (year_of_day e) (month_of_day d + 1) \<le> month_start (year_of_day e) (month_of_day e)"
    using m by (intro month_start_mono) (simp_all add: month_of_day_bounds less_imp_le add_nonneg_pos)
  then show ?thesis
    using month_of_day_bounds(4) [of d] month_of_day_bounds(3) [of e] unfolding y by linarith
qed

lemma month_index_mono: "d \<le> e \<Longrightarrow> month_index d \<le> month_index e"
  using month_index_strict by (metis linorder_not_less)

lemma month_index_parts: "month_index d div 12 = year_of_day d" "month_index d mod 12 = month_of_day d"
  using month_of_day_bounds [of d] by (simp_all add: month_index_def)

section \<open>Time values\<close>

definition utc_day :: "instant \<Rightarrow> day" where "utc_day t = t div ms_per_day"
definition time_of :: "instant \<Rightarrow> int" where "time_of t = t mod ms_per_day"

definition getUTCFullYear :: "instant \<Rightarrow> int" where "getUTCFullYear t = year_of_day (utc_day t)"
definition getUTCMonth :: "instant \<Rightarrow> int" where "getUTCMonth t = month_of_day (utc_day t)"
definition getUTCDate :: "instant \<Rightarrow> int" where "getUTCDate t = date_of_day (utc_day t)"
definition getUTCDay :: "instant \<Rightarrow> int" where "getUTCDay t = weekday_of_day (utc_day t)"
definition getUTCHours :: "instant \<Rightarrow> int" where "getUTCHours t = time_of t div 3600000"
definition getUTCMinutes :: "instant \<Rightarrow> int" where "getUTCMinutes t = time_of t div 60000 mod 60"
definition getUTCSeconds :: "instant \<Rightarrow> int" where "getUTCSeconds t = time_of t div 1000 mod 60"
definition getUTCMilliseconds :: "instant \<Rightarrow> int" where "getUTCMilliseconds t = time_of t mod 1000"

text \<open>\<open>Date.UTC\<close>: years 0 to 99 stand for 1900 to 1999 (\<open>MakeFullYear\<close>).\<close>

definition full_year :: "int \<Rightarrow> int" where
  "full_year y = (if 0 \<le> y \<and> y \<le> 99 then 1900 + y else y)"

definition date_utc :: "int \<Rightarrow> int \<Rightarrow> int \<Rightarrow> int \<Rightarrow> int \<Rightarrow> int \<Rightarrow> int \<Rightarrow> instant" where
  "date_utc y m d h mi s ms =
     make_day (full_year y) m d * ms_per_day + (h * 3600000 + mi * 60000 + s * 1000 + ms)"

text \<open>\<open>d.setUTCDate(v)\<close> on a copy of \<open>d\<close>.\<close>

definition setUTCDate :: "instant \<Rightarrow> int \<Rightarrow> instant" where
  "setUTCDate t v = make_day (getUTCFullYear t) (getUTCMonth t) v * ms_per_day + time_of t"

lemma time_of_bounds: "0 \<le> time_of t" "time_of t < ms_per_day"
  by (simp_all add: time_of_def ms_per_day_def)

lemma instant_split: "utc_day t * ms_per_day + time_of t = t"
  by (simp add: utc_day_def time_of_def)

lemma utc_day_of [simp]:
  assumes "0 \<le> v" "v < ms_per_day"
  shows "utc_day (d * ms_per_day + v) = d" "time_of (d * ms_per_day + v) = v"
  using assms by (simp_all add: utc_day_def time_of_def ms_per_day_def)

lemma utc_day_less: "utc_day t < utc_day u \<Longrightarrow> t < u"
  unfolding utc_day_def by (metis linorder_not_less zdiv_mono1 ms_per_day_def zero_less_numeral)

lemma utc_day_mono: "t \<le> u \<Longrightarrow> utc_day t \<le> utc_day u"
  unfolding utc_day_def by (rule zdiv_mono1) (simp_all add: ms_per_day_def)

lemma time_parts:
  "getUTCHours t * 3600000 + getUTCMinutes t * 60000 + getUTCSeconds t * 1000 + getUTCMilliseconds t = time_of t"
proof -
  define x where "x = time_of t"
  have a: "x = 1000 * (x div 1000) + x mod 1000" by simp
  have b: "x div 60000 = x div 1000 div 60" "x div 3600000 = x div 1000 div 60 div 60"
    by (simp_all add: div_mult2_eq [symmetric] flip: zdiv_zmult2_eq)
  define s where "s = x div 1000"
  have c: "s = 60 * (s div 60) + s mod 60" "s div 60 = 60 * (s div 60 div 60) + s div 60 mod 60" by simp_all
  have "x div 3600000 * 3600000 + x div 60000 mod 60 * 60000 + x div 1000 mod 60 * 1000 + x mod 1000
      = 1000 * s + x mod 1000"
    unfolding b s_def [symmetric] using c by linarith
  then show ?thesis
    using a unfolding getUTCHours_def getUTCMinutes_def getUTCSeconds_def getUTCMilliseconds_def x_def [symmetric] s_def [symmetric]
    by linarith
qed

text \<open>\<open>Date.UTC\<close> of some date with another value's time of day.\<close>

lemma date_utc_keep_time:
  "date_utc y m d (getUTCHours t) (getUTCMinutes t) (getUTCSeconds t) (getUTCMilliseconds t)
     = make_day (full_year y) m d * ms_per_day + time_of t"
  by (simp add: date_utc_def time_parts)

lemma setUTCDate_add: "setUTCDate t (getUTCDate t + n) = t + n * ms_per_day"
proof -
  have "setUTCDate t (getUTCDate t + n) = (utc_day t + n) * ms_per_day + time_of t"
    by (simp add: setUTCDate_def getUTCDate_def getUTCFullYear_def getUTCMonth_def make_day_shift)
  then show ?thesis using instant_split [of t] by (simp add: distrib_right)
qed

lemma utc_day_add_days [simp]:
  "utc_day (t + n * ms_per_day) = utc_day t + n" "time_of (t + n * ms_per_day) = time_of t"
  by (simp_all add: utc_day_def time_of_def ms_per_day_def)

lemma weekday_bounds: "0 \<le> weekday_of_day d" "weekday_of_day d \<le> 6"
  unfolding weekday_of_day_def by (simp, presburger)

section \<open>Calendar days as strings\<close>

text \<open>
  The first ten characters of \<open>toISOString()\<close>: \<open>YYYY-MM-DD\<close>. Years outside 0 to 9999 print
  with a sign and six digits, so that ten characters cut them off.
\<close>

definition digit_char :: "int \<Rightarrow> char" where "digit_char n = char_of (48 + nat n)"

fun pad :: "nat \<Rightarrow> int \<Rightarrow> string" where
  "pad 0 n = []"
| "pad (Suc k) n = pad k (n div 10) @ [digit_char (n mod 10)]"

definition iso_date :: "day \<Rightarrow> string" where
  "iso_date d = take 10
     ((let y = year_of_day d in
       if 0 \<le> y \<and> y \<le> 9999 then pad 4 y
       else (if y < 0 then CHR ''-'' else CHR ''+'') # pad 6 \<bar>y\<bar>)
      @ ''-'' @ pad 2 (month_of_day d + 1) @ ''-'' @ pad 2 (date_of_day d))"

text \<open>
  \<open>new Date(key + 'T...Z')\<close>, the day of it: a date-only string of the language's format. A day
  past the end of its month (30 February) rolls over, as Node's parser does; month 13, day 0 or
  day 32 is an invalid date.
\<close>

definition char_digit :: "char \<Rightarrow> int option" where
  "char_digit c = (let n = (of_char c :: nat) in if 48 \<le> n \<and> n \<le> 57 then Some (int n - 48) else None)"

fun digits_val :: "int \<Rightarrow> string \<Rightarrow> int option" where
  "digits_val acc [] = Some acc"
| "digits_val acc (c # cs) =
     (case char_digit c of None \<Rightarrow> None | Some v \<Rightarrow> digits_val (10 * acc + v) cs)"

text \<open>The pattern \<open>/^\d{4}-\d{2}-\d{2}$/\<close>, with the three numbers.\<close>

definition key_fields :: "string \<Rightarrow> (int \<times> int \<times> int) option" where
  "key_fields s =
     (if length s = 10 \<and> s ! 4 = CHR ''-'' \<and> s ! 7 = CHR ''-''
      then (case (digits_val 0 (take 4 s), digits_val 0 (take 2 (drop 5 s)), digits_val 0 (drop 8 s)) of
              (Some y, Some m, Some d) \<Rightarrow> Some (y, m, d)
            | _ \<Rightarrow> None)
      else None)"

definition parse_key :: "string \<Rightarrow> day option" where
  "parse_key s = (case key_fields s of
       None \<Rightarrow> None
     | Some (y, m, d) \<Rightarrow> if 1 \<le> m \<and> m \<le> 12 \<and> 1 \<le> d \<and> d \<le> 31 then Some (make_day y (m - 1) d) else None)"

text \<open>The days with a four-digit year, where a key says everything about its day.\<close>

definition iso_range :: "day \<Rightarrow> bool" where
  "iso_range d \<longleftrightarrow> 0 \<le> year_of_day d \<and> year_of_day d \<le> 9999"

lemma length_pad [simp]: "length (pad k n) = k"
  by (induction k arbitrary: n) auto

lemma of_char_digit:
  assumes "0 \<le> n" "n \<le> 9"
  shows "of_char (digit_char n) = 48 + nat n" "char_digit (digit_char n) = Some n"
proof -
  show a: "of_char (digit_char n) = 48 + nat n"
    using assms by (simp add: digit_char_def of_char_of mod_less)
  show "char_digit (digit_char n) = Some n"
    using assms by (simp add: char_digit_def a)
qed

lemma digits_val_append:
  "digits_val acc (xs @ ys) = (case digits_val acc xs of None \<Rightarrow> None | Some v \<Rightarrow> digits_val v ys)"
  by (induction xs arbitrary: acc) (auto split: option.splits)

lemma digits_val_pad: "0 \<le> n \<Longrightarrow> n < 10 ^ k \<Longrightarrow> digits_val 0 (pad k n) = Some n"
proof (induction k arbitrary: n)
  case 0
  then show ?case by simp
next
  case (Suc k)
  have "0 \<le> n div 10" "n div 10 < 10 ^ k" using Suc.prems by (simp_all add: pos_imp_zdiv_nonneg_iff div_less_iff_less_mult)
  moreover have "0 \<le> n mod 10" "n mod 10 \<le> 9" by simp_all
  ultimately show ?case using Suc.IH by (simp add: digits_val_append of_char_digit)
qed

lemma append_less_same_length:
  "length xs = length ys \<Longrightarrow> (xs @ us < ys @ vs) \<longleftrightarrow> (xs < ys \<or> (xs = ys \<and> us < (vs :: 'a :: linorder list)))"
  by (induction xs ys rule: list_induct2) auto

lemma digit_char_less:
  assumes "0 \<le> m" "m \<le> 9" "0 \<le> n" "n \<le> 9"
  shows "digit_char m < digit_char n \<longleftrightarrow> m < n" "digit_char m = digit_char n \<longleftrightarrow> m = n"
proof -
  show "digit_char m < digit_char n \<longleftrightarrow> m < n"
    unfolding less_char_def of_char_digit(1) [OF assms(1,2)] of_char_digit(1) [OF assms(3,4)]
    using assms by auto
  show "digit_char m = digit_char n \<longleftrightarrow> m = n"
    using of_char_digit(2) [OF assms(1,2)] of_char_digit(2) [OF assms(3,4)] by (metis option.inject)
qed

lemma div_mod_order:
  fixes m n k :: int
  assumes "0 < k"
  shows "m < n \<longleftrightarrow> m div k < n div k \<or> m div k = n div k \<and> m mod k < n mod k"
    "m = n \<longleftrightarrow> m div k = n div k \<and> m mod k = n mod k"
proof -
  have e: "m = k * (m div k) + m mod k" "n = k * (n div k) + n mod k" by simp_all
  have "m < n" if "m div k < n div k"
    using that assms zdiv_mono1 [of n m k] by linarith
  moreover have "\<not> m < n" if "n div k < m div k"
    using that assms zdiv_mono1 [of m n k] by linarith
  moreover have "m < n \<longleftrightarrow> m mod k < n mod k" if "m div k = n div k"
    using that e by (metis add_less_cancel_left)
  ultimately show "m < n \<longleftrightarrow> m div k < n div k \<or> m div k = n div k \<and> m mod k < n mod k"
    by (meson linorder_less_linear)
  show "m = n \<longleftrightarrow> m div k = n div k \<and> m mod k = n mod k"
    using e by metis
qed

lemma pad_less:
  assumes "0 \<le> m" "m < 10 ^ k" "0 \<le> n" "n < 10 ^ k"
  shows "(pad k m < pad k n \<longleftrightarrow> m < n) \<and> (pad k m = pad k n \<longleftrightarrow> m = n)"
  using assms
proof (induction k arbitrary: m n)
  case 0
  then show ?case by simp
next
  case (Suc k)
  have b: "0 \<le> m div 10" "m div 10 < 10 ^ k" "0 \<le> n div 10" "n div 10 < 10 ^ k"
    using Suc.prems by (simp_all add: pos_imp_zdiv_nonneg_iff div_less_iff_less_mult)
  have c: "0 \<le> m mod 10" "m mod 10 \<le> 9" "0 \<le> n mod 10" "n mod 10 \<le> 9" by simp_all
  have "pad (Suc k) m < pad (Suc k) n \<longleftrightarrow> m div 10 < n div 10 \<or> m div 10 = n div 10 \<and> m mod 10 < n mod 10"
    using Suc.IH [OF b] digit_char_less [OF c] by (simp add: append_less_same_length)
  moreover have "pad (Suc k) m = pad (Suc k) n \<longleftrightarrow> m div 10 = n div 10 \<and> m mod 10 = n mod 10"
    using Suc.IH [OF b] digit_char_less [OF c] by simp
  ultimately show ?case
    using div_mod_order [of 10 m n] by (simp only: zero_less_numeral simp_thms)
qed

text \<open>A key's three fields, and so its day; keys compare as strings the way their days do.\<close>

lemma iso_date_eq:
  assumes "iso_range d"
  shows "iso_date d = pad 4 (year_of_day d) @ ''-'' @ pad 2 (month_of_day d + 1) @ ''-'' @ pad 2 (date_of_day d)"
proof -
  have l: "length (pad 4 (year_of_day d) @ ''-'' @ pad 2 (month_of_day d + 1) @ ''-'' @ pad 2 (date_of_day d)) = 10"
    by (simp only: length_append length_pad list.size)
  show ?thesis
    using assms take_all [OF eq_refl [OF l]] unfolding iso_date_def iso_range_def Let_def
    by (simp only: simp_thms if_True)
qed

lemma date_parts_bounds:
  "0 \<le> month_of_day d + 1" "month_of_day d + 1 < 10 ^ 2" "0 \<le> date_of_day d" "date_of_day d < 10 ^ 2"
  using month_of_day_bounds(1,2) [of d] date_of_day_bounds(1) [of d] date_of_day_le_31 [of d] by auto

lemma nth_after: "n = length xs \<Longrightarrow> (xs @ y # ys) ! n = y"
  by simp

lemma key_fields_iso:
  assumes "iso_range d"
  shows "key_fields (iso_date d) = Some (year_of_day d, month_of_day d + 1, date_of_day d)"
proof -
  define Y M D where "Y = pad 4 (year_of_day d)" and "M = pad 2 (month_of_day d + 1)"
    and "D = pad 2 (date_of_day d)"
  have l: "length Y = 4" "length M = 2" "length D = 2" by (simp_all add: Y_def M_def D_def del: pad.simps)
  have s: "iso_date d = Y @ CHR ''-'' # M @ CHR ''-'' # D"
    using iso_date_eq [OF assms] by (simp add: Y_def M_def D_def del: pad.simps)
  have v: "digits_val 0 Y = Some (year_of_day d)" "digits_val 0 M = Some (month_of_day d + 1)"
    "digits_val 0 D = Some (date_of_day d)"
    unfolding Y_def M_def D_def using assms date_parts_bounds [of d]
    by (intro digits_val_pad; simp add: iso_range_def)+
  have "(Y @ CHR ''-'' # M @ CHR ''-'' # D) ! 7 = CHR ''-''"
    using nth_after [of 7 "Y @ CHR ''-'' # M"] l by simp
  then show ?thesis
    unfolding key_fields_def s using nth_after [of 4 Y] by (simp add: l v)
qed

lemma parse_key_iso: "iso_range d \<Longrightarrow> parse_key (iso_date d) = Some d"
  using date_of_day_bounds(1) [of d] date_of_day_le_31 [of d] month_of_day_bounds(1,2) [of d]
  by (simp add: parse_key_def key_fields_iso)

lemma day_order_parts:
  "d < e \<longleftrightarrow> (year_of_day d < year_of_day e \<or> year_of_day d = year_of_day e \<and>
     (month_of_day d < month_of_day e \<or> month_of_day d = month_of_day e \<and> date_of_day d < date_of_day e))"
proof -
  have i: "month_index d < month_index e \<longleftrightarrow>
      year_of_day d < year_of_day e \<or> year_of_day d = year_of_day e \<and> month_of_day d < month_of_day e" for d e
    using div_mod_order(1) [of 12 "month_index d" "month_index e"] by (simp add: month_index_parts)
  consider "month_index d < month_index e" | "month_index e < month_index d" | "month_index d = month_index e"
    by linarith
  then show ?thesis
  proof cases
    case 1
    then show ?thesis using i month_index_strict by blast
  next
    case 2
    then show ?thesis using i [of e d] month_index_strict [of e d] by auto
  next
    case 3
    then have "year_of_day d = year_of_day e" "month_of_day d = month_of_day e"
      by (metis month_index_parts)+
    then show ?thesis by (auto simp: date_of_day_def)
  qed
qed

lemma iso_date_less:
  assumes "iso_range d" "iso_range e"
  shows "iso_date d < iso_date e \<longleftrightarrow> d < e"
proof -
  have y: "0 \<le> year_of_day d" "year_of_day d < 10 ^ 4" "0 \<le> year_of_day e" "year_of_day e < 10 ^ 4"
    using assms by (simp_all add: iso_range_def)
  note m = pad_less [OF date_parts_bounds(1,2) [of d] date_parts_bounds(1,2) [of e]]
  note dt = pad_less [OF date_parts_bounds(3,4) [of d] date_parts_bounds(3,4) [of e]]
  show ?thesis
    unfolding iso_date_eq [OF assms(1)] iso_date_eq [OF assms(2)] day_order_parts [of d e]
    using pad_less [OF y] m dt by (auto simp: append_less_same_length simp del: pad.simps)
qed

lemma iso_date_inject:
  assumes "iso_range d" "iso_range e"
  shows "iso_date d = iso_date e \<longleftrightarrow> d = e"
  using iso_date_less [OF assms] iso_date_less [OF assms(2,1)] by (metis less_irrefl linorder_less_linear)

lemma iso_date_le: "iso_range d \<Longrightarrow> iso_range e \<Longrightarrow> iso_date d \<le> iso_date e \<longleftrightarrow> d \<le> e"
  by (metis iso_date_less linorder_not_less)

lemma iso_range_between: "iso_range d \<Longrightarrow> iso_range f \<Longrightarrow> d \<le> e \<Longrightarrow> e \<le> f \<Longrightarrow> iso_range e"
  unfolding iso_range_def using year_of_day_mono by (meson order_trans)

end
