(* ===== verification/DueDate.thy ===== *)
theory DueDate
  imports JsDate
begin

text \<open>
  \<open>lib/due-date.ts\<close>: the rules every "overdue", "due today" and "on time" decision shares.
  A time zone is the function that gives its offset from UTC, in milliseconds, at an instant: the
  zone database behind \<open>Intl.DateTimeFormat\<close> is not code of the repository. Keys printed by it
  are modelled for the four-digit years, where they are the ISO keys.
\<close>

type_synonym zone = "instant \<Rightarrow> int"

text \<open>
  \<open>DateInput\<close>: a \<open>Date\<close> (\<open>None\<close> for an invalid one), a string, a number, or null / undefined.
  The parser behind \<open>new Date(string)\<close> is implementation-defined beyond the ISO formats, so it is
  an argument.
\<close>

datatype dateInput = DDate "instant option" | DString string | DNumber instant | DNull

datatype jsError = RangeError

definition toDate :: "(string \<Rightarrow> instant option) \<Rightarrow> dateInput \<Rightarrow> instant option" where
  "toDate dp v = (case v of
       DNull \<Rightarrow> None
     | DString s \<Rightarrow> if s = [] then None else dp s
     | DDate d \<Rightarrow> d
     | DNumber n \<Rightarrow> Some n)"

definition zonedDayKey :: "instant \<Rightarrow> zone \<Rightarrow> string" where
  "zonedDayKey t z = iso_date (utc_day (t + z t))"

definition todayKey :: "zone \<Rightarrow> instant \<Rightarrow> string" where
  "todayKey z now = zonedDayKey now z"

text \<open>The day of a valid \<open>Date\<close>: its UTC date at exactly UTC midnight, else its date in the zone.\<close>

definition dateDayKey :: "instant \<Rightarrow> zone \<Rightarrow> string" where
  "dateDayKey d z =
     (let utcMidnight = getUTCHours d = 0 \<and> getUTCMinutes d = 0 \<and> getUTCSeconds d = 0 \<and> getUTCMilliseconds d = 0
      in if utcMidnight then iso_date (utc_day d) else zonedDayKey d z)"

definition dueDayKey :: "(string \<Rightarrow> instant option) \<Rightarrow> dateInput \<Rightarrow> zone \<Rightarrow> string option" where
  "dueDayKey dp due z =
     (if (case due of DString s \<Rightarrow> key_fields s \<noteq> None | _ \<Rightarrow> False)
      then (case due of DString s \<Rightarrow> Some s | _ \<Rightarrow> None)
      else (case toDate dp due of None \<Rightarrow> None | Some d \<Rightarrow> Some (dateDayKey d z)))"

text \<open>\<open>Date.parse(key + 'T12:00:00Z')\<close>; \<open>None\<close> is NaN.\<close>

definition noon_of :: "string \<Rightarrow> instant option" where
  "noon_of key = map_option (\<lambda>d. d * ms_per_day + 43200000) (parse_key key)"

text \<open>\<open>toISOString\<close> of an invalid date throws.\<close>

definition shiftDayKey :: "string \<Rightarrow> int \<Rightarrow> jsError + string" where
  "shiftDayKey key days =
     (case noon_of key of
        None \<Rightarrow> Inl RangeError
      | Some d \<Rightarrow> Inr (iso_date (utc_day (setUTCDate d (getUTCDate d + days)))))"

text \<open>\<open>Math.round(x / n)\<close> for an integer \<open>x\<close> and a positive \<open>n\<close>.\<close>

definition round_div :: "int \<Rightarrow> int \<Rightarrow> int" where
  "round_div x n = (2 * x + n) div (2 * n)"

text \<open>\<open>None\<close> is null (no due date) and \<open>Some None\<close> is NaN (a key that is no date).\<close>

definition daysUntilDue :: "(string \<Rightarrow> instant option) \<Rightarrow> dateInput \<Rightarrow> zone \<Rightarrow> instant \<Rightarrow> int option option" where
  "daysUntilDue dp due z now =
     (case dueDayKey dp due z of
        None \<Rightarrow> None
      | Some key \<Rightarrow>
          Some (case (noon_of key, noon_of (todayKey z now)) of
                  (Some a, Some b) \<Rightarrow> Some (round_div (a - b) ms_per_day)
                | _ \<Rightarrow> None))"

definition isOverdue :: "(string \<Rightarrow> instant option) \<Rightarrow> dateInput \<Rightarrow> zone \<Rightarrow> instant \<Rightarrow> bool" where
  "isOverdue dp due z now = (case daysUntilDue dp due z now of Some (Some n) \<Rightarrow> n < 0 | _ \<Rightarrow> False)"

definition isDueToday :: "(string \<Rightarrow> instant option) \<Rightarrow> dateInput \<Rightarrow> zone \<Rightarrow> instant \<Rightarrow> bool" where
  "isDueToday dp due z now = (daysUntilDue dp due z now = Some (Some 0))"

definition isDueSoon :: "(string \<Rightarrow> instant option) \<Rightarrow> dateInput \<Rightarrow> zone \<Rightarrow> instant \<Rightarrow> int \<Rightarrow> bool" where
  "isDueSoon dp due z now withinDays =
     (case daysUntilDue dp due z now of Some (Some n) \<Rightarrow> n \<ge> 0 \<and> n \<le> withinDays | _ \<Rightarrow> False)"

definition completedOnTime ::
  "(string \<Rightarrow> instant option) \<Rightarrow> dateInput \<Rightarrow> dateInput \<Rightarrow> zone \<Rightarrow> bool option" where
  "completedOnTime dp due completedAt z =
     (case (dueDayKey dp due z, toDate dp completedAt) of
        (Some key, Some d) \<Rightarrow> Some (zonedDayKey d z \<le> key)
      | _ \<Rightarrow> None)"

text \<open>The offset as the code reads it: the zone's wall clock, to the second, read back as UTC.\<close>

definition zoneOffsetMs :: "instant \<Rightarrow> zone \<Rightarrow> int" where
  "zoneOffsetMs t z =
     (let l = t + z t;
          asUtc = date_utc (getUTCFullYear l) (getUTCMonth l + 1 - 1) (getUTCDate l)
                    (getUTCHours l) (getUTCMinutes l) (getUTCSeconds l) 0
      in asUtc - t div 1000 * 1000)"

text \<open>\<open>None\<close> is an invalid \<open>Date\<close>: a key that is not \<open>YYYY-MM-DD\<close>.\<close>

definition zonedStartOfDay :: "string \<Rightarrow> zone \<Rightarrow> instant option" where
  "zonedStartOfDay key z =
     (case key_fields key of
        None \<Rightarrow> None
      | Some (y, m, d) \<Rightarrow>
          (let guess = date_utc y (m - 1) d 0 0 0 0;
               start = guess - zoneOffsetMs guess z
           in Some (guess - zoneOffsetMs start z)))"

text \<open>\<open>Inr None\<close> is null: no due date.\<close>

definition overdueFrom :: "(string \<Rightarrow> instant option) \<Rightarrow> dateInput \<Rightarrow> zone \<Rightarrow> jsError + instant option" where
  "overdueFrom dp due z =
     (case dueDayKey dp due z of
        None \<Rightarrow> Inr None
      | Some key \<Rightarrow> andThen (shiftDayKey key 1) (\<lambda>k. Inr (zonedStartOfDay k z)))"

section \<open>Days from keys\<close>

lemma noon_of_iso: "iso_range d \<Longrightarrow> noon_of (iso_date d) = Some (d * ms_per_day + 43200000)"
  by (simp add: noon_of_def parse_key_iso)

lemma round_div_exact [simp]: "0 < n \<Longrightarrow> round_div (k * n) n = k"
proof -
  assume n: "0 < n"
  have "round_div (k * n) n = (n + (2 * n) * k) div (2 * n)"
    by (simp add: round_div_def algebra_simps)
  also have "\<dots> = k"
    using n by (simp only: div_mult_self2) simp
  finally show ?thesis .
qed

lemma shiftDayKey_iso: "iso_range d \<Longrightarrow> shiftDayKey (iso_date d) n = Inr (iso_date (d + n))"
proof -
  assume "iso_range d"
  moreover have "utc_day (d * ms_per_day + 43200000 + n * ms_per_day) = d + n"
    using utc_day_of(1) [of 43200000 "d + n"] by (simp add: ms_per_day_def algebra_simps)
  ultimately show ?thesis by (simp add: shiftDayKey_def noon_of_iso setUTCDate_add)
qed

text \<open>Shifting by whole days composes, and a shift back undoes a shift.\<close>

lemma shiftDayKey_shift:
  assumes "iso_range d" "iso_range (d + m)"
  shows "andThen (shiftDayKey (iso_date d) m) (\<lambda>k. shiftDayKey k n) = shiftDayKey (iso_date d) (m + n)"
  using assms by (simp add: shiftDayKey_iso add.assoc)

text \<open>The day an instant falls on in a zone, and the day a valid stored due date stands for.\<close>

definition zoned_day :: "instant \<Rightarrow> zone \<Rightarrow> day" where
  "zoned_day t z = utc_day (t + z t)"

definition date_day :: "instant \<Rightarrow> zone \<Rightarrow> day" where
  "date_day d z = (if time_of d = 0 then utc_day d else zoned_day d z)"

lemma zonedDayKey_eq: "zonedDayKey t z = iso_date (zoned_day t z)"
  by (simp add: zonedDayKey_def zoned_day_def)

lemma utc_midnight_iff:
  "getUTCHours d = 0 \<and> getUTCMinutes d = 0 \<and> getUTCSeconds d = 0 \<and> getUTCMilliseconds d = 0 \<longleftrightarrow> time_of d = 0"
  using time_parts [of d]
  by (auto simp: getUTCHours_def getUTCMinutes_def getUTCSeconds_def getUTCMilliseconds_def)

lemma dateDayKey_eq: "dateDayKey d z = iso_date (date_day d z)"
  by (simp add: dateDayKey_def utc_midnight_iff date_day_def zonedDayKey_eq Let_def)

lemma dueDayKey_date [simp]: "dueDayKey dp (DDate (Some d)) z = Some (iso_date (date_day d z))"
  by (simp add: dueDayKey_def toDate_def dateDayKey_eq)

lemma daysUntilDue_date:
  assumes "iso_range (date_day d z)" "iso_range (zoned_day now z)"
  shows "daysUntilDue dp (DDate (Some d)) z now = Some (Some (date_day d z - zoned_day now z))"
proof -
  have "date_day d z * ms_per_day + 43200000 - (zoned_day now z * ms_per_day + 43200000)
     = (date_day d z - zoned_day now z) * ms_per_day"
    by (simp add: left_diff_distrib)
  moreover have "0 < ms_per_day" by (simp add: ms_per_day_def)
  ultimately show ?thesis
    using assms by (simp add: daysUntilDue_def todayKey_def zonedDayKey_eq noon_of_iso)
qed

lemma isOverdue_date:
  assumes "iso_range (date_day d z)" "iso_range (zoned_day now z)"
  shows "isOverdue dp (DDate (Some d)) z now \<longleftrightarrow> date_day d z < zoned_day now z"
  using daysUntilDue_date [OF assms] by (simp add: isOverdue_def)

lemma no_due_date [simp]:
  "daysUntilDue dp DNull z now = None" "\<not> isOverdue dp DNull z now" "\<not> isDueToday dp DNull z now"
  "\<not> isDueSoon dp DNull z now w" "overdueFrom dp DNull z = Inr None" "completedOnTime dp DNull c z = None"
  by (simp_all add: daysUntilDue_def isOverdue_def isDueToday_def isDueSoon_def overdueFrom_def
      completedOnTime_def dueDayKey_def toDate_def)

section \<open>Zones with one offset\<close>


text \<open>Oman: four hours ahead of UTC, all year (the company zone's default, Asia/Muscat).\<close>

definition muscat :: zone where "muscat t = 4 * 3600000"


section \<open>Properties\<close>



text \<open>
  C38. "On time" and "overdue" are the same line in every time zone: a task finished at an instant
  was completed on time exactly when it was not overdue at that instant.
\<close>

theorem on_time_iff_not_overdue:
  assumes "iso_range (date_day d z)" and "iso_range (zoned_day c z)"
  shows "completedOnTime dp (DDate (Some d)) (DDate (Some c)) z = Some (\<not> isOverdue dp (DDate (Some d)) z c)"
  using iso_date_le [OF assms(2,1)] isOverdue_date [OF assms]
  by (auto simp: completedOnTime_def toDate_def zonedDayKey_eq)

theorem on_time_iff_not_overdue_witness:
  "iso_range (date_day (20726 * ms_per_day) muscat) \<and> iso_range (zoned_day (20726 * ms_per_day + 5) muscat) \<and>
   completedOnTime (\<lambda>_. None) (DDate (Some (20726 * ms_per_day))) (DDate (Some (20726 * ms_per_day + 5))) muscat
     = Some (\<not> isOverdue (\<lambda>_. None) (DDate (Some (20726 * ms_per_day))) muscat (20726 * ms_per_day + 5))"
proof -
  have h: "iso_range (date_day (20726 * ms_per_day) muscat)" "iso_range (zoned_day (20726 * ms_per_day + 5) muscat)"
    by code_simp+
  show ?thesis using on_time_iff_not_overdue [OF h] h by blast
qed

end
