(* ===== verification/Recurrence.thy ===== *)
theory Recurrence
  imports DueDate
begin

text \<open>
  \<open>modules/tasks/recurrence.ts\<close>: the rules of repeating tasks. A rule's numbers are integers here:
  the \<open>Number.isInteger\<close> tests of \<open>isValidRule\<close>, which refuse the other numbers, hold by type.
\<close>

section \<open>Rules\<close>

datatype frequency = DAILY | WEEKLY | MONTHLY | QUARTERLY | YEARLY

datatype createNext = ON_COMPLETE | ON_SCHEDULE

text \<open>Week 1 to 4 of the month, or -1 for the last; day 0 is Sunday.\<close>

record nthWeekday =
  nw_week :: int
  nw_day :: int

record recurrenceRule =
  freq :: frequency
  interval :: int
  rcount :: "int option"
  until :: "string option"
  weekdays :: "int list option"
  dayOfMonth :: "int option"
  nthWeekday :: "nthWeekday option"
  anchorDay :: "int option"
  paused :: bool
  createNext :: "createNext option"
  resumeFrom :: "string option"

definition MAX_STEPS :: nat where "MAX_STEPS = 10000"

text \<open>A real calendar day written \<open>YYYY-MM-DD\<close>: it prints back as itself.\<close>

definition isDayKey :: "string \<Rightarrow> bool" where
  "isDayKey s = (case parse_key s of None \<Rightarrow> False | Some d \<Rightarrow> iso_date d = s)"

definition isValidRule :: "(string \<Rightarrow> instant option) \<Rightarrow> recurrenceRule \<Rightarrow> bool" where
  "isValidRule dp r =
     (if interval r < 1 then False
      else if (case rcount r of Some c \<Rightarrow> c < 1 | None \<Rightarrow> False) then False
      else if (case weekdays r of Some ds \<Rightarrow> list_ex (\<lambda>d. d < 0 \<or> d > 6) ds | None \<Rightarrow> False) then False
      else if (case dayOfMonth r of Some d \<Rightarrow> d < 1 \<or> d > 31 | None \<Rightarrow> False) then False
      else if (case anchorDay r of Some d \<Rightarrow> d < 1 \<or> d > 31 | None \<Rightarrow> False) then False
      else if (case until r of Some u \<Rightarrow> dp u = None | None \<Rightarrow> False) then False
      else if (case resumeFrom r of Some k \<Rightarrow> \<not> isDayKey k | None \<Rightarrow> False) then False
      else (case nthWeekday r of
              None \<Rightarrow> True
            | Some nw \<Rightarrow>
                if freq r \<noteq> MONTHLY \<and> freq r \<noteq> QUARTERLY then False
                else if dayOfMonth r \<noteq> None then False
                else if nw_week nw \<notin> set [1, 2, 3, 4, -1] then False
                else if nw_day nw < 0 \<or> nw_day nw > 6 then False
                else True))"

definition withAnchorDay :: "recurrenceRule \<Rightarrow> instant option \<Rightarrow> recurrenceRule" where
  "withAnchorDay r start =
     (case start of
        None \<Rightarrow> r
      | Some s \<Rightarrow>
          if dayOfMonth r \<noteq> None \<or> anchorDay r \<noteq> None \<or> nthWeekday r \<noteq> None then r
          else if freq r \<noteq> MONTHLY \<and> freq r \<noteq> QUARTERLY \<and> freq r \<noteq> YEARLY then r
          else r\<lparr>anchorDay := Some (getUTCDate s)\<rparr>)"

section \<open>Steps\<close>

text \<open>The remainder of JavaScript's \<open>%\<close>, which takes the sign of the dividend.\<close>

definition js_rem :: "int \<Rightarrow> int \<Rightarrow> int" where
  "js_rem a b = sgn a * (\<bar>a\<bar> mod \<bar>b\<bar>)"

definition daysInMonth :: "int \<Rightarrow> int \<Rightarrow> int" where
  "daysInMonth year monthIndex = getUTCDate (date_utc year (monthIndex + 1) 0 0 0 0 0)"

definition addDays :: "instant \<Rightarrow> int \<Rightarrow> instant" where
  "addDays d n = setUTCDate d (getUTCDate d + n)"

text \<open>A date with the time of day of another value.\<close>

definition at_time_of :: "int \<Rightarrow> int \<Rightarrow> int \<Rightarrow> instant \<Rightarrow> instant" where
  "at_time_of year month day d =
     date_utc year month day (getUTCHours d) (getUTCMinutes d) (getUTCSeconds d) (getUTCMilliseconds d)"

definition addMonthsClamped :: "instant \<Rightarrow> int \<Rightarrow> int option \<Rightarrow> instant" where
  "addMonthsClamped d months dayOpt =
     (let targetDay = (case dayOpt of Some x \<Rightarrow> x | None \<Rightarrow> getUTCDate d);
          total = getUTCFullYear d * 12 + getUTCMonth d + months;
          year = total div 12;
          month = js_rem total 12;
          day = min targetDay (daysInMonth year month)
      in at_time_of year month day d)"

definition nextMonthDay :: "instant \<Rightarrow> int \<Rightarrow> int option \<Rightarrow> instant" where
  "nextMonthDay from months day =
     (case day of
        None \<Rightarrow> addMonthsClamped from months day
      | Some dd \<Rightarrow>
          (let year = getUTCFullYear from;
               month = getUTCMonth from;
               thisMonth = at_time_of year month (min dd (daysInMonth year month)) from
           in if thisMonth > from then thisMonth else addMonthsClamped from months day))"

definition nthWeekdayOf :: "int \<Rightarrow> int \<Rightarrow> nthWeekday \<Rightarrow> instant \<Rightarrow> instant" where
  "nthWeekdayOf year monthIndex nw timeOf =
     (let date =
        (if nw_week nw = -1
         then (let lst = daysInMonth year monthIndex;
                   lastDow = getUTCDay (date_utc year monthIndex lst 0 0 0 0)
               in lst - js_rem (lastDow - nw_day nw + 7) 7)
         else (let firstDow = getUTCDay (date_utc year monthIndex 1 0 0 0 0)
               in 1 + js_rem (nw_day nw - firstDow + 7) 7 + 7 * (nw_week nw - 1)))
      in at_time_of year monthIndex date timeOf)"

definition nextNthWeekday :: "instant \<Rightarrow> int \<Rightarrow> nthWeekday \<Rightarrow> instant" where
  "nextNthWeekday from months nw =
     (let thisMonth = nthWeekdayOf (getUTCFullYear from) (getUTCMonth from) nw from
      in if thisMonth > from then thisMonth
         else (let total = getUTCFullYear from * 12 + getUTCMonth from + months
               in nthWeekdayOf (total div 12) (js_rem total 12) nw from))"

text \<open>The loop over the next seven days, \<open>i\<close> from 1 to 7.\<close>

definition weeklyNext :: "instant \<Rightarrow> int \<Rightarrow> int list \<Rightarrow> instant" where
  "weeklyNext from n days =
     (case find (\<lambda>i. getUTCDay (addDays from i) \<in> set days) [1, 2, 3, 4, 5, 6, 7] of
        None \<Rightarrow> addDays from (7 * n)
      | Some i \<Rightarrow>
          (let candidate = addDays from i;
               wrapped = getUTCDay candidate \<le> getUTCDay from
           in if wrapped then addDays candidate (7 * (n - 1)) else candidate))"

text \<open>\<open>rule.dayOfMonth ?? rule.anchorDay\<close>\<close>

definition monthDay :: "recurrenceRule \<Rightarrow> int option" where
  "monthDay r = (case dayOfMonth r of Some d \<Rightarrow> Some d | None \<Rightarrow> anchorDay r)"

definition nextOccurrence :: "instant \<Rightarrow> recurrenceRule \<Rightarrow> instant" where
  "nextOccurrence from r =
     (let n = max 1 (interval r) in
      case freq r of
        DAILY \<Rightarrow> addDays from n
      | WEEKLY \<Rightarrow>
          (case weekdays r of
             Some ds \<Rightarrow> if ds \<noteq> [] then weeklyNext from n ds else addDays from (7 * n)
           | None \<Rightarrow> addDays from (7 * n))
      | MONTHLY \<Rightarrow>
          (case nthWeekday r of
             Some nw \<Rightarrow> nextNthWeekday from n nw
           | None \<Rightarrow> nextMonthDay from n (monthDay r))
      | QUARTERLY \<Rightarrow>
          (case nthWeekday r of
             Some nw \<Rightarrow> nextNthWeekday from (3 * n) nw
           | None \<Rightarrow> nextMonthDay from (3 * n) (monthDay r))
      | YEARLY \<Rightarrow> addMonthsClamped from (12 * n) (anchorDay r))"

section \<open>Series\<close>

text \<open>\<open>generateOccurrences\<close>: the loop runs while fewer than \<open>n\<close> were pushed.\<close>

fun occurrencesLoop :: "instant option \<Rightarrow> recurrenceRule \<Rightarrow> instant \<Rightarrow> nat \<Rightarrow> instant list" where
  "occurrencesLoop u r cur 0 = []"
| "occurrencesLoop u r cur (Suc n) =
     (if (case u of Some e \<Rightarrow> cur > e | None \<Rightarrow> False) then []
      else cur # occurrencesLoop u r (nextOccurrence cur r) n)"

text \<open>An \<open>until\<close> that is no date compares as NaN: it never stops the loop.\<close>

definition generateOccurrences ::
  "(string \<Rightarrow> instant option) \<Rightarrow> instant \<Rightarrow> recurrenceRule \<Rightarrow> int \<Rightarrow> instant list" where
  "generateOccurrences dp start r limit =
     (let u = (case until r of Some s \<Rightarrow> dp s | None \<Rightarrow> None);
          mx = (case rcount r of Some c \<Rightarrow> min c limit | None \<Rightarrow> limit)
      in occurrencesLoop u r start (nat mx))"

definition dayOf :: "instant \<Rightarrow> string" where
  "dayOf d = iso_date (utc_day d)"

text \<open>The end date of a valid rule parses (\<open>isValidRule\<close>); one that does not would throw.\<close>

definition pastUntil :: "(string \<Rightarrow> instant option) \<Rightarrow> instant \<Rightarrow> recurrenceRule \<Rightarrow> bool" where
  "pastUntil dp d r =
     (case until r of
        None \<Rightarrow> False
      | Some s \<Rightarrow> (case dp s of Some u \<Rightarrow> dayOf d > dayOf u | None \<Rightarrow> False))"

function skipPast :: "recurrenceRule \<Rightarrow> string \<Rightarrow> nat \<Rightarrow> instant \<Rightarrow> instant" where
  "skipPast r today i nxt =
     (if dayOf nxt < today \<and> i < MAX_STEPS then skipPast r today (i + 1) (nextOccurrence nxt r) else nxt)"
  by pat_completeness auto
termination by (relation "measure (\<lambda>(r, today, i, nxt). MAX_STEPS - i)") auto

declare skipPast.simps [simp del]

definition nextDueDate ::
  "(string \<Rightarrow> instant option) \<Rightarrow> instant \<Rightarrow> recurrenceRule \<Rightarrow> string \<Rightarrow> instant option" where
  "nextDueDate dp due r today =
     (let nxt = skipPast r today 0 (nextOccurrence due r)
      in if pastUntil dp nxt r then None else Some nxt)"

function owedLoop ::
  "(string \<Rightarrow> instant option) \<Rightarrow> recurrenceRule \<Rightarrow> string \<Rightarrow> nat \<Rightarrow> instant option \<Rightarrow> instant \<Rightarrow> instant option" where
  "owedLoop dp r today i owed nxt =
     (if dayOf nxt \<le> today \<and> \<not> pastUntil dp nxt r \<and> i < MAX_STEPS
      then owedLoop dp r today (i + 1) (Some nxt) (nextOccurrence nxt r) else owed)"
  by pat_completeness auto
termination by (relation "measure (\<lambda>(dp, r, today, i, owed, nxt). MAX_STEPS - i)") auto

declare owedLoop.simps [simp del]

definition scheduledOccurrence ::
  "(string \<Rightarrow> instant option) \<Rightarrow> instant \<Rightarrow> recurrenceRule \<Rightarrow> string \<Rightarrow> instant option" where
  "scheduledOccurrence dp due r today = owedLoop dp r today 0 None (nextOccurrence due r)"

section \<open>One step\<close>

text \<open>
  The statements are about dates from the year 100 on (\<open>modern\<close>), where \<open>Date.UTC\<close> takes a year
  as it is.
\<close>

definition modern :: "instant \<Rightarrow> bool" where
  "modern t \<longleftrightarrow> 100 \<le> year_of_day (utc_day t)"

lemma js_rem_pos [simp]: "0 \<le> a \<Longrightarrow> 0 < b \<Longrightarrow> js_rem a b = a mod b"
  by (cases "a = 0") (simp_all add: js_rem_def)

lemma full_year_modern [simp]: "100 \<le> y \<Longrightarrow> full_year y = y"
  by (simp add: full_year_def)

lemma getUTC_date_utc:
  assumes "0 \<le> m" "m < 12" "1 \<le> d" "d \<le> month_len y m" "100 \<le> y"
  shows "getUTCFullYear (date_utc y m d 0 0 0 0) = y" "getUTCDate (date_utc y m d 0 0 0 0) = d"
    "utc_day (date_utc y m d 0 0 0 0) = make_day y m d"
proof -
  show u: "utc_day (date_utc y m d 0 0 0 0) = make_day y m d"
    using assms utc_day_of(1) [of 0 "make_day y m d"] by (simp add: date_utc_def ms_per_day_def)
  show "getUTCFullYear (date_utc y m d 0 0 0 0) = y" "getUTCDate (date_utc y m d 0 0 0 0) = d"
    using assms make_day_parts [OF assms(1-4)] by (simp_all add: getUTCFullYear_def getUTCDate_def u)
qed

lemma daysInMonth_eq:
  assumes "0 \<le> m" "m < 12" "100 \<le> y"
  shows "daysInMonth y m = month_len y m"
proof -
  have "make_day y (m + 1) 0 = make_day y m (month_len y m)"
  proof (cases "m = 11")
    case True
    then show ?thesis using month_start_12 [of y] by (simp add: make_day_def month_len_def)
  next
    case False
    then show ?thesis using assms by (simp add: make_day_def month_len_def)
  qed
  moreover have "utc_day (date_utc y (m + 1) 0 0 0 0 0) = make_day y (m + 1) 0"
    using assms utc_day_of(1) [of 0 "make_day y (m + 1) 0"] by (simp add: date_utc_def ms_per_day_def)
  ultimately show ?thesis
    using assms make_day_parts(3) [OF assms(1,2), of "month_len y m" y] month_len_bounds [OF assms(1,2), of y]
    by (simp add: daysInMonth_def getUTCDate_def)
qed

lemma at_time_of_simps:
  assumes "100 \<le> y"
  shows "utc_day (at_time_of y m d t) = make_day y m d" "time_of (at_time_of y m d t) = time_of t"
  using assms time_of_bounds [of t] by (simp_all add: at_time_of_def date_utc_keep_time)

lemma addDays_eq: "addDays t n = t + n * ms_per_day"
  by (simp add: addDays_def setUTCDate_add)

lemma addDays_simps [simp]: "utc_day (addDays t n) = utc_day t + n" "time_of (addDays t n) = time_of t"
  by (simp_all add: addDays_eq)

lemma instant_less_same_time: "time_of t = time_of u \<Longrightarrow> t < u \<longleftrightarrow> utc_day t < utc_day u"
proof -
  assume e: "time_of t = time_of u"
  have "t < u \<longleftrightarrow> utc_day t * ms_per_day < utc_day u * ms_per_day"
    using instant_split [of t] instant_split [of u] e by linarith
  then show ?thesis by (simp add: ms_per_day_def)
qed

text \<open>The month a number of months after a date's own.\<close>

lemma month_shift:
  assumes "modern t" "0 \<le> k"
  shows "getUTCFullYear t * 12 + getUTCMonth t + k = month_index (utc_day t) + k"
    "100 \<le> (month_index (utc_day t) + k) div 12" "0 \<le> month_index (utc_day t) + k"
    "0 \<le> (month_index (utc_day t) + k) mod 12" "(month_index (utc_day t) + k) mod 12 < 12"
proof -
  show "getUTCFullYear t * 12 + getUTCMonth t + k = month_index (utc_day t) + k"
    by (simp add: month_index_def getUTCFullYear_def getUTCMonth_def)
  have "100 * 12 \<le> month_index (utc_day t) + k"
    using assms month_of_day_bounds(1) [of "utc_day t"] by (simp add: month_index_def modern_def)
  then show "100 \<le> (month_index (utc_day t) + k) div 12" "0 \<le> month_index (utc_day t) + k"
    by (simp_all add: le_div_iff)
qed simp_all

lemma month_index_make_day:
  assumes "0 \<le> i" "1 \<le> d" "d \<le> month_len (i div 12) (i mod 12)"
  shows "month_index (make_day (i div 12) (i mod 12) d) = i"
  using make_day_parts [of "i mod 12" d "i div 12"] assms by (simp add: month_index_def)

text \<open>A month step: the day asked for, clamped to the length of the month so many months on.\<close>

lemma addMonthsClamped_eq:
  assumes "modern t" "0 \<le> k" and target: "target = (case dd of Some x \<Rightarrow> x | None \<Rightarrow> getUTCDate t)" "1 \<le> target"
  shows "time_of (addMonthsClamped t k dd) = time_of t"
    "month_index (utc_day (addMonthsClamped t k dd)) = month_index (utc_day t) + k"
    "date_of_day (utc_day (addMonthsClamped t k dd))
       = min target (month_len ((month_index (utc_day t) + k) div 12) ((month_index (utc_day t) + k) mod 12))"
proof -
  define i where "i = month_index (utc_day t) + k"
  note ms = month_shift [OF assms(1,2), folded i_def]
  define d where "d = min target (month_len (i div 12) (i mod 12))"
  have d: "1 \<le> d" "d \<le> month_len (i div 12) (i mod 12)"
    using target(2) month_len_bounds(1) [OF ms(4,5), of "i div 12"] by (simp_all add: d_def)
  have e: "addMonthsClamped t k dd = at_time_of (i div 12) (i mod 12) d t"
    unfolding addMonthsClamped_def Let_def ms(1) target(1) [symmetric] d_def
    using ms(2,3) daysInMonth_eq [OF ms(4,5,2)] by simp
  show "time_of (addMonthsClamped t k dd) = time_of t"
    unfolding e by (rule at_time_of_simps(2) [OF ms(2)])
  have u: "utc_day (addMonthsClamped t k dd) = make_day (i div 12) (i mod 12) d"
    unfolding e by (rule at_time_of_simps(1) [OF ms(2)])
  show "month_index (utc_day (addMonthsClamped t k dd)) = month_index (utc_day t) + k"
    unfolding u month_index_make_day [OF ms(3) d] by (simp add: i_def)
  show "date_of_day (utc_day (addMonthsClamped t k dd))
       = min target (month_len ((month_index (utc_day t) + k) div 12) ((month_index (utc_day t) + k) mod 12))"
    using make_day_parts(3) [OF ms(4,5) d] unfolding u by (simp add: d_def i_def)
qed

lemma thisMonth_eq:
  assumes "modern t" "1 \<le> d" "d \<le> month_len (getUTCFullYear t) (getUTCMonth t)"
  shows "time_of (at_time_of (getUTCFullYear t) (getUTCMonth t) d t) = time_of t"
    "month_index (utc_day (at_time_of (getUTCFullYear t) (getUTCMonth t) d t)) = month_index (utc_day t)"
    "date_of_day (utc_day (at_time_of (getUTCFullYear t) (getUTCMonth t) d t)) = d"
proof -
  have m: "0 \<le> getUTCMonth t" "getUTCMonth t < 12" by (simp_all add: getUTCMonth_def month_of_day_bounds)
  have y: "100 \<le> getUTCFullYear t" using assms(1) by (simp add: modern_def getUTCFullYear_def)
  show "time_of (at_time_of (getUTCFullYear t) (getUTCMonth t) d t) = time_of t"
    by (rule at_time_of_simps(2) [OF y])
  have u: "utc_day (at_time_of (getUTCFullYear t) (getUTCMonth t) d t) = make_day (getUTCFullYear t) (getUTCMonth t) d"
    by (rule at_time_of_simps(1) [OF y])
  show "month_index (utc_day (at_time_of (getUTCFullYear t) (getUTCMonth t) d t)) = month_index (utc_day t)"
    "date_of_day (utc_day (at_time_of (getUTCFullYear t) (getUTCMonth t) d t)) = d"
    unfolding u using make_day_parts [OF m assms(2,3)]
    by (simp_all add: month_index_def getUTCFullYear_def getUTCMonth_def)
qed

section \<open>Weekdays of the month\<close>

definition valid_nth :: "nthWeekday \<Rightarrow> bool" where
  "valid_nth nw \<longleftrightarrow> nw_week nw \<in> {1, 2, 3, 4, -1} \<and> 0 \<le> nw_day nw \<and> nw_day nw \<le> 6"

lemma weekday_mod: "0 \<le> w \<Longrightarrow> w \<le> 6 \<Longrightarrow> (w :: int) mod 7 = w"
  by simp

lemma last_weekday_arith:
  fixes L w :: int
  assumes "0 \<le> w" "w \<le> 6"
  shows "(L - ((L + 4) mod 7 - w + 7) mod 7 + 4) mod 7 = w"
proof -
  define a where "a = L + 4"
  have "(L - ((L + 4) mod 7 - w + 7) mod 7 + 4) = a - (a mod 7 - w + 7) mod 7"
    by (simp add: a_def)
  also have "\<dots> mod 7 = (a - (a mod 7 - w + 7)) mod 7"
    by (rule mod_diff_right_eq)
  also have "a - (a mod 7 - w + 7) = w + 7 * (a div 7 - 1)"
    by (simp add: minus_mod_eq_mult_div)
  finally show ?thesis
    unfolding mod_mult_self2 weekday_mod [OF assms] .
qed

lemma first_weekday_arith:
  fixes F w k :: int
  assumes "0 \<le> w" "w \<le> 6"
  shows "(F + ((w - (F + 4) mod 7 + 7) mod 7) + 7 * k + 4) mod 7 = w"
proof -
  define a where "a = F + 4"
  have "F + ((w - (F + 4) mod 7 + 7) mod 7) + 7 * k + 4 = (a + 7 * k) + (w - a mod 7 + 7) mod 7"
    by (simp add: a_def)
  also have "\<dots> mod 7 = ((a + 7 * k) + (w - a mod 7 + 7)) mod 7"
    by (rule mod_add_right_eq)
  also have "(a + 7 * k) + (w - a mod 7 + 7) = w + 7 * (a div 7 + k + 1)"
    by (simp add: minus_mod_eq_mult_div)
  finally show ?thesis
    unfolding mod_mult_self2 weekday_mod [OF assms] .
qed

text \<open>The date \<open>nthWeekdayOf\<close> finds, as an offset in its month.\<close>

lemma nthWeekdayOf_date:
  assumes "100 \<le> y" "0 \<le> m" "m < 12" and nw: "valid_nth nw"
  obtains d where "nthWeekdayOf y m nw t = at_time_of y m d t"
    "1 \<le> d" "d \<le> month_len y m" "weekday_of_day (make_day y m d) = nw_day nw"
    "nw_week nw = -1 \<Longrightarrow> month_len y m - 7 < d"
    "nw_week nw \<noteq> -1 \<Longrightarrow> 7 * (nw_week nw - 1) < d \<and> d \<le> 7 * nw_week nw"
proof (cases "nw_week nw = -1")
  case True
  define x where "x = (weekday_of_day (make_day y m (month_len y m)) - nw_day nw + 7) mod 7"
  have len: "28 \<le> month_len y m" using month_len_bounds [OF assms(2,3)] by simp
  have x: "0 \<le> x" "x \<le> 6" by (simp_all add: x_def)
  have "getUTCDay (date_utc y m (month_len y m) 0 0 0 0) = weekday_of_day (make_day y m (month_len y m))"
    using getUTC_date_utc(3) [of m "month_len y m" y] assms len by (simp add: getUTCDay_def)
  moreover have "0 \<le> weekday_of_day (make_day y m (month_len y m)) - nw_day nw + 7"
    using weekday_bounds(1) [of "make_day y m (month_len y m)"] nw by (simp add: valid_nth_def)
  ultimately have e: "nthWeekdayOf y m nw t = at_time_of y m (month_len y m - x) t"
    using True assms by (simp add: nthWeekdayOf_def daysInMonth_eq Let_def x_def)
  have "weekday_of_day (make_day y m (month_len y m - x)) = nw_day nw"
    using last_weekday_arith [of "nw_day nw" "make_day y m (month_len y m)"] nw
      make_day_shift [of y m "month_len y m" "-x"]
    by (simp add: x_def weekday_of_day_def valid_nth_def)
  with e show thesis using x len True by (intro that [of "month_len y m - x"]) simp_all
next
  case False
  define x where "x = (nw_day nw - weekday_of_day (make_day y m 1) + 7) mod 7"
  have len: "28 \<le> month_len y m" using month_len_bounds [OF assms(2,3)] by simp
  have x: "0 \<le> x" "x \<le> 6" by (simp_all add: x_def)
  have w: "1 \<le> nw_week nw" "nw_week nw \<le> 4" using False nw by (auto simp: valid_nth_def)
  have "getUTCDay (date_utc y m 1 0 0 0 0) = weekday_of_day (make_day y m 1)"
    using getUTC_date_utc(3) [of m 1 y] assms len by (simp add: getUTCDay_def)
  moreover have "0 \<le> nw_day nw - weekday_of_day (make_day y m 1) + 7"
    using weekday_bounds(2) [of "make_day y m 1"] nw by (simp add: valid_nth_def)
  ultimately have e: "nthWeekdayOf y m nw t = at_time_of y m (1 + x + 7 * (nw_week nw - 1)) t"
    using False by (simp add: nthWeekdayOf_def Let_def x_def)
  have "weekday_of_day (make_day y m (1 + x + 7 * (nw_week nw - 1))) = nw_day nw"
    using first_weekday_arith [of "nw_day nw" "make_day y m 1" "nw_week nw - 1"] nw
      make_day_shift [of y m 1 "x + 7 * (nw_week nw - 1)"]
    by (simp add: x_def weekday_of_day_def valid_nth_def add.assoc)
  with e show thesis
    using x len w False by (intro that [of "1 + x + 7 * (nw_week nw - 1)"]) simp_all
qed

lemma nthWeekdayOf_eq:
  assumes "100 \<le> y" "0 \<le> m" "m < 12" "valid_nth nw"
  shows "time_of (nthWeekdayOf y m nw t) = time_of t"
    "month_index (utc_day (nthWeekdayOf y m nw t)) = y * 12 + m"
    "weekday_of_day (utc_day (nthWeekdayOf y m nw t)) = nw_day nw"
    "nw_week nw = -1 \<Longrightarrow> month_len y m - 7 < date_of_day (utc_day (nthWeekdayOf y m nw t))"
    "nw_week nw \<noteq> -1 \<Longrightarrow> 7 * (nw_week nw - 1) < date_of_day (utc_day (nthWeekdayOf y m nw t))
       \<and> date_of_day (utc_day (nthWeekdayOf y m nw t)) \<le> 7 * nw_week nw"
proof -
  from nthWeekdayOf_date [OF assms, of t thesis] obtain d where d: "nthWeekdayOf y m nw t = at_time_of y m d t"
    "1 \<le> d" "d \<le> month_len y m" "weekday_of_day (make_day y m d) = nw_day nw"
    "nw_week nw = -1 \<Longrightarrow> month_len y m - 7 < d"
    "nw_week nw \<noteq> -1 \<Longrightarrow> 7 * (nw_week nw - 1) < d \<and> d \<le> 7 * nw_week nw"
    using nthWeekdayOf_date [OF assms, of t] by blast
  note parts = make_day_parts [OF assms(2,3) d(2,3)]
  show "time_of (nthWeekdayOf y m nw t) = time_of t"
    "month_index (utc_day (nthWeekdayOf y m nw t)) = y * 12 + m"
    "weekday_of_day (utc_day (nthWeekdayOf y m nw t)) = nw_day nw"
    "nw_week nw = -1 \<Longrightarrow> month_len y m - 7 < date_of_day (utc_day (nthWeekdayOf y m nw t))"
    "nw_week nw \<noteq> -1 \<Longrightarrow> 7 * (nw_week nw - 1) < date_of_day (utc_day (nthWeekdayOf y m nw t))
       \<and> date_of_day (utc_day (nthWeekdayOf y m nw t)) \<le> 7 * nw_week nw"
    using d parts by (simp_all add: at_time_of_simps [OF assms(1)] month_index_def)
qed

section \<open>Every step goes forward\<close>

text \<open>A rule as \<open>isValidRule\<close> accepts it, without its texts.\<close>

definition sound_rule :: "recurrenceRule \<Rightarrow> bool" where
  "sound_rule r \<longleftrightarrow> 1 \<le> interval r \<and>
     (\<forall>ds. weekdays r = Some ds \<longrightarrow> (\<forall>d \<in> set ds. 0 \<le> d \<and> d \<le> 6)) \<and>
     (\<forall>d. dayOfMonth r = Some d \<longrightarrow> 1 \<le> d \<and> d \<le> 31) \<and>
     (\<forall>d. anchorDay r = Some d \<longrightarrow> 1 \<le> d \<and> d \<le> 31) \<and>
     (\<forall>nw. nthWeekday r = Some nw \<longrightarrow> valid_nth nw)"

lemma isValidRule_sound: "isValidRule dp r \<Longrightarrow> sound_rule r"
  unfolding isValidRule_def sound_rule_def valid_nth_def
  by (auto split: if_splits option.splits simp: list_ex_iff not_less)

lemma isValidRule_until: "isValidRule dp r \<Longrightarrow> until r = Some u \<Longrightarrow> dp u \<noteq> None"
  unfolding isValidRule_def by (auto split: if_splits)

definition forward :: "instant \<Rightarrow> instant \<Rightarrow> bool" where
  "forward t u \<longleftrightarrow> time_of u = time_of t \<and> utc_day t < utc_day u"

lemma forward_less: "forward t u \<Longrightarrow> t < u"
  by (simp add: forward_def instant_less_same_time)

lemma forward_modern: "forward t u \<Longrightarrow> modern t \<Longrightarrow> modern u"
  unfolding forward_def modern_def using year_of_day_mono [of "utc_day t" "utc_day u"] by linarith

lemma addDays_forward: "0 < n \<Longrightarrow> forward t (addDays t n)"
  by (simp add: forward_def)

lemma month_later_forward:
  "time_of u = time_of t \<Longrightarrow> month_index (utc_day t) < month_index (utc_day u) \<Longrightarrow> forward t u"
  by (simp add: forward_def month_index_strict)

lemma addMonthsClamped_forward:
  assumes "modern t" "0 < k" "\<forall>d. dd = Some d \<longrightarrow> 1 \<le> d"
  shows "forward t (addMonthsClamped t k dd)"
  using assms addMonthsClamped_eq(1,2) [of t k _ dd] date_of_day_bounds(1) [of "utc_day t"]
  by (intro month_later_forward) (auto simp: getUTCDate_def split: option.splits)

lemma nextMonthDay_forward:
  assumes "modern t" "0 < k" "\<forall>d. dd = Some d \<longrightarrow> 1 \<le> d"
  shows "forward t (nextMonthDay t k dd)"
proof (cases dd)
  case None
  then show ?thesis using addMonthsClamped_forward [OF assms] by (simp add: nextMonthDay_def)
next
  case (Some d)
  have m: "0 \<le> getUTCMonth t" "getUTCMonth t < 12" "100 \<le> getUTCFullYear t"
    using assms(1) by (simp_all add: getUTCMonth_def month_of_day_bounds modern_def getUTCFullYear_def)
  let ?mon = "at_time_of (getUTCFullYear t) (getUTCMonth t) (min d (daysInMonth (getUTCFullYear t) (getUTCMonth t))) t"
  have "time_of ?mon = time_of t" by (rule at_time_of_simps(2) [OF m(3)])
  then show ?thesis
    using Some addMonthsClamped_forward [OF assms] instant_less_same_time [of t ?mon]
    by (simp add: nextMonthDay_def Let_def forward_def)
qed

lemma nextNthWeekday_forward:
  assumes "modern t" "0 < k" "valid_nth nw"
  shows "forward t (nextNthWeekday t k nw)"
proof -
  have m: "0 \<le> getUTCMonth t" "getUTCMonth t < 12" "100 \<le> getUTCFullYear t"
    using assms(1) by (simp_all add: getUTCMonth_def month_of_day_bounds modern_def getUTCFullYear_def)
  note this_month = nthWeekdayOf_eq [OF m(3,1,2) assms(3), of t]
  define i where "i = month_index (utc_day t) + k"
  note ms = month_shift [OF assms(1) less_imp_le [OF assms(2)], folded i_def]
  note later = nthWeekdayOf_eq [OF ms(2,4,5) assms(3), of t]
  have "forward t (nthWeekdayOf (i div 12) (i mod 12) nw t)"
    using later(1,2) assms(2) by (intro month_later_forward) (simp_all add: i_def)
  then show ?thesis
    using this_month(1) instant_less_same_time ms(3)
    by (auto simp: nextNthWeekday_def Let_def ms(1) forward_def)
qed

lemma weeklyNext_forward: "0 < n \<Longrightarrow> forward t (weeklyNext t n ds)"
  by (auto simp: weeklyNext_def Let_def forward_def dest!: find_mem split: option.splits)

lemma nextOccurrence_forward:
  assumes "sound_rule r" "modern t"
  shows "forward t (nextOccurrence t r)"
proof -
  have n: "0 < max 1 (interval r)" by simp
  have d: "\<forall>d. monthDay r = Some d \<longrightarrow> 1 \<le> d" "\<forall>d. anchorDay r = Some d \<longrightarrow> 1 \<le> d"
    using assms(1) by (auto simp: sound_rule_def monthDay_def split: option.splits)
  show ?thesis
    using assms n d
    by (cases "freq r")
      (auto simp: nextOccurrence_def Let_def sound_rule_def intro!: addDays_forward weeklyNext_forward
        nextMonthDay_forward nextNthWeekday_forward addMonthsClamped_forward split: option.splits)
qed

section \<open>Weekly rules\<close>

text \<open>Weeks run Sunday to Saturday.\<close>

definition week_no :: "day \<Rightarrow> int" where
  "week_no d = (d + 4) div 7"

lemma week_parts: "d + 4 = 7 * week_no d + weekday_of_day d"
  by (simp add: week_no_def weekday_of_day_def)

lemma week_partsI: "d + 4 = 7 * q + w \<Longrightarrow> 0 \<le> w \<Longrightarrow> w \<le> 6 \<Longrightarrow> week_no d = q \<and> weekday_of_day d = w"
  by (simp add: week_no_def weekday_of_day_def)

lemma next_seven: "k < 7 \<Longrightarrow> [1, 2, 3, 4, 5, 6, 7 :: int] ! k = int k + 1"
  by (simp add: numeral_eq_Suc less_Suc_eq) auto

text \<open>The first of the next seven days on one of the weekdays; there always is one.\<close>

lemma weekly_find:
  assumes "d \<in> set ds" "0 \<le> d" "d \<le> 6"
  obtains i where "find (\<lambda>i. getUTCDay (addDays t i) \<in> set ds) [1, 2, 3, 4, 5, 6, 7] = Some i"
    "1 \<le> i" "i \<le> 7" "weekday_of_day (utc_day t + i) \<in> set ds"
    "\<And>j. 1 \<le> j \<Longrightarrow> j < i \<Longrightarrow> weekday_of_day (utc_day t + j) \<notin> set ds"
proof -
  let ?P = "\<lambda>i. getUTCDay (addDays t i) \<in> set ds"
  define w where "w = weekday_of_day (utc_day t)"
  define i0 where "i0 = (if d > w then d - w else d - w + 7)"
  have w: "0 \<le> w" "w \<le> 6" by (simp_all add: w_def weekday_bounds)
  have "weekday_of_day (utc_day t + i0) = d"
    using week_parts [of "utc_day t"] assms(2,3)
      week_partsI [of "utc_day t + i0" "week_no (utc_day t) + (if d > w then 0 else 1)" d]
    by (simp add: i0_def w_def split: if_splits)
  then have "?P i0" using assms(1) by (simp add: getUTCDay_def)
  moreover have "i0 \<in> {1, 2, 3, 4, 5, 6, 7}"
    using w assms(2,3) by (auto simp: i0_def)
  ultimately have "find ?P [1, 2, 3, 4, 5, 6, 7] \<noteq> None"
    by (auto simp: find_None_iff)
  then obtain i where i: "find ?P [1, 2, 3, 4, 5, 6, 7] = Some i" by blast
  then obtain k where "k < length [1, 2, 3, 4, 5, 6, 7 :: int]" "?P ([1, 2, 3, 4, 5, 6, 7] ! k)"
    "i = [1, 2, 3, 4, 5, 6, 7] ! k" "\<forall>j < k. \<not> ?P ([1, 2, 3, 4, 5, 6, 7] ! j)"
    unfolding find_Some_iff by blast
  then have k: "k < 7" "?P (int k + 1)" "i = int k + 1" "\<forall>j < k. \<not> ?P (int j + 1)"
    by (simp_all add: next_seven)
  have "weekday_of_day (utc_day t + j) \<notin> set ds" if j: "1 \<le> j" "j < i" for j
  proof -
    have "nat (j - 1) < k" "int (nat (j - 1)) + 1 = j" using j k(3) by simp_all
    then have "\<not> ?P j" using k(4) by metis
    then show ?thesis by (simp add: getUTCDay_def)
  qed
  then show thesis using i k by (intro that [of i]) (simp_all add: getUTCDay_def)
qed

text \<open>
  Either a chosen weekday is left in this week, and the next such day is taken; or none is, and it
  is the first chosen weekday \<open>n\<close> weeks on.
\<close>

definition weekly_spec :: "day \<Rightarrow> int \<Rightarrow> int set \<Rightarrow> day \<Rightarrow> bool" where
  "weekly_spec u n D r \<longleftrightarrow> weekday_of_day r \<in> D \<and>
     ((week_no r = week_no u \<and> u < r \<and> (\<forall>j. u < j \<and> j < r \<longrightarrow> weekday_of_day j \<notin> D)) \<or>
      (week_no r = week_no u + n \<and> (\<forall>j. u < j \<and> week_no j = week_no u \<longrightarrow> weekday_of_day j \<notin> D) \<and>
        (\<forall>j < r. week_no j = week_no r \<longrightarrow> weekday_of_day j \<notin> D)))"

lemma week_shift: "week_no (d + 7 * k) = week_no d + k" "weekday_of_day (d + 7 * k) = weekday_of_day d"
  using week_partsI [of "d + 7 * k" "week_no d + k" "weekday_of_day d"] week_parts [of d] weekday_bounds [of d]
  by simp_all

lemma weeklyNext_spec:
  fixes t :: instant
  assumes "d \<in> set ds" "0 \<le> d" "d \<le> 6"
  shows "weekly_spec (utc_day t) n (set ds) (utc_day (weeklyNext t n ds))"
proof -
  define u where "u = utc_day t"
  obtain i where i: "find (\<lambda>i. getUTCDay (addDays t i) \<in> set ds) [1, 2, 3, 4, 5, 6, 7] = Some i"
    "1 \<le> i" "i \<le> 7" "weekday_of_day (u + i) \<in> set ds"
    "\<And>j. 1 \<le> j \<Longrightarrow> j < i \<Longrightarrow> weekday_of_day (u + j) \<notin> set ds"
    using weekly_find [OF assms, of t thesis] unfolding u_def by blast
  define w where "w = weekday_of_day u"
  have w: "0 \<le> w" "w \<le> 6" by (simp_all add: w_def weekday_bounds)
  have p: "u + 4 = 7 * week_no u + w" by (simp add: w_def week_parts)
  have gap: "weekday_of_day j \<notin> set ds" if "u < j" "j < u + i" for j
    using i(5) [of "j - u"] that by simp
  define r where "r = (if weekday_of_day (u + i) \<le> w then u + i + 7 * (n - 1) else u + i)"
  have "utc_day (weeklyNext t n ds) = r"
    using i(1) by (simp add: r_def weeklyNext_def getUTCDay_def u_def w_def Let_def)
  moreover have "weekly_spec u n (set ds) r"
  proof (cases "w + i \<le> 6")
    case True
    then have "week_no (u + i) = week_no u \<and> weekday_of_day (u + i) = w + i"
      using p w i(2) by (intro week_partsI) simp_all
    then show ?thesis using i gap by (auto simp: weekly_spec_def r_def)
  next
    case False
    then have e: "week_no (u + i) = week_no u + 1 \<and> weekday_of_day (u + i) = w + i - 7"
      using p w i(3) by (intro week_partsI) simp_all
    then have r: "r = u + i + 7 * (n - 1)" using i(3) by (simp add: r_def)
    have "weekday_of_day j \<notin> set ds" if j: "u < j" "week_no j = week_no u" for j
      using week_parts [of j] j p weekday_bounds(2) [of j] False by (intro gap) simp_all
    moreover have "weekday_of_day j \<notin> set ds" if j: "j < r" "week_no j = week_no r" for j
    proof -
      have "week_no (j + 7 * - (n - 1)) = week_no u + 1"
        using j(2) e unfolding week_shift r by simp
      then have "u < j + 7 * - (n - 1)"
        using week_parts [of "j + 7 * - (n - 1)"] p w(2) weekday_bounds(1) [of "j + 7 * - (n - 1)"] by linarith
      then show ?thesis using gap [of "j + 7 * - (n - 1)"] j(1) r unfolding week_shift by simp
    qed
    moreover have "week_no r = week_no u + n" "weekday_of_day r = w + i - 7"
      using e unfolding r week_shift by simp_all
    ultimately show ?thesis
      using e i(4) by (simp add: weekly_spec_def)
  qed
  ultimately show ?thesis by (simp add: u_def)
qed

section \<open>No drift\<close>

text \<open>
  A month rule with a day keeps it: every occurrence is on that day, or on the last day of a month
  that is too short for it.
\<close>

lemma nextMonthDay_date:
  fixes t :: instant and k d :: int
  assumes "modern t" "0 < k" "1 \<le> d"
  defines "r \<equiv> utc_day (nextMonthDay t k (Some d))"
  shows "date_of_day r = min d (month_len (year_of_day r) (month_of_day r))"
    "month_index r = month_index (utc_day t) \<or> month_index r = month_index (utc_day t) + k"
proof -
  have m: "0 \<le> getUTCMonth t" "getUTCMonth t < 12" "100 \<le> getUTCFullYear t"
    using assms(1) by (simp_all add: getUTCMonth_def month_of_day_bounds modern_def getUTCFullYear_def)
  define e where "e = min d (daysInMonth (getUTCFullYear t) (getUTCMonth t))"
  have len: "e = min d (month_len (getUTCFullYear t) (getUTCMonth t))"
    using daysInMonth_eq [OF m] by (simp add: e_def)
  then have e: "1 \<le> e" "e \<le> month_len (getUTCFullYear t) (getUTCMonth t)"
    using assms(3) month_len_bounds(1) [OF m(1,2), of "getUTCFullYear t"] by simp_all
  note tm = thisMonth_eq [OF assms(1) e]
  note am = addMonthsClamped_eq [of t k d "Some d", OF assms(1) less_imp_le [OF assms(2)] _ assms(3), simplified]
  have "r = utc_day (at_time_of (getUTCFullYear t) (getUTCMonth t) e t) \<or> r = utc_day (addMonthsClamped t k (Some d))"
    by (simp add: r_def nextMonthDay_def e_def Let_def)
  then show "date_of_day r = min d (month_len (year_of_day r) (month_of_day r))"
    using tm am len month_index_parts by (metis getUTCFullYear_def getUTCMonth_def)
  show "month_index r = month_index (utc_day t) \<or> month_index r = month_index (utc_day t) + k"
    using \<open>r = _ \<or> _\<close> tm(2) am(2) by auto
qed

section \<open>How far a step goes\<close>

lemma year_of_day_plus: "0 \<le> n \<Longrightarrow> year_of_day (d + 7 * n) \<le> year_of_day d + n"
proof (induction n rule: int_ge_induct)
  case base
  show ?case by simp
next
  case (step i)
  have "d + 7 * (i + 1) < day_from_year (year_of_day (d + 7 * i) + 1 + 1)"
    using year_of_day_bounds(2) [of "d + 7 * i"] day_from_year_step [of "year_of_day (d + 7 * i) + 1"]
      year_len_bounds(1) [of "year_of_day (d + 7 * i) + 1"] by simp
  then have "day_from_year (year_of_day (d + 7 * (i + 1))) < day_from_year (year_of_day (d + 7 * i) + 1 + 1)"
    using year_of_day_bounds(1) [of "d + 7 * (i + 1)"] by linarith
  then show ?case using step by (simp add: day_from_year_less_iff)
qed

lemma days_growth: "utc_day u \<le> utc_day t + 7 * n \<Longrightarrow> 0 \<le> n \<Longrightarrow> year_of_day (utc_day u) \<le> year_of_day (utc_day t) + n"
  using year_of_day_mono [of "utc_day u" "utc_day t + 7 * n"] year_of_day_plus [of n "utc_day t"] by linarith

lemma months_growth:
  assumes "month_index (utc_day u) \<le> month_index (utc_day t) + k" "11 + k < 12 * (n + 1)"
  shows "year_of_day (utc_day u) \<le> year_of_day (utc_day t) + n"
proof -
  have "month_index (utc_day u) div 12 \<le> (month_index (utc_day t) + k) div 12"
    using assms(1) by (rule zdiv_mono1) simp
  moreover have "\<not> (year_of_day (utc_day t) + n + 1) * 12 \<le> month_index (utc_day t) + k"
    using assms(2) month_of_day_bounds(2) [of "utc_day t"] by (simp add: month_index_def)
  then have "(month_index (utc_day t) + k) div 12 < year_of_day (utc_day t) + n + 1"
    using le_div_iff [of 12 "year_of_day (utc_day t) + n + 1" "month_index (utc_day t) + k"] by simp
  ultimately show ?thesis by (simp add: month_index_parts)
qed

lemma weeklyNext_growth: "1 \<le> n \<Longrightarrow> utc_day (weeklyNext t n ds) \<le> utc_day t + 7 * n"
  by (auto simp: weeklyNext_def Let_def dest!: find_mem split: option.splits)

lemma addMonthsClamped_index:
  assumes "modern t" "0 < k" "\<forall>d. dd = Some d \<longrightarrow> 1 \<le> d"
  shows "month_index (utc_day (addMonthsClamped t k dd)) = month_index (utc_day t) + k"
  using assms addMonthsClamped_eq(2) [of t k _ dd] date_of_day_bounds(1) [of "utc_day t"]
  by (auto simp: getUTCDate_def split: option.splits)

lemma nextMonthDay_index:
  assumes "modern t" "0 < k" "\<forall>d. dd = Some d \<longrightarrow> 1 \<le> d"
  shows "month_index (utc_day (nextMonthDay t k dd)) \<le> month_index (utc_day t) + k"
proof (cases dd)
  case None
  then show ?thesis using addMonthsClamped_index [OF assms] by (simp add: nextMonthDay_def)
next
  case (Some d)
  then show ?thesis using nextMonthDay_date(2) [OF assms(1,2), of d] assms(2,3) by auto
qed

lemma nextNthWeekday_index:
  assumes "modern t" "0 < k" "valid_nth nw"
  shows "month_index (utc_day (nextNthWeekday t k nw)) \<le> month_index (utc_day t) + k"
proof -
  have m: "0 \<le> getUTCMonth t" "getUTCMonth t < 12" "100 \<le> getUTCFullYear t"
    using assms(1) by (simp_all add: getUTCMonth_def month_of_day_bounds modern_def getUTCFullYear_def)
  define i where "i = month_index (utc_day t) + k"
  note ms = month_shift [OF assms(1) less_imp_le [OF assms(2)], folded i_def]
  show ?thesis
    using nthWeekdayOf_eq(2) [OF m(3,1,2) assms(3), of t] nthWeekdayOf_eq(2) [OF ms(2,4,5) assms(3), of t] ms(3) assms(2)
    by (auto simp: nextNthWeekday_def Let_def ms(1) i_def month_index_def getUTCFullYear_def getUTCMonth_def)
qed

lemma nextOccurrence_growth:
  assumes "sound_rule r" "modern t"
  shows "year_of_day (utc_day (nextOccurrence t r)) \<le> year_of_day (utc_day t) + interval r"
proof -
  define n where "n = interval r"
  have n: "1 \<le> n" "max 1 (interval r) = n" using assms(1) by (simp_all add: sound_rule_def n_def)
  have d: "\<forall>d. monthDay r = Some d \<longrightarrow> 1 \<le> d" "\<forall>d. anchorDay r = Some d \<longrightarrow> 1 \<le> d"
    "\<forall>nw. nthWeekday r = Some nw \<longrightarrow> valid_nth nw"
    using assms(1) by (auto simp: sound_rule_def monthDay_def split: option.splits)
  have days: "year_of_day (utc_day (addDays t k)) \<le> year_of_day (utc_day t) + n" if "k \<le> 7 * n" for k
    using that n(1) by (intro days_growth) simp_all
  show ?thesis
  proof (cases "freq r")
    case DAILY
    then show ?thesis using days [of n] n by (simp add: nextOccurrence_def n_def [symmetric])
  next
    case WEEKLY
    have "year_of_day (utc_day (weeklyNext t n ds)) \<le> year_of_day (utc_day t) + n" for ds
      using weeklyNext_growth [OF n(1), of t ds] n(1) by (intro days_growth) simp_all
    then show ?thesis
      using WEEKLY days [of "7 * n"] n by (auto simp: nextOccurrence_def n_def [symmetric] split: option.splits)
  next
    case MONTHLY
    have "month_index (utc_day (nextOccurrence t r)) \<le> month_index (utc_day t) + n"
      using MONTHLY n d assms(2) nextMonthDay_index [of t n] nextNthWeekday_index [of t n]
      by (auto simp: nextOccurrence_def n_def [symmetric] split: option.splits)
    from months_growth [OF this, of n] show ?thesis using n(1) by (simp add: n_def [symmetric])
  next
    case QUARTERLY
    have "month_index (utc_day (nextOccurrence t r)) \<le> month_index (utc_day t) + 3 * n"
      using QUARTERLY n d assms(2) nextMonthDay_index [of t "3 * n"] nextNthWeekday_index [of t "3 * n"]
      by (auto simp: nextOccurrence_def n_def [symmetric] split: option.splits)
    from months_growth [OF this, of n] show ?thesis using n(1) by (simp add: n_def [symmetric])
  next
    case YEARLY
    have "month_index (utc_day (nextOccurrence t r)) = month_index (utc_day t) + 12 * n"
      using YEARLY n d assms(2) addMonthsClamped_index [of t "12 * n" "anchorDay r"]
      by (simp add: nextOccurrence_def n_def [symmetric])
    then show ?thesis
      using month_index_parts(1) [of "utc_day (nextOccurrence t r)"] month_index_parts(1) [of "utc_day t"]
      by (simp add: n_def [symmetric])
  qed
qed

section \<open>The series of a rule\<close>

definition occurrence :: "recurrenceRule \<Rightarrow> instant \<Rightarrow> nat \<Rightarrow> instant" where
  "occurrence r start k = ((\<lambda>t. nextOccurrence t r) ^^ k) start"

lemma occurrence_simps [simp]:
  "occurrence r t 0 = t" "occurrence r t (Suc k) = nextOccurrence (occurrence r t k) r"
  by (simp_all add: occurrence_def)

lemma occurrence_step: "occurrence r (nextOccurrence t r) k = occurrence r t (Suc k)"
  using funpow_swap1 [of "\<lambda>t. nextOccurrence t r" k t] by (simp add: occurrence_def)

lemma occurrence_forward:
  assumes "sound_rule r" "modern t"
  shows "modern (occurrence r t k) \<and> time_of (occurrence r t k) = time_of t
    \<and> utc_day t + int k \<le> utc_day (occurrence r t k)"
proof (induction k)
  case 0
  then show ?case using assms by simp
next
  case (Suc k)
  then have f: "forward (occurrence r t k) (nextOccurrence (occurrence r t k) r)"
    using nextOccurrence_forward [OF assms(1), of "occurrence r t k"] by simp
  with Suc show ?case using forward_modern [OF f] by (auto simp: forward_def)
qed

lemma occurrence_less:
  assumes "sound_rule r" "modern t" "j < k"
  shows "occurrence r t j < occurrence r t k"
  using assms(3)
proof (induction k)
  case 0
  then show ?case by simp
next
  case (Suc k)
  have "occurrence r t k < occurrence r t (Suc k)"
    using occurrence_forward [OF assms(1,2), of k] nextOccurrence_forward [OF assms(1)] forward_less by simp
  then show ?case using Suc by (metis less_Suc_eq less_trans)
qed

lemma skipPast_char:
  "\<exists>k. skipPast r today i t = occurrence r t k \<and> (\<forall>j < k. dayOf (occurrence r t j) < today)
     \<and> (\<not> dayOf (occurrence r t k) < today \<or> MAX_STEPS \<le> i + k)"
proof (induction r today i t rule: skipPast.induct)
  case (1 r today i t)
  show ?case
  proof (cases "dayOf t < today \<and> i < MAX_STEPS")
    case True
    with "1.IH" obtain k where k: "skipPast r today (i + 1) (nextOccurrence t r) = occurrence r t (Suc k)"
      "\<forall>j < k. dayOf (occurrence r t (Suc j)) < today"
      "\<not> dayOf (occurrence r t (Suc k)) < today \<or> MAX_STEPS \<le> i + 1 + k"
      unfolding occurrence_step by blast
    have "\<forall>j < Suc k. dayOf (occurrence r t j) < today"
    proof (intro allI impI)
      fix j assume "j < Suc k"
      then show "dayOf (occurrence r t j) < today" using k(2) True by (cases j) simp_all
    qed
    then show ?thesis
      using True k(1,3) by (intro exI [of _ "Suc k"]) (subst skipPast.simps, simp)
  next
    case False
    then show ?thesis by (intro exI [of _ 0]) (subst skipPast.simps, auto)
  qed
qed

lemma owedLoop_char:
  "\<exists>k. owedLoop dp r today i owed t = (if k = 0 then owed else Some (occurrence r t (k - 1)))
     \<and> (\<forall>j < k. dayOf (occurrence r t j) \<le> today \<and> \<not> pastUntil dp (occurrence r t j) r)
     \<and> (\<not> dayOf (occurrence r t k) \<le> today \<or> pastUntil dp (occurrence r t k) r \<or> MAX_STEPS \<le> i + k)"
proof (induction dp r today i owed t rule: owedLoop.induct)
  case (1 dp r today i owed t)
  show ?case
  proof (cases "dayOf t \<le> today \<and> \<not> pastUntil dp t r \<and> i < MAX_STEPS")
    case True
    with "1.IH" obtain k where
      k: "owedLoop dp r today (i + 1) (Some t) (nextOccurrence t r) = (if k = 0 then Some t else Some (occurrence r t k))"
      "\<forall>j < k. dayOf (occurrence r t (Suc j)) \<le> today \<and> \<not> pastUntil dp (occurrence r t (Suc j)) r"
      "\<not> dayOf (occurrence r t (Suc k)) \<le> today \<or> pastUntil dp (occurrence r t (Suc k)) r \<or> MAX_STEPS \<le> i + 1 + k"
      unfolding occurrence_step by (metis Suc_pred' bot_nat_0.not_eq_extremum)
    have "\<forall>j < Suc k. dayOf (occurrence r t j) \<le> today \<and> \<not> pastUntil dp (occurrence r t j) r"
    proof (intro allI impI)
      fix j assume "j < Suc k"
      then show "dayOf (occurrence r t j) \<le> today \<and> \<not> pastUntil dp (occurrence r t j) r"
        using k(2) True by (cases j) simp_all
    qed
    moreover have "owedLoop dp r today i owed t = Some (occurrence r t k)"
      using True k(1) by (subst owedLoop.simps) (cases k, simp_all)
    ultimately show ?thesis
      using k(3) by (intro exI [of _ "Suc k"]) simp
  next
    case False
    then show ?thesis by (intro exI [of _ 0]) (subst owedLoop.simps, auto)
  qed
qed

section \<open>What the next copy is due\<close>

text \<open>
  The bounds under which the 10,000 steps of the loops are enough and every key has a four-digit
  year: the series is at most 10,000 days behind today, and one step past the later of the two
  dates stays before the year 10,000.
\<close>

definition in_bounds :: "recurrenceRule \<Rightarrow> instant \<Rightarrow> day \<Rightarrow> bool" where
  "in_bounds r due T \<longleftrightarrow> modern due \<and> T - utc_day due \<le> 10000 \<and> 0 \<le> year_of_day T
     \<and> year_of_day T + interval r \<le> 9999 \<and> year_of_day (utc_day due) + interval r \<le> 9999"

lemma next_iso_range:
  assumes "sound_rule r" "modern t" "year_of_day (utc_day t) + interval r \<le> 9999"
  shows "iso_range (utc_day (nextOccurrence t r))"
  using nextOccurrence_growth [OF assms(1,2)] assms(3)
    forward_modern [OF nextOccurrence_forward [OF assms(1,2)] assms(2)]
  by (simp add: iso_range_def modern_def)

lemma in_bounds_iso: "in_bounds r due T \<Longrightarrow> sound_rule r \<Longrightarrow> iso_range T"
  by (simp add: in_bounds_def iso_range_def sound_rule_def)

text \<open>Occurrences up to the first one that is not before today have readable keys.\<close>

lemma occurrence_iso_range:
  assumes "sound_rule r" "in_bounds r due T" "utc_day (occurrence r due k) \<le> T \<or> k = 0"
  shows "iso_range (utc_day (occurrence r due (Suc k)))"
proof -
  have m: "modern due" using assms(2) by (simp add: in_bounds_def)
  have "year_of_day (utc_day (occurrence r due k)) + interval r \<le> 9999"
    using assms(2,3) year_of_day_mono [of "utc_day (occurrence r due k)" T] by (auto simp: in_bounds_def)
  then show ?thesis
    using next_iso_range [OF assms(1)] occurrence_forward [OF assms(1) m, of k] by simp
qed

lemma dayOf_order:
  assumes "iso_range (utc_day t)" "iso_range T"
  shows "dayOf t < iso_date T \<longleftrightarrow> utc_day t < T" "dayOf t \<le> iso_date T \<longleftrightarrow> utc_day t \<le> T"
  using iso_date_less [OF assms] iso_date_le [OF assms] by (simp_all add: dayOf_def)

text \<open>
  All occurrences before the \<open>k\<close>-th are before the day \<open>T\<close> as the code compares them, so they are
  as days, and the \<open>k\<close>-th has a readable key.
\<close>

lemma keys_to_days:
  assumes "sound_rule r" "in_bounds r due T" "\<forall>j < k. dayOf (occurrence r due (Suc j)) \<le> iso_date T"
  shows "(\<forall>j < k. utc_day (occurrence r due (Suc j)) \<le> T) \<and> iso_range (utc_day (occurrence r due (Suc k)))"
  using assms(3)
proof (induction k)
  case 0
  then show ?case using occurrence_iso_range [OF assms(1,2), of 0] by simp
next
  case (Suc k)
  then have IH: "\<forall>j < k. utc_day (occurrence r due (Suc j)) \<le> T"
    "iso_range (utc_day (occurrence r due (Suc k)))" by simp_all
  have "utc_day (occurrence r due (Suc k)) \<le> T"
    using Suc.prems dayOf_order(2) [OF IH(2) in_bounds_iso [OF assms(2,1)]] by blast
  then show ?case
    using IH(1) occurrence_iso_range [OF assms(1,2), of "Suc k"] by (auto simp: less_Suc_eq)
qed

lemma nextDueDate_char:
  assumes "sound_rule r" "in_bounds r due T"
  shows "\<exists>k. T \<le> utc_day (occurrence r due (Suc k))
     \<and> (\<forall>j < k. utc_day (occurrence r due (Suc j)) < T)
     \<and> nextDueDate dp due r (iso_date T) =
         (if pastUntil dp (occurrence r due (Suc k)) r then None else Some (occurrence r due (Suc k)))"
proof -
  have m: "modern due" using assms(2) by (simp add: in_bounds_def)
  obtain k where k: "skipPast r (iso_date T) 0 (nextOccurrence due r) = occurrence r due (Suc k)"
    "\<forall>j < k. dayOf (occurrence r due (Suc j)) < iso_date T"
    "\<not> dayOf (occurrence r due (Suc k)) < iso_date T \<or> MAX_STEPS \<le> k"
    using skipPast_char [of r "iso_date T" 0 "nextOccurrence due r"] unfolding occurrence_step by auto
  note iso = in_bounds_iso [OF assms(2,1)]
  have "\<forall>j < k. dayOf (occurrence r due (Suc j)) \<le> iso_date T"
    using k(2) by (blast intro: less_imp_le)
  then have kd: "iso_range (utc_day (occurrence r due (Suc j)))" if "j \<le> k" for j
    using keys_to_days [OF assms, of j] that by (meson less_le_trans)
  have before: "\<forall>j < k. utc_day (occurrence r due (Suc j)) < T"
    using k(2) dayOf_order(1) [OF kd iso] by simp
  have "T \<le> utc_day (occurrence r due (Suc k))"
  proof (cases "MAX_STEPS \<le> k")
    case True
    then show ?thesis
      using occurrence_forward [OF assms(1) m, of "Suc k"] assms(2) by (simp add: in_bounds_def MAX_STEPS_def)
  next
    case False
    then show ?thesis using k(3) dayOf_order(1) [OF kd iso, of k] by simp
  qed
  with before k(1) show ?thesis
    by (intro exI [of _ k]) (simp add: nextDueDate_def Let_def)
qed

lemma Suc_pred_if:
  "(if k = 0 then None else Some (occurrence r t (Suc (k - 1)))) = (if k = 0 then None else Some (occurrence r t k))"
  by (cases k) simp_all

lemma scheduledOccurrence_char:
  assumes "sound_rule r" "in_bounds r due T"
  shows "\<exists>k. scheduledOccurrence dp due r (iso_date T) = (if k = 0 then None else Some (occurrence r due k))
     \<and> (\<forall>j < k. utc_day (occurrence r due (Suc j)) \<le> T \<and> \<not> pastUntil dp (occurrence r due (Suc j)) r)
     \<and> (T < utc_day (occurrence r due (Suc k)) \<or> pastUntil dp (occurrence r due (Suc k)) r)"
proof -
  have m: "modern due" using assms(2) by (simp add: in_bounds_def)
  obtain k where k: "owedLoop dp r (iso_date T) 0 None (nextOccurrence due r)
      = (if k = 0 then None else Some (occurrence r due k))"
    "\<forall>j < k. dayOf (occurrence r due (Suc j)) \<le> iso_date T \<and> \<not> pastUntil dp (occurrence r due (Suc j)) r"
    "\<not> dayOf (occurrence r due (Suc k)) \<le> iso_date T \<or> pastUntil dp (occurrence r due (Suc k)) r \<or> MAX_STEPS \<le> k"
    using owedLoop_char [of dp r "iso_date T" 0 None "nextOccurrence due r"]
    unfolding occurrence_step add_0 Suc_pred_if by blast
  note iso = in_bounds_iso [OF assms(2,1)]
  have kd: "(\<forall>j < k. utc_day (occurrence r due (Suc j)) \<le> T) \<and> iso_range (utc_day (occurrence r due (Suc k)))"
    using keys_to_days [OF assms, of k] k(2) by blast
  have "T < utc_day (occurrence r due (Suc k)) \<or> pastUntil dp (occurrence r due (Suc k)) r"
  proof (cases "MAX_STEPS \<le> k")
    case True
    then show ?thesis
      using occurrence_forward [OF assms(1) m, of "Suc k"] assms(2) by (simp add: in_bounds_def MAX_STEPS_def)
  next
    case False
    then show ?thesis using k(3) dayOf_order(2) [OF _ iso] kd by auto
  qed
  with kd k(1,2) show ?thesis
    by (intro exI [of _ k]) (simp add: scheduledOccurrence_def)
qed

section \<open>Occurrences of a series\<close>

lemma occurrencesLoop_nth: "k < length (occurrencesLoop u r t n) \<Longrightarrow> occurrencesLoop u r t n ! k = occurrence r t k"
proof (induction n arbitrary: t k)
  case 0
  then show ?case by simp
next
  case (Suc n)
  then show ?case
    by (cases k) (auto simp: occurrence_step simp del: occurrence_simps(2) split: if_splits)
qed

lemma occurrencesLoop_length: "length (occurrencesLoop u r t n) \<le> n"
  by (induction n arbitrary: t) auto

lemma occurrencesLoop_until: "\<forall>x \<in> set (occurrencesLoop (Some e) r t n). x \<le> e"
  by (induction n arbitrary: t) auto

text \<open>The list stops early only because the next occurrence is past the end date.\<close>

lemma occurrencesLoop_stop:
  "length (occurrencesLoop u r t n) < n \<Longrightarrow>
     \<exists>e. u = Some e \<and> e < occurrence r t (length (occurrencesLoop u r t n))"
proof (induction n arbitrary: t)
  case 0
  then show ?case by simp
next
  case (Suc n)
  then show ?case
    using Suc.IH [of "nextOccurrence t r"]
    by (auto simp: occurrence_step simp del: occurrence_simps(2) split: if_splits option.splits)
qed

section \<open>Sample rules\<close>

text \<open>The rules of the witnesses: monthly on the 31st, every second week on Monday and Friday, the last Friday.\<close>

definition monthly_31st :: recurrenceRule where
  "monthly_31st = \<lparr>freq = MONTHLY, interval = 1, rcount = Some 3, until = Some ''2027-01-01'', weekdays = None,
     dayOfMonth = Some 31, nthWeekday = None, anchorDay = None, paused = False, createNext = None,
     resumeFrom = None\<rparr>"

definition mondays_fridays :: recurrenceRule where
  "mondays_fridays = monthly_31st\<lparr>freq := WEEKLY, interval := 2, dayOfMonth := None, weekdays := Some [1, 5]\<rparr>"

definition last_friday :: recurrenceRule where
  "last_friday = monthly_31st\<lparr>dayOfMonth := None, nthWeekday := Some \<lparr>nw_week = -1, nw_day = 5\<rparr>\<rparr>"

text \<open>A parser of dates that knows the keys, and 31 January 2026.\<close>

definition key_parser :: "string \<Rightarrow> instant option" where
  "key_parser s = map_option (\<lambda>d. d * ms_per_day) (parse_key s)"

definition jan31 :: instant where "jan31 = 20484 * ms_per_day"

lemma sample_rules:
  "isValidRule key_parser monthly_31st" "isValidRule key_parser mondays_fridays"
  "isValidRule key_parser last_friday" "modern jan31" "in_bounds monthly_31st jan31 20517"
  by code_simp+

text \<open>The 31st, the last day of February, the 31st again.\<close>

lemma monthly_31st_clamps:
  "map dayOf (generateOccurrences key_parser jan31 monthly_31st 9) = [''2026-01-31'', ''2026-02-28'', ''2026-03-31'']"
  by code_simp

section \<open>Properties\<close>

text \<open>
  C25. The due date of the next copy: for a valid rule, \<open>nextDueDate\<close> looks at the first occurrence
  after \<open>due\<close> that is not before today - every occurrence it skips is past, so completing an overdue
  task never makes another overdue one - and returns it unless it is past the series' end.
\<close>

theorem next_due_date_first:
  assumes "isValidRule dp r" and "in_bounds r due T"
  shows "\<exists>k. T \<le> utc_day (occurrence r due (Suc k))
     \<and> (\<forall>j < k. utc_day (occurrence r due (Suc j)) < T)
     \<and> nextDueDate dp due r (iso_date T) =
         (if pastUntil dp (occurrence r due (Suc k)) r then None else Some (occurrence r due (Suc k)))"
  using isValidRule_sound [OF assms(1)] assms(2) by (rule nextDueDate_char)

theorem next_due_date_first_witness:
  "isValidRule key_parser monthly_31st \<and> in_bounds monthly_31st jan31 20517 \<and>
   (\<exists>k. 20517 \<le> utc_day (occurrence monthly_31st jan31 (Suc k))
     \<and> (\<forall>j < k. utc_day (occurrence monthly_31st jan31 (Suc j)) < 20517)
     \<and> nextDueDate key_parser jan31 monthly_31st (iso_date 20517) =
         (if pastUntil key_parser (occurrence monthly_31st jan31 (Suc k)) monthly_31st then None
          else Some (occurrence monthly_31st jan31 (Suc k))))"
  using next_due_date_first [OF sample_rules(1) sample_rules(5)] sample_rules(1,5) by blast

text \<open>
  C26. The copy an on-schedule series owes: the latest occurrence after \<open>due\<close> that is on or before
  today and not past the end date (missed days collapse into one copy), and nothing exactly when the
  very next occurrence is still ahead or past the end.
\<close>

theorem scheduled_occurrence_latest:
  assumes "isValidRule dp r" and "in_bounds r due T"
  shows "\<exists>k. scheduledOccurrence dp due r (iso_date T) = (if k = 0 then None else Some (occurrence r due k))
     \<and> (\<forall>j < k. utc_day (occurrence r due (Suc j)) \<le> T \<and> \<not> pastUntil dp (occurrence r due (Suc j)) r)
     \<and> (T < utc_day (occurrence r due (Suc k)) \<or> pastUntil dp (occurrence r due (Suc k)) r)"
  using isValidRule_sound [OF assms(1)] assms(2) by (rule scheduledOccurrence_char)

theorem scheduled_occurrence_latest_witness:
  "isValidRule key_parser monthly_31st \<and> in_bounds monthly_31st jan31 20517 \<and>
   (\<exists>k. scheduledOccurrence key_parser jan31 monthly_31st (iso_date 20517) =
         (if k = 0 then None else Some (occurrence monthly_31st jan31 k))
     \<and> (\<forall>j < k. utc_day (occurrence monthly_31st jan31 (Suc j)) \<le> 20517
          \<and> \<not> pastUntil key_parser (occurrence monthly_31st jan31 (Suc j)) monthly_31st)
     \<and> (20517 < utc_day (occurrence monthly_31st jan31 (Suc k))
          \<or> pastUntil key_parser (occurrence monthly_31st jan31 (Suc k)) monthly_31st))"
  using scheduled_occurrence_latest [OF sample_rules(1) sample_rules(5)] sample_rules(1,5) by blast



text \<open>
  C28. A weekly rule with chosen days: the next chosen day left in this Sunday-to-Saturday week, else
  the first chosen day of the week that is the rule's interval ahead.
\<close>

theorem weekly_rule_next:
  assumes "isValidRule dp r" and "freq r = WEEKLY" and "weekdays r = Some ds" and "ds \<noteq> []"
  shows "weekly_spec (utc_day t) (interval r) (set ds) (utc_day (nextOccurrence t r))"
proof -
  have s: "sound_rule r" using assms(1) by (rule isValidRule_sound)
  obtain d where "d \<in> set ds" "0 \<le> d" "d \<le> 6"
    using s assms(3,4) by (metis sound_rule_def list.set_intros(1) neq_Nil_conv)
  moreover have "nextOccurrence t r = weeklyNext t (interval r) ds"
    using s assms by (simp add: nextOccurrence_def sound_rule_def)
  ultimately show ?thesis using weeklyNext_spec by simp
qed

theorem weekly_rule_next_witness:
  "isValidRule key_parser mondays_fridays \<and> freq mondays_fridays = WEEKLY \<and> weekdays mondays_fridays = Some [1, 5] \<and>
   weekly_spec (utc_day jan31) (interval mondays_fridays) (set [1, 5]) (utc_day (nextOccurrence jan31 mondays_fridays))"
  using weekly_rule_next [of key_parser mondays_fridays "[1, 5]" jan31] sample_rules(2)
  by (simp add: mondays_fridays_def)

text \<open>
  C29. No drift: a monthly or quarterly rule with a day (given, or pinned by \<open>withAnchorDay\<close>) stays on
  it - each occurrence is on that day or on the last day of a shorter month - and moves on by no
  other number of months than none or the rule's own.
\<close>

theorem month_rule_no_drift:
  assumes "isValidRule dp r" and "modern t" and "freq r = MONTHLY \<or> freq r = QUARTERLY"
    and "nthWeekday r = None" and "monthDay r = Some d"
  shows "let v = utc_day (nextOccurrence t r);
             k = (if freq r = MONTHLY then interval r else 3 * interval r)
         in date_of_day v = min d (month_len (year_of_day v) (month_of_day v))
            \<and> (month_index v = month_index (utc_day t) \<or> month_index v = month_index (utc_day t) + k)"
proof -
  define k where "k = (if freq r = MONTHLY then interval r else 3 * interval r)"
  have s: "sound_rule r" using assms(1) by (rule isValidRule_sound)
  then have "0 < k" "1 \<le> d" "max 1 (interval r) = interval r"
    using assms(5) by (auto simp: k_def sound_rule_def monthDay_def split: option.splits)
  then show ?thesis
    using nextMonthDay_date [OF assms(2), of k d] assms(3-5)
    by (auto simp: nextOccurrence_def Let_def k_def)
qed

theorem month_rule_no_drift_witness:
  "isValidRule key_parser monthly_31st \<and> modern jan31 \<and> monthDay monthly_31st = Some 31 \<and>
   (let v = utc_day (nextOccurrence jan31 monthly_31st)
    in date_of_day v = min 31 (month_len (year_of_day v) (month_of_day v))
       \<and> (month_index v = month_index (utc_day jan31) \<or> month_index v = month_index (utc_day jan31) + 1))"
  using month_rule_no_drift [OF sample_rules(1,4), of 31] sample_rules(1,4)
  by (simp add: monthly_31st_def monthDay_def Let_def)

text \<open>
  C30. A "2nd Tuesday" or "last Friday" rule: the next occurrence is on that weekday and in that week
  of its month (the last one: in the month's last seven days).
\<close>

theorem nth_weekday_rule:
  assumes "isValidRule dp r" and "modern t" and "nthWeekday r = Some nw"
  shows "let v = utc_day (nextOccurrence t r)
         in weekday_of_day v = nw_day nw
            \<and> (if nw_week nw = -1 then month_len (year_of_day v) (month_of_day v) - 7 < date_of_day v
               else 7 * (nw_week nw - 1) < date_of_day v \<and> date_of_day v \<le> 7 * nw_week nw)"
proof -
  have s: "sound_rule r" "valid_nth nw" using isValidRule_sound [OF assms(1)] assms(3) by (simp_all add: sound_rule_def)
  have fr: "freq r = MONTHLY \<or> freq r = QUARTERLY"
    using assms(1,3) by (auto simp: isValidRule_def split: if_splits)
  define k where "k = (if freq r = MONTHLY then interval r else 3 * interval r)"
  have k: "0 < k" using s(1) by (simp add: k_def sound_rule_def)
  have m: "0 \<le> getUTCMonth t" "getUTCMonth t < 12" "100 \<le> getUTCFullYear t"
    using assms(2) by (simp_all add: getUTCMonth_def month_of_day_bounds modern_def getUTCFullYear_def)
  define i where "i = month_index (utc_day t) + k"
  note ms = month_shift [OF assms(2) less_imp_le [OF k], folded i_def]
  have "nextOccurrence t r = nextNthWeekday t k nw"
    using fr s(1) assms(3) by (auto simp: nextOccurrence_def k_def sound_rule_def)
  then have "nextOccurrence t r = nthWeekdayOf (getUTCFullYear t) (getUTCMonth t) nw t
      \<or> nextOccurrence t r = nthWeekdayOf (i div 12) (i mod 12) nw t"
    using ms(3) by (simp add: nextNthWeekday_def Let_def ms(1))
  then obtain y mo where ym: "100 \<le> y" "0 \<le> mo" "mo < 12" "nextOccurrence t r = nthWeekdayOf y mo nw t"
    using m ms(2,4,5) by blast
  note e = nthWeekdayOf_eq [OF ym(1-3) s(2), of t, folded ym(4)]
  have "year_of_day (utc_day (nextOccurrence t r)) = y" "month_of_day (utc_day (nextOccurrence t r)) = mo"
    using e(2) month_index_parts [of "utc_day (nextOccurrence t r)"] ym(2,3) by simp_all
  then show ?thesis using e(3-5) by (simp add: Let_def)
qed

theorem nth_weekday_rule_witness:
  "isValidRule key_parser last_friday \<and> modern jan31 \<and>
   (let v = utc_day (nextOccurrence jan31 last_friday)
    in weekday_of_day v = 5 \<and> month_len (year_of_day v) (month_of_day v) - 7 < date_of_day v)"
  using nth_weekday_rule [OF sample_rules(3,4), of "\<lparr>nw_week = -1, nw_day = 5\<rparr>"] sample_rules(3,4)
  by (simp add: last_friday_def Let_def)

text \<open>
  C27. \<open>generateOccurrences\<close> lists the series from its start in order, at most \<open>count\<close> and at most
  \<open>limit\<close> of them, none after the end date, and stops early only at the end date.
\<close>

theorem generate_occurrences_spec:
  assumes "isValidRule dp r" and "modern start"
  shows "let os = generateOccurrences dp start r limit;
             n = nat (case rcount r of Some c \<Rightarrow> min c limit | None \<Rightarrow> limit)
         in (\<forall>k < length os. os ! k = occurrence r start k) \<and> sorted_wrt (<) os \<and> length os \<le> n
            \<and> (\<forall>e. Option.bind (until r) dp = Some e \<longrightarrow> (\<forall>x \<in> set os. x \<le> e))
            \<and> (length os < n \<longrightarrow> (\<exists>e. Option.bind (until r) dp = Some e \<and> e < occurrence r start (length os)))"
proof -
  define n where "n = nat (case rcount r of Some c \<Rightarrow> min c limit | None \<Rightarrow> limit)"
  define u where "u = Option.bind (until r) dp"
  define os where "os = generateOccurrences dp start r limit"
  have os: "os = occurrencesLoop u r start n"
    by (cases "until r") (simp_all add: os_def generateOccurrences_def n_def u_def Let_def)
  have "sorted_wrt (<) os"
    unfolding sorted_wrt_iff_nth_less os
    using occurrencesLoop_nth [of _ u r start n] occurrence_less [OF isValidRule_sound [OF assms(1)] assms(2)] by simp
  moreover have "\<forall>e. u = Some e \<longrightarrow> (\<forall>x \<in> set os. x \<le> e)"
    using occurrencesLoop_until os by blast
  ultimately show ?thesis
    unfolding Let_def os_def [symmetric] n_def [symmetric] u_def [symmetric]
    using occurrencesLoop_nth occurrencesLoop_length occurrencesLoop_stop unfolding os by blast
qed

theorem generate_occurrences_spec_witness:
  "isValidRule key_parser monthly_31st \<and> modern jan31 \<and>
   (let os = generateOccurrences key_parser jan31 monthly_31st 9
    in (\<forall>k < length os. os ! k = occurrence monthly_31st jan31 k) \<and> sorted_wrt (<) os)"
  using generate_occurrences_spec [OF sample_rules(1,4), of 9] sample_rules(1,4)
  unfolding Let_def by blast

end
