(* ===== verification/Dependencies.thy ===== *)
theory Dependencies
  imports Prelude
begin

text \<open>
  \<open>modules/tasks/dependency-service.ts\<close> with its repository: the blocking edges between tasks, and
  the search that keeps them free of cycles. The search takes the repository's \<open>dependsOn\<close> as an
  argument; the interface between the two is the locale \<open>edge_repository\<close>.
\<close>

section \<open>The search\<close>

text \<open>
  The loop of \<open>reaches\<close>. The stack's top is the head of the list, so pushing \<open>dependsOn(node)\<close> puts
  its reverse in front. \<open>None\<close> would be a loop that never ends.
\<close>

partial_function (option) reachesLoop ::
  "(ident \<Rightarrow> ident list) \<Rightarrow> ident \<Rightarrow> ident list \<Rightarrow> ident list \<Rightarrow> bool option" where
  "reachesLoop deps target stack seen =
     (case stack of
        [] \<Rightarrow> Some False
      | node # rest \<Rightarrow>
          if node = target then Some True
          else if node \<in> set seen then reachesLoop deps target rest seen
          else reachesLoop deps target (rev (deps node) @ rest) (node # seen))"

definition reaches :: "(ident \<Rightarrow> ident list) \<Rightarrow> ident \<Rightarrow> ident \<Rightarrow> bool option" where
  "reaches deps start target = reachesLoop deps target [start] []"

lemma reachesLoop_simps:
  "reachesLoop deps target [] seen = Some False"
  "reachesLoop deps target (node # rest) seen =
     (if node = target then Some True
      else if node \<in> set seen then reachesLoop deps target rest seen
      else reachesLoop deps target (rev (deps node) @ rest) (node # seen))"
  by (simp_all add: reachesLoop.simps)

text \<open>
  The interface: the edges a repository holds, as the set \<open>E s\<close> of pairs (task, blocker), and what
  each call does to them.
\<close>

locale edge_repository =
  fixes E :: "'s \<Rightarrow> (ident \<times> ident) set"
    and dependsOn :: "'s \<Rightarrow> ident \<Rightarrow> ident list"
    and add :: "'s \<Rightarrow> ident \<Rightarrow> ident \<Rightarrow> 's"
    and remove :: "'s \<Rightarrow> ident \<Rightarrow> ident \<Rightarrow> 's"
    and exists :: "'s \<Rightarrow> ident \<Rightarrow> bool"
  assumes finite_edges: "finite (E s)"
    and dependsOn_edges: "set (dependsOn s a) = {b. (a, b) \<in> E s}"
    and add_edges: "exists s b \<Longrightarrow> E (add s a b) = insert (a, b) (E s)"
    and remove_edges: "E (remove s a b) = E s - {(a, b)}"
begin

text \<open>
  The state of the loop: every node seen is not the target and all its blockers are on the stack or
  seen. Then the answer is whether the target can be reached from the stack.
\<close>

lemma loop_returns:
  assumes "finite N" "set stack \<subseteq> N" "E s `` N \<subseteq> N"
    and "\<And>a b. a \<in> set seen \<Longrightarrow> (a, b) \<in> E s \<Longrightarrow> b \<in> set seen \<or> b \<in> set stack"
    and "target \<notin> set seen"
  shows "reachesLoop (dependsOn s) target stack seen = Some (\<exists>a \<in> set stack. (a, target) \<in> (E s)\<^sup>*)"
  using assms(2,4,5)
proof (induction "card (N - set seen)" arbitrary: stack seen rule: less_induct)
  case less
  from less.prems show ?case
  proof (induction stack)
    case Nil
    then show ?case by (simp add: reachesLoop_simps)
  next
    case (Cons node rest)
    show ?case
    proof (cases "node = target")
      case True
      then show ?thesis by (auto simp: reachesLoop_simps)
    next
      case not_target: False
      show ?thesis
      proof (cases "node \<in> set seen")
        case True
        have closed: "b \<in> set seen \<or> b \<in> set rest" if "a \<in> set seen" "(a, b) \<in> E s" for a b
          using Cons.prems(2) [OF that] True by auto
        have "(\<exists>a \<in> set rest. (a, target) \<in> (E s)\<^sup>*)" if "(node, target) \<in> (E s)\<^sup>*"
        proof -
          have "target \<in> set seen \<or> (\<exists>a \<in> set rest. (a, target) \<in> (E s)\<^sup>*)"
            using that True
          proof (induction rule: converse_rtrancl_induct)
            case base
            then show ?case by simp
          next
            case (step y z)
            then show ?case using closed by blast
          qed
          then show ?thesis using Cons.prems(3) by blast
        qed
        then show ?thesis
          using True not_target Cons.IH Cons.prems closed by (auto simp: reachesLoop_simps)
      next
        case False
        have N: "node \<in> N" using Cons.prems(1) by simp
        have "card (N - set (node # seen)) < card (N - set seen)"
          using assms(1) N False by (intro psubset_card_mono) auto
        moreover have "set (rev (dependsOn s node) @ rest) \<subseteq> N"
          using Cons.prems(1) N assms(3) by (auto simp: dependsOn_edges)
        moreover have "b \<in> set (node # seen) \<or> b \<in> set (rev (dependsOn s node) @ rest)"
          if "a \<in> set (node # seen)" "(a, b) \<in> E s" for a b
          using that Cons.prems(2) by (auto simp: dependsOn_edges)
        moreover have "target \<notin> set (node # seen)" using not_target Cons.prems(3) by simp
        ultimately have "reachesLoop (dependsOn s) target (rev (dependsOn s node) @ rest) (node # seen)
            = Some (\<exists>a \<in> set (rev (dependsOn s node) @ rest). (a, target) \<in> (E s)\<^sup>*)"
          by (rule less.hyps)
        moreover have "(node, target) \<in> (E s)\<^sup>* \<longleftrightarrow> (\<exists>b. (node, b) \<in> E s \<and> (b, target) \<in> (E s)\<^sup>*)"
          using not_target by (meson converse_rtranclE converse_rtrancl_into_rtrancl)
        ultimately show ?thesis
          using False not_target by (auto simp: reachesLoop_simps dependsOn_edges)
      qed
    qed
  qed
qed

lemma reaches_returns: "reaches (dependsOn s) a b = Some ((a, b) \<in> (E s)\<^sup>*)"
proof -
  let ?N = "insert a (Domain (E s) \<union> Range (E s))"
  have "finite ?N" "E s `` ?N \<subseteq> ?N" using finite_edges [of s] by (auto simp: finite_Domain finite_Range)
  then show ?thesis using loop_returns [of ?N "[a]" s "[]" b] by (simp add: reaches_def)
qed

lemma add_acyclic:
  assumes "acyclic (E s)" "exists s b" "reaches (dependsOn s) b a = Some False"
  shows "acyclic (E (add s a b))"
  using assms by (simp add: add_edges reaches_returns)

lemma remove_acyclic: "acyclic (E s) \<Longrightarrow> acyclic (E (remove s a b))"
  by (auto simp: remove_edges intro: acyclic_subset)

end

section \<open>The repository\<close>

text \<open>
  The table \<open>task_dependencies\<close> as rows (task, blocker), unique by its index, and the tasks that are
  not deleted. A deleted blocker no longer counts.
\<close>

record depStore =
  depRows :: "(ident \<times> ident) list"
  liveTasks :: "ident list"

definition taskExists :: "depStore \<Rightarrow> ident \<Rightarrow> bool" where
  "taskExists s tid = (tid \<in> set (liveTasks s))"

definition repoAdd :: "depStore \<Rightarrow> ident \<Rightarrow> ident \<Rightarrow> depStore" where
  "repoAdd s a b = s\<lparr>depRows := depRows s @ [(a, b)]\<rparr>"

definition repoRemove :: "depStore \<Rightarrow> ident \<Rightarrow> ident \<Rightarrow> depStore" where
  "repoRemove s a b = s\<lparr>depRows := filter (\<lambda>e. \<not> (fst e = a \<and> snd e = b)) (depRows s)\<rparr>"

definition repoExists :: "depStore \<Rightarrow> ident \<Rightarrow> ident \<Rightarrow> bool" where
  "repoExists s a b = ((a, b) \<in> set (depRows s))"

definition repoDependsOn :: "depStore \<Rightarrow> ident \<Rightarrow> ident list" where
  "repoDependsOn s a = map snd (filter (\<lambda>e. fst e = a \<and> taskExists s (snd e)) (depRows s))"

definition repoBlocks :: "depStore \<Rightarrow> ident \<Rightarrow> ident list" where
  "repoBlocks s b = map fst (filter (\<lambda>e. snd e = b \<and> taskExists s (fst e)) (depRows s))"

definition liveEdges :: "depStore \<Rightarrow> (ident \<times> ident) set" where
  "liveEdges s = {e \<in> set (depRows s). taskExists s (snd e)}"

interpretation dep: edge_repository liveEdges repoDependsOn repoAdd repoRemove taskExists
proof unfold_locales
  show "finite (liveEdges s)" for s by (simp add: liveEdges_def)
  show "set (repoDependsOn s a) = {b. (a, b) \<in> liveEdges s}" for s a
    by (force simp: repoDependsOn_def liveEdges_def)
  show "taskExists s b \<Longrightarrow> liveEdges (repoAdd s a b) = insert (a, b) (liveEdges s)" for s a b
    by (auto simp: liveEdges_def repoAdd_def taskExists_def)
  show "liveEdges (repoRemove s a b) = liveEdges s - {(a, b)}" for s a b
    by (auto simp: liveEdges_def repoRemove_def taskExists_def)
qed

section \<open>The service\<close>

datatype depError = SelfDependency | TaskNotFound | DEPENDENCY_EXISTS | DEPENDENCY_CYCLE

definition ensureTask :: "depStore \<Rightarrow> ident \<Rightarrow> depError + unit" where
  "ensureTask s tid = (if taskExists s tid then Inr () else Inl TaskNotFound)"

text \<open>Everything \<open>addDependency\<close> checks before it writes; \<open>None\<close> would be a search that never ends.\<close>

definition checkDependency :: "depStore \<Rightarrow> ident \<Rightarrow> ident \<Rightarrow> (depError + unit) option" where
  "checkDependency s taskId dependsOnTaskId =
     (if taskId = dependsOnTaskId then Some (Inl SelfDependency)
      else case ensureTask s taskId of
        Inl e \<Rightarrow> Some (Inl e)
      | Inr _ \<Rightarrow>
          (case ensureTask s dependsOnTaskId of
             Inl e \<Rightarrow> Some (Inl e)
           | Inr _ \<Rightarrow>
               if repoExists s taskId dependsOnTaskId then Some (Inl DEPENDENCY_EXISTS)
               else (case reaches (repoDependsOn s) dependsOnTaskId taskId of
                       None \<Rightarrow> None
                     | Some True \<Rightarrow> Some (Inl DEPENDENCY_CYCLE)
                     | Some False \<Rightarrow> Some (Inr ()))))"

definition addDependency :: "depStore \<Rightarrow> ident \<Rightarrow> ident \<Rightarrow> (depError + depStore) option" where
  "addDependency s taskId dependsOnTaskId =
     map_option (\<lambda>r. andThen r (\<lambda>_. Inr (repoAdd s taskId dependsOnTaskId)))
       (checkDependency s taskId dependsOnTaskId)"

definition removeDependency :: "depStore \<Rightarrow> ident \<Rightarrow> ident \<Rightarrow> depStore" where
  "removeDependency s taskId dependsOnTaskId = repoRemove s taskId dependsOnTaskId"

record dependencyView =
  blockedBy :: "ident list"
  blocks :: "ident list"

definition listDependencies :: "depStore \<Rightarrow> ident \<Rightarrow> depError + dependencyView" where
  "listDependencies s taskId =
     andThen (ensureTask s taskId)
       (\<lambda>_. Inr \<lparr>blockedBy = repoDependsOn s taskId, blocks = repoBlocks s taskId\<rparr>)"

text \<open>
  What happens to the edges over time: requests, new tasks (with no rows yet) and deleted tasks. A
  request is one step: its checks and its write are not interrupted.
\<close>

inductive dep_step :: "depStore \<Rightarrow> depStore \<Rightarrow> bool" where
  add: "addDependency s a b = Some (Inr t) \<Longrightarrow> dep_step s t"
| remove: "dep_step s (removeDependency s a b)"
| create: "a \<notin> fst ` set (depRows s) \<union> snd ` set (depRows s) \<Longrightarrow> dep_step s (s\<lparr>liveTasks := a # liveTasks s\<rparr>)"
| delete: "dep_step s (s\<lparr>liveTasks := filter (\<lambda>x. x \<noteq> a) (liveTasks s)\<rparr>)"

inductive dep_reachable :: "depStore \<Rightarrow> bool" where
  start: "dep_reachable \<lparr>depRows = [], liveTasks = []\<rparr>"
| step: "dep_reachable s \<Longrightarrow> dep_step s t \<Longrightarrow> dep_reachable t"

inductive_cases dep_step_cases: "dep_step s t"

section \<open>Lemmas\<close>

lemma checkDependency_simp:
  "checkDependency s a b = Some
     (if a = b then Inl SelfDependency
      else if \<not> taskExists s a \<or> \<not> taskExists s b then Inl TaskNotFound
      else if repoExists s a b then Inl DEPENDENCY_EXISTS
      else if (b, a) \<in> (liveEdges s)\<^sup>* then Inl DEPENDENCY_CYCLE
      else Inr ())"
  by (simp add: checkDependency_def ensureTask_def dep.reaches_returns split: bool.splits)

lemma addDependency_simp:
  "addDependency s a b = Some
     (if a = b then Inl SelfDependency
      else if \<not> taskExists s a \<or> \<not> taskExists s b then Inl TaskNotFound
      else if repoExists s a b then Inl DEPENDENCY_EXISTS
      else if (b, a) \<in> (liveEdges s)\<^sup>* then Inl DEPENDENCY_CYCLE
      else Inr (repoAdd s a b))"
  by (simp add: addDependency_def checkDependency_simp)

definition dep_inv :: "depStore \<Rightarrow> bool" where
  "dep_inv s \<longleftrightarrow> acyclic (liveEdges s) \<and> distinct (depRows s)"

lemma addDependency_inv:
  assumes "dep_inv s" "addDependency s a b = Some (Inr t)"
  shows "dep_inv t"
proof -
  have t: "t = repoAdd s a b" "taskExists s b" "\<not> repoExists s a b" "(b, a) \<notin> (liveEdges s)\<^sup>*"
    using assms(2) by (auto simp: addDependency_simp split: if_splits)
  then have "acyclic (liveEdges t)"
    using assms(1) dep.add_acyclic [of s b a] by (simp add: dep_inv_def dep.reaches_returns)
  then show ?thesis
    using assms(1) t by (simp add: dep_inv_def repoAdd_def repoExists_def)
qed

lemma dep_step_inv: "dep_step s t \<Longrightarrow> dep_inv s \<Longrightarrow> dep_inv t"
proof (induction rule: dep_step.induct)
  case (add s a b t)
  then show ?case using addDependency_inv by blast
next
  case (remove s a b)
  then show ?case
    by (simp add: dep_inv_def removeDependency_def dep.remove_acyclic) (simp add: repoRemove_def)
next
  case (create a s)
  then have "liveEdges (s\<lparr>liveTasks := a # liveTasks s\<rparr>) = liveEdges s"
    by (force simp: liveEdges_def taskExists_def)
  with create show ?case by (simp add: dep_inv_def)
next
  case (delete s a)
  have "liveEdges (s\<lparr>liveTasks := filter (\<lambda>x. x \<noteq> a) (liveTasks s)\<rparr>) \<subseteq> liveEdges s"
    by (auto simp: liveEdges_def taskExists_def)
  with delete show ?case by (auto simp: dep_inv_def intro: acyclic_subset)
qed

lemma dep_reachable_inv: "dep_reachable s \<Longrightarrow> dep_inv s"
proof (induction rule: dep_reachable.induct)
  case start
  show ?case by (simp add: dep_inv_def liveEdges_def acyclic_def)
next
  case (step s t)
  then show ?case by (blast intro: dep_step_inv)
qed

section \<open>Properties\<close>

text \<open>
  C36. A dependency request always answers - the search of \<open>reaches\<close> ends - and answers as it should:
  the errors in their order, a cycle exactly when the blocker already (directly or not) waits for
  the task, and otherwise the edge is added.
\<close>

theorem add_dependency_outcome:
  "addDependency s a b = Some
     (if a = b then Inl SelfDependency
      else if \<not> (taskExists s a \<and> taskExists s b) then Inl TaskNotFound
      else if repoExists s a b then Inl DEPENDENCY_EXISTS
      else if (b, a) \<in> (liveEdges s)\<^sup>* then Inl DEPENDENCY_CYCLE
      else Inr (repoAdd s a b))"
  by (simp add: addDependency_simp)

text \<open>
  C6. No chain of blocking tasks is ever circular: in every state that requests, new tasks and
  deletions lead to, the edges between tasks that still block are acyclic and no edge is kept twice.
\<close>

theorem dependencies_acyclic:
  assumes "dep_reachable s"
  shows "acyclic (liveEdges s) \<and> distinct (depRows s)"
  using dep_reachable_inv [OF assms] by (simp add: dep_inv_def)

theorem dependencies_acyclic_witness:
  "dep_reachable \<lparr>depRows = [(''a'', ''b'')], liveTasks = [''b'', ''a'']\<rparr> \<and>
   acyclic (liveEdges \<lparr>depRows = [(''a'', ''b'')], liveTasks = [''b'', ''a'']\<rparr>)"
proof -
  let ?s = "\<lparr>depRows = [], liveTasks = [''b'', ''a'']\<rparr>"
  have "dep_reachable \<lparr>depRows = [], liveTasks = [''a'']\<rparr>"
    using dep_reachable.step [OF dep_reachable.start dep_step.create [of "''a''"]] by simp
  then have "dep_reachable ?s"
    using dep_reachable.step [OF _ dep_step.create [of "''b''" "\<lparr>depRows = [], liveTasks = [''a'']\<rparr>"]] by simp
  moreover have "liveEdges ?s = {}" by (simp add: liveEdges_def)
  then have "addDependency ?s ''a'' ''b'' = Some (Inr \<lparr>depRows = [(''a'', ''b'')], liveTasks = [''b'', ''a'']\<rparr>)"
    by (simp add: addDependency_simp taskExists_def repoExists_def repoAdd_def)
  ultimately have "dep_reachable \<lparr>depRows = [(''a'', ''b'')], liveTasks = [''b'', ''a'']\<rparr>"
    using dep_reachable.step [OF _ dep_step.add] by blast
  then show ?thesis using dependencies_acyclic by blast
qed


end
