(* ===== verification/Accounts.thy ===== *)
theory Accounts
  imports JsText
begin

text \<open>
  The account data the auth services share: the users, and the table of emailed codes and links
  (\<open>login_otps\<close>, with its three purposes), with the operations of the Prisma repositories on it
  (\<open>modules/auth/prisma-*.ts\<close>, \<open>modules/users/prisma-user-repository.ts\<close>). How the database compares
  an email address or a user name with what was typed (its collation) is a parameter.
\<close>

section \<open>Tables\<close>

datatype userStatus = ACTIVE | INACTIVE | SUSPENDED

record userRow =
  u_id :: ident
  u_email :: string
  u_username :: string
  u_passwordHash :: string
  u_status :: userStatus
  u_failedAttempts :: int
  u_lockedUntil :: "instant option"
  u_roles :: "string list"
  u_avatarUrl :: "string option"
  u_tokenVersion :: int
  u_deletedAt :: "instant option"
  u_cancelledAt :: "instant option"
  u_mustChange :: bool
  u_tempSetAt :: "instant option"
  u_tempSetBy :: "ident option"
  u_tempExpiresAt :: "instant option"
  u_emailVerifiedAt :: "instant option"
  u_activatedAt :: "instant option"
  u_lastLoginAt :: "instant option"

datatype otpPurpose = LOGIN | PASSWORD_RESET | WELCOME

record otpRow =
  o_id :: ident
  o_userId :: ident
  o_purpose :: otpPurpose
  o_codeHash :: string
  o_expiresAt :: instant
  o_attempts :: int
  o_consumedAt :: "instant option"
  o_createdAt :: instant

record accounts =
  users :: "userRow list"
  otps :: "otpRow list"

section \<open>Reading and writing rows\<close>

definition findUser :: "accounts \<Rightarrow> (userRow \<Rightarrow> bool) \<Rightarrow> userRow option" where
  "findUser s P = find P (users s)"

definition updateUsers :: "(userRow \<Rightarrow> bool) \<Rightarrow> (userRow \<Rightarrow> userRow) \<Rightarrow> accounts \<Rightarrow> accounts" where
  "updateUsers P f s = s\<lparr>users := map (\<lambda>u. if P u then f u else u) (users s)\<rparr>"

definition countUsers :: "accounts \<Rightarrow> (userRow \<Rightarrow> bool) \<Rightarrow> nat" where
  "countUsers s P = length (filter P (users s))"

definition updateOtps :: "(otpRow \<Rightarrow> bool) \<Rightarrow> (otpRow \<Rightarrow> otpRow) \<Rightarrow> accounts \<Rightarrow> accounts" where
  "updateOtps P f s = s\<lparr>otps := map (\<lambda>o'. if P o' then f o' else o') (otps s)\<rparr>"

text \<open>The newest row a condition selects (\<open>orderBy: createdAt desc\<close>); of two of one instant, the first.\<close>

definition newestOtp :: "accounts \<Rightarrow> (otpRow \<Rightarrow> bool) \<Rightarrow> otpRow option" where
  "newestOtp s P = (case sort_key (\<lambda>o'. - o_createdAt o') (filter P (otps s)) of [] \<Rightarrow> None | r # _ \<Rightarrow> Some r)"

definition usedAt :: "instant \<Rightarrow> otpRow \<Rightarrow> otpRow" where
  "usedAt at r = r\<lparr>o_consumedAt := Some at\<rparr>"

text \<open>A set-password link: a reset link or a welcome email's.\<close>

definition isLink :: "otpRow \<Rightarrow> bool" where
  "isLink r \<longleftrightarrow> o_purpose r = PASSWORD_RESET \<or> o_purpose r = WELCOME"

subsection \<open>The users of a password sign-in\<close>

definition findByIdentifier :: "(string \<Rightarrow> string \<Rightarrow> bool) \<Rightarrow> accounts \<Rightarrow> string \<Rightarrow> userRow option" where
  "findByIdentifier same s x = findUser s (\<lambda>u. (same (u_email u) x \<or> same (u_username u) x) \<and> u_deletedAt u = None)"

definition findById :: "accounts \<Rightarrow> ident \<Rightarrow> userRow option" where
  "findById s k = findUser s (\<lambda>u. u_id u = k \<and> u_deletedAt u = None)"

definition applyFailedAttempt :: "accounts \<Rightarrow> ident \<Rightarrow> int \<Rightarrow> instant option \<Rightarrow> int \<Rightarrow> bool \<times> accounts" where
  "applyFailedAttempt s k attempts lockedUntil expected =
     (let P = (\<lambda>u. u_id u = k \<and> u_failedAttempts u = expected)
      in (countUsers s P = 1,
          updateUsers P (\<lambda>u. u\<lparr>u_failedAttempts := attempts,
            u_lockedUntil := (case lockedUntil of None \<Rightarrow> u_lockedUntil u | Some t \<Rightarrow> Some t)\<rparr>) s))"

definition resetFailedAttempts :: "accounts \<Rightarrow> ident \<Rightarrow> accounts" where
  "resetFailedAttempts s k = updateUsers (\<lambda>u. u_id u = k) (\<lambda>u. u\<lparr>u_failedAttempts := 0, u_lockedUntil := None\<rparr>) s"

definition markActivated :: "accounts \<Rightarrow> ident \<Rightarrow> instant \<Rightarrow> accounts" where
  "markActivated s k at = updateUsers (\<lambda>u. u_id u = k \<and> u_activatedAt u = None) (\<lambda>u. u\<lparr>u_activatedAt := Some at\<rparr>) s"

definition recordSignInAt :: "accounts \<Rightarrow> ident \<Rightarrow> instant \<Rightarrow> accounts" where
  "recordSignInAt s k at = markActivated (updateUsers (\<lambda>u. u_id u = k) (\<lambda>u. u\<lparr>u_lastLoginAt := Some at\<rparr>) s) k at"

subsection \<open>Accounts a code or a link may go to\<close>

definition mayEnter :: "userRow \<Rightarrow> bool" where
  "mayEnter u \<longleftrightarrow> u_status u = ACTIVE \<and> u_deletedAt u = None \<and> u_cancelledAt u = None"

definition findActiveByIdentifier :: "(string \<Rightarrow> string \<Rightarrow> bool) \<Rightarrow> accounts \<Rightarrow> string \<Rightarrow> userRow option" where
  "findActiveByIdentifier same s x = findUser s (\<lambda>u. (same (u_email u) x \<or> same (u_username u) x) \<and> mayEnter u)"

definition clearLock :: "accounts \<Rightarrow> ident \<Rightarrow> accounts" where
  "clearLock s k = updateUsers (\<lambda>u. u_id u = k) (\<lambda>u. u\<lparr>u_failedAttempts := 0, u_lockedUntil := None\<rparr>) s"

definition isActive :: "accounts \<Rightarrow> ident \<Rightarrow> bool" where
  "isActive s k \<longleftrightarrow> countUsers s (\<lambda>u. u_id u = k \<and> mayEnter u) = 1"

definition isActivated :: "accounts \<Rightarrow> ident \<Rightarrow> bool" where
  "isActivated s k \<longleftrightarrow> countUsers s (\<lambda>u. u_id u = k \<and> u_deletedAt u = None \<and> (u_activatedAt u \<noteq> None \<or> u_lastLoginAt u \<noteq> None)) = 1"

definition ownPassword :: "string \<Rightarrow> userRow \<Rightarrow> userRow" where
  "ownPassword h u = u\<lparr>u_passwordHash := h, u_failedAttempts := 0, u_lockedUntil := None,
     u_tokenVersion := u_tokenVersion u + 1, u_mustChange := False, u_tempSetAt := None, u_tempSetBy := None,
     u_tempExpiresAt := None\<rparr>"

definition setPasswordAndUnlock :: "accounts \<Rightarrow> ident \<Rightarrow> string \<Rightarrow> accounts" where
  "setPasswordAndUnlock s k h = updateUsers (\<lambda>u. u_id u = k) (ownPassword h) s"

subsection \<open>Emailed codes\<close>

definition issueOtp :: "otpPurpose \<Rightarrow> accounts \<Rightarrow> ident \<Rightarrow> ident \<Rightarrow> string \<Rightarrow> instant \<Rightarrow> instant \<Rightarrow> accounts" where
  "issueOtp p s newId userId codeHash expiresAt at =
     (let s1 = updateOtps (\<lambda>r. o_userId r = userId \<and> o_purpose r = p \<and> o_consumedAt r = None) (usedAt at) s
      in s1\<lparr>otps := otps s1 @ [\<lparr>o_id = newId, o_userId = userId, o_purpose = p, o_codeHash = codeHash,
            o_expiresAt = expiresAt, o_attempts = 0, o_consumedAt = None, o_createdAt = at\<rparr>]\<rparr>)"

definition createLoginOtp :: "accounts \<Rightarrow> ident \<Rightarrow> ident \<Rightarrow> string \<Rightarrow> instant \<Rightarrow> instant \<Rightarrow> accounts" where
  "createLoginOtp = issueOtp LOGIN"

definition findActiveOtp :: "accounts \<Rightarrow> ident \<Rightarrow> otpRow option" where
  "findActiveOtp s k = newestOtp s (\<lambda>r. o_userId r = k \<and> o_purpose r = LOGIN \<and> o_consumedAt r = None)"

definition countIssuedSince :: "otpPurpose \<Rightarrow> accounts \<Rightarrow> ident \<Rightarrow> instant \<Rightarrow> nat" where
  "countIssuedSince p s k since = length (filter (\<lambda>r. o_userId r = k \<and> o_purpose r = p \<and> o_createdAt r \<ge> since) (otps s))"

definition countFailuresSince :: "accounts \<Rightarrow> ident \<Rightarrow> instant \<Rightarrow> int" where
  "countFailuresSince s k since =
     sum_list (map o_attempts (filter (\<lambda>r. o_userId r = k \<and> o_purpose r = LOGIN \<and> o_createdAt r \<ge> since) (otps s)))"

definition writeOtp :: "accounts \<Rightarrow> (otpRow \<Rightarrow> bool) \<Rightarrow> (otpRow \<Rightarrow> otpRow) \<Rightarrow> bool \<times> accounts" where
  "writeOtp s P f = (length (filter P (otps s)) = 1, updateOtps P f s)"

definition claimOtpAttempt :: "accounts \<Rightarrow> ident \<Rightarrow> int \<Rightarrow> bool \<times> accounts" where
  "claimOtpAttempt s k most =
     writeOtp s (\<lambda>r. o_id r = k \<and> o_consumedAt r = None \<and> o_attempts r < most) (\<lambda>r. r\<lparr>o_attempts := o_attempts r + 1\<rparr>)"

definition consumeOtp :: "accounts \<Rightarrow> ident \<Rightarrow> instant \<Rightarrow> bool \<times> accounts" where
  "consumeOtp s k at =
     writeOtp s (\<lambda>r. o_id r = k \<and> o_consumedAt r = None) (\<lambda>r. r\<lparr>o_consumedAt := Some at, o_attempts := o_attempts r - 1\<rparr>)"

subsection \<open>Set-password links\<close>

definition createResetLink :: "accounts \<Rightarrow> ident \<Rightarrow> ident \<Rightarrow> string \<Rightarrow> instant \<Rightarrow> instant \<Rightarrow> accounts" where
  "createResetLink = issueOtp PASSWORD_RESET"

definition findActiveByHash :: "accounts \<Rightarrow> string \<Rightarrow> otpRow option" where
  "findActiveByHash s h = newestOtp s (\<lambda>r. o_codeHash r = h \<and> isLink r \<and> o_consumedAt r = None)"

definition findAnyByHash :: "accounts \<Rightarrow> string \<Rightarrow> otpRow option" where
  "findAnyByHash s h = newestOtp s (\<lambda>r. o_codeHash r = h \<and> isLink r)"

definition consumeLink :: "accounts \<Rightarrow> ident \<Rightarrow> instant \<Rightarrow> bool \<times> accounts" where
  "consumeLink s k at = writeOtp s (\<lambda>r. o_id r = k \<and> o_consumedAt r = None) (usedAt at)"

definition consumeAllLinks :: "accounts \<Rightarrow> ident \<Rightarrow> instant \<Rightarrow> accounts" where
  "consumeAllLinks s k at = updateOtps (\<lambda>r. o_userId r = k \<and> isLink r \<and> o_consumedAt r = None) (usedAt at) s"

subsection \<open>Cancelling an invitation\<close>

definition cancelInvitationRow :: "accounts \<Rightarrow> ident \<Rightarrow> instant \<Rightarrow> string \<Rightarrow> bool \<times> accounts" where
  "cancelInvitationRow s k at unusableHash =
     (let P = (\<lambda>u. u_id u = k \<and> u_deletedAt u = None \<and> u_activatedAt u = None \<and> u_lastLoginAt u = None);
          s1 = updateUsers P (\<lambda>u. u\<lparr>u_cancelledAt := Some at, u_passwordHash := unusableHash, u_mustChange := False,
                 u_tempSetAt := None, u_tempSetBy := None, u_tempExpiresAt := None\<rparr>) s
      in if countUsers s P \<noteq> 1 then (False, s1)
         else (True, updateOtps (\<lambda>r. o_userId r = k \<and> isLink r \<and> o_consumedAt r = None) (usedAt at) s1))"

section \<open>Shared facts\<close>

lemma find_map_keeps:
  "(\<And>x. x \<in> set xs \<Longrightarrow> P (f x) = P x) \<Longrightarrow> find P (map f xs) = map_option f (find P xs)"
  by (induction xs) auto

lemma newestOtp_mem: "newestOtp s P = Some r \<Longrightarrow> r \<in> set (otps s) \<and> P r"
proof -
  assume n: "newestOtp s P = Some r"
  then obtain l where "sort_key (\<lambda>o'. - o_createdAt o') (filter P (otps s)) = r # l"
    by (auto simp: newestOtp_def split: list.splits)
  then have "r \<in> set (sort_key (\<lambda>o'. - o_createdAt o') (filter P (otps s)))" by (metis list.set_intros(1))
  then show ?thesis by simp
qed

lemma newestOtp_None: "newestOtp s P = None \<longleftrightarrow> (\<forall>r \<in> set (otps s). \<not> P r)"
proof -
  have "sort_key (\<lambda>o'. - o_createdAt o') (filter P (otps s)) = [] \<longleftrightarrow> filter P (otps s) = []"
    by (metis length_0_conv length_sort)
  then show ?thesis by (auto simp: newestOtp_def filter_empty_conv split: list.splits)
qed

lemma updateUsers_otps [simp]: "otps (updateUsers P f s) = otps s" by (simp add: updateUsers_def)
lemma updateOtps_users [simp]: "users (updateOtps P f s) = users s" by (simp add: updateOtps_def)
lemma users_updateUsers [simp]: "users (updateUsers P f s) = map (\<lambda>u. if P u then f u else u) (users s)" by (simp add: updateUsers_def)
lemma otps_updateOtps [simp]: "otps (updateOtps P f s) = map (\<lambda>o'. if P o' then f o' else o') (otps s)" by (simp add: updateOtps_def)

end
