(* ===== verification/SignIn.thy ===== *)
theory SignIn
  imports Accounts
begin

text \<open>
  Signing in with a password: \<open>lib/lockout.ts\<close> and \<open>modules/auth/auth-service.ts\<close> on the users table.
  The check of a password against its bcrypt hash and the database's comparison of names are parameters
  (\<open>verify password hash\<close> and \<open>same\<close>). The clock is read once per call.
\<close>

section \<open>The lock\<close>

definition DEFAULT_MAX_LOCK_MINUTES :: int where
  "DEFAULT_MAX_LOCK_MINUTES = 24 * 60"

definition recordFailure :: "int \<Rightarrow> int \<Rightarrow> int \<Rightarrow> int \<Rightarrow> instant \<Rightarrow> int \<times> instant option" where
  "recordFailure attempts most lockMinutes maxLockMinutes at =
     (let nxt = attempts + 1
      in if nxt < most then (nxt, None)
         else (let minutes = min (lockMinutes * 2 ^ nat (min (nxt - most) 20)) maxLockMinutes
               in (nxt, Some (at + minutes * 60000))))"

definition isLocked :: "instant option \<Rightarrow> instant \<Rightarrow> bool" where
  "isLocked lockedUntil at = (case lockedUntil of None \<Rightarrow> False | Some t \<Rightarrow> t > at)"

section \<open>The service\<close>

datatype authError =
    InvalidCredentials
  | AccountLocked int  \<comment> \<open>retryAfterSeconds\<close>
  | AccountInactive

definition retryAfterSeconds :: "instant \<Rightarrow> instant \<Rightarrow> int" where
  "retryAfterSeconds until at = max 1 (- ((at - until) div 1000))"

record sessionUser =
  su_id :: ident
  su_email :: string
  su_username :: string
  su_roles :: "string list"
  su_avatarUrl :: "string option"
  su_tokenVersion :: int

definition toSessionUser :: "userRow \<Rightarrow> sessionUser" where
  "toSessionUser u = \<lparr>su_id = u_id u, su_email = u_email u, su_username = u_username u, su_roles = u_roles u,
     su_avatarUrl = u_avatarUrl u, su_tokenVersion = u_tokenVersion u\<rparr>"

record signInConfig =
  maxAttempts :: int
  lockMinutes :: int
  sameName :: "string \<Rightarrow> string \<Rightarrow> bool"
  verifyPassword :: "string \<Rightarrow> string \<Rightarrow> bool"

definition login :: "signInConfig \<Rightarrow> accounts \<Rightarrow> string \<Rightarrow> string \<Rightarrow> instant \<Rightarrow> (authError + sessionUser) \<times> accounts" where
  "login cfg s x password at =
     (case findByIdentifier (sameName cfg) s x of
        None \<Rightarrow> (Inl InvalidCredentials, s)
      | Some user \<Rightarrow>
          if isLocked (u_lockedUntil user) at then (Inl (AccountLocked (retryAfterSeconds (the (u_lockedUntil user)) at)), s)
          else
            (let failure = recordFailure (u_failedAttempts user) (maxAttempts cfg) (lockMinutes cfg) DEFAULT_MAX_LOCK_MINUTES at;
                 (claimed, s1) = applyFailedAttempt s (u_id user) (fst failure) (snd failure) (u_failedAttempts user)
             in if \<not> claimed then (Inl InvalidCredentials, s1)
                else if \<not> verifyPassword cfg password (u_passwordHash user)
                then (case snd failure of Some until \<Rightarrow> (Inl (AccountLocked (retryAfterSeconds until at)), s1) | None \<Rightarrow> (Inl InvalidCredentials, s1))
                else (let s2 = resetFailedAttempts s1 (u_id user)
                      in if u_status user \<noteq> ACTIVE then (Inl AccountInactive, s2) else (Inr (toSessionUser user), s2))))"

definition getUserForSession :: "accounts \<Rightarrow> ident \<Rightarrow> authError + sessionUser" where
  "getUserForSession s k =
     (case findById s k of
        None \<Rightarrow> Inl InvalidCredentials
      | Some user \<Rightarrow> if u_status user \<noteq> ACTIVE then Inl AccountInactive else Inr (toSessionUser user))"

definition recordSignIn :: "accounts \<Rightarrow> ident \<Rightarrow> instant \<Rightarrow> accounts" where
  "recordSignIn s k at = recordSignInAt s k at"

section \<open>What a lock lasts\<close>

lemma recordFailure_attempts [simp]: "fst (recordFailure a m l c at) = a + 1"
  by (simp add: recordFailure_def Let_def)

lemma recordFailure_None: "snd (recordFailure a m l c at) = None \<longleftrightarrow> a + 1 < m"
  by (simp add: recordFailure_def Let_def)

text \<open>The milliseconds the lock after failure number \<open>n\<close> lasts.\<close>

definition lockLength :: "signInConfig \<Rightarrow> int \<Rightarrow> int" where
  "lockLength cfg n = min (lockMinutes cfg * 2 ^ nat (min (n - maxAttempts cfg) 20)) DEFAULT_MAX_LOCK_MINUTES * 60000"

lemma recordFailure_Some:
  "maxAttempts cfg \<le> a + 1 \<Longrightarrow>
   snd (recordFailure a (maxAttempts cfg) (lockMinutes cfg) DEFAULT_MAX_LOCK_MINUTES at) = Some (at + lockLength cfg (a + 1))"
  by (simp add: recordFailure_def Let_def lockLength_def)

lemma lockLength_mono:
  assumes l: "0 \<le> lockMinutes cfg" and nm: "n \<le> m"
  shows "lockLength cfg n \<le> lockLength cfg m"
proof -
  have "nat (min (n - maxAttempts cfg) 20) \<le> nat (min (m - maxAttempts cfg) 20)" using nm by (intro nat_mono min.mono) auto
  then have "(2 :: int) ^ nat (min (n - maxAttempts cfg) 20) \<le> 2 ^ nat (min (m - maxAttempts cfg) 20)"
    by (intro power_increasing) auto
  then have "lockMinutes cfg * 2 ^ nat (min (n - maxAttempts cfg) 20) \<le> lockMinutes cfg * 2 ^ nat (min (m - maxAttempts cfg) 20)"
    using l by (intro mult_left_mono) auto
  then show ?thesis by (simp add: lockLength_def)
qed

section \<open>One account's row\<close>

definition failedOnce :: "signInConfig \<Rightarrow> instant \<Rightarrow> userRow \<Rightarrow> userRow" where
  "failedOnce cfg at u = u\<lparr>u_failedAttempts := u_failedAttempts u + 1,
     u_lockedUntil := (if u_failedAttempts u + 1 < maxAttempts cfg then u_lockedUntil u else Some (at + lockLength cfg (u_failedAttempts u + 1)))\<rparr>"

text \<open>Ids are unique in the users table (its primary key).\<close>

definition uniqueUserIds :: "accounts \<Rightarrow> bool" where
  "uniqueUserIds s \<longleftrightarrow> distinct (map u_id (users s))"

definition putUser :: "userRow \<Rightarrow> accounts \<Rightarrow> accounts" where
  "putUser v s = updateUsers (\<lambda>u. u_id u = u_id v) (\<lambda>u. v) s"

lemma findByIdentifier_mem: "findByIdentifier same s x = Some u \<Longrightarrow> u \<in> set (users s)"
  by (auto simp: findByIdentifier_def findUser_def dest: find_mem)

lemma uniqueUserIds_row: "uniqueUserIds s \<Longrightarrow> u \<in> set (users s) \<Longrightarrow> v \<in> set (users s) \<Longrightarrow> u_id v = u_id u \<Longrightarrow> v = u"
  by (auto simp: uniqueUserIds_def distinct_map inj_on_def)

lemma countUsers_one:
  assumes "uniqueUserIds s" "u \<in> set (users s)" "P u" "\<And>v. P v \<Longrightarrow> u_id v = u_id u"
  shows "countUsers s P = 1"
proof -
  have "\<forall>v \<in> set (filter P (users s)). v = u"
    using uniqueUserIds_row[OF assms(1,2) _ assms(4)] by simp
  moreover have "u \<in> set (filter P (users s))" using assms(2,3) by simp
  ultimately have "set (filter P (users s)) = {u}" by blast
  moreover have "distinct (filter P (users s))" using assms(1) by (simp add: uniqueUserIds_def distinct_map)
  ultimately show ?thesis unfolding countUsers_def using distinct_card[of "filter P (users s)"] by simp
qed

lemma updateUsers_put:
  assumes "uniqueUserIds s" "u \<in> set (users s)" "P u" "\<And>v. P v \<Longrightarrow> u_id v = u_id u" "u_id (f u) = u_id u"
  shows "updateUsers P f s = putUser (f u) s"
proof -
  have "(if P v then f v else v) = (if u_id v = u_id (f u) then f u else v)" if "v \<in> set (users s)" for v
  proof (cases "P v")
    case True
    then have "v = u" by (rule uniqueUserIds_row[OF assms(1,2) that assms(4)])
    then show ?thesis using True assms(5) by simp
  next
    case False
    then have "u_id v \<noteq> u_id u" using uniqueUserIds_row[OF assms(1,2) that] assms(3) by blast
    then show ?thesis using False assms(5) by simp
  qed
  then show ?thesis by (simp add: putUser_def updateUsers_def)
qed

lemma putUser_put [simp]: "u_id v = u_id w \<Longrightarrow> putUser w (putUser v s) = putUser w s"
  by (auto simp: putUser_def updateUsers_def)

lemma uniqueUserIds_put [simp]: "uniqueUserIds (putUser v s) = uniqueUserIds s"
  by (simp add: uniqueUserIds_def putUser_def comp_def if_distrib cong: if_cong)

lemma putUser_mem: "u \<in> set (users s) \<Longrightarrow> u_id v = u_id u \<Longrightarrow> v \<in> set (users (putUser v s))"
  by (force simp: putUser_def)

lemma putUser_otps [simp]: "otps (putUser v s) = otps s"
  by (simp add: putUser_def)
section \<open>A wrong guess\<close>

lemma findByIdentifier_put:
  assumes "uniqueUserIds s" "findByIdentifier same s x = Some u" "u_id v = u_id u" "u_email v = u_email u"
    "u_username v = u_username u" "u_deletedAt v = u_deletedAt u"
  shows "findByIdentifier same (putUser v s) x = Some v"
proof -
  let ?P = "\<lambda>w. (same (u_email w) x \<or> same (u_username w) x) \<and> u_deletedAt w = None"
  let ?f = "\<lambda>w. if u_id w = u_id v then v else w"
  have m: "u \<in> set (users s)" using assms(2) by (rule findByIdentifier_mem)
  have row: "w = u" if "w \<in> set (users s)" "u_id w = u_id v" for w
    using uniqueUserIds_row[OF assms(1) m that(1)] that(2) assms(3) by simp
  have "?P (?f w) = ?P w" if "w \<in> set (users s)" for w
  proof (cases "u_id w = u_id v")
    case True
    then have "w = u" using row that by blast
    then show ?thesis using True assms(4-6) by simp
  qed simp
  then have "find ?P (map ?f (users s)) = map_option ?f (find ?P (users s))" by (rule find_map_keeps)
  then show ?thesis using assms(2,3) by (simp add: findByIdentifier_def findUser_def putUser_def)
qed

lemma applyFailedAttempt_claims:
  assumes "uniqueUserIds s" "findByIdentifier same s x = Some u"
  shows "applyFailedAttempt s (u_id u) (u_failedAttempts u + 1)
           (snd (recordFailure (u_failedAttempts u) (maxAttempts cfg) (lockMinutes cfg) DEFAULT_MAX_LOCK_MINUTES at)) (u_failedAttempts u)
         = (True, putUser (failedOnce cfg at u) s)"
proof -
  let ?P = "\<lambda>v. u_id v = u_id u \<and> u_failedAttempts v = u_failedAttempts u"
  let ?l = "snd (recordFailure (u_failedAttempts u) (maxAttempts cfg) (lockMinutes cfg) DEFAULT_MAX_LOCK_MINUTES at)"
  have m: "u \<in> set (users s)" using assms(2) by (rule findByIdentifier_mem)
  have l: "?l = (if u_failedAttempts u + 1 < maxAttempts cfg then None else Some (at + lockLength cfg (u_failedAttempts u + 1)))"
    using recordFailure_None recordFailure_Some by auto
  show ?thesis unfolding applyFailedAttempt_def l Let_def
    using countUsers_one[OF assms(1) m, of ?P] updateUsers_put[OF assms(1) m, of ?P]
    by (simp add: failedOnce_def)
qed

text \<open>Every branch of \<open>login\<close> of an account, over its row alone.\<close>

lemma login_known:
  assumes "uniqueUserIds s" "findByIdentifier (sameName cfg) s x = Some u"
  shows "login cfg s x password at =
    (if isLocked (u_lockedUntil u) at then (Inl (AccountLocked (retryAfterSeconds (the (u_lockedUntil u)) at)), s)
     else if verifyPassword cfg password (u_passwordHash u)
     then (if u_status u = ACTIVE then Inr (toSessionUser u) else Inl AccountInactive,
           putUser (u\<lparr>u_failedAttempts := 0, u_lockedUntil := None\<rparr>) s)
     else (if u_failedAttempts u + 1 < maxAttempts cfg then Inl InvalidCredentials
           else Inl (AccountLocked (retryAfterSeconds (at + lockLength cfg (u_failedAttempts u + 1)) at)),
           putUser (failedOnce cfg at u) s))"
proof -
  have m: "u \<in> set (users s)" using assms(2) by (rule findByIdentifier_mem)
  have m': "failedOnce cfg at u \<in> set (users (putUser (failedOnce cfg at u) s))"
    by (rule putUser_mem[OF m]) (simp add: failedOnce_def)
  have r: "resetFailedAttempts (putUser (failedOnce cfg at u) s) (u_id u) = putUser (u\<lparr>u_failedAttempts := 0, u_lockedUntil := None\<rparr>) s"
    unfolding resetFailedAttempts_def
    using updateUsers_put[OF _ m', of "\<lambda>v. u_id v = u_id u" "\<lambda>v. v\<lparr>u_failedAttempts := 0, u_lockedUntil := None\<rparr>"] assms(1)
    by (simp add: failedOnce_def)
  show ?thesis
    unfolding login_def assms(2) option.case Let_def recordFailure_attempts applyFailedAttempt_claims[OF assms] prod.case
    by (cases "u_failedAttempts u + 1 < maxAttempts cfg") (simp_all add: r recordFailure_None[THEN iffD2] recordFailure_Some)
qed

section \<open>Guesses are spaced by the lock\<close>

text \<open>The instants of the guesses that were evaluated, of a run of guesses (a refusal without one writes nothing).\<close>

primrec evaluatedAt :: "(string \<times> instant) list \<Rightarrow> signInConfig \<Rightarrow> accounts \<Rightarrow> string \<Rightarrow> instant list" where
  "evaluatedAt [] cfg s x = []"
| "evaluatedAt (g # gs) cfg s x =
     (let s' = snd (login cfg s x (fst g) (snd g)) in if s' = s then evaluatedAt gs cfg s' x else snd g # evaluatedAt gs cfg s' x)"

lemma map_fixed: "map f xs = xs \<Longrightarrow> y \<in> set xs \<Longrightarrow> f y = y"
  by (induction xs) auto

lemma putUser_changes:
  assumes "u \<in> set (users s)" "u_id v = u_id u" "v \<noteq> u"
  shows "putUser v s \<noteq> s"
proof
  assume "putUser v s = s"
  then have "map (\<lambda>w. if u_id w = u_id v then v else w) (users s) = users s"
    by (cases s) (simp add: putUser_def updateUsers_def)
  then have "(if u_id u = u_id v then v else u) = u" by (rule map_fixed) (rule assms(1))
  then show False using assms(2,3) by simp
qed

lemma login_wrong:
  assumes "uniqueUserIds s" "findByIdentifier (sameName cfg) s x = Some u" "\<not> verifyPassword cfg password (u_passwordHash u)"
  shows "snd (login cfg s x password at) = (if isLocked (u_lockedUntil u) at then s else putUser (failedOnce cfg at u) s)"
  using assms(3) by (simp add: login_known[OF assms(1,2)])

lemma failedOnce_changes:
  assumes "uniqueUserIds s" "findByIdentifier same s x = Some u"
  shows "putUser (failedOnce cfg at u) s \<noteq> s"
proof -
  have "u_failedAttempts (failedOnce cfg at u) \<noteq> u_failedAttempts u" by (simp add: failedOnce_def)
  then have "failedOnce cfg at u \<noteq> u" by metis
  then show ?thesis
    using putUser_changes[OF findByIdentifier_mem[OF assms(2)], of "failedOnce cfg at u"] by (simp add: failedOnce_def)
qed
lemma failedOnce_simps [simp]:
  "u_id (failedOnce cfg at u) = u_id u" "u_email (failedOnce cfg at u) = u_email u"
  "u_username (failedOnce cfg at u) = u_username u" "u_deletedAt (failedOnce cfg at u) = u_deletedAt u"
  "u_passwordHash (failedOnce cfg at u) = u_passwordHash u"
  "u_failedAttempts (failedOnce cfg at u) = u_failedAttempts u + 1"
  by (simp_all add: failedOnce_def)

lemma evaluatedAt_wrong:
  assumes "uniqueUserIds s" "findByIdentifier (sameName cfg) s x = Some u" "\<not> verifyPassword cfg (fst g) (u_passwordHash u)"
  shows "evaluatedAt (g # gs) cfg s x =
    (if isLocked (u_lockedUntil u) (snd g) then evaluatedAt gs cfg s x
     else snd g # evaluatedAt gs cfg (putUser (failedOnce cfg (snd g) u) s) x)"
  using failedOnce_changes[OF assms(1,2)] by (simp add: login_wrong[OF assms] Let_def)

lemma evaluatedAt_first:
  assumes "uniqueUserIds s" "findByIdentifier (sameName cfg) s x = Some u"
    and "\<forall>g \<in> set gs. \<not> verifyPassword cfg (fst g) (u_passwordHash u)"
    and "u_lockedUntil u = Some until" "evaluatedAt gs cfg s x \<noteq> []"
  shows "until \<le> evaluatedAt gs cfg s x ! 0"
  using assms
proof (induction gs)
  case (Cons g gs)
  then show ?case
    by (cases "isLocked (u_lockedUntil u) (snd g)")
      (auto simp: evaluatedAt_wrong[OF assms(1,2)] isLocked_def simp del: evaluatedAt.simps)
qed simp

lemma evaluatedAt_spaced:
  assumes "uniqueUserIds s" "findByIdentifier (sameName cfg) s x = Some u"
    and "\<forall>g \<in> set gs. \<not> verifyPassword cfg (fst g) (u_passwordHash u)"
    and "i + 1 < length (evaluatedAt gs cfg s x)" "maxAttempts cfg \<le> u_failedAttempts u + int i + 1"
  shows "evaluatedAt gs cfg s x ! i + lockLength cfg (u_failedAttempts u + int i + 1) \<le> evaluatedAt gs cfg s x ! (i + 1)"
  using assms
proof (induction gs arbitrary: s u i)
  case (Cons g gs)
  have wrong: "\<not> verifyPassword cfg (fst g) (u_passwordHash u)" using Cons.prems(3) by simp
  note step = evaluatedAt_wrong[OF Cons.prems(1,2) wrong]
  show ?case
  proof (cases "isLocked (u_lockedUntil u) (snd g)")
    case True
    then show ?thesis unfolding step using Cons.IH[OF Cons.prems(1,2)] Cons.prems(3-5)
      by (simp add: step del: evaluatedAt.simps)
  next
    case False
    let ?u = "failedOnce cfg (snd g) u"
    let ?es = "evaluatedAt gs cfg (putUser ?u s) x"
    have u: "uniqueUserIds (putUser ?u s)" "findByIdentifier (sameName cfg) (putUser ?u s) x = Some ?u"
      using Cons.prems(1,2) by (simp_all add: findByIdentifier_put)
    have w: "\<forall>g \<in> set gs. \<not> verifyPassword cfg (fst g) (u_passwordHash ?u)" using Cons.prems(3) by simp
    have es: "evaluatedAt (g # gs) cfg s x = snd g # ?es" using step False by simp
    show ?thesis
    proof (cases i)
      case 0
      then have "u_lockedUntil ?u = Some (snd g + lockLength cfg (u_failedAttempts u + 1))"
        using Cons.prems(5) by (simp add: failedOnce_def)
      moreover have "?es \<noteq> []" using Cons.prems(4) 0 unfolding es by auto
      ultimately show ?thesis using evaluatedAt_first[OF u w] unfolding es 0 by simp
    next
      case (Suc j)
      have "j + 1 < length ?es" using Cons.prems(4) Suc unfolding es by simp
      then have "?es ! j + lockLength cfg (u_failedAttempts ?u + int j + 1) \<le> ?es ! (j + 1)"
        using Cons.prems(5) Suc by (intro Cons.IH[OF u w]) simp_all
      then show ?thesis using Suc unfolding es by (simp add: algebra_simps)
    qed
  qed
qed simp

section \<open>Properties\<close>

text \<open>
  C16. Guessing a password is slowed by the lock. Take any run of wrong guesses at an account with no
  failure on record, at any instants. The guesses that are evaluated at all are spaced: from failure
  number \<open>maxAttempts\<close> on, the next evaluated guess is at least the lock of that failure later, and that
  lock doubles with each failure up to a day, never falling below the first one's length.
\<close>

theorem guesses_are_spaced:
  assumes "uniqueUserIds s" "findByIdentifier (sameName cfg) s x = Some u" "u_failedAttempts u = 0" "0 \<le> lockMinutes cfg"
    and "\<forall>g \<in> set gs. \<not> verifyPassword cfg (fst g) (u_passwordHash u)"
    and "i + 1 < length (evaluatedAt gs cfg s x)" "maxAttempts cfg \<le> int i + 1"
  shows "evaluatedAt gs cfg s x ! i + lockLength cfg (int i + 1) \<le> evaluatedAt gs cfg s x ! (i + 1)
    \<and> lockLength cfg (maxAttempts cfg) \<le> lockLength cfg (int i + 1)
    \<and> lockLength cfg (maxAttempts cfg) = min (lockMinutes cfg) 1440 * 60000"
proof (intro conjI)
  show "evaluatedAt gs cfg s x ! i + lockLength cfg (int i + 1) \<le> evaluatedAt gs cfg s x ! (i + 1)"
    using evaluatedAt_spaced[OF assms(1,2,5,6)] assms(3,7) by simp
  show "lockLength cfg (maxAttempts cfg) \<le> lockLength cfg (int i + 1)"
    by (rule lockLength_mono[OF assms(4,7)])
  show "lockLength cfg (maxAttempts cfg) = min (lockMinutes cfg) 1440 * 60000"
    by (simp add: lockLength_def DEFAULT_MAX_LOCK_MINUTES_def)
qed

definition sampleUser :: "ident \<Rightarrow> string \<Rightarrow> userRow" where
  "sampleUser k name = \<lparr>u_id = k, u_email = name @ ''@x'', u_username = name, u_passwordHash = ''pw'', u_status = ACTIVE,
     u_failedAttempts = 0, u_lockedUntil = None, u_roles = [], u_avatarUrl = None, u_tokenVersion = 0, u_deletedAt = None,
     u_cancelledAt = None, u_mustChange = False, u_tempSetAt = None, u_tempSetBy = None, u_tempExpiresAt = None,
     u_emailVerifiedAt = None, u_activatedAt = None, u_lastLoginAt = None\<rparr>"

definition sampleAccounts :: accounts where
  "sampleAccounts = \<lparr>users = [sampleUser ''u'' ''ann'', sampleUser ''v'' ''bob''], otps = []\<rparr>"

definition sampleSignIn :: signInConfig where
  "sampleSignIn = \<lparr>maxAttempts = 2, lockMinutes = 15, sameName = (=), verifyPassword = (\<lambda>p h. p = h)\<rparr>"

definition sampleGuesses :: "(string \<times> instant) list" where
  "sampleGuesses = [(''a'', 0), (''b'', 1000), (''c'', 2000), (''d'', 901000), (''e'', 902000)]"

theorem guesses_are_spaced_witness:
  "evaluatedAt sampleGuesses sampleSignIn sampleAccounts ''ann'' = [0, 1000, 901000] \<and> (1000 :: int) + 900000 \<le> 901000"
proof -
  have e: "evaluatedAt sampleGuesses sampleSignIn sampleAccounts ''ann'' = [0, 1000, 901000]" by code_simp
  have "uniqueUserIds sampleAccounts" "findByIdentifier (sameName sampleSignIn) sampleAccounts ''ann'' = Some (sampleUser ''u'' ''ann'')"
    by code_simp+
  from guesses_are_spaced[OF this, of sampleGuesses 1] show ?thesis using e
    by (simp add: sampleUser_def sampleSignIn_def sampleGuesses_def lockLength_def DEFAULT_MAX_LOCK_MINUTES_def)
qed

text \<open>
  C17. A sign-in with the right password while no lock holds lifts the record of failures and answers
  by the account's status; while a lock holds even the right password is refused, and nothing is
  written; and no sign-in changes anyone else's row or any emailed code.
\<close>

theorem login_right_password:
  assumes "uniqueUserIds s" "findByIdentifier (sameName cfg) s x = Some u" "verifyPassword cfg password (u_passwordHash u)"
  shows "login cfg s x password at =
      (if isLocked (u_lockedUntil u) at then (Inl (AccountLocked (retryAfterSeconds (the (u_lockedUntil u)) at)), s)
       else (if u_status u = ACTIVE then Inr (toSessionUser u) else Inl AccountInactive,
             putUser (u\<lparr>u_failedAttempts := 0, u_lockedUntil := None\<rparr>) s))
    \<and> otps (snd (login cfg s x password at)) = otps s
    \<and> filter (\<lambda>v. u_id v \<noteq> u_id u) (users (snd (login cfg s x password at))) = filter (\<lambda>v. u_id v \<noteq> u_id u) (users s)"
proof -
  have "filter (\<lambda>v. u_id v \<noteq> u_id w) (users (putUser w s)) = filter (\<lambda>v. u_id v \<noteq> u_id w) (users s)" for w
    by (simp add: putUser_def filter_map comp_def) (auto intro: map_idI)
  from this[of "u\<lparr>u_failedAttempts := 0, u_lockedUntil := None\<rparr>"] show ?thesis
    using assms(3) by (simp add: login_known[OF assms(1,2)])
qed

theorem login_right_password_witness:
  "fst (login sampleSignIn sampleAccounts ''ann'' ''pw'' 5) = Inr (toSessionUser (sampleUser ''u'' ''ann''))"
proof -
  have "uniqueUserIds sampleAccounts" "findByIdentifier (sameName sampleSignIn) sampleAccounts ''ann'' = Some (sampleUser ''u'' ''ann'')"
    "verifyPassword sampleSignIn ''pw'' (u_passwordHash (sampleUser ''u'' ''ann''))"
    by code_simp+
  from login_right_password[OF this, of 5] show ?thesis by (simp add: sampleUser_def isLocked_def)
qed

end
