(* ===== verification/LoginCodes.thy ===== *)
theory LoginCodes
  imports SignIn
begin

text \<open>
  Signing in with an emailed code: \<open>modules/auth/otp-service.ts\<close> on the Prisma repositories of
  \<open>Accounts\<close>, and the per-address guard of \<open>lib/repeat-requests.ts\<close>. The random code, its bcrypt hash and
  the check of a typed code are parameters; the email and the brand on it are not modelled. The work done
  in the background runs at once, with its failure (only logged) left out.
\<close>

section \<open>Requests repeated within the minute\<close>

definition MINUTE_otp :: int where "MINUTE_otp = 60000"
definition HOUR_otp :: int where "HOUR_otp = 60 * MINUTE_otp"

text \<open>
  The remembered requests, in the order of the JavaScript map (a key put again goes last). With a limit of
  none a minute the wait is computed from no request: not a number.
\<close>

type_synonym asked = "(string \<times> instant list) list"

datatype guardAnswer = Taken | Wait int | WaitNaN

fun dropStale :: "instant \<Rightarrow> asked \<Rightarrow> asked" where
  "dropStale at [] = []"
| "dropStale at ((k, ts) # rest) = (if at - last ts < MINUTE_otp then (k, ts) # rest else dropStale at rest)"

definition secondsUp :: "int \<Rightarrow> int" where
  "secondsUp ms = - ((- ms) div 1000)"

definition repeatGuard :: "int \<Rightarrow> asked \<Rightarrow> string \<Rightarrow> instant \<Rightarrow> guardAnswer \<times> asked" where
  "repeatGuard perMinute asked0 key at =
     (let asked = dropStale at asked0;
          recent = filter (\<lambda>t. at - t < MINUTE_otp) (case map_of asked key of None \<Rightarrow> [] | Some ts \<Rightarrow> ts)
      in if int (length recent) \<ge> perMinute
         then (case recent of [] \<Rightarrow> WaitNaN | t # _ \<Rightarrow> Wait (max 1 (secondsUp (t + MINUTE_otp - at))), asked)
         else (Taken, filter (\<lambda>e. fst e \<noteq> key) asked @ [(key, recent @ [at])]))"

section \<open>The service\<close>

datatype otpError = EmailUnavailable | InvalidOtp | OtpExpired | TooManyOtpAttempts

datatype requestAnswer = Sent | NotSent guardAnswer

record otpConfig =
  oc_same :: "string \<Rightarrow> string \<Rightarrow> bool"
  oc_verifyOtp :: "string \<Rightarrow> string \<Rightarrow> bool"
  oc_mailConfigured :: bool
  oc_ttlSeconds :: int
  oc_maxAttempts :: int
  oc_perMinute :: int
  oc_perHour :: int
  oc_maxFailuresPerHour :: int

record otpState =
  accountsOf :: accounts
  issuing :: "ident list"
  asked :: asked

definition isExpired :: "instant \<Rightarrow> instant \<Rightarrow> bool" where
  "isExpired expiresAt at \<longleftrightarrow> expiresAt \<le> at"

text \<open>\<open>newId\<close> and \<open>codeHash\<close> are the row's id and the hash of the random code drawn.\<close>

definition issueNow :: "otpConfig \<Rightarrow> accounts \<Rightarrow> ident \<Rightarrow> ident \<Rightarrow> string \<Rightarrow> instant \<Rightarrow> accounts" where
  "issueNow cfg s userId newId codeHash at =
     (let lastMinute = int (countIssuedSince LOGIN s userId (at - MINUTE_otp));
          lastHour = int (countIssuedSince LOGIN s userId (at - HOUR_otp))
      in if lastMinute \<ge> oc_perMinute cfg \<or> lastHour \<ge> oc_perHour cfg then s
         else createLoginOtp s newId userId codeHash (at + oc_ttlSeconds cfg * 1000) at)"

definition issueLoginCode :: "otpConfig \<Rightarrow> otpState \<Rightarrow> ident \<Rightarrow> ident \<Rightarrow> string \<Rightarrow> instant \<Rightarrow> otpState" where
  "issueLoginCode cfg st userId newId codeHash at =
     (if userId \<in> set (issuing st) then st
      else st\<lparr>accountsOf := issueNow cfg (accountsOf st) userId newId codeHash at\<rparr>)"

definition requestLoginOtp :: "otpConfig \<Rightarrow> otpState \<Rightarrow> string \<Rightarrow> ident \<Rightarrow> string \<Rightarrow> instant \<Rightarrow> (otpError + requestAnswer) \<times> otpState" where
  "requestLoginOtp cfg st x newId codeHash at =
     (if \<not> oc_mailConfigured cfg then (Inl EmailUnavailable, st)
      else (let (wait, asked') = repeatGuard (oc_perMinute cfg) (asked st) (toLowerCase (trim x)) at;
                st1 = st\<lparr>asked := asked'\<rparr>
            in if wait \<noteq> Taken then (Inr (NotSent wait), st1)
               else (Inr Sent,
                 case findActiveByIdentifier (oc_same cfg) (accountsOf st1) x of
                   None \<Rightarrow> st1
                 | Some user \<Rightarrow> issueLoginCode cfg st1 (u_id user) newId codeHash at)))"

definition verifyLoginOtp :: "otpConfig \<Rightarrow> accounts \<Rightarrow> string \<Rightarrow> string \<Rightarrow> instant \<Rightarrow> (otpError + userRow) \<times> accounts" where
  "verifyLoginOtp cfg s x code at =
     (case findActiveByIdentifier (oc_same cfg) s x of
        None \<Rightarrow> (Inl InvalidOtp, s)
      | Some user \<Rightarrow>
          if countFailuresSince s (u_id user) (at - HOUR_otp) \<ge> oc_maxFailuresPerHour cfg then (Inl TooManyOtpAttempts, s)
          else (case findActiveOtp s (u_id user) of
                  None \<Rightarrow> (Inl InvalidOtp, s)
                | Some otp \<Rightarrow>
                    if isExpired (o_expiresAt otp) at then (Inl OtpExpired, s)
                    else (let (claimed, s1) = claimOtpAttempt s (o_id otp) (oc_maxAttempts cfg)
                          in if \<not> claimed then (Inl TooManyOtpAttempts, s1)
                             else if \<not> oc_verifyOtp cfg code (o_codeHash otp) then (Inl InvalidOtp, s1)
                             else (let (used, s2) = consumeOtp s1 (o_id otp) at
                                   in if \<not> used then (Inl InvalidOtp, s2) else (Inr user, clearLock s2 (u_id user))))))"

section \<open>What holds of the codes\<close>

text \<open>Row ids are unique, and of a person's login codes at most one is unused.\<close>

definition liveCode :: "ident \<Rightarrow> otpRow \<Rightarrow> bool" where
  "liveCode k r \<longleftrightarrow> o_userId r = k \<and> o_purpose r = LOGIN \<and> o_consumedAt r = None"

definition codesOk :: "int \<Rightarrow> accounts \<Rightarrow> bool" where
  "codesOk most s \<longleftrightarrow> distinct (map o_id (otps s)) \<and> (\<forall>k. length (filter (liveCode k) (otps s)) \<le> 1)
     \<and> (\<forall>r \<in> set (otps s). 0 \<le> o_attempts r \<and> o_attempts r \<le> max 0 most)"

text \<open>One write of one row by its id.\<close>

definition putOtp :: "otpRow \<Rightarrow> accounts \<Rightarrow> accounts" where
  "putOtp r s = updateOtps (\<lambda>o'. o_id o' = o_id r) (\<lambda>o'. r) s"

lemma otps_unique: "distinct (map o_id (otps s)) \<Longrightarrow> r \<in> set (otps s) \<Longrightarrow> r' \<in> set (otps s) \<Longrightarrow> o_id r' = o_id r \<Longrightarrow> r' = r"
  by (auto simp: distinct_map inj_on_def)

lemma writeOtp_row:
  assumes d: "distinct (map o_id (otps s))" and r: "r \<in> set (otps s)" and P: "\<And>o'. P o' \<Longrightarrow> o_id o' = o_id r" and f: "o_id (f r) = o_id r"
  shows "writeOtp s P f = (P r, if P r then putOtp (f r) s else s)"
proof -
  have u: "o' = r" if "o' \<in> set (otps s)" "o_id o' = o_id r" for o' using otps_unique[OF d r that] .
  show ?thesis
  proof (cases "P r")
    case True
    have "\<forall>o' \<in> set (filter P (otps s)). o' = r" using u P by simp
    moreover have "r \<in> set (filter P (otps s))" using r True by simp
    ultimately have "set (filter P (otps s)) = {r}" by blast
    moreover have "distinct (filter P (otps s))" using d by (simp add: distinct_map)
    ultimately have n: "length (filter P (otps s)) = 1" using distinct_card[of "filter P (otps s)"] by simp
    have "(if P o' then f o' else o') = (if o_id o' = o_id (f r) then f r else o')" if m: "o' \<in> set (otps s)" for o'
    proof (cases "o_id o' = o_id r")
      case e: True
      then have "o' = r" using u m by blast
      then show ?thesis using True f by simp
    next
      case False
      then have "\<not> P o'" using P by blast
      then show ?thesis using False f by simp
    qed
    then show ?thesis using n True by (simp add: writeOtp_def putOtp_def updateOtps_def)
  next
    case False
    have none: "\<not> P o'" if "o' \<in> set (otps s)" for o'
      using u[OF that] P[of o'] False by blast
    then have "filter P (otps s) = []" by (simp add: filter_empty_conv)
    moreover have "updateOtps P f s = s" using none by (cases s) (simp add: updateOtps_def map_idI)
    ultimately show ?thesis using False by (simp add: writeOtp_def)
  qed
qed

lemma putOtp_put [simp]: "o_id r = o_id r' \<Longrightarrow> putOtp r' (putOtp r s) = putOtp r' s"
  by (auto simp: putOtp_def updateOtps_def)

lemma putOtp_ids [simp]: "map o_id (otps (putOtp r s)) = map o_id (otps s)"
  by (simp add: putOtp_def)

lemma putOtp_users [simp]: "users (putOtp r s) = users s"
  by (simp add: putOtp_def)

lemma putOtp_mem: "r \<in> set (otps s) \<Longrightarrow> o_id r' = o_id r \<Longrightarrow> r' \<in> set (otps (putOtp r' s))"
  by (force simp: putOtp_def)

lemma putOtp_set: "o' \<in> set (otps (putOtp r s)) \<Longrightarrow> o' = r \<or> (o' \<in> set (otps s) \<and> o_id o' \<noteq> o_id r)"
  by (auto simp: putOtp_def split: if_splits)

lemma clearLock_otps [simp]: "otps (clearLock s k) = otps s"
  by (simp add: clearLock_def)

lemma findActiveOtp_live: "findActiveOtp s k = newestOtp s (liveCode k)"
  unfolding findActiveOtp_def by (rule arg_cong[of _ _ "newestOtp s"]) (simp add: liveCode_def fun_eq_iff)
lemma codesOk_distinct: "codesOk most s \<Longrightarrow> distinct (map o_id (otps s))"
  by (simp add: codesOk_def)

text \<open>Every branch of \<open>verifyLoginOtp\<close> once the person and the code are found.\<close>

lemma verify_known:
  assumes d: "distinct (map o_id (otps s))" and u: "findActiveByIdentifier (oc_same cfg) s x = Some u" and r: "findActiveOtp s (u_id u) = Some r"
  shows "verifyLoginOtp cfg s x code at =
    (if countFailuresSince s (u_id u) (at - HOUR_otp) \<ge> oc_maxFailuresPerHour cfg then (Inl TooManyOtpAttempts, s)
     else if o_expiresAt r \<le> at then (Inl OtpExpired, s)
     else if oc_maxAttempts cfg \<le> o_attempts r then (Inl TooManyOtpAttempts, s)
     else if \<not> oc_verifyOtp cfg code (o_codeHash r) then (Inl InvalidOtp, putOtp (r\<lparr>o_attempts := o_attempts r + 1\<rparr>) s)
     else (Inr u, clearLock (putOtp (r\<lparr>o_consumedAt := Some at\<rparr>) s) (u_id u)))"
proof -
  have m: "r \<in> set (otps s)" "o_consumedAt r = None"
    using newestOtp_mem r by (auto simp: findActiveOtp_def)
  let ?r = "r\<lparr>o_attempts := o_attempts r + 1\<rparr>"
  have c: "claimOtpAttempt s (o_id r) (oc_maxAttempts cfg) = (o_attempts r < oc_maxAttempts cfg, if o_attempts r < oc_maxAttempts cfg then putOtp ?r s else s)"
    unfolding claimOtpAttempt_def by (subst writeOtp_row[OF d m(1)]) (simp_all add: m(2))
  have "?r \<in> set (otps (putOtp ?r s))" by (rule putOtp_mem[OF m(1)]) simp
  moreover have "distinct (map o_id (otps (putOtp ?r s)))" using d by simp
  ultimately have w: "consumeOtp (putOtp ?r s) (o_id r) at = (True, putOtp (r\<lparr>o_consumedAt := Some at\<rparr>) s)"
    unfolding consumeOtp_def by (subst writeOtp_row[where r = ?r]) (simp_all add: m(2))
  show ?thesis
    unfolding verifyLoginOtp_def u r option.case isExpired_def c Let_def prod.case
    by (simp add: w not_less)
qed

lemma verify_no_code:
  "findActiveByIdentifier (oc_same cfg) s x = None \<or> findActiveByIdentifier (oc_same cfg) s x = Some u \<and> findActiveOtp s (u_id u) = None
   \<Longrightarrow> fst (verifyLoginOtp cfg s x code at) \<in> {Inl InvalidOtp, Inl TooManyOtpAttempts} \<and> snd (verifyLoginOtp cfg s x code at) = s"
  by (auto simp: verifyLoginOtp_def)

subsection \<open>The rows after a write\<close>

lemma codesOk_putOtp:
  assumes ok: "codesOk most s" and r: "r \<in> set (otps s)"
    and r': "o_id r' = o_id r" "o_userId r' = o_userId r" "o_purpose r' = o_purpose r"
    and used: "o_consumedAt r' = None \<Longrightarrow> o_consumedAt r = None" and a: "0 \<le> o_attempts r'" "o_attempts r' \<le> max 0 most"
  shows "codesOk most (putOtp r' s)"
proof -
  have d: "distinct (map o_id (otps s))" using ok by (rule codesOk_distinct)
  have "length (filter (liveCode k) (otps (putOtp r' s))) \<le> length (filter (liveCode k) (otps s))" for k
  proof -
    have "map (\<lambda>o'. if o_id o' = o_id r' then r' else o') (otps s) = map (\<lambda>o'. if o' = r then r' else o') (otps s)"
      using otps_unique[OF d r] r'(1) by (intro map_cong) auto
    moreover have "length (filter (liveCode k) (map (\<lambda>o'. if o' = r then r' else o') l)) \<le> length (filter (liveCode k) l)" for l
      using r' used by (induction l) (auto simp: liveCode_def)
    ultimately show ?thesis unfolding putOtp_def otps_updateOtps by metis
  qed
  then have "length (filter (liveCode k) (otps (putOtp r' s))) \<le> 1" for k using ok le_trans unfolding codesOk_def by blast
  moreover have "\<forall>o' \<in> set (otps (putOtp r' s)). 0 \<le> o_attempts o' \<and> o_attempts o' \<le> max 0 most"
    using ok a by (auto dest!: putOtp_set simp: codesOk_def)
  ultimately show ?thesis using d by (simp add: codesOk_def)
qed

lemma codesOk_otps: "otps s' = otps s \<Longrightarrow> codesOk most s' = codesOk most s"
  by (simp add: codesOk_def)

lemma verify_codesOk:
  assumes ok: "codesOk (oc_maxAttempts cfg) s"
  shows "codesOk (oc_maxAttempts cfg) (snd (verifyLoginOtp cfg s x code at))"
proof (cases "findActiveByIdentifier (oc_same cfg) s x")
  case None
  then show ?thesis using ok verify_no_code[of cfg s x] by simp
next
  case (Some u)
  show ?thesis
  proof (cases "findActiveOtp s (u_id u)")
    case None
    then show ?thesis using ok Some verify_no_code[of cfg s x u] by simp
  next
    case r: (Some r)
    have m: "r \<in> set (otps s)" "o_consumedAt r = None" using newestOtp_mem r by (auto simp: findActiveOtp_def)
    have a: "0 \<le> o_attempts r" "o_attempts r \<le> max 0 (oc_maxAttempts cfg)" using ok m(1) by (auto simp: codesOk_def)
    have p1: "codesOk (oc_maxAttempts cfg) (putOtp (r\<lparr>o_attempts := o_attempts r + 1\<rparr>) s)" if "o_attempts r < oc_maxAttempts cfg"
      using that a by (intro codesOk_putOtp[OF ok m(1)]) auto
    have p2: "codesOk (oc_maxAttempts cfg) (putOtp (r\<lparr>o_consumedAt := Some at\<rparr>) s)"
      using a by (intro codesOk_putOtp[OF ok m(1)]) auto
    show ?thesis
      unfolding verify_known[OF codesOk_distinct[OF ok] Some r]
      using ok p1 p2 by (auto simp: codesOk_otps[OF clearLock_otps] not_le)
  qed
qed

lemma liveCode_unique:
  assumes ok: "codesOk most s" and r: "r \<in> set (otps s)" "liveCode k r" and o': "o' \<in> set (otps s)" "liveCode k o'"
  shows "o' = r"
proof -
  have "length (filter (liveCode k) (otps s)) \<le> 1" using ok by (simp add: codesOk_def)
  moreover have "r \<in> set (filter (liveCode k) (otps s))" "o' \<in> set (filter (liveCode k) (otps s))" using r o' by auto
  ultimately show ?thesis by (cases "filter (liveCode k) (otps s)") (auto simp: le_Suc_eq)
qed

lemma used_code_gone:
  assumes ok: "codesOk most s" and r: "findActiveOtp s k = Some r" and r': "o_id r' = o_id r" "o_consumedAt r' \<noteq> None"
  shows "findActiveOtp (clearLock (putOtp r' s) k') k = None"
proof -
  have m: "r \<in> set (otps s)" "liveCode k r" using newestOtp_mem r by (auto simp: findActiveOtp_live)
  have "\<not> liveCode k o'" if "o' \<in> set (otps (putOtp r' s))" for o'
    using putOtp_set[OF that]
  proof
    assume "o' \<in> set (otps s) \<and> o_id o' \<noteq> o_id r'"
    then show ?thesis using liveCode_unique[OF ok m, of o'] r'(1) by metis
  qed (use r'(2) in \<open>simp add: liveCode_def\<close>)
  then show ?thesis by (simp add: findActiveOtp_live newestOtp_None)
qed
section \<open>Runs of requests and sign-ins\<close>

text \<open>
  A step is a request for a code (\<open>newId\<close> a row id not used before) or a sign-in with one. The clock never
  runs backwards; \<open>codeRun cfg s at\<close>: \<open>s\<close> is reached from an empty table, the last step at \<open>at\<close>.
\<close>

inductive codeRun :: "otpConfig \<Rightarrow> otpState \<Rightarrow> instant \<Rightarrow> bool" for cfg :: otpConfig where
  start: "codeRun cfg \<lparr>accountsOf = \<lparr>users = us, otps = []\<rparr>, issuing = [], asked = []\<rparr> at"
| request: "\<lbrakk>codeRun cfg st at; at \<le> at'; newId \<notin> o_id ` set (otps (accountsOf st))\<rbrakk>
    \<Longrightarrow> codeRun cfg (snd (requestLoginOtp cfg st x newId h at')) at'"
| verify: "\<lbrakk>codeRun cfg st at; at \<le> at'\<rbrakk>
    \<Longrightarrow> codeRun cfg (st\<lparr>accountsOf := snd (verifyLoginOtp cfg (accountsOf st) x code at')\<rparr>) at'"

definition issuedBetween :: "accounts \<Rightarrow> ident \<Rightarrow> instant \<Rightarrow> instant \<Rightarrow> nat" where
  "issuedBetween s k from until =
     length (filter (\<lambda>r. o_userId r = k \<and> o_purpose r = LOGIN \<and> from \<le> o_createdAt r \<and> o_createdAt r \<le> until) (otps s))"

definition issueLimits :: "otpConfig \<Rightarrow> accounts \<Rightarrow> instant \<Rightarrow> bool" where
  "issueLimits cfg s at \<longleftrightarrow> (\<forall>r \<in> set (otps s). o_createdAt r \<le> at)
     \<and> (\<forall>k t. int (issuedBetween s k (t - HOUR_otp) t) \<le> max 0 (oc_perHour cfg) \<and> int (issuedBetween s k (t - MINUTE_otp) t) \<le> max 0 (oc_perMinute cfg))"

text \<open>The limits only read what a write of a row keeps.\<close>

definition stamp :: "otpRow \<Rightarrow> ident \<times> otpPurpose \<times> instant" where
  "stamp r = (o_userId r, o_purpose r, o_createdAt r)"

lemma issuedBetween_stamps:
  "issuedBetween s k from until = length (filter (\<lambda>(u, p, c). u = k \<and> p = LOGIN \<and> from \<le> c \<and> c \<le> until) (map stamp (otps s)))"
  by (simp add: issuedBetween_def filter_map comp_def stamp_def)

lemma issueLimits_stamps:
  assumes "map stamp (otps s') = map stamp (otps s)"
  shows "issueLimits cfg s' at = issueLimits cfg s at"
proof -
  have *: "(\<forall>r \<in> set (otps s). o_createdAt r \<le> at) \<longleftrightarrow> (\<forall>e \<in> set (map stamp (otps s)). snd (snd e) \<le> at)" for s
    by (simp add: stamp_def)
  show ?thesis unfolding issueLimits_def * issuedBetween_stamps assms ..
qed

lemma stamps_updateOtps: "(\<And>r. stamp (f r) = stamp r) \<Longrightarrow> map stamp (otps (updateOtps P f s)) = map stamp (otps s)"
  by simp

lemma writeOtp_snd: "snd (writeOtp s P f) = updateOtps P f s"
  by (simp add: writeOtp_def)

lemma verify_stamps: "map stamp (otps (snd (verifyLoginOtp cfg s x code at))) = map stamp (otps s)"
  by (simp add: verifyLoginOtp_def claimOtpAttempt_def consumeOtp_def writeOtp_def Let_def stamp_def comp_def
      split: option.splits)

lemma issueLimits_later: "issueLimits cfg s at \<Longrightarrow> at \<le> at' \<Longrightarrow> issueLimits cfg s at'"
  by (force simp: issueLimits_def)

lemma issueOtp_otps:
  "otps (createLoginOtp s newId k h e at) = otps (updateOtps (liveCode k) (usedAt at) s) @ [\<lparr>o_id = newId, o_userId = k, o_purpose = LOGIN,
     o_codeHash = h, o_expiresAt = e, o_attempts = 0, o_consumedAt = None, o_createdAt = at\<rparr>]"
  by (simp add: createLoginOtp_def issueOtp_def Let_def liveCode_def updateOtps_def)

text \<open>Ending a person's unused codes leaves them none.\<close>

definition endCodes :: "ident \<Rightarrow> instant \<Rightarrow> otpRow \<Rightarrow> otpRow" where
  "endCodes k at r = (if liveCode k r then usedAt at r else r)"

lemma endCodes_simps [simp]:
  "o_id (endCodes k at r) = o_id r" "o_attempts (endCodes k at r) = o_attempts r"
  "liveCode k' (endCodes k at r) \<longleftrightarrow> liveCode k' r \<and> \<not> liveCode k r"
  by (simp_all add: endCodes_def usedAt_def liveCode_def)

lemma length_filter_and: "length (filter (\<lambda>x. P x \<and> Q x) l) \<le> length (filter P l)"
  by (induction l) auto

lemma createLoginOtp_codesOk:
  assumes ok: "codesOk most s" and new: "newId \<notin> o_id ` set (otps s)"
  shows "codesOk most (createLoginOtp s newId k h e at)"
proof -
  let ?n = "\<lparr>o_id = newId, o_userId = k, o_purpose = LOGIN, o_codeHash = h, o_expiresAt = e, o_attempts = 0, o_consumedAt = None, o_createdAt = at\<rparr>"
  have rows: "otps (createLoginOtp s newId k h e at) = map (endCodes k at) (otps s) @ [?n]"
    by (simp add: issueOtp_otps endCodes_def)
  have live: "liveCode k' ?n \<longleftrightarrow> k' = k" for k' by (auto simp: liveCode_def)
  have old: "length (filter (liveCode k') (map (endCodes k at) (otps s))) \<le> 1" for k'
  proof -
    have "length (filter (liveCode k') (otps s)) \<le> 1" using ok by (simp add: codesOk_def)
    then show ?thesis using le_trans[OF length_filter_and] by (simp add: filter_map comp_def)
  qed
  have none: "filter (liveCode k) (map (endCodes k at) (otps s)) = []"
    by (simp add: filter_map comp_def)
  have "length (filter (liveCode k') (otps (createLoginOtp s newId k h e at))) \<le> 1" for k'
    using old[of k'] none unfolding rows filter_append length_append by (cases "k' = k") (simp_all add: live del: filter_map)
  moreover have "distinct (map o_id (otps (createLoginOtp s newId k h e at)))"
    using codesOk_distinct[OF ok] new unfolding rows by (simp add: comp_def)
  moreover have "\<forall>r \<in> set (otps (createLoginOtp s newId k h e at)). 0 \<le> o_attempts r \<and> o_attempts r \<le> max 0 most"
    using ok unfolding rows by (simp add: codesOk_def)
  ultimately show ?thesis unfolding codesOk_def by blast
qed

lemma createLoginOtp_limits:
  assumes ok: "issueLimits cfg s at" and le: "at \<le> at'"
    and few: "int (countIssuedSince LOGIN s k (at' - MINUTE_otp)) < oc_perMinute cfg" "int (countIssuedSince LOGIN s k (at' - HOUR_otp)) < oc_perHour cfg"
  shows "issueLimits cfg (createLoginOtp s newId k h e at') at'"
proof -
  let ?s = "updateOtps (liveCode k) (usedAt at') s"
  let ?n = "\<lparr>o_id = newId, o_userId = k, o_purpose = LOGIN, o_codeHash = h, o_expiresAt = e, o_attempts = 0, o_consumedAt = None, o_createdAt = at'\<rparr>"
  have same: "issuedBetween ?s k' f t = issuedBetween s k' f t" for k' f t
    unfolding issuedBetween_stamps by (subst stamps_updateOtps) (simp_all add: stamp_def usedAt_def)
  have rows: "otps (createLoginOtp s newId k h e at') = otps ?s @ [?n]" by (rule issueOtp_otps)
  have one: "issuedBetween (createLoginOtp s newId k h e at') k' f t
      = issuedBetween s k' f t + (if k' = k \<and> f \<le> at' \<and> at' \<le> t then 1 else 0)" for k' f t
    unfolding same[symmetric] unfolding issuedBetween_def rows by simp
  have since: "issuedBetween s k f t \<le> countIssuedSince LOGIN s k g" if "g \<le> f" for f g t
  proof -
    have "length (filter (\<lambda>r. o_userId r = k \<and> o_purpose r = LOGIN \<and> f \<le> o_createdAt r \<and> o_createdAt r \<le> t) l)
      \<le> length (filter (\<lambda>r. o_userId r = k \<and> o_purpose r = LOGIN \<and> g \<le> o_createdAt r) l)" for l
      using that by (induction l) auto
    then show ?thesis by (simp add: issuedBetween_def countIssuedSince_def)
  qed
  have bound: "int (issuedBetween (createLoginOtp s newId k h e at') k' (t - w) t) \<le> max 0 most"
    if old: "int (issuedBetween s k' (t - w) t) \<le> max 0 most" and n: "int (countIssuedSince LOGIN s k (at' - w)) < most" for k' t w most
    using old n since[of "at' - w" "t - w" t] by (auto simp: one)
  have old: "int (issuedBetween s k' (t - HOUR_otp) t) \<le> max 0 (oc_perHour cfg)" "int (issuedBetween s k' (t - MINUTE_otp) t) \<le> max 0 (oc_perMinute cfg)" for k' t
    using ok by (auto simp: issueLimits_def)
  have "\<forall>r \<in> set (otps (createLoginOtp s newId k h e at')). o_createdAt r \<le> at'"
    using ok le unfolding rows by (force simp: issueLimits_def usedAt_def)
  then show ?thesis using bound[OF old(1) few(2)] bound[OF old(2) few(1)] by (simp add: issueLimits_def)
qed

lemma request_accounts:
  "accountsOf (snd (requestLoginOtp cfg st x newId h at)) = accountsOf st
   \<or> (\<exists>k. accountsOf (snd (requestLoginOtp cfg st x newId h at)) = issueNow cfg (accountsOf st) k newId h at)"
  by (auto simp: requestLoginOtp_def issueLoginCode_def Let_def split: prod.splits option.splits)

definition codesInvariant :: "otpConfig \<Rightarrow> accounts \<Rightarrow> instant \<Rightarrow> bool" where
  "codesInvariant cfg s at \<longleftrightarrow> codesOk (oc_maxAttempts cfg) s \<and> issueLimits cfg s at"

lemma issueNow_invariant:
  assumes "codesInvariant cfg s at" "at \<le> at'" "newId \<notin> o_id ` set (otps s)"
  shows "codesInvariant cfg (issueNow cfg s k newId h at') at'"
  using assms issueLimits_later[of cfg s at at']
  by (simp add: codesInvariant_def issueNow_def Let_def createLoginOtp_codesOk createLoginOtp_limits not_le)

lemma codeRun_invariant: "codeRun cfg st at \<Longrightarrow> codesInvariant cfg (accountsOf st) at"
proof (induction rule: codeRun.induct)
  case (start us at)
  then show ?case by (simp add: codesInvariant_def codesOk_def issueLimits_def issuedBetween_def)
next
  case (request st at at' newId x h)
  then show ?case
    using request_accounts[of cfg st x newId h at'] issueNow_invariant[OF request.IH request.hyps(2,3)]
      issueLimits_later[OF _ request.hyps(2)] by (auto simp: codesInvariant_def)
next
  case (verify st at at' x code)
  then show ?case
    using verify_codesOk issueLimits_stamps[OF verify_stamps] issueLimits_later[OF _ verify.hyps(2)]
    by (simp add: codesInvariant_def)
qed
lemma findActive_clearLock:
  "findActiveByIdentifier same (clearLock s k) x
   = map_option (\<lambda>u. if u_id u = k then u\<lparr>u_failedAttempts := 0, u_lockedUntil := None\<rparr> else u) (findActiveByIdentifier same s x)"
  unfolding findActiveByIdentifier_def findUser_def clearLock_def users_updateUsers
  by (rule find_map_keeps) (simp add: mayEnter_def)

section \<open>Properties\<close>

text \<open>
  C13. An emailed code signs in once. When a code is accepted, it is the person's one unused login code,
  within its lifetime and its allowance of guesses, and the account may be entered; the code is used up
  afterwards, so any sign-in of that person with a code fails until a new one is issued; and the accepted
  guess does not count among the failures of the hour.
\<close>

theorem login_code_once:
  assumes "codesOk (oc_maxAttempts cfg) s" "verifyLoginOtp cfg s x code at = (Inr u, s')"
  shows "\<exists>r. findActiveOtp s (u_id u) = Some r \<and> at < o_expiresAt r \<and> o_attempts r < oc_maxAttempts cfg
      \<and> oc_verifyOtp cfg code (o_codeHash r) \<and> mayEnter u \<and> countFailuresSince s (u_id u) (at - HOUR_otp) < oc_maxFailuresPerHour cfg
      \<and> s' = clearLock (putOtp (r\<lparr>o_consumedAt := Some at\<rparr>) s) (u_id u)
      \<and> findActiveOtp s' (u_id u) = None \<and> codesOk (oc_maxAttempts cfg) s'
      \<and> (\<forall>code' at'. fst (verifyLoginOtp cfg s' x code' at') \<in> {Inl InvalidOtp, Inl TooManyOtpAttempts})"
proof -
  have u: "findActiveByIdentifier (oc_same cfg) s x = Some u"
    using assms(2) by (auto simp: verifyLoginOtp_def Let_def split: option.splits if_splits prod.splits)
  have "findActiveOtp s (u_id u) \<noteq> None" using assms(2) verify_no_code[of cfg s x u code at] u by auto
  then obtain r where r: "findActiveOtp s (u_id u) = Some r" by auto
  note v = assms(2)[unfolded verify_known[OF codesOk_distinct[OF assms(1)] u r]]
  have s': "s' = clearLock (putOtp (r\<lparr>o_consumedAt := Some at\<rparr>) s) (u_id u)"
    and c: "countFailuresSince s (u_id u) (at - HOUR_otp) < oc_maxFailuresPerHour cfg" "at < o_expiresAt r"
      "o_attempts r < oc_maxAttempts cfg" "oc_verifyOtp cfg code (o_codeHash r)"
    using v by (auto split: if_splits)
  have gone: "findActiveOtp s' (u_id u) = None"
    unfolding s' by (rule used_code_gone[OF assms(1) r]) simp_all
  have "mayEnter u" using u find_mem[of _ "users s" u] by (auto simp: findActiveByIdentifier_def findUser_def)
  moreover have "codesOk (oc_maxAttempts cfg) s'" using verify_codesOk[OF assms(1), of x code at] assms(2) by simp
  moreover have "fst (verifyLoginOtp cfg s' x code' at') \<in> {Inl InvalidOtp, Inl TooManyOtpAttempts}" for code' at'
    using verify_no_code[of cfg s' x _ code' at'] findActive_clearLock[of "oc_same cfg" "putOtp _ s"] u gone
    by (simp add: s' findActiveByIdentifier_def findUser_def)
  ultimately show ?thesis using r c gone s' by blast
qed

definition sampleOtp :: otpConfig where
  "sampleOtp = \<lparr>oc_same = (=), oc_verifyOtp = (\<lambda>c h. c = h), oc_mailConfigured = True, oc_ttlSeconds = 600, oc_maxAttempts = 5,
     oc_perMinute = 1, oc_perHour = 5, oc_maxFailuresPerHour = 10\<rparr>"

definition sampleCodes :: otpState where
  "sampleCodes = snd (requestLoginOtp sampleOtp \<lparr>accountsOf = sampleAccounts, issuing = [], asked = []\<rparr> ''ann'' ''o1'' ''123456'' 0)"

lemma sampleCodes_run: "codeRun sampleOtp sampleCodes 0"
  unfolding sampleCodes_def sampleAccounts_def by (rule codeRun.request[OF codeRun.start[of _ _ 0]]) simp_all

theorem login_code_once_witness:
  "findActiveOtp (snd (verifyLoginOtp sampleOtp (accountsOf sampleCodes) ''ann'' ''123456'' 1000)) ''u'' = None"
proof -
  have ok: "codesOk (oc_maxAttempts sampleOtp) (accountsOf sampleCodes)"
    using codeRun_invariant[OF sampleCodes_run] by (simp add: codesInvariant_def)
  have "fst (verifyLoginOtp sampleOtp (accountsOf sampleCodes) ''ann'' ''123456'' 1000) = Inr (sampleUser ''u'' ''ann'')" by code_simp
  then obtain s' where s': "verifyLoginOtp sampleOtp (accountsOf sampleCodes) ''ann'' ''123456'' 1000 = (Inr (sampleUser ''u'' ''ann''), s')"
    by (metis prod.collapse)
  then show ?thesis using login_code_once[OF ok s'] by (simp add: sampleUser_def) blast
qed

text \<open>
  C12. Over any run of requests and sign-ins, whatever is typed and whoever asks: row ids stay unique,
  nobody has two unused login codes, no code collects more wrong guesses than it allows, and in every
  minute and every hour an account is issued at most the codes allowed for it.
\<close>

theorem login_code_limits:
  assumes "codeRun cfg st at"
  shows "distinct (map o_id (otps (accountsOf st)))
    \<and> length (filter (liveCode k) (otps (accountsOf st))) \<le> 1
    \<and> list_all (\<lambda>r. o_attempts r \<le> max 0 (oc_maxAttempts cfg)) (otps (accountsOf st))
    \<and> int (issuedBetween (accountsOf st) k (t - MINUTE_otp) t) \<le> max 0 (oc_perMinute cfg)
    \<and> int (issuedBetween (accountsOf st) k (t - HOUR_otp) t) \<le> max 0 (oc_perHour cfg)"
  using codeRun_invariant[OF assms] by (simp add: codesInvariant_def codesOk_def issueLimits_def list_all_iff)

theorem login_code_limits_witness:
  "length (filter (liveCode ''u'') (otps (accountsOf sampleCodes))) = 1 \<and> issuedBetween (accountsOf sampleCodes) ''u'' (-1000) 59000 = 1"
proof -
  have "length (filter (liveCode ''u'') (otps (accountsOf sampleCodes))) \<le> 1"
    "int (issuedBetween (accountsOf sampleCodes) ''u'' (59000 - MINUTE_otp) 59000) \<le> 1"
    using login_code_limits[OF sampleCodes_run, of "''u''" 59000] by (simp_all add: sampleOtp_def)
  moreover have "filter (liveCode ''u'') (otps (accountsOf sampleCodes)) \<noteq> []" "issuedBetween (accountsOf sampleCodes) ''u'' (-1000) 59000 \<ge> 1"
    by code_simp+
  ultimately show ?thesis by (simp add: MINUTE_otp_def le_Suc_eq)
qed

end
