(* ===== verification/PasswordReset.thy ===== *)
theory PasswordReset
  imports LoginCodes
begin

text \<open>
  Forgotten passwords: \<open>modules/auth/password-reset-service.ts\<close>, \<open>lib/password-policy.ts\<close> on the Prisma
  repositories of \<open>Accounts\<close>. SHA-256 of a link's token, the bcrypt hash of a password, what happens when a
  link is used (\<open>onLinkUsed\<close>), the company's name and whether an email goes are parameters; the emails
  themselves are not modelled. What else a reset asks for is the list of calls made, in order.
\<close>

section \<open>Password rules\<close>

definition isLetter :: "char \<Rightarrow> bool" where
  "isLetter c \<longleftrightarrow> (let n = (of_char c :: nat) in (65 \<le> n \<and> n \<le> 90) \<or> (97 \<le> n \<and> n \<le> 122))"

definition isStrongPassword :: "string \<Rightarrow> bool" where
  "isStrongPassword p \<longleftrightarrow> length p \<ge> 8 \<and> list_ex isLetter p \<and> list_ex isDigit p"

section \<open>The service\<close>

datatype resetError = ResetEmailUnavailable | InvalidResetToken | WeakPassword

datatype resetCall = RevokeSessions ident | ForgetDevices ident | SessionsRevoked ident

record resetDeps =
  rd_same :: "string \<Rightarrow> string \<Rightarrow> bool"
  rd_hashToken :: "string \<Rightarrow> string"
  rd_hashPassword :: "string \<Rightarrow> string"
  rd_onLinkUsed :: "accounts \<Rightarrow> ident \<Rightarrow> otpPurpose \<Rightarrow> accounts"
  rd_companyName :: "ident \<Rightarrow> string option"
  rd_mailConfigured :: bool
  rd_ttlSeconds :: int
  rd_perMinute :: int
  rd_perHour :: int

definition ADMIN_RESET_TTL_SECONDS :: int where
  "ADMIN_RESET_TTL_SECONDS = 3600"

text \<open>\<open>busy\<close>: the accounts a link is being made for right now; \<open>newId\<close>, \<open>token\<close>: the row's id and the random token.\<close>

definition issueReset :: "resetDeps \<Rightarrow> accounts \<Rightarrow> ident list \<Rightarrow> ident \<Rightarrow> ident \<Rightarrow> string \<Rightarrow> instant \<Rightarrow> accounts" where
  "issueReset D s busy userId newId token at =
     (if userId \<in> set busy then s
      else (let lastMinute = int (countIssuedSince PASSWORD_RESET s userId (at - MINUTE_otp));
                lastHour = int (countIssuedSince PASSWORD_RESET s userId (at - HOUR_otp))
            in if lastMinute \<ge> rd_perMinute D \<or> lastHour \<ge> rd_perHour D then s
               else createResetLink s newId userId (rd_hashToken D token) (at + rd_ttlSeconds D * 1000) at))"

definition requestReset :: "resetDeps \<Rightarrow> accounts \<Rightarrow> ident list \<Rightarrow> string \<Rightarrow> ident \<Rightarrow> string \<Rightarrow> instant \<Rightarrow> (resetError + unit) \<times> accounts" where
  "requestReset D s busy x newId token at =
     (if \<not> rd_mailConfigured D then (Inl ResetEmailUnavailable, s)
      else (Inr (), case findActiveByIdentifier (rd_same D) s x of
                      None \<Rightarrow> s
                    | Some user \<Rightarrow> issueReset D s busy (u_id user) newId token at))"

definition resetPassword :: "resetDeps \<Rightarrow> accounts \<Rightarrow> string \<Rightarrow> string \<Rightarrow> instant \<Rightarrow> (resetError + unit) \<times> accounts \<times> resetCall list" where
  "resetPassword D s token newPassword at =
     (if \<not> isStrongPassword newPassword then (Inl WeakPassword, s, [])
      else (case findActiveByHash s (rd_hashToken D token) of
              None \<Rightarrow> (Inl InvalidResetToken, s, [])
            | Some r \<Rightarrow>
                if isExpired (o_expiresAt r) at then (Inl InvalidResetToken, s, [])
                else if \<not> isActive s (o_userId r) then (Inl InvalidResetToken, s, [])
                else (let (claimed, s1) = consumeLink s (o_id r) at
                      in if \<not> claimed then (Inl InvalidResetToken, s1, [])
                         else (let s2 = setPasswordAndUnlock s1 (o_userId r) (rd_hashPassword D newPassword);
                                   s3 = rd_onLinkUsed D s2 (o_userId r) (o_purpose r);
                                   s4 = consumeAllLinks s3 (o_userId r) at
                               in (Inr (), s4, [RevokeSessions (o_userId r), ForgetDevices (o_userId r), SessionsRevoked (o_userId r)])))))"

subsection \<open>What a link is\<close>

datatype linkKind = WelcomeLink | ResetLink
datatype linkState = LiveLink | ExpiredLink | UsedLink | UnknownLink

record linkStatusView =
  lk_kind :: "linkKind option"
  lk_state :: linkState
  lk_company :: "string option"

definition linkStatus :: "resetDeps \<Rightarrow> accounts \<Rightarrow> string \<Rightarrow> instant \<Rightarrow> linkStatusView" where
  "linkStatus D s token at =
     (case findAnyByHash s (rd_hashToken D token) of
        None \<Rightarrow> \<lparr>lk_kind = None, lk_state = UnknownLink, lk_company = None\<rparr>
      | Some r \<Rightarrow>
          (let kind = (if o_purpose r = WELCOME then WelcomeLink else ResetLink);
               company = rd_companyName D (o_userId r);
               active = isActive s (o_userId r)
           in if active \<and> o_consumedAt r = None \<and> \<not> isExpired (o_expiresAt r) at
              then \<lparr>lk_kind = Some kind, lk_state = LiveLink, lk_company = company\<rparr>
              else (let used = kind = WelcomeLink \<and> o_consumedAt r \<noteq> None \<and> active \<and> isActivated s (o_userId r)
                    in \<lparr>lk_kind = Some kind, lk_state = (if used then UsedLink else ExpiredLink), lk_company = company\<rparr>)))"

subsection \<open>An administrator's reset\<close>

datatype adminResetRefusal =
    NOT_FOUND | ACCOUNT_INACTIVE | ACCOUNT_SUSPENDED | NO_EMAIL | INVITATION_CANCELLED | TEMPORARY_PASSWORD | TOO_SOON | DELIVERY_FAILED

record adminResetOutcome =
  ar_userId :: ident
  ar_email :: "string option"
  ar_sentAt :: "instant option"  \<comment> \<open>None: not sent\<close>
  ar_reason :: "adminResetRefusal option"

definition refuse :: "ident \<Rightarrow> adminResetRefusal \<Rightarrow> string option \<Rightarrow> adminResetOutcome" where
  "refuse k why email = \<lparr>ar_userId = k, ar_email = email, ar_sentAt = None, ar_reason = Some why\<rparr>"

definition sendForAdministrator ::
  "resetDeps \<Rightarrow> accounts \<Rightarrow> ident list \<Rightarrow> ident \<Rightarrow> ident \<Rightarrow> string \<Rightarrow> bool \<Rightarrow> instant \<Rightarrow> adminResetOutcome \<times> accounts" where
  "sendForAdministrator D s busy userId newId token delivered at =
     (case findById s userId of
        None \<Rightarrow> (refuse userId NOT_FOUND None, s)
      | Some user \<Rightarrow>
          if u_status user = INACTIVE then (refuse userId ACCOUNT_INACTIVE (Some (u_email user)), s)
          else if u_status user = SUSPENDED then (refuse userId ACCOUNT_SUSPENDED (Some (u_email user)), s)
          else if u_cancelledAt user \<noteq> None then (refuse userId INVITATION_CANCELLED (Some (u_email user)), s)
          else if u_mustChange user then (refuse userId TEMPORARY_PASSWORD (Some (u_email user)), s)
          else (let email = trim (u_email user)
                in if email = [] \<or> CHR ''@'' \<notin> set email then (refuse userId NO_EMAIL (Some (u_email user)), s)
                   else if userId \<in> set busy then (refuse userId TOO_SOON (Some email), s)
                   else if countIssuedSince PASSWORD_RESET s userId (at - MINUTE_otp) > 0 then (refuse userId TOO_SOON (Some email), s)
                   else (let s1 = createResetLink s newId userId (rd_hashToken D token) (at + ADMIN_RESET_TTL_SECONDS * 1000) at
                         in if \<not> delivered then (refuse userId DELIVERY_FAILED (Some email), consumeAllLinks s1 userId at)
                            else (\<lparr>ar_userId = userId, ar_email = Some email, ar_sentAt = Some at, ar_reason = None\<rparr>, s1))))"

section \<open>Links that work\<close>

definition liveLink :: "ident \<Rightarrow> otpRow \<Rightarrow> bool" where
  "liveLink k r \<longleftrightarrow> o_userId r = k \<and> isLink r \<and> o_consumedAt r = None"

lemma usedAt_fields [simp]:
  "o_id (usedAt at r) = o_id r" "o_userId (usedAt at r) = o_userId r" "o_purpose (usedAt at r) = o_purpose r"
  "o_codeHash (usedAt at r) = o_codeHash r" "o_consumedAt (usedAt at r) = Some at" "isLink (usedAt at r) = isLink r"
  by (simp_all add: usedAt_def isLink_def)

lemma consumeAllLinks_none:
  assumes "r \<in> set (otps (consumeAllLinks s k at))"
  shows "\<not> liveLink k r"
proof -
  have "consumeAllLinks s k at = updateOtps (liveLink k) (usedAt at) s"
    unfolding consumeAllLinks_def by (rule arg_cong[of _ _ "\<lambda>P. updateOtps P (usedAt at) s"]) (simp add: liveLink_def fun_eq_iff)
  then have "r \<in> (\<lambda>o'. if liveLink k o' then usedAt at o' else o') ` set (otps s)" using assms by simp
  then obtain o' where "r = (if liveLink k o' then usedAt at o' else o')" by (rule imageE)
  then show ?thesis by (cases "liveLink k o'") (simp_all add: liveLink_def)
qed

lemma users_consumeAllLinks [simp]: "users (consumeAllLinks s k at) = users s"
  by (simp add: consumeAllLinks_def)

text \<open>A link's hash is used by one row (tokens are 256 random bits).\<close>

definition oneLinkPerHash :: "accounts \<Rightarrow> bool" where
  "oneLinkPerHash s \<longleftrightarrow> distinct (map o_id (otps s)) \<and> distinct (map o_codeHash (filter isLink (otps s)))"

lemma oneLink_row:
  assumes "oneLinkPerHash s" "r \<in> set (otps s)" "isLink r" "r' \<in> set (otps s)" "isLink r'" "o_codeHash r' = o_codeHash r"
  shows "r' = r"
proof -
  have "inj_on o_codeHash (set (filter isLink (otps s)))" using assms(1) by (simp add: oneLinkPerHash_def distinct_map)
  then show ?thesis using assms(2-6) by (simp add: inj_on_def)
qed

lemma find_any_active:
  assumes "oneLinkPerHash s"
  shows "findActiveByHash s h = (case findAnyByHash s h of Some r \<Rightarrow> if o_consumedAt r = None then Some r else None | None \<Rightarrow> None)"
proof (cases "findAnyByHash s h")
  case None
  then have "\<forall>r \<in> set (otps s). \<not> (o_codeHash r = h \<and> isLink r)" unfolding findAnyByHash_def newestOtp_None .
  then have "findActiveByHash s h = None" unfolding findActiveByHash_def newestOtp_None by blast
  then show ?thesis using None by simp
next
  case (Some r)
  then have r: "r \<in> set (otps s)" "isLink r" "o_codeHash r = h"
    using newestOtp_mem[OF Some[unfolded findAnyByHash_def]] by simp_all
  have one: "r' = r" if "r' \<in> set (otps s)" "o_codeHash r' = h \<and> isLink r'" for r'
    using oneLink_row[OF assms r(1,2) that(1)] that(2) r(3) by simp
  show ?thesis
  proof (cases "findActiveByHash s h")
    case None
    then have "\<forall>r \<in> set (otps s). \<not> (o_codeHash r = h \<and> isLink r \<and> o_consumedAt r = None)"
      unfolding findActiveByHash_def newestOtp_None .
    then have "o_consumedAt r \<noteq> None" using r by auto
    then show ?thesis using None Some by simp
  next
    case f: (Some r')
    have r': "r' \<in> set (otps s)" "o_codeHash r' = h \<and> isLink r'" "o_consumedAt r' = None"
      using newestOtp_mem[OF f[unfolded findActiveByHash_def]] by simp_all
    have "r' = r" by (rule one[OF r'(1,2)])
    then show ?thesis using f Some r'(3) by simp
  qed
qed

lemma consumeLink_row:
  assumes "distinct (map o_id (otps s))" "r \<in> set (otps s)" "o_consumedAt r = None"
  shows "consumeLink s (o_id r) at = (True, putOtp (usedAt at r) s)"
  unfolding consumeLink_def by (subst writeOtp_row[OF assms(1,2)]) (simp_all add: assms(3))

lemma findActiveByHash_row:
  "findActiveByHash s h = Some r \<Longrightarrow> r \<in> set (otps s) \<and> o_codeHash r = h \<and> isLink r \<and> o_consumedAt r = None"
  unfolding findActiveByHash_def by (drule newestOtp_mem) simp
section \<open>Properties\<close>

text \<open>Every branch of \<open>resetPassword\<close> for a link that is found.\<close>

lemma reset_found:
  assumes d: "distinct (map o_id (otps s))" and r: "findActiveByHash s (rd_hashToken D token) = Some r" and w: "isStrongPassword pw"
  shows "resetPassword D s token pw at =
    (if o_expiresAt r \<le> at \<or> \<not> isActive s (o_userId r) then (Inl InvalidResetToken, s, [])
     else (Inr (), consumeAllLinks (rd_onLinkUsed D (setPasswordAndUnlock (putOtp (usedAt at r) s) (o_userId r) (rd_hashPassword D pw)) (o_userId r) (o_purpose r)) (o_userId r) at,
           [RevokeSessions (o_userId r), ForgetDevices (o_userId r), SessionsRevoked (o_userId r)]))"
proof -
  have m: "r \<in> set (otps s)" "o_consumedAt r = None" using findActiveByHash_row[OF r] by simp_all
  show ?thesis unfolding resetPassword_def r option.case consumeLink_row[OF d m] Let_def prod.case isExpired_def
    using w by simp
qed

lemma no_live_link_refuses:
  assumes "\<And>r. r \<in> set (otps s) \<Longrightarrow> \<not> liveLink k r" and "findActiveByHash s (rd_hashToken D token) = Some r"
  shows "o_userId r \<noteq> k"
  using assms(1)[of r] findActiveByHash_row[OF assms(2)] by (auto simp: liveLink_def)

text \<open>What handling a used link may not touch: the table of codes, and the columns the reset wrote.\<close>

definition resetColumns :: "userRow \<Rightarrow> ident \<times> string \<times> int \<times> int \<times> instant option \<times> bool" where
  "resetColumns u = (u_id u, u_passwordHash u, u_tokenVersion u, u_failedAttempts u, u_lockedUntil u, u_mustChange u)"

definition onlyVerifies :: "(accounts \<Rightarrow> ident \<Rightarrow> otpPurpose \<Rightarrow> accounts) \<Rightarrow> bool" where
  "onlyVerifies f \<longleftrightarrow> (\<forall>s k p. otps (f s k p) = otps s \<and> map resetColumns (users (f s k p)) = map resetColumns (users s))"

lemma map_eq_some: "map f xs = map g ys \<Longrightarrow> x \<in> set xs \<Longrightarrow> \<exists>y \<in> set ys. f x = g y"
  by (metis image_iff image_set)

text \<open>
  C18. A set-password link works once, and its use ends every other one. After a reset that succeeds: the
  link was unused, in its lifetime and of an account that may be entered; the password is the new one (a
  strong one), the lock is lifted, a temporary password's forced change is over, and the session version
  has grown, so no access token of before is valid; the person has no unused link of either kind, so a
  link that still works is someone else's; and every session is revoked.
\<close>

theorem reset_link_works_once:
  assumes "oneLinkPerHash s" "onlyVerifies (rd_onLinkUsed D)" "resetPassword D s token pw at = (Inr (), s', calls)"
  shows "\<exists>r. r \<in> set (otps s) \<and> o_codeHash r = rd_hashToken D token \<and> liveLink (o_userId r) r \<and> at < o_expiresAt r
    \<and> isActive s (o_userId r) \<and> isStrongPassword pw \<and> RevokeSessions (o_userId r) \<in> set calls
    \<and> filter (liveLink (o_userId r)) (otps s') = []
    \<and> map resetColumns (users s') =
        map (\<lambda>u. if u_id u = o_userId r then (u_id u, rd_hashPassword D pw, u_tokenVersion u + 1, 0, None, False) else resetColumns u) (users s)
    \<and> (\<forall>token' at' pw'. fst (resetPassword D s' token' pw' at') = Inr () \<longrightarrow>
          (\<exists>r'. findActiveByHash s' (rd_hashToken D token') = Some r' \<and> o_userId r' \<noteq> o_userId r))"
proof -
  have w: "isStrongPassword pw" using assms(3) by (auto simp: resetPassword_def split: if_splits)
  obtain r where r: "findActiveByHash s (rd_hashToken D token) = Some r"
    using assms(3) by (auto simp: resetPassword_def split: if_splits option.splits)
  have d: "distinct (map o_id (otps s))" using assms(1) by (simp add: oneLinkPerHash_def)
  let ?s2 = "setPasswordAndUnlock (putOtp (usedAt at r) s) (o_userId r) (rd_hashPassword D pw)"
  let ?s3 = "rd_onLinkUsed D ?s2 (o_userId r) (o_purpose r)"
  have s': "s' = consumeAllLinks ?s3 (o_userId r) at" "at < o_expiresAt r" "isActive s (o_userId r)" "RevokeSessions (o_userId r) \<in> set calls"
    using assms(3) unfolding reset_found[OF d r w] by (auto split: if_splits)
  have none: "\<not> liveLink (o_userId r) r'" if "r' \<in> set (otps s')" for r'
    using consumeAllLinks_none that unfolding s'(1) .
  have "map resetColumns (users s') = map resetColumns (users ?s2)"
    using assms(2) unfolding s'(1) by (simp add: onlyVerifies_def)
  also have "\<dots> = map (\<lambda>u. if u_id u = o_userId r then (u_id u, rd_hashPassword D pw, u_tokenVersion u + 1, 0, None, False) else resetColumns u) (users s)"
    by (simp add: setPasswordAndUnlock_def ownPassword_def resetColumns_def)
  finally have cols: "map resetColumns (users s') = \<dots>" .
  have "\<exists>r'. findActiveByHash s' (rd_hashToken D token') = Some r' \<and> o_userId r' \<noteq> o_userId r"
    if ok: "fst (resetPassword D s' token' pw' at') = Inr ()" for token' pw' at'
  proof -
    obtain r' where "findActiveByHash s' (rd_hashToken D token') = Some r'"
      using ok by (auto simp: resetPassword_def split: if_splits option.splits)
    then show ?thesis using no_live_link_refuses[OF none] by blast
  qed
  moreover have "filter (liveLink (o_userId r)) (otps s') = []" using none by (simp add: filter_empty_conv)
  ultimately show ?thesis using findActiveByHash_row[OF r] s'(2-) w cols
    by (intro exI[of _ r]) (simp add: liveLink_def)
qed

definition sampleReset :: resetDeps where
  "sampleReset = \<lparr>rd_same = (=), rd_hashToken = (\<lambda>t. t), rd_hashPassword = (\<lambda>p. p), rd_onLinkUsed = (\<lambda>s k p. s), rd_companyName = (\<lambda>k. None),
     rd_mailConfigured = True, rd_ttlSeconds = 3600, rd_perMinute = 1, rd_perHour = 5\<rparr>"

definition sampleLinks :: accounts where
  "sampleLinks = snd (requestReset sampleReset (snd (requestReset sampleReset sampleAccounts [] ''ann'' ''r1'' ''tok1'' 0)) [] ''bob'' ''r2'' ''tok2'' 100000)"

theorem reset_link_works_once_witness:
  "filter (liveLink ''u'') (otps (fst (snd (resetPassword sampleReset sampleLinks ''tok1'' ''new-pass1'' 200000)))) = []"
proof -
  have ok: "oneLinkPerHash sampleLinks" by code_simp
  have f: "onlyVerifies (rd_onLinkUsed sampleReset)" by (simp add: onlyVerifies_def sampleReset_def)
  have "fst (resetPassword sampleReset sampleLinks ''tok1'' ''new-pass1'' 200000) = Inr ()" by code_simp
  then obtain s' calls where s': "resetPassword sampleReset sampleLinks ''tok1'' ''new-pass1'' 200000 = (Inr (), s', calls)"
    by (metis prod.collapse)
  obtain r where r: "r \<in> set (otps sampleLinks)" "o_codeHash r = ''tok1''" "filter (liveLink (o_userId r)) (otps s') = []"
    using reset_link_works_once[OF ok f s'] by (auto simp: sampleReset_def)
  have "\<forall>r \<in> set (otps sampleLinks). o_codeHash r = ''tok1'' \<longrightarrow> o_userId r = ''u''" by code_simp
  then show ?thesis using r s' by simp
qed

text \<open>
  C23. The link page tells the truth: a link is shown as live exactly when a strong password sent with it
  at that instant would be accepted; it is never shown as unknown when it would be; and a link shown as
  used is an invitation of an account that is set up.
\<close>

theorem link_status_truthful:
  assumes "oneLinkPerHash s" "isStrongPassword pw"
  shows "(lk_state (linkStatus D s token at) = LiveLink) = (fst (resetPassword D s token pw at) = Inr ())
    \<and> (lk_state (linkStatus D s token at) = UsedLink) =
       (case findAnyByHash s (rd_hashToken D token) of None \<Rightarrow> False
        | Some r \<Rightarrow> o_purpose r = WELCOME \<and> o_consumedAt r \<noteq> None \<and> isActive s (o_userId r) \<and> isActivated s (o_userId r))"
proof (cases "findAnyByHash s (rd_hashToken D token)")
  case None
  then have "findActiveByHash s (rd_hashToken D token) = None" by (simp add: find_any_active[OF assms(1)])
  then show ?thesis using None by (simp add: linkStatus_def resetPassword_def)
next
  case (Some r)
  have d: "distinct (map o_id (otps s))" using assms(1) by (simp add: oneLinkPerHash_def)
  note active = find_any_active[OF assms(1), of "rd_hashToken D token", unfolded Some option.case]
  have "fst (resetPassword D s token pw at) = Inr () \<longleftrightarrow> o_consumedAt r = None \<and> at < o_expiresAt r \<and> isActive s (o_userId r)"
  proof (cases "o_consumedAt r = None")
    case True
    then have "findActiveByHash s (rd_hashToken D token) = Some r" using active by simp
    from reset_found[OF d this assms(2)] show ?thesis using True by auto
  next
    case False
    then show ?thesis using active by (auto simp: resetPassword_def)
  qed
  then show ?thesis unfolding linkStatus_def Some option.case Let_def isExpired_def by auto
qed

theorem link_status_truthful_witness:
  "lk_state (linkStatus sampleReset sampleLinks ''tok2'' 200000) = LiveLink \<and> fst (resetPassword sampleReset sampleLinks ''tok2'' ''new-pass1'' 200000) = Inr ()"
proof -
  have "oneLinkPerHash sampleLinks" "isStrongPassword ''new-pass1''" by code_simp+
  from link_status_truthful[OF this, of sampleReset "''tok2''" 200000]
  have "(lk_state (linkStatus sampleReset sampleLinks ''tok2'' 200000) = LiveLink) = (fst (resetPassword sampleReset sampleLinks ''tok2'' ''new-pass1'' 200000) = Inr ())"
    by (rule conjunct1)
  moreover have "lk_state (linkStatus sampleReset sampleLinks ''tok2'' 200000) = LiveLink" by code_simp
  ultimately show ?thesis by blast
qed

end
