(* ===== verification/FirstPassword.thy ===== *)
theory FirstPassword
  imports PasswordReset
begin

text \<open>
  \<open>modules/auth/first-password.ts\<close>: the forced change after a temporary password, on its Prisma repository;
  and \<open>modules/auth/email-verification.ts\<close> with its. The HMAC of the platform, its SHA-256 in base64url, the base64url
  JSON of a ticket's body and bcrypt are parameters; the audit entries are not modelled.
\<close>

section \<open>Choosing an own password\<close>

record firstPasswordState =
  fp_mustChange :: bool
  fp_expiresAt :: "instant option"
  fp_passwordHash :: string
  fp_tokenVersion :: int
  fp_active :: bool
  fp_cancelled :: bool

record stepBody =
  tb_userId :: ident
  tb_expires :: instant
  tb_fingerprint :: string
  tb_viaEmailCode :: bool

record firstPasswordDeps =
  fd_sign :: "string \<Rightarrow> string"
  fd_digest :: "string \<Rightarrow> string"
  fd_encode :: "stepBody \<Rightarrow> string"
  fd_decode :: "string \<Rightarrow> stepBody option"
  fd_hashPassword :: "string \<Rightarrow> string"
  fd_verifyPassword :: "string \<Rightarrow> string \<Rightarrow> bool"
  fd_ttl :: int

definition TICKET_TTL_MS :: int where
  "TICKET_TTL_MS = 15 * 60000"

datatype firstPasswordError =
    PasswordChangeExpired | PasswordChangeRequired | TemporaryPasswordExpired | SameAsTemporaryPassword | WeakNewPassword | RefusedAsWrong

definition firstState :: "accounts \<Rightarrow> ident \<Rightarrow> firstPasswordState option" where
  "firstState s k = map_option (\<lambda>u. \<lparr>fp_mustChange = u_mustChange u, fp_expiresAt = u_tempExpiresAt u, fp_passwordHash = u_passwordHash u,
      fp_tokenVersion = u_tokenVersion u, fp_active = (u_status u = ACTIVE \<and> u_deletedAt u = None), fp_cancelled = (u_cancelledAt u \<noteq> None)\<rparr>)
     (findUser s (\<lambda>u. u_id u = k))"

definition completeOwn :: "accounts \<Rightarrow> ident \<Rightarrow> string \<Rightarrow> string \<Rightarrow> instant \<Rightarrow> bool \<times> accounts" where
  "completeOwn s k expectedHash newHash at =
     (let P = (\<lambda>u. u_id u = k \<and> u_mustChange u \<and> u_passwordHash u = expectedHash \<and> u_status u = ACTIVE \<and> u_deletedAt u = None);
          s1 = updateUsers P (ownPassword newHash) s
      in if countUsers s P \<noteq> 1 then (False, s1)
         else (True, consumeAllLinks (markActivated s1 k at) k at))"

definition tempExpired :: "firstPasswordState \<Rightarrow> instant \<Rightarrow> bool" where
  "tempExpired st at \<longleftrightarrow> fp_mustChange st \<and> (case fp_expiresAt st of None \<Rightarrow> False | Some t \<Rightarrow> t \<le> at)"

definition refuseUnusable :: "accounts \<Rightarrow> ident \<Rightarrow> instant \<Rightarrow> firstPasswordError + unit" where
  "refuseUnusable s k at =
     (case firstState s k of
        None \<Rightarrow> Inr ()
      | Some st \<Rightarrow> if fp_cancelled st then Inl RefusedAsWrong
                  else if tempExpired st at then Inl TemporaryPasswordExpired else Inr ())"

text \<open>The text a fingerprint is the digest of, and its first 22 characters.\<close>

definition fingerprintText :: "string \<Rightarrow> int \<Rightarrow> string" where
  "fingerprintText h version = h @ '':'' @ showInt version"

definition fingerprint :: "firstPasswordDeps \<Rightarrow> firstPasswordState \<Rightarrow> string" where
  "fingerprint D st = take 22 (fd_digest D (fingerprintText (fp_passwordHash st) (fp_tokenVersion st)))"

text \<open>The answer of \<open>gate\<close>: nothing to change, or the step's ticket and when it ends.\<close>

definition gate :: "firstPasswordDeps \<Rightarrow> accounts \<Rightarrow> ident \<Rightarrow> bool \<Rightarrow> bool \<Rightarrow> instant \<Rightarrow> firstPasswordError + (string \<times> instant) option" where
  "gate D s k website viaEmailCode at =
     (case firstState s k of
        None \<Rightarrow> Inr None
      | Some st \<Rightarrow>
          if \<not> fp_mustChange st then Inr None
          else if \<not> viaEmailCode \<and> tempExpired st at then Inl TemporaryPasswordExpired
          else if \<not> website then Inl PasswordChangeRequired
          else (let exp = at + fd_ttl D;
                    body = fd_encode D \<lparr>tb_userId = k, tb_expires = exp, tb_fingerprint = fingerprint D st, tb_viaEmailCode = viaEmailCode\<rparr>
                in Inr (Some (body @ ''.'' @ fd_sign D body, exp))))"

text \<open>\<open>split('.')\<close> of a string.\<close>

fun splitDot :: "string \<Rightarrow> string list" where
  "splitDot [] = [[]]"
| "splitDot (c # cs) = (if c = CHR ''.'' then [] # splitDot cs
     else (case splitDot cs of [] \<Rightarrow> [[c]] | p # ps \<Rightarrow> (c # p) # ps))"

definition readTicket :: "firstPasswordDeps \<Rightarrow> string \<Rightarrow> instant \<Rightarrow> stepBody option" where
  "readTicket D ticket at =
     (case splitDot ticket of
        [body, sig] \<Rightarrow>
          if body = [] \<or> sig = [] \<or> sig \<noteq> fd_sign D body then None
          else (case fd_decode D body of
                  None \<Rightarrow> None
                | Some p \<Rightarrow> if tb_expires p < at then None else Some p)
      | _ \<Rightarrow> None)"

definition changeFirst :: "firstPasswordDeps \<Rightarrow> accounts \<Rightarrow> string \<Rightarrow> string \<Rightarrow> instant \<Rightarrow> (firstPasswordError + ident) \<times> accounts" where
  "changeFirst D s ticket password at =
     (case readTicket D ticket at of
        None \<Rightarrow> (Inl PasswordChangeExpired, s)
      | Some t \<Rightarrow>
          (case firstState s (tb_userId t) of
             None \<Rightarrow> (Inl PasswordChangeExpired, s)
           | Some st \<Rightarrow>
               if \<not> fp_active st \<or> fp_cancelled st \<or> \<not> fp_mustChange st \<or> fingerprint D st \<noteq> tb_fingerprint t
               then (Inl PasswordChangeExpired, s)
               else if \<not> tb_viaEmailCode t \<and> tempExpired st at then (Inl TemporaryPasswordExpired, s)
               else if \<not> isStrongPassword password then (Inl WeakNewPassword, s)
               else if fd_verifyPassword D password (fp_passwordHash st) then (Inl SameAsTemporaryPassword, s)
               else (let (done, s1) = completeOwn s (tb_userId t) (fp_passwordHash st) (fd_hashPassword D password) at
                     in if \<not> done then (Inl PasswordChangeExpired, s1) else (Inr (tb_userId t), s1))))"

definition firstCancelled :: "accounts \<Rightarrow> ident \<Rightarrow> bool" where
  "firstCancelled s k \<longleftrightarrow> (case firstState s k of None \<Rightarrow> False | Some st \<Rightarrow> fp_cancelled st)"

section \<open>Confirming the email address\<close>

datatype confirmOutcome = Verified | Already | AddressChanged | NotFound

definition otherVerifiedAdmins :: "accounts \<Rightarrow> ident \<Rightarrow> nat" where
  "otherVerifiedAdmins s k = countUsers s (\<lambda>u. u_id u \<noteq> k \<and> u_status u = ACTIVE \<and> u_deletedAt u = None
     \<and> u_emailVerifiedAt u \<noteq> None \<and> ''ADMIN'' \<in> set (u_roles u))"

definition markVerified :: "(string \<Rightarrow> string \<Rightarrow> bool) \<Rightarrow> accounts \<Rightarrow> ident \<Rightarrow> instant \<Rightarrow> string option \<Rightarrow> bool \<times> accounts" where
  "markVerified same s k at email =
     (let P = (\<lambda>u. u_id u = k \<and> u_deletedAt u = None \<and> u_emailVerifiedAt u = None
               \<and> (case email of None \<Rightarrow> True | Some e \<Rightarrow> same (u_email u) (trim e)));
          count = countUsers s P;
          s1 = updateUsers P (\<lambda>u. u\<lparr>u_emailVerifiedAt := Some at\<rparr>) s
      in (count = 1, if count = 1 then markActivated s1 k at else s1))"

definition needsCode :: "bool \<Rightarrow> accounts \<Rightarrow> ident \<Rightarrow> bool" where
  "needsCode mailConfigured s k =
     (if \<not> mailConfigured then False
      else (case findById s k of
              None \<Rightarrow> False
            | Some p \<Rightarrow> if u_emailVerifiedAt p \<noteq> None then False
                       else if ''ADMIN'' \<in> set (u_roles p) \<and> otherVerifiedAdmins s k = 0 then False
                       else True))"

definition confirm :: "(string \<Rightarrow> string \<Rightarrow> bool) \<Rightarrow> accounts \<Rightarrow> ident \<Rightarrow> string option \<Rightarrow> instant \<Rightarrow> confirmOutcome \<times> accounts" where
  "confirm same s k email at =
     (case findById s k of
        None \<Rightarrow> (NotFound, s)
      | Some p \<Rightarrow>
          if u_emailVerifiedAt p \<noteq> None then (Already, s)
          else if (case email of None \<Rightarrow> False | Some e \<Rightarrow> toLowerCase (trim (u_email p)) \<noteq> toLowerCase (trim e)) then (AddressChanged, s)
          else (let (changed, s1) = markVerified same s k at (Some (case email of None \<Rightarrow> u_email p | Some e \<Rightarrow> e))
                in if \<not> changed
                   then (case findById s1 k of
                           None \<Rightarrow> (AddressChanged, s1)
                         | Some q \<Rightarrow> if u_emailVerifiedAt q \<noteq> None then (Already, s1) else (AddressChanged, s1))
                   else (Verified, s1)))"
section \<open>The step and its ticket\<close>

lemma splitDot_plain: "CHR ''.'' \<notin> set xs \<Longrightarrow> splitDot xs = [xs]"
  by (induction xs) auto

lemma splitDot_two: "CHR ''.'' \<notin> set xs \<Longrightarrow> splitDot (xs @ CHR ''.'' # ys) = xs # splitDot ys"
  by (induction xs) auto

text \<open>What the platform's encodings guarantee: base64url has no dot, is not empty, and is read back.\<close>

definition encodesBack :: "firstPasswordDeps \<Rightarrow> stepBody \<Rightarrow> bool" where
  "encodesBack D b \<longleftrightarrow> fd_decode D (fd_encode D b) = Some b \<and> fd_encode D b \<noteq> [] \<and> CHR ''.'' \<notin> set (fd_encode D b)
     \<and> fd_sign D (fd_encode D b) \<noteq> [] \<and> CHR ''.'' \<notin> set (fd_sign D (fd_encode D b))"

definition stepOf :: "firstPasswordDeps \<Rightarrow> userRow \<Rightarrow> bool \<Rightarrow> instant \<Rightarrow> stepBody" where
  "stepOf D u viaEmailCode at = \<lparr>tb_userId = u_id u, tb_expires = at + fd_ttl D,
     tb_fingerprint = take 22 (fd_digest D (fingerprintText (u_passwordHash u) (u_tokenVersion u))), tb_viaEmailCode = viaEmailCode\<rparr>"

lemma readTicket_own:
  assumes "encodesBack D b"
  shows "readTicket D (fd_encode D b @ ''.'' @ fd_sign D (fd_encode D b)) at = (if tb_expires b < at then None else Some b)"
  using assms by (simp add: readTicket_def encodesBack_def splitDot_two splitDot_plain)

lemma firstState_row:
  assumes "uniqueUserIds s" "u \<in> set (users s)"
  shows "findUser s (\<lambda>v. u_id v = u_id u) = Some u"
proof -
  have "find (\<lambda>v. u_id v = u_id u) xs = Some u" if "u \<in> set xs" "distinct (map u_id xs)" for xs
    using that by (induction xs) force+
  then show ?thesis using assms by (simp add: findUser_def uniqueUserIds_def)
qed

lemma completeOwn_row:
  assumes "uniqueUserIds s" "u \<in> set (users s)" "u_mustChange u" "u_status u = ACTIVE" "u_deletedAt u = None"
  shows "completeOwn s (u_id u) (u_passwordHash u) h at = (True, consumeAllLinks (markActivated (putUser (ownPassword h u) s) (u_id u) at) (u_id u) at)"
proof -
  let ?P = "\<lambda>v. u_id v = u_id u \<and> u_mustChange v \<and> u_passwordHash v = u_passwordHash u \<and> u_status v = ACTIVE \<and> u_deletedAt v = None"
  have "countUsers s ?P = 1" using assms(3-5) by (intro countUsers_one[OF assms(1,2)]) auto
  moreover have "updateUsers ?P (ownPassword h) s = putUser (ownPassword h u) s"
    using assms(3-5) by (intro updateUsers_put[OF assms(1,2)]) (auto simp: ownPassword_def)
  ultimately show ?thesis by (simp add: completeOwn_def)
qed

lemma firstState_Some:
  assumes "firstState s k = Some st"
  obtains u where "u \<in> set (users s)" "u_id u = k" "fp_mustChange st = u_mustChange u" "fp_passwordHash st = u_passwordHash u"
    "fp_tokenVersion st = u_tokenVersion u" "fp_active st = (u_status u = ACTIVE \<and> u_deletedAt u = None)"
    "fp_cancelled st = (u_cancelledAt u \<noteq> None)"
  using assms by (auto simp: firstState_def findUser_def dest: find_mem)

text \<open>Every branch of \<open>changeFirst\<close> with a readable ticket of an account that is there.\<close>

lemma changeFirst_known:
  assumes "uniqueUserIds s" "u \<in> set (users s)" "readTicket D ticket at = Some t" "tb_userId t = u_id u"
  shows "changeFirst D s ticket pw at =
    (let st = the (firstState s (u_id u))
     in if \<not> (u_status u = ACTIVE \<and> u_deletedAt u = None) \<or> u_cancelledAt u \<noteq> None \<or> \<not> u_mustChange u \<or> take 22 (fd_digest D (fingerprintText (u_passwordHash u) (u_tokenVersion u))) \<noteq> tb_fingerprint t
        then (Inl PasswordChangeExpired, s)
        else if \<not> tb_viaEmailCode t \<and> tempExpired st at then (Inl TemporaryPasswordExpired, s)
        else if \<not> isStrongPassword pw then (Inl WeakNewPassword, s)
        else if fd_verifyPassword D pw (u_passwordHash u) then (Inl SameAsTemporaryPassword, s)
        else (Inr (u_id u), consumeAllLinks (markActivated (putUser (ownPassword (fd_hashPassword D pw) u) s) (u_id u) at) (u_id u) at))"
  using completeOwn_row[OF assms(1,2)]
  by (simp add: changeFirst_def assms(3,4) firstState_def firstState_row[OF assms(1,2)] fingerprint_def Let_def)

section \<open>Properties\<close>

text \<open>
  C21. The step a temporary password leads to can be taken. When the gate answers a sign-in with a ticket,
  then at any instant until it ends, while the temporary password is in its lifetime (or the sign-in was
  by an emailed code), that ticket read back is the account's own, and any strong password other than the
  temporary one completes the step: the account has it, is theirs, and no earlier link can change it.
\<close>

theorem first_password_step_works:
  assumes "encodesBack D (stepOf D u viaEmailCode at)" "uniqueUserIds s" "u \<in> set (users s)" "u_status u = ACTIVE" "u_deletedAt u = None" "u_cancelledAt u = None"
    and "gate D s (u_id u) website viaEmailCode at = Inr (Some (ticket, ends))" "at \<le> at'" "at' \<le> ends"
    and "viaEmailCode \<or> \<not> tempExpired (the (firstState s (u_id u))) at'"
    and "isStrongPassword pw" "\<not> fd_verifyPassword D pw (u_passwordHash u)"
  shows "ends = at + fd_ttl D
    \<and> (\<exists>b. readTicket D ticket at' = Some b \<and> tb_userId b = u_id u \<and> tb_viaEmailCode b = viaEmailCode)
    \<and> changeFirst D s ticket pw at' =
       (Inr (u_id u), consumeAllLinks (markActivated (putUser (ownPassword (fd_hashPassword D pw) u) s) (u_id u) at') (u_id u) at')"
proof -
  let ?b = "stepOf D u viaEmailCode at"
  have g: "ticket = fd_encode D ?b @ ''.'' @ fd_sign D (fd_encode D ?b)" "ends = at + fd_ttl D" "u_mustChange u"
    using assms(7) by (auto simp: gate_def firstState_def firstState_row[OF assms(2,3)] fingerprint_def stepOf_def Let_def split: if_splits)
  have k: "tb_userId ?b = u_id u" by (simp add: stepOf_def)
  have r: "readTicket D ticket at' = Some ?b" unfolding g(1) readTicket_own[OF assms(1)] using assms(9) g(2) by (simp add: stepOf_def)
  have "changeFirst D s ticket pw at' =
       (Inr (u_id u), consumeAllLinks (markActivated (putUser (ownPassword (fd_hashPassword D pw) u) s) (u_id u) at') (u_id u) at')"
    unfolding changeFirst_known[OF assms(2,3) r k] using assms(4-6,10-12) g(3) by (auto simp: Let_def stepOf_def)
  then show ?thesis using r g(2) by (simp add: stepOf_def)
qed
definition sampleTemp :: userRow where
  "sampleTemp = (sampleUser ''u'' ''ann'')\<lparr>u_mustChange := True, u_tempExpiresAt := Some 5000\<rparr>"

definition sampleTempAccounts :: accounts where
  "sampleTempAccounts = \<lparr>users = [sampleTemp], otps = []\<rparr>"

definition sampleFirst :: firstPasswordDeps where
  "sampleFirst = \<lparr>fd_sign = (\<lambda>x. ''sig''), fd_digest = rev, fd_encode = (\<lambda>b. ''body''),
     fd_decode = (\<lambda>x. Some \<lparr>tb_userId = ''u'', tb_expires = TICKET_TTL_MS, tb_fingerprint = ''0:wp'', tb_viaEmailCode = False\<rparr>),
     fd_hashPassword = (\<lambda>p. p), fd_verifyPassword = (\<lambda>p h. p = h), fd_ttl = TICKET_TTL_MS\<rparr>"

lemma sampleTemp_there: "uniqueUserIds sampleTempAccounts" "sampleTemp \<in> set (users sampleTempAccounts)"
  by (simp_all add: sampleTempAccounts_def uniqueUserIds_def)

theorem first_password_step_works_witness:
  "fst (changeFirst sampleFirst sampleTempAccounts ''body.sig'' ''new-pass1'' 4000) = Inr ''u''"
proof -
  have "gate sampleFirst sampleTempAccounts (u_id sampleTemp) True False 0 = Inr (Some (''body.sig'', TICKET_TTL_MS))" by code_simp
  moreover have made: "fingerprintText ''pw'' 0 = ''pw:0''" by code_simp
  ultimately have "gate sampleFirst sampleTempAccounts (u_id sampleTemp) True False 0 = Inr (Some (''body.sig'', TICKET_TTL_MS))" by simp
  from first_password_step_works[OF _ sampleTemp_there _ _ _ this, of 4000 "''new-pass1''"]
  have "changeFirst sampleFirst sampleTempAccounts ''body.sig'' ''new-pass1'' 4000
      = (Inr (u_id sampleTemp), consumeAllLinks (markActivated (putUser (ownPassword (fd_hashPassword sampleFirst ''new-pass1'') sampleTemp) sampleTempAccounts) (u_id sampleTemp) 4000) (u_id sampleTemp) 4000)"
    by (simp add: encodesBack_def sampleFirst_def sampleTemp_def sampleUser_def stepOf_def TICKET_TTL_MS_def tempExpired_def firstState_def
        findUser_def sampleTempAccounts_def isStrongPassword_def isLetter_def isDigit_def Let_def made)
  then show ?thesis by (simp add: sampleTemp_def sampleUser_def)
qed

text \<open>The account has changed since the ticket was made when its password or its session version has.\<close>

lemma fingerprintText_inject: "fingerprintText h v = fingerprintText h' v' \<longleftrightarrow> h = h' \<and> v = v'"
proof
  assume e: "fingerprintText h v = fingerprintText h' v'"
  have "takeWhile (\<lambda>c. c \<noteq> CHR '':'') (rev (fingerprintText g w)) = rev (showInt w)" for g w
    using showInt_mark[of w] by (auto simp: fingerprintText_def takeWhile_eq_all_conv takeWhile_append)
  then have "showInt v = showInt v'" using e by (metis rev_rev_ident)
  then show "h = h' \<and> v = v'" using e by (simp add: showInt_inject fingerprintText_def)
qed simp

lemma ownPassword_changed:
  assumes "uniqueUserIds s" "u \<in> set (users s)" "u_id u = k"
    and "v \<in> set (users (consumeAllLinks (markActivated (putUser (ownPassword h u) s) k at) k at))" "u_id v = k"
  shows "\<not> u_mustChange v"
proof -
  obtain w where w: "w \<in> set (users (putUser (ownPassword h u) s))" "v = w \<or> v = w\<lparr>u_activatedAt := Some at\<rparr>"
    using assms(4) by (auto simp: markActivated_def consumeAllLinks_def users_updateUsers split: if_splits)
  then have "u_id w = k" using assms(5) by auto
  then have "w = ownPassword h u" using w(1) assms(3) by (auto simp: putUser_def ownPassword_def split: if_splits)
  then show ?thesis using w(2) by (auto simp: ownPassword_def)
qed

text \<open>
  C22. A step ticket is spent by its use. The step was only taken with a strong password that is not the
  temporary one, on an active, uncancelled account. Right after it the same ticket is refused; and it is
  refused in every later state in which the account's password hash or its session version is another than
  the one the ticket was made for (as long as the cut digest of those two texts is not the same, the one thing
  that is asked of SHA-256), whatever temporary password the account has been given since.
\<close>

theorem step_ticket_once:
  assumes "uniqueUserIds s" "changeFirst D s ticket pw at = (Inr k, s')"
  shows "\<exists>u. u \<in> set (users s) \<and> u_id u = k \<and> u_mustChange u \<and> mayEnter u \<and> isStrongPassword pw \<and> \<not> fd_verifyPassword D pw (u_passwordHash u)
    \<and> users s' = users (markActivated (putUser (ownPassword (fd_hashPassword D pw) u) s) k at)
    \<and> filter (liveLink k) (otps s') = []
    \<and> (\<forall>pw2 at2. changeFirst D s' ticket pw2 at2 = (Inl PasswordChangeExpired, s'))
    \<and> (\<forall>s2 st pw2 at2. firstState s2 k = Some st \<longrightarrow> (fp_passwordHash st, fp_tokenVersion st) \<noteq> (u_passwordHash u, u_tokenVersion u)
         \<longrightarrow> (let now = fingerprintText (fp_passwordHash st) (fp_tokenVersion st); made = fingerprintText (u_passwordHash u) (u_tokenVersion u)
              in now \<noteq> made \<longrightarrow> take 22 (fd_digest D now) \<noteq> take 22 (fd_digest D made))
         \<longrightarrow> changeFirst D s2 ticket pw2 at2 = (Inl PasswordChangeExpired, s2))"
proof -
  obtain t st where t: "readTicket D ticket at = Some t" "firstState s (tb_userId t) = Some st" "k = tb_userId t"
    using assms(2) by (auto simp: changeFirst_def Let_def split: option.splits if_splits prod.splits)
  obtain u where u: "u \<in> set (users s)" "u_id u = tb_userId t" using firstState_Some[OF t(2)] by metis
  note c = assms(2)[unfolded changeFirst_known[OF assms(1) u(1) t(1) u(2)[symmetric]] Let_def]
  have facts: "mayEnter u" "u_mustChange u" "take 22 (fd_digest D (fingerprintText (u_passwordHash u) (u_tokenVersion u))) = tb_fingerprint t"
    "isStrongPassword pw" "\<not> fd_verifyPassword D pw (u_passwordHash u)"
    and s': "s' = consumeAllLinks (markActivated (putUser (ownPassword (fd_hashPassword D pw) u) s) k at) k at"
    using c u(2) t(3) by (auto simp: mayEnter_def split: if_splits)
  have same: "t2 = t" if "readTicket D ticket at2 = Some t2" for t2 at2
    using that t(1) by (auto simp: readTicket_def split: list.splits option.splits if_splits)
  have refused: "changeFirst D s2 ticket pw2 at2 = (Inl PasswordChangeExpired, s2)"
    if "\<And>st2. firstState s2 k = Some st2 \<Longrightarrow> \<not> fp_mustChange st2 \<or> fingerprint D st2 \<noteq> tb_fingerprint t" for s2 pw2 at2
    using that same[of at2] t(3) by (auto simp: changeFirst_def split: option.splits)
  have "\<not> fp_mustChange st2" if st2: "firstState s' k = Some st2" for st2
  proof -
    obtain v where v: "v \<in> set (users s')" "u_id v = k" "fp_mustChange st2 = u_mustChange v" using firstState_Some[OF st2] by metis
    have "u_id u = k" using u(2) t(3) by simp
    from ownPassword_changed[OF assms(1) u(1) this v(1)[unfolded s'] v(2)] show ?thesis using v(3) by simp
  qed
  then have "changeFirst D s' ticket pw2 at2 = (Inl PasswordChangeExpired, s')" for pw2 at2 by (intro refused) blast
  moreover have "changeFirst D s2 ticket pw2 at2 = (Inl PasswordChangeExpired, s2)"
    if st2: "firstState s2 k = Some st2" "(fp_passwordHash st2, fp_tokenVersion st2) \<noteq> (u_passwordHash u, u_tokenVersion u)"
      "let now = fingerprintText (fp_passwordHash st2) (fp_tokenVersion st2); made = fingerprintText (u_passwordHash u) (u_tokenVersion u)
       in now \<noteq> made \<longrightarrow> take 22 (fd_digest D now) \<noteq> take 22 (fd_digest D made)" for s2 st2 pw2 at2
  proof (rule refused)
    fix st3 assume "firstState s2 k = Some st3"
    then have "st3 = st2" using st2(1) by simp
    moreover have "fingerprint D st2 \<noteq> tb_fingerprint t"
      using st2(2,3) unfolding facts(3)[symmetric] by (auto simp: fingerprint_def Let_def fingerprintText_inject)
    ultimately show "\<not> fp_mustChange st3 \<or> fingerprint D st3 \<noteq> tb_fingerprint t" by simp
  qed
  moreover have "filter (liveLink k) (otps s') = []" unfolding s' filter_empty_conv using consumeAllLinks_none by blast
  moreover have "users s' = users (markActivated (putUser (ownPassword (fd_hashPassword D pw) u) s) k at)" unfolding s' by simp
  moreover have "u_id u = k" using u(2) t(3) by simp
  ultimately show ?thesis using u(1) facts by (intro exI[of _ u] conjI allI impI)
qed

text \<open>The account of the sample, given a temporary password again after the step (its session version moved on).\<close>

definition sampleAgain :: accounts where
  "sampleAgain = \<lparr>users = [sampleTemp\<lparr>u_tokenVersion := 1\<rparr>], otps = []\<rparr>"

theorem step_ticket_once_witness:
  "\<exists>s'. changeFirst sampleFirst sampleTempAccounts ''body.sig'' ''new-pass1'' 4000 = (Inr ''u'', s') \<and> filter (liveLink ''u'') (otps s') = []
    \<and> changeFirst sampleFirst s' ''body.sig'' ''new-pass2'' 4001 = (Inl PasswordChangeExpired, s')
    \<and> changeFirst sampleFirst sampleAgain ''body.sig'' ''new-pass2'' 4001 = (Inl PasswordChangeExpired, sampleAgain)"
proof -
  have "fst (changeFirst sampleFirst sampleTempAccounts ''body.sig'' ''new-pass1'' 4000) = Inr ''u''" by code_simp
  then obtain s' where s': "changeFirst sampleFirst sampleTempAccounts ''body.sig'' ''new-pass1'' 4000 = (Inr ''u'', s')"
    by (metis prod.collapse)
  obtain u where u: "u \<in> set (users sampleTempAccounts)" "filter (liveLink ''u'') (otps s') = []"
    "changeFirst sampleFirst s' ''body.sig'' ''new-pass2'' 4001 = (Inl PasswordChangeExpired, s')"
    "\<And>s2 st. firstState s2 ''u'' = Some st \<Longrightarrow> (fp_passwordHash st, fp_tokenVersion st) \<noteq> (u_passwordHash u, u_tokenVersion u) \<Longrightarrow>
       let now = fingerprintText (fp_passwordHash st) (fp_tokenVersion st); made = fingerprintText (u_passwordHash u) (u_tokenVersion u)
       in now \<noteq> made \<longrightarrow> take 22 (fd_digest sampleFirst now) \<noteq> take 22 (fd_digest sampleFirst made) \<Longrightarrow>
       changeFirst sampleFirst s2 ''body.sig'' ''new-pass2'' 4001 = (Inl PasswordChangeExpired, s2)"
    using step_ticket_once[OF sampleTemp_there(1) s'] by blast
  have "u = sampleTemp" using u(1) by (simp add: sampleTempAccounts_def)
  then have uv: "u_passwordHash u = ''pw''" "u_tokenVersion u = 0" by (simp_all add: sampleTemp_def sampleUser_def)
  obtain st where st: "firstState sampleAgain ''u'' = Some st" "fp_passwordHash st = ''pw''" "fp_tokenVersion st = 1"
    by (simp add: firstState_def findUser_def sampleAgain_def sampleTemp_def sampleUser_def)
  have texts: "fingerprintText ''pw'' 1 = ''pw:1''" "fingerprintText ''pw'' 0 = ''pw:0''" by code_simp+
  have "changeFirst sampleFirst sampleAgain ''body.sig'' ''new-pass2'' 4001 = (Inl PasswordChangeExpired, sampleAgain)"
    by (rule u(4)[OF st(1)]) (simp_all add: st uv texts sampleFirst_def Let_def)
  then show ?thesis using s' u(2,3) by blast
qed

end
