(* ===== verification/SignInChallenge.thy ===== *)
theory SignInChallenge
  imports JsText
begin

text \<open>
  \<open>modules/auth/sign-in-challenge.ts\<close> on its two stores (\<open>memory-sign-in-challenge-store.ts\<close> and
  \<open>prisma-sign-in-challenge-store.ts\<close>), with the codes of \<open>lib/sign-in-code.ts\<close>. A store is a record
  of operations on a state; the service functions take it as the code takes \<open>deps.store\<close>.
\<close>

section \<open>Rows and stores\<close>

datatype challengeKind = VERIFY_EMAIL

record challengeRow =
  ch_id :: ident
  ch_userId :: ident
  ch_kind :: challengeKind
  ch_tokenHash :: string
  ch_codeHash :: string
  ch_sentTo :: string
  ch_attempts :: int
  ch_sends :: int
  ch_lastSentAt :: instant
  ch_expiresAt :: instant
  ch_consumedAt :: "instant option"
  ch_createdAt :: instant

record 's challengeStore =
  findOpen :: "'s \<Rightarrow> ident \<Rightarrow> challengeKind \<Rightarrow> string \<Rightarrow> instant \<Rightarrow> challengeRow option"
  createRow :: "'s \<Rightarrow> challengeRow \<Rightarrow> 's"
  rotateToken :: "'s \<Rightarrow> ident \<Rightarrow> string \<Rightarrow> bool \<times> 's"
  findByTokenHash :: "'s \<Rightarrow> string \<Rightarrow> challengeRow option"
  recordSend :: "'s \<Rightarrow> ident \<Rightarrow> string \<Rightarrow> instant \<Rightarrow> instant \<Rightarrow> bool \<times> 's"
  sendsSince :: "'s \<Rightarrow> ident \<Rightarrow> instant \<Rightarrow> int"
  failuresSince :: "'s \<Rightarrow> ident \<Rightarrow> instant \<Rightarrow> int"
  claimAttempt :: "'s \<Rightarrow> ident \<Rightarrow> int \<Rightarrow> bool \<times> 's"
  consumeRow :: "'s \<Rightarrow> ident \<Rightarrow> instant \<Rightarrow> bool \<times> 's"
  endRow :: "'s \<Rightarrow> ident \<Rightarrow> instant \<Rightarrow> 's"
  endAllRows :: "'s \<Rightarrow> ident \<Rightarrow> instant \<Rightarrow> 's"

text \<open>\<open>const r = rows.find((x) => x.id === id)\<close> and a write to it; what is not there is not written.\<close>

fun updateFirst :: "('a \<Rightarrow> bool) \<Rightarrow> ('a \<Rightarrow> 'a) \<Rightarrow> 'a list \<Rightarrow> 'a list" where
  "updateFirst P f [] = []"
| "updateFirst P f (r # rs) = (if P r then f r # rs else r # updateFirst P f rs)"

subsection \<open>In memory\<close>

definition memGuarded :: "challengeRow list \<Rightarrow> ident \<Rightarrow> (challengeRow \<Rightarrow> bool) \<Rightarrow> (challengeRow \<Rightarrow> challengeRow)
    \<Rightarrow> bool \<times> challengeRow list" where
  "memGuarded rows k ok f =
     (case find (\<lambda>r. ch_id r = k) rows of
        None \<Rightarrow> (False, rows)
      | Some r \<Rightarrow> if ch_consumedAt r = None \<and> ok r then (True, updateFirst (\<lambda>r. ch_id r = k) f rows) else (False, rows))"

definition memFindOpen :: "challengeRow list \<Rightarrow> ident \<Rightarrow> challengeKind \<Rightarrow> string \<Rightarrow> instant \<Rightarrow> challengeRow option" where
  "memFindOpen rows u k sentTo now =
     find (\<lambda>r. ch_userId r = u \<and> ch_kind r = k \<and> toLowerCase (ch_sentTo r) = toLowerCase sentTo
            \<and> ch_consumedAt r = None \<and> ch_expiresAt r > now) (rev rows)"

definition memCreate :: "challengeRow list \<Rightarrow> challengeRow \<Rightarrow> challengeRow list" where
  "memCreate rows row = rows @ [row\<lparr>ch_attempts := 0, ch_consumedAt := None\<rparr>]"

definition sumSends :: "(challengeRow \<Rightarrow> bool) \<Rightarrow> challengeRow list \<Rightarrow> int" where
  "sumSends P rows = sum_list (map ch_sends (filter P rows))"

definition sumAttempts :: "(challengeRow \<Rightarrow> bool) \<Rightarrow> challengeRow list \<Rightarrow> int" where
  "sumAttempts P rows = sum_list (map ch_attempts (filter P rows))"

definition memRotateToken :: "challengeRow list \<Rightarrow> ident \<Rightarrow> string \<Rightarrow> bool \<times> challengeRow list" where
  "memRotateToken rows k h = memGuarded rows k (\<lambda>_. True) (\<lambda>r. r\<lparr>ch_tokenHash := h\<rparr>)"

definition memRecordSend :: "challengeRow list \<Rightarrow> ident \<Rightarrow> string \<Rightarrow> instant \<Rightarrow> instant \<Rightarrow> bool \<times> challengeRow list" where
  "memRecordSend rows k h at expires =
     memGuarded rows k (\<lambda>_. True)
       (\<lambda>r. r\<lparr>ch_codeHash := h, ch_lastSentAt := at, ch_expiresAt := expires, ch_sends := ch_sends r + 1\<rparr>)"

definition memClaimAttempt :: "challengeRow list \<Rightarrow> ident \<Rightarrow> int \<Rightarrow> bool \<times> challengeRow list" where
  "memClaimAttempt rows k most =
     memGuarded rows k (\<lambda>r. ch_attempts r < most) (\<lambda>r. r\<lparr>ch_attempts := ch_attempts r + 1\<rparr>)"

definition memConsume :: "challengeRow list \<Rightarrow> ident \<Rightarrow> instant \<Rightarrow> bool \<times> challengeRow list" where
  "memConsume rows k at =
     memGuarded rows k (\<lambda>_. True) (\<lambda>r. r\<lparr>ch_consumedAt := Some at, ch_attempts := ch_attempts r - 1\<rparr>)"

definition memEnd :: "challengeRow list \<Rightarrow> ident \<Rightarrow> instant \<Rightarrow> challengeRow list" where
  "memEnd rows k at = snd (memGuarded rows k (\<lambda>_. True) (\<lambda>r. r\<lparr>ch_consumedAt := Some at\<rparr>))"

definition endAllOf :: "challengeRow list \<Rightarrow> ident \<Rightarrow> instant \<Rightarrow> challengeRow list" where
  "endAllOf rows u at =
     map (\<lambda>r. if ch_userId r = u \<and> ch_consumedAt r = None then r\<lparr>ch_consumedAt := Some at\<rparr> else r) rows"

definition memoryStore :: "challengeRow list challengeStore" where
  "memoryStore =
     \<lparr>findOpen = memFindOpen, createRow = memCreate, rotateToken = memRotateToken,
      findByTokenHash = (\<lambda>rows h. find (\<lambda>r. ch_tokenHash r = h) rows),
      recordSend = memRecordSend,
      sendsSince = (\<lambda>rows u since. sumSends (\<lambda>r. ch_userId r = u \<and> ch_lastSentAt r \<ge> since) rows),
      failuresSince = (\<lambda>rows u since. sumAttempts (\<lambda>r. ch_userId r = u \<and> ch_createdAt r \<ge> since) rows),
      claimAttempt = memClaimAttempt, consumeRow = memConsume, endRow = memEnd, endAllRows = endAllOf\<rparr>"

subsection \<open>In the database\<close>

text \<open>
  A conditional write: every row the \<open>where\<close> selects is written, and the answer is whether exactly one
  was. The newest row comes first in \<open>findFirst\<close>; among rows of one instant the database may choose,
  the model takes the first.
\<close>

definition dbUpdate :: "challengeRow list \<Rightarrow> (challengeRow \<Rightarrow> bool) \<Rightarrow> (challengeRow \<Rightarrow> challengeRow) \<Rightarrow> bool \<times> challengeRow list" where
  "dbUpdate rows P f = (length (filter P rows) = 1, map (\<lambda>r. if P r then f r else r) rows)"

definition dbFindOpen :: "challengeRow list \<Rightarrow> ident \<Rightarrow> challengeKind \<Rightarrow> string \<Rightarrow> instant \<Rightarrow> challengeRow option" where
  "dbFindOpen rows u k sentTo now =
     (case sort_key (\<lambda>r. - ch_createdAt r)
             (filter (\<lambda>r. ch_userId r = u \<and> ch_kind r = k \<and> toLowerCase (ch_sentTo r) = toLowerCase sentTo
                \<and> ch_consumedAt r = None \<and> ch_expiresAt r > now) rows) of
        [] \<Rightarrow> None | r # _ \<Rightarrow> Some r)"

definition dbRotateToken :: "challengeRow list \<Rightarrow> ident \<Rightarrow> string \<Rightarrow> bool \<times> challengeRow list" where
  "dbRotateToken rows k h = dbUpdate rows (\<lambda>r. ch_id r = k \<and> ch_consumedAt r = None) (\<lambda>r. r\<lparr>ch_tokenHash := h\<rparr>)"

definition dbRecordSend :: "challengeRow list \<Rightarrow> ident \<Rightarrow> string \<Rightarrow> instant \<Rightarrow> instant \<Rightarrow> bool \<times> challengeRow list" where
  "dbRecordSend rows k h at expires =
     dbUpdate rows (\<lambda>r. ch_id r = k \<and> ch_consumedAt r = None)
       (\<lambda>r. r\<lparr>ch_codeHash := h, ch_lastSentAt := at, ch_expiresAt := expires, ch_sends := ch_sends r + 1\<rparr>)"

definition dbClaimAttempt :: "challengeRow list \<Rightarrow> ident \<Rightarrow> int \<Rightarrow> bool \<times> challengeRow list" where
  "dbClaimAttempt rows k most =
     dbUpdate rows (\<lambda>r. ch_id r = k \<and> ch_consumedAt r = None \<and> ch_attempts r < most)
       (\<lambda>r. r\<lparr>ch_attempts := ch_attempts r + 1\<rparr>)"

definition dbConsume :: "challengeRow list \<Rightarrow> ident \<Rightarrow> instant \<Rightarrow> bool \<times> challengeRow list" where
  "dbConsume rows k at =
     dbUpdate rows (\<lambda>r. ch_id r = k \<and> ch_consumedAt r = None)
       (\<lambda>r. r\<lparr>ch_consumedAt := Some at, ch_attempts := ch_attempts r - 1\<rparr>)"

definition dbEnd :: "challengeRow list \<Rightarrow> ident \<Rightarrow> instant \<Rightarrow> challengeRow list" where
  "dbEnd rows k at = snd (dbUpdate rows (\<lambda>r. ch_id r = k \<and> ch_consumedAt r = None) (\<lambda>r. r\<lparr>ch_consumedAt := Some at\<rparr>))"

definition prismaStore :: "challengeRow list challengeStore" where
  "prismaStore =
     \<lparr>findOpen = dbFindOpen, createRow = (\<lambda>rows row. rows @ [row\<lparr>ch_attempts := 0, ch_consumedAt := None\<rparr>]),
      rotateToken = dbRotateToken,
      findByTokenHash = (\<lambda>rows h. find (\<lambda>r. ch_tokenHash r = h) rows),
      recordSend = dbRecordSend,
      sendsSince = (\<lambda>rows u since. sumSends (\<lambda>r. ch_userId r = u \<and> ch_lastSentAt r \<ge> since) rows),
      failuresSince = (\<lambda>rows u since. sumAttempts (\<lambda>r. ch_userId r = u \<and> ch_createdAt r \<ge> since) rows),
      claimAttempt = dbClaimAttempt, consumeRow = dbConsume, endRow = dbEnd,
      endAllRows = (\<lambda>rows u at. snd (dbUpdate rows (\<lambda>r. ch_userId r = u \<and> ch_consumedAt r = None) (\<lambda>r. r\<lparr>ch_consumedAt := Some at\<rparr>)))\<rparr>"

section \<open>Codes\<close>

text \<open>
  The keyed hash of a code and the hash of a token come from the platform's crypto library; they are
  parameters. \<open>timingSafeEqual\<close> is equality of the bytes, which for two lower-case hexadecimal strings
  is equality of the strings.
\<close>

definition SIGN_IN_CODE_DIGITS :: nat where "SIGN_IN_CODE_DIGITS = 6"

definition sixDigits :: "string \<Rightarrow> bool" where
  "sixDigits s \<longleftrightarrow> length s = 6 \<and> list_all isDigit s"

definition hex64 :: "string \<Rightarrow> bool" where
  "hex64 s \<longleftrightarrow> length s = 64 \<and> list_all isHexLower s"

definition codeMatches :: "(string \<Rightarrow> string \<Rightarrow> string \<Rightarrow> string) \<Rightarrow> string \<Rightarrow> string \<Rightarrow> string \<Rightarrow> string \<Rightarrow> bool" where
  "codeMatches hmac typed stored key challengeId =
     (let code = noSpaces typed;
          candidate = hmac (if sixDigits code then code else ''x'') key challengeId
      in hex64 stored \<and> candidate = stored \<and> sixDigits code)"

text \<open>The three bullets of a masked address stand between the two parts of \<open>Masked\<close>.\<close>

datatype masked = Masked string string

definition maskEmail :: "string \<Rightarrow> masked" where
  "maskEmail email =
     (let e = trim email; at = lastIndexOf (CHR 0x40) e
      in if e = [] then Masked [] []
         else if at \<le> 0 then Masked [hd e] []
         else Masked [hd e] (drop (nat at) e))"

section \<open>The service\<close>

definition MINUTE :: int where "MINUTE = 60000"
definition HOUR :: int where "HOUR = 60 * MINUTE"
definition CODE_TTL_MS :: int where "CODE_TTL_MS = 10 * MINUTE"
definition CHALLENGE_MAX_LIFE_MS :: int where "CHALLENGE_MAX_LIFE_MS = 30 * MINUTE"
definition RESEND_GAP_MS :: int where "RESEND_GAP_MS = MINUTE"
definition WRONG_CODES_PER_CHALLENGE :: int where "WRONG_CODES_PER_CHALLENGE = 5"
definition WRONG_CODES_PER_HOUR :: int where "WRONG_CODES_PER_HOUR = 10"
definition CODES_PER_HOUR :: int where "CODES_PER_HOUR = 5"

lemmas challenge_limits = MINUTE_def HOUR_def CODE_TTL_MS_def CHALLENGE_MAX_LIFE_MS_def RESEND_GAP_MS_def
  WRONG_CODES_PER_CHALLENGE_def WRONG_CODES_PER_HOUR_def CODES_PER_HOUR_def

datatype signInError = CodeNotSent | SignInExpired | TooManyCodes | TooManyWrongCodes | TooManyWrongCodesThisHour | WrongCode

text \<open>Times in the answers are instants, where the code writes them in ISO form.\<close>

record challengeView =
  cv_token :: string
  cv_kind :: challengeKind
  cv_sentTo :: masked
  cv_codeSent :: bool
  cv_resendAt :: instant
  cv_expiresAt :: instant

record resendResult =
  rr_codeSent :: bool
  rr_resendAt :: instant
  rr_expiresAt :: instant
  rr_retryAfterSeconds :: "int option"

record verified =
  ver_userId :: ident
  ver_kind :: challengeKind
  ver_sentTo :: string

record 's challengeDeps =
  cd_store :: "'s challengeStore"
  cd_key :: string
  cd_hmac :: "string \<Rightarrow> string \<Rightarrow> string \<Rightarrow> string"  \<comment> \<open>the code, the key and the challenge\<close>
  cd_hashToken :: "string \<Rightarrow> string"

text \<open>What a call draws at random, and whether its email goes.\<close>

record fresh =
  fr_id :: ident
  fr_token :: string
  fr_code :: string
  fr_mailGoes :: bool

definition resendAtOf :: "challengeRow \<Rightarrow> instant" where
  "resendAtOf row = ch_lastSentAt row + RESEND_GAP_MS"

definition codeExpiry :: "instant \<Rightarrow> instant \<Rightarrow> instant" where
  "codeExpiry at createdAt = min (at + CODE_TTL_MS) (createdAt + CHALLENGE_MAX_LIFE_MS)"

definition isOpen :: "challengeRow \<Rightarrow> instant \<Rightarrow> bool" where
  "isOpen row at \<longleftrightarrow> ch_consumedAt row = None \<and> ch_expiresAt row > at"

definition underHourlyLimit :: "'s challengeDeps \<Rightarrow> 's \<Rightarrow> ident \<Rightarrow> instant \<Rightarrow> bool" where
  "underHourlyLimit D s u at \<longleftrightarrow> sendsSince (cd_store D) s u (at - HOUR) < CODES_PER_HOUR"

text \<open>The second half of \<open>start\<close>: a challenge of its own, ended again when its email does not go.\<close>

definition startNew :: "'s challengeDeps \<Rightarrow> 's \<Rightarrow> ident \<Rightarrow> challengeKind \<Rightarrow> string \<Rightarrow> instant \<Rightarrow> fresh
    \<Rightarrow> (signInError + challengeView) \<times> 's" where
  "startNew D s u k sentTo at fr =
     (if \<not> underHourlyLimit D s u at then (Inl TooManyCodes, s)
      else
        (let row = \<lparr>ch_id = fr_id fr, ch_userId = u, ch_kind = k, ch_tokenHash = cd_hashToken D (fr_token fr),
               ch_codeHash = cd_hmac D (fr_code fr) (cd_key D) (fr_id fr), ch_sentTo = sentTo, ch_attempts = 0,
               ch_sends = 1, ch_lastSentAt = at, ch_expiresAt = codeExpiry at at, ch_consumedAt = None, ch_createdAt = at\<rparr>;
             s1 = createRow (cd_store D) s row
         in if \<not> fr_mailGoes fr then (Inl CodeNotSent, endRow (cd_store D) s1 (fr_id fr) at)
            else (Inr \<lparr>cv_token = fr_token fr, cv_kind = k, cv_sentTo = maskEmail sentTo, cv_codeSent = True,
                        cv_resendAt = resendAtOf row, cv_expiresAt = ch_expiresAt row\<rparr>, s1)))"

definition startChallenge :: "'s challengeDeps \<Rightarrow> 's \<Rightarrow> ident \<Rightarrow> string \<Rightarrow> challengeKind \<Rightarrow> instant \<Rightarrow> fresh
    \<Rightarrow> (signInError + challengeView) \<times> 's" where
  "startChallenge D s u email k at fr =
     (let sentTo = trim email
      in case findOpen (cd_store D) s u k sentTo at of
           None \<Rightarrow> startNew D s u k sentTo at fr
         | Some op \<Rightarrow>
             if ch_attempts op \<ge> WRONG_CODES_PER_CHALLENGE
             then startNew D (endRow (cd_store D) s (ch_id op) at) u k sentTo at fr
             else if isOpen op at
             then (case rotateToken (cd_store D) s (ch_id op) (cd_hashToken D (fr_token fr)) of
                     (rotated, s') \<Rightarrow>
                       if rotated
                       then (Inr \<lparr>cv_token = fr_token fr, cv_kind = k, cv_sentTo = maskEmail sentTo, cv_codeSent = False,
                                   cv_resendAt = resendAtOf op, cv_expiresAt = ch_expiresAt op\<rparr>, s')
                       else startNew D s' u k sentTo at fr)
             else startNew D s u k sentTo at fr)"

definition openByToken :: "'s challengeDeps \<Rightarrow> 's \<Rightarrow> string \<Rightarrow> instant \<Rightarrow> signInError + challengeRow" where
  "openByToken D s token at =
     (case findByTokenHash (cd_store D) s (cd_hashToken D token) of
        None \<Rightarrow> Inl SignInExpired
      | Some row \<Rightarrow> if isOpen row at then Inr row else Inl SignInExpired)"

text \<open>\<open>Math.ceil\<close> of a number of milliseconds in seconds.\<close>

definition ceilSeconds :: "int \<Rightarrow> int" where
  "ceilSeconds ms = - ((- ms) div 1000)"

definition resend :: "'s challengeDeps \<Rightarrow> 's \<Rightarrow> string \<Rightarrow> instant \<Rightarrow> fresh \<Rightarrow> (signInError + resendResult) \<times> 's" where
  "resend D s token at fr =
     (case openByToken D s token at of
        Inl e \<Rightarrow> (Inl e, s)
      | Inr row \<Rightarrow>
          if ch_attempts row \<ge> WRONG_CODES_PER_CHALLENGE then (Inl TooManyWrongCodes, s)
          else if resendAtOf row > at
          then (Inr \<lparr>rr_codeSent = False, rr_resendAt = resendAtOf row, rr_expiresAt = ch_expiresAt row,
                      rr_retryAfterSeconds = Some (max 1 (ceilSeconds (resendAtOf row - at)))\<rparr>, s)
          else if ch_createdAt row + CHALLENGE_MAX_LIFE_MS \<le> at then (Inl SignInExpired, s)
          else if \<not> underHourlyLimit D s (ch_userId row) at then (Inl TooManyCodes, s)
          else
            (let expires = codeExpiry at (ch_createdAt row)
             in case recordSend (cd_store D) s (ch_id row) (cd_hmac D (fr_code fr) (cd_key D) (ch_id row)) at expires of
                  (recorded, s') \<Rightarrow>
                    if \<not> recorded then (Inl SignInExpired, s')
                    else if \<not> fr_mailGoes fr then (Inl CodeNotSent, s')
                    else (Inr \<lparr>rr_codeSent = True, rr_resendAt = at + RESEND_GAP_MS, rr_expiresAt = expires,
                                rr_retryAfterSeconds = None\<rparr>, s')))"

definition verify :: "'s challengeDeps \<Rightarrow> 's \<Rightarrow> string \<Rightarrow> string \<Rightarrow> instant \<Rightarrow> (signInError + verified) \<times> 's" where
  "verify D s token code at =
     (case findByTokenHash (cd_store D) s (cd_hashToken D token) of
        None \<Rightarrow> (Inl SignInExpired, s)
      | Some row \<Rightarrow>
          if \<not> isOpen row at then (Inl SignInExpired, s)
          else if failuresSince (cd_store D) s (ch_userId row) (at - HOUR) \<ge> WRONG_CODES_PER_HOUR
          then (Inl TooManyWrongCodesThisHour, s)
          else
            (case claimAttempt (cd_store D) s (ch_id row) WRONG_CODES_PER_CHALLENGE of
               (claimed, s1) \<Rightarrow>
                 if \<not> claimed then (Inl TooManyWrongCodes, s1)
                 else if \<not> codeMatches (cd_hmac D) code (ch_codeHash row) (cd_key D) (ch_id row) then (Inl WrongCode, s1)
                 else
                   (case consumeRow (cd_store D) s1 (ch_id row) at of
                      (consumed, s2) \<Rightarrow>
                        if \<not> consumed then (Inl SignInExpired, s2)
                        else (Inr \<lparr>ver_userId = ch_userId row, ver_kind = ch_kind row, ver_sentTo = ch_sentTo row\<rparr>, s2))))"

definition endAll :: "'s challengeDeps \<Rightarrow> 's \<Rightarrow> ident \<Rightarrow> instant \<Rightarrow> 's" where
  "endAll D s u at = endAllRows (cd_store D) s u at"

section \<open>What the service asks of a store\<close>

text \<open>The rows with the open one of id \<open>k\<close> that passes \<open>ok\<close> written.\<close>

definition target :: "ident \<Rightarrow> (challengeRow \<Rightarrow> bool) \<Rightarrow> challengeRow \<Rightarrow> bool" where
  "target k ok r \<longleftrightarrow> ch_id r = k \<and> ch_consumedAt r = None \<and> ok r"

definition writeOpen :: "challengeRow list \<Rightarrow> ident \<Rightarrow> (challengeRow \<Rightarrow> bool) \<Rightarrow> (challengeRow \<Rightarrow> challengeRow) \<Rightarrow> challengeRow list" where
  "writeOpen rows k ok f = map (\<lambda>r. if target k ok r then f r else r) rows"

definition uniqueIds :: "challengeRow list \<Rightarrow> bool" where
  "uniqueIds rows \<longleftrightarrow> distinct (map ch_id rows)"

locale challenge_store =
  fixes S :: "'s challengeStore" and rows :: "'s \<Rightarrow> challengeRow list"
  assumes find_open: "findOpen S s u kd t now = Some r \<Longrightarrow> r \<in> set (rows s) \<and> ch_userId r = u \<and> isOpen r now"
    and find_token: "findByTokenHash S s h = Some r \<Longrightarrow> r \<in> set (rows s) \<and> ch_tokenHash r = h"
    and create_rows: "rows (createRow S s row) = rows s @ [row\<lparr>ch_attempts := 0, ch_consumedAt := None\<rparr>]"
    and rotate_rows: "uniqueIds (rows s) \<Longrightarrow> rotateToken S s k h = (b, s') \<Longrightarrow>
      (b \<longleftrightarrow> (\<exists>r \<in> set (rows s). target k (\<lambda>_. True) r)) \<and> rows s' = writeOpen (rows s) k (\<lambda>_. True) (\<lambda>r. r\<lparr>ch_tokenHash := h\<rparr>)"
    and send_rows: "uniqueIds (rows s) \<Longrightarrow> recordSend S s k h at ex = (b, s') \<Longrightarrow>
      (b \<longleftrightarrow> (\<exists>r \<in> set (rows s). target k (\<lambda>_. True) r)) \<and> rows s' = writeOpen (rows s) k (\<lambda>_. True)
        (\<lambda>r. r\<lparr>ch_codeHash := h, ch_lastSentAt := at, ch_expiresAt := ex, ch_sends := ch_sends r + 1\<rparr>)"
    and claim_rows: "uniqueIds (rows s) \<Longrightarrow> claimAttempt S s k most = (b, s') \<Longrightarrow>
      (b \<longleftrightarrow> (\<exists>r \<in> set (rows s). target k (\<lambda>r. ch_attempts r < most) r))
        \<and> rows s' = writeOpen (rows s) k (\<lambda>r. ch_attempts r < most) (\<lambda>r. r\<lparr>ch_attempts := ch_attempts r + 1\<rparr>)"
    and consume_rows: "uniqueIds (rows s) \<Longrightarrow> consumeRow S s k at = (b, s') \<Longrightarrow>
      (b \<longleftrightarrow> (\<exists>r \<in> set (rows s). target k (\<lambda>_. True) r)) \<and> rows s' = writeOpen (rows s) k (\<lambda>_. True)
        (\<lambda>r. r\<lparr>ch_consumedAt := Some at, ch_attempts := ch_attempts r - 1\<rparr>)"
    and end_rows: "uniqueIds (rows s) \<Longrightarrow> rows (endRow S s k at) = writeOpen (rows s) k (\<lambda>_. True) (\<lambda>r. r\<lparr>ch_consumedAt := Some at\<rparr>)"
    and end_all_rows: "rows (endAllRows S s u at) = endAllOf (rows s) u at"
    and sends_rows: "sendsSince S s u since = sumSends (\<lambda>r. ch_userId r = u \<and> ch_lastSentAt r \<ge> since) (rows s)"
    and failures_rows: "failuresSince S s u since = sumAttempts (\<lambda>r. ch_userId r = u \<and> ch_createdAt r \<ge> since) (rows s)"

lemma updateFirst_write:
  "uniqueIds rows \<Longrightarrow> find (\<lambda>r. ch_id r = k) rows = Some r \<Longrightarrow> target k ok r \<Longrightarrow>
     updateFirst (\<lambda>r. ch_id r = k) f rows = writeOpen rows k ok f"
proof (induction rows)
  case Nil
  then show ?case by simp
next
  case (Cons a rows)
  show ?case
  proof (cases "ch_id a = k")
    case True
    then have "map (\<lambda>r. if target k ok r then f r else r) rows = rows"
      using Cons.prems(1) by (intro map_idI) (auto simp: uniqueIds_def target_def dest: image_notD)
    then show ?thesis using Cons.prems True by (simp add: writeOpen_def)
  next
    case False
    then show ?thesis using Cons by (simp add: writeOpen_def uniqueIds_def target_def)
  qed
qed

lemma writeOpen_none: "(\<And>r. r \<in> set rows \<Longrightarrow> \<not> target k ok r) \<Longrightarrow> writeOpen rows k ok f = rows"
  unfolding writeOpen_def by (intro map_idI) simp

lemma uniqueIds_find: "uniqueIds rows \<Longrightarrow> r \<in> set rows \<Longrightarrow> find (\<lambda>x. ch_id x = ch_id r) rows = Some r"
  by (induction rows) (auto simp: uniqueIds_def)

lemma memGuarded_write:
  assumes "uniqueIds rows"
  shows "memGuarded rows k ok f = ((\<exists>r \<in> set rows. target k ok r), writeOpen rows k ok f)"
proof (cases "\<exists>r \<in> set rows. target k ok r")
  case True
  then obtain r where "r \<in> set rows" "target k ok r" by blast
  moreover from this have "find (\<lambda>x. ch_id x = k) rows = Some r"
    using uniqueIds_find [OF assms] by (auto simp: target_def)
  ultimately show ?thesis using updateFirst_write [OF assms] True by (auto simp: memGuarded_def target_def)
next
  case False
  then show ?thesis using writeOpen_none [of rows k ok f]
    by (auto simp: memGuarded_def target_def split: option.split dest!: find_mem)
qed

lemma dbUpdate_write:
  assumes "uniqueIds rows"
  shows "dbUpdate rows (\<lambda>r. ch_id r = k \<and> ch_consumedAt r = None \<and> ok r) f
     = ((\<exists>r \<in> set rows. target k ok r), writeOpen rows k ok f)"
proof -
  have "length (filter (target k ok) rows) \<le> 1"
    using assms by (induction rows) (auto simp: uniqueIds_def target_def filter_empty_conv dest: image_notD)
  moreover have "length (filter (target k ok) rows) \<noteq> 0 \<longleftrightarrow> (\<exists>r \<in> set rows. target k ok r)"
    by (simp add: filter_empty_conv)
  ultimately have "length (filter (target k ok) rows) = 1 \<longleftrightarrow> (\<exists>r \<in> set rows. target k ok r)" by linarith
  then show ?thesis by (simp add: dbUpdate_def writeOpen_def target_def [abs_def])
qed

lemmas dbUpdate_open = dbUpdate_write [of _ _ "\<lambda>_. True", simplified]

lemma dbUpdate_endAll:
  "snd (dbUpdate rows (\<lambda>r. ch_userId r = u \<and> ch_consumedAt r = None) (\<lambda>r. r\<lparr>ch_consumedAt := Some at\<rparr>)) = endAllOf rows u at"
  by (simp add: dbUpdate_def endAllOf_def)

interpretation memory: challenge_store memoryStore "\<lambda>s. s"
proof (unfold_locales, goal_cases)
  case (1 s u k t now r)
  then show ?case by (auto simp: memoryStore_def memFindOpen_def isOpen_def dest!: find_mem)
next
  case (2 s h r)
  then show ?case by (auto simp: memoryStore_def dest!: find_mem)
qed (auto simp: memoryStore_def memCreate_def memRotateToken_def memRecordSend_def memClaimAttempt_def memConsume_def memEnd_def memGuarded_write)

interpretation prisma: challenge_store prismaStore "\<lambda>s. s"
proof (unfold_locales, goal_cases)
  case (1 s u k t now r)
  let ?open = "filter (\<lambda>r. ch_userId r = u \<and> ch_kind r = k \<and> toLowerCase (ch_sentTo r) = toLowerCase t
                \<and> ch_consumedAt r = None \<and> ch_expiresAt r > now) s"
  obtain l where "sort_key (\<lambda>r. - ch_createdAt r) ?open = r # l"
    using 1 by (auto simp: prismaStore_def dbFindOpen_def split: list.splits)
  then have "r \<in> set (sort_key (\<lambda>r. - ch_createdAt r) ?open)" by (metis list.set_intros(1))
  then show ?case by (auto simp: isOpen_def)
next
  case (2 s h r)
  then show ?case by (auto simp: prismaStore_def dest!: find_mem)
qed (auto simp: prismaStore_def dbRotateToken_def dbRecordSend_def dbClaimAttempt_def dbConsume_def dbEnd_def
    dbUpdate_open dbUpdate_write dbUpdate_endAll)

section \<open>The limits\<close>

text \<open>
  \<open>withinLimits rows t\<close>: what the rules promise of the stored challenges at time \<open>t\<close>. The hour
  before \<open>t\<close> holds the sends of the challenges last sent in it and the wrong codes of those made in it.
\<close>

definition sane :: "challengeRow \<Rightarrow> instant \<Rightarrow> bool" where
  "sane r t \<longleftrightarrow> 0 \<le> ch_attempts r \<and> ch_attempts r \<le> WRONG_CODES_PER_CHALLENGE \<and> 0 \<le> ch_sends r
     \<and> ch_createdAt r \<le> ch_lastSentAt r \<and> ch_lastSentAt r \<le> t
     \<and> ch_expiresAt r \<le> ch_createdAt r + CHALLENGE_MAX_LIFE_MS \<and> ch_expiresAt r \<le> ch_lastSentAt r + CODE_TTL_MS"

definition sentSince :: "ident \<Rightarrow> instant \<Rightarrow> challengeRow \<Rightarrow> bool" where
  "sentSince u since r \<longleftrightarrow> ch_userId r = u \<and> ch_lastSentAt r \<ge> since"

definition madeSince :: "ident \<Rightarrow> instant \<Rightarrow> challengeRow \<Rightarrow> bool" where
  "madeSince u since r \<longleftrightarrow> ch_userId r = u \<and> ch_createdAt r \<ge> since"

definition withinLimits :: "challengeRow list \<Rightarrow> instant \<Rightarrow> bool" where
  "withinLimits rows t \<longleftrightarrow> uniqueIds rows \<and> (\<forall>r \<in> set rows. sane r t)
     \<and> (\<forall>u. sumSends (sentSince u (t - HOUR)) rows \<le> CODES_PER_HOUR)
     \<and> (\<forall>u. sumAttempts (madeSince u (t - HOUR)) rows \<le> WRONG_CODES_PER_HOUR)"

definition gain :: "(challengeRow \<Rightarrow> bool) \<Rightarrow> (challengeRow \<Rightarrow> int) \<Rightarrow> challengeRow \<Rightarrow> int" where
  "gain P v r = (if P r then v r else 0)"

lemma sums_gain:
  "sumSends P rows = sum_list (map (gain P ch_sends) rows)" "sumAttempts P rows = sum_list (map (gain P ch_attempts) rows)"
  by (induction rows) (simp_all add: sumSends_def sumAttempts_def gain_def)

lemma sum_writeOpen:
  "uniqueIds rows \<Longrightarrow> r \<in> set rows \<Longrightarrow> target k ok r \<Longrightarrow>
     sum_list (map g (writeOpen rows k ok f)) = sum_list (map g rows) + (g (f r) - g r :: int)"
proof (induction rows)
  case Nil
  then show ?case by simp
next
  case (Cons a rows)
  show ?case
  proof (cases "r = a")
    case True
    then have "writeOpen rows k ok f = rows" using Cons.prems
      by (intro writeOpen_none) (auto simp: uniqueIds_def target_def dest: image_notD)
    then show ?thesis using Cons.prems True by (simp add: writeOpen_def)
  next
    case False
    then have "\<not> target k ok a" using Cons.prems by (auto simp: uniqueIds_def target_def dest: image_notD)
    then show ?thesis using Cons False by (simp add: writeOpen_def uniqueIds_def)
  qed
qed

lemma sum_gain_le:
  "(\<And>r. r \<in> set rows \<Longrightarrow> 0 \<le> v r) \<Longrightarrow> (\<And>r. r \<in> set rows \<Longrightarrow> P r \<Longrightarrow> Q r) \<Longrightarrow>
     sum_list (map (gain P v) rows) \<le> sum_list (map (gain Q v) rows)"
proof (induction rows)
  case Nil
  then show ?case by simp
next
  case (Cons a rows)
  have "gain P v a \<le> gain Q v a" using Cons.prems(1) [of a] Cons.prems(2) [of a] by (auto simp: gain_def)
  then show ?case using Cons by (simp add: add_mono)
qed

lemma writeOpen_ids: "(\<And>r. ch_id (f r) = ch_id r) \<Longrightarrow> uniqueIds (writeOpen rows k ok f) = uniqueIds rows"
  by (simp add: uniqueIds_def writeOpen_def comp_def if_distrib [of ch_id] cong: if_cong)

lemma withinLimits_later:
  assumes "withinLimits rows t" "t \<le> t'"
  shows "withinLimits rows t'"
proof -
  have s: "sane r t" if "r \<in> set rows" for r using assms(1) that by (simp add: withinLimits_def)
  have "sumSends (sentSince u (t' - HOUR)) rows \<le> sumSends (sentSince u (t - HOUR)) rows" for u
    unfolding sums_gain by (rule sum_gain_le) (use s assms(2) in \<open>auto simp: sane_def sentSince_def\<close>)
  moreover have "sumAttempts (madeSince u (t' - HOUR)) rows \<le> sumAttempts (madeSince u (t - HOUR)) rows" for u
    unfolding sums_gain by (rule sum_gain_le) (use s assms(2) in \<open>auto simp: sane_def madeSince_def\<close>)
  moreover have "sane r t'" if "r \<in> set rows" for r using s [OF that] assms(2) by (auto simp: sane_def)
  ultimately show ?thesis using assms(1) unfolding withinLimits_def by (meson order_trans)
qed

text \<open>A write that changes neither sends nor the times of a row, and adds at most nothing to its attempts.\<close>

lemma withinLimits_quiet:
  assumes w: "withinLimits rows t"
    and f: "\<And>r. ch_id (f r) = ch_id r \<and> ch_userId (f r) = ch_userId r \<and> ch_sends (f r) = ch_sends r \<and> ch_attempts (f r) = ch_attempts r
      \<and> ch_createdAt (f r) = ch_createdAt r \<and> ch_lastSentAt (f r) = ch_lastSentAt r \<and> ch_expiresAt (f r) = ch_expiresAt r"
  shows "withinLimits (map (\<lambda>r. if P r then f r else r) rows) t"
proof -
  define g where "g = (\<lambda>r. if P r then f r else r)"
  have "gain (sentSince u s) ch_sends (g r) = gain (sentSince u s) ch_sends r"
    "gain (madeSince u s) ch_attempts (g r) = gain (madeSince u s) ch_attempts r" for u s r
    using f by (auto simp: g_def gain_def sentSince_def madeSince_def)
  moreover have "sane (g r) t = sane r t" for r using f by (simp add: g_def sane_def)
  moreover have "ch_id (g r) = ch_id r" for r using f by (simp add: g_def)
  ultimately have "withinLimits (map g rows) t"
    using w unfolding withinLimits_def sums_gain uniqueIds_def by (simp add: comp_def)
  then show ?thesis by (simp add: g_def)
qed

context challenge_store begin

definition limited :: "'s \<Rightarrow> instant \<Rightarrow> bool" where
  "limited s t \<longleftrightarrow> withinLimits (rows s) t"

lemma limited_ids: "limited s t \<Longrightarrow> uniqueIds (rows s)"
  by (simp add: limited_def withinLimits_def)

lemma end_limited:
  assumes "limited s t"
  shows "limited (endRow S s k at) t"
  unfolding limited_def end_rows [OF limited_ids [OF assms]] writeOpen_def
  by (rule withinLimits_quiet) (use assms in \<open>simp_all add: limited_def\<close>)

lemma end_all_limited: "limited s t \<Longrightarrow> limited (endAllRows S s u at) t"
  unfolding limited_def end_all_rows endAllOf_def by (rule withinLimits_quiet) simp_all

lemma rotate_limited:
  assumes "limited s t" "rotateToken S s k h = (b, s')"
  shows "limited s' t"
proof -
  have "rows s' = writeOpen (rows s) k (\<lambda>_. True) (\<lambda>r. r\<lparr>ch_tokenHash := h\<rparr>)"
    using rotate_rows [OF limited_ids [OF assms(1)] assms(2)] by blast
  then show ?thesis using withinLimits_quiet assms(1) by (simp add: limited_def writeOpen_def)
qed

lemma create_limited:
  assumes l: "limited s t" and under: "sendsSince S s (ch_userId row) (t - HOUR) < CODES_PER_HOUR"
    and new: "ch_id row \<notin> ch_id ` set (rows s)" "ch_sends row = 1" "sane (row\<lparr>ch_attempts := 0\<rparr>) t"
  shows "limited (createRow S s row) t"
proof -
  let ?r = "row\<lparr>ch_attempts := 0, ch_consumedAt := None\<rparr>"
  have r: "sane ?r t" "gain (sentSince u (t - HOUR)) ch_sends ?r \<le> (if u = ch_userId row then 1 else 0)"
    "gain (madeSince u (t - HOUR)) ch_attempts ?r = 0" for u
    using new by (simp_all add: sane_def gain_def sentSince_def)
  have "sumSends (sentSince u (t - HOUR)) (rows s @ [?r]) \<le> CODES_PER_HOUR" for u
  proof (cases "u = ch_userId row")
    case True
    have "sumSends (sentSince u (t - HOUR)) (rows s) < CODES_PER_HOUR"
      using under by (simp add: True sends_rows sentSince_def [abs_def])
    then show ?thesis using r(2) [of u] True by (simp add: sums_gain)
  next
    case False
    have "sumSends (sentSince u (t - HOUR)) (rows s) \<le> CODES_PER_HOUR" using l by (simp add: limited_def withinLimits_def)
    then show ?thesis using r(2) [of u] False unfolding sums_gain by simp
  qed
  moreover have "sumAttempts (madeSince u (t - HOUR)) (rows s @ [?r]) \<le> WRONG_CODES_PER_HOUR" for u
    using l r(3) by (simp add: sums_gain limited_def withinLimits_def)
  ultimately show ?thesis using l new(1) r(1)
    by (auto simp: limited_def withinLimits_def create_rows uniqueIds_def)
qed

end

lemma target_unique: "uniqueIds rows \<Longrightarrow> r \<in> set rows \<Longrightarrow> q \<in> set rows \<Longrightarrow> target k ok r \<Longrightarrow> target k ok' q \<Longrightarrow> q = r"
  by (auto simp: uniqueIds_def target_def distinct_map dest: inj_onD)

lemma withinLimits_write:
  assumes w: "withinLimits rows t" and r: "r \<in> set rows" "target k ok r"
    and f: "\<And>x. ch_id (f x) = ch_id x" "sane (f r) t"
    and sent: "\<And>u. sumSends (sentSince u (t - HOUR)) rows
        + (gain (sentSince u (t - HOUR)) ch_sends (f r) - gain (sentSince u (t - HOUR)) ch_sends r) \<le> CODES_PER_HOUR"
    and made: "\<And>u. sumAttempts (madeSince u (t - HOUR)) rows
        + (gain (madeSince u (t - HOUR)) ch_attempts (f r) - gain (madeSince u (t - HOUR)) ch_attempts r) \<le> WRONG_CODES_PER_HOUR"
  shows "withinLimits (writeOpen rows k ok f) t"
proof -
  have u: "uniqueIds rows" using w by (simp add: withinLimits_def)
  have "sane x t" if x: "x \<in> set (writeOpen rows k ok f)" for x
  proof -
    obtain q where q: "q \<in> set rows" "x = (if target k ok q then f q else q)" using x by (auto simp: writeOpen_def)
    show ?thesis
    proof (cases "target k ok q")
      case True
      then show ?thesis using q f(2) target_unique [OF u r(1) q(1) r(2) True] by simp
    next
      case False
      then show ?thesis using q w by (simp add: withinLimits_def)
    qed
  qed
  then show ?thesis
    using sent made writeOpen_ids [of f rows k ok, OF f(1)] u
    unfolding withinLimits_def sums_gain sum_writeOpen [OF u r] by blast
qed

context challenge_store begin

lemma claim_limited:
  assumes l: "limited s t" and row: "row \<in> set (rows s)" "isOpen row t"
    and under: "failuresSince S s (ch_userId row) (t - HOUR) < WRONG_CODES_PER_HOUR"
    and c: "claimAttempt S s (ch_id row) WRONG_CODES_PER_CHALLENGE = (b, s1)"
  shows "limited s1 t \<and> (b \<longleftrightarrow> ch_attempts row < WRONG_CODES_PER_CHALLENGE)
    \<and> (b \<longrightarrow> row\<lparr>ch_attempts := ch_attempts row + 1\<rparr> \<in> set (rows s1)) \<and> (\<not> b \<longrightarrow> rows s1 = rows s)"
proof -
  let ?ok = "\<lambda>r. ch_attempts r < WRONG_CODES_PER_CHALLENGE"
  let ?f = "\<lambda>r :: challengeRow. r\<lparr>ch_attempts := ch_attempts r + 1\<rparr>"
  note u = limited_ids [OF l]
  have b: "b \<longleftrightarrow> (\<exists>r \<in> set (rows s). target (ch_id row) ?ok r)" and s1: "rows s1 = writeOpen (rows s) (ch_id row) ?ok ?f"
    using claim_rows [OF u c] by blast+
  have open': "target (ch_id row) (\<lambda>_. True) row" using row(2) by (simp add: target_def isOpen_def)
  show ?thesis
  proof (cases "?ok row")
    case True
    then have t: "target (ch_id row) ?ok row" using open' by (simp add: target_def)
    have "withinLimits (rows s1) t"
      unfolding s1
    proof (rule withinLimits_write [OF _ row(1) t])
      show "withinLimits (rows s) t" using l by (simp add: limited_def)
      show "sane (?f row) t" using l row(1) True by (auto simp: limited_def withinLimits_def sane_def)
      show "sumSends (sentSince v (t - HOUR)) (rows s)
        + (gain (sentSince v (t - HOUR)) ch_sends (?f row) - gain (sentSince v (t - HOUR)) ch_sends row) \<le> CODES_PER_HOUR" for v
        using l by (simp add: limited_def withinLimits_def gain_def sentSince_def)
      show "sumAttempts (madeSince v (t - HOUR)) (rows s)
        + (gain (madeSince v (t - HOUR)) ch_attempts (?f row) - gain (madeSince v (t - HOUR)) ch_attempts row) \<le> WRONG_CODES_PER_HOUR" for v
      proof (cases "v = ch_userId row")
        case True
        then show ?thesis using under by (simp add: failures_rows madeSince_def [abs_def] gain_def)
      next
        case False
        then show ?thesis using l by (simp add: limited_def withinLimits_def gain_def madeSince_def)
      qed
    qed simp
    moreover have "?f row \<in> set (rows s1)" unfolding s1 writeOpen_def using row(1) t by force
    ultimately show ?thesis using True b t row(1) by (auto simp: limited_def)
  next
    case False
    then have "\<not> target (ch_id row) ?ok r" if "r \<in> set (rows s)" for r
      using target_unique [OF u row(1) that open', of ?ok] by (auto simp: target_def)
    then show ?thesis using b s1 writeOpen_none [of "rows s" "ch_id row" ?ok ?f] False l by (auto simp: limited_def)
  qed
qed

lemma consume_limited:
  assumes l: "limited s t" and row: "row \<in> set (rows s)" "ch_consumedAt row = None" "1 \<le> ch_attempts row"
    and c: "consumeRow S s (ch_id row) at = (b, s')"
  shows "limited s' t \<and> b"
proof -
  let ?f = "\<lambda>r :: challengeRow. r\<lparr>ch_consumedAt := Some at, ch_attempts := ch_attempts r - 1\<rparr>"
  have t: "target (ch_id row) (\<lambda>_. True) row" using row(2) by (simp add: target_def)
  have s': "rows s' = writeOpen (rows s) (ch_id row) (\<lambda>_. True) ?f" and b
    using consume_rows [OF limited_ids [OF l] c] t row(1) by blast+
  have "withinLimits (rows s') t"
    unfolding s'
  proof (rule withinLimits_write [OF _ row(1) t])
    show "withinLimits (rows s) t" using l by (simp add: limited_def)
    show "sane (?f row) t" using l row by (auto simp: limited_def withinLimits_def sane_def)
    show "sumSends (sentSince v (t - HOUR)) (rows s)
        + (gain (sentSince v (t - HOUR)) ch_sends (?f row) - gain (sentSince v (t - HOUR)) ch_sends row) \<le> CODES_PER_HOUR" for v
      using l by (simp add: limited_def withinLimits_def gain_def sentSince_def)
    have le: "sumAttempts (madeSince v (t - HOUR)) (rows s) \<le> WRONG_CODES_PER_HOUR" for v
      using l by (simp add: limited_def withinLimits_def)
    show "sumAttempts (madeSince v (t - HOUR)) (rows s)
        + (gain (madeSince v (t - HOUR)) ch_attempts (?f row) - gain (madeSince v (t - HOUR)) ch_attempts row) \<le> WRONG_CODES_PER_HOUR" for v
      using le [of v] by (auto simp: gain_def madeSince_def)
  qed simp
  then show ?thesis using \<open>b\<close> by (simp add: limited_def)
qed

lemma send_limited:
  assumes l: "limited s t" and row: "row \<in> set (rows s)" "isOpen row t"
    and under: "sendsSince S s (ch_userId row) (t - HOUR) < CODES_PER_HOUR"
    and c: "recordSend S s (ch_id row) h t (codeExpiry t (ch_createdAt row)) = (b, s')"
  shows "limited s' t"
proof -
  let ?f = "\<lambda>r :: challengeRow. r\<lparr>ch_codeHash := h, ch_lastSentAt := t, ch_expiresAt := codeExpiry t (ch_createdAt row), ch_sends := ch_sends r + 1\<rparr>"
  have t: "target (ch_id row) (\<lambda>_. True) row" using row(2) by (simp add: target_def isOpen_def)
  have s': "rows s' = writeOpen (rows s) (ch_id row) (\<lambda>_. True) ?f"
    using send_rows [OF limited_ids [OF l] c] by blast
  have sane: "sane row t" using l row(1) by (simp add: limited_def withinLimits_def)
  then have recent: "sentSince (ch_userId row) (t - HOUR) row"
    using row(2) by (auto simp: sane_def isOpen_def sentSince_def challenge_limits)
  have "withinLimits (rows s') t"
    unfolding s'
  proof (rule withinLimits_write [OF _ row(1) t])
    show "withinLimits (rows s) t" using l by (simp add: limited_def)
    show "sane (?f row) t" using sane by (auto simp: sane_def codeExpiry_def)
    show "sumSends (sentSince v (t - HOUR)) (rows s)
        + (gain (sentSince v (t - HOUR)) ch_sends (?f row) - gain (sentSince v (t - HOUR)) ch_sends row) \<le> CODES_PER_HOUR" for v
    proof (cases "v = ch_userId row")
      case True
      then show ?thesis using under recent by (simp add: sends_rows sentSince_def [abs_def] gain_def HOUR_def MINUTE_def)
    next
      case False
      then show ?thesis using l by (simp add: limited_def withinLimits_def gain_def sentSince_def)
    qed
    show "sumAttempts (madeSince v (t - HOUR)) (rows s)
        + (gain (madeSince v (t - HOUR)) ch_attempts (?f row) - gain (madeSince v (t - HOUR)) ch_attempts row) \<le> WRONG_CODES_PER_HOUR" for v
      using l by (simp add: limited_def withinLimits_def gain_def madeSince_def)
  qed simp
  then show ?thesis by (simp add: limited_def)
qed

lemma startNew_limited:
  assumes "limited s t" "cd_store D = S" "fr_id fr \<notin> ch_id ` set (rows s)"
  shows "limited (snd (startNew D s u k sentTo t fr)) t"
  using assms end_limited create_limited
  by (auto simp: startNew_def underHourlyLimit_def Let_def sane_def codeExpiry_def challenge_limits)

lemma end_ids: "limited s t \<Longrightarrow> ch_id ` set (rows (endRow S s k at)) = ch_id ` set (rows s)"
proof -
  assume "limited s t"
  from end_rows [OF limited_ids [OF this], of k at] have "map ch_id (rows (endRow S s k at)) = map ch_id (rows s)"
    by (simp add: writeOpen_def)
  then show ?thesis by (metis list.set_map)
qed

lemma start_limited:
  assumes l: "limited s t" and D: "cd_store D = S" and new: "fr_id fr \<notin> ch_id ` set (rows s)"
  shows "limited (snd (startChallenge D s u email k t fr)) t"
proof (cases "findOpen S s u k (trim email) t")
  case None
  then show ?thesis using startNew_limited [OF l D new] D by (simp add: startChallenge_def)
next
  case (Some op)
  show ?thesis
  proof (cases "ch_attempts op \<ge> WRONG_CODES_PER_CHALLENGE")
    case True
    have "limited (endRow S s (ch_id op) t) t" by (rule end_limited [OF l])
    moreover have "fr_id fr \<notin> ch_id ` set (rows (endRow S s (ch_id op) t))" using new end_ids [OF l] by simp
    ultimately show ?thesis using startNew_limited [OF _ D] Some True D by (simp add: startChallenge_def)
  next
    case False
    obtain b s' where r: "rotateToken S s (ch_id op) (cd_hashToken D (fr_token fr)) = (b, s')" by fastforce
    have op: "op \<in> set (rows s)" "isOpen op t" using find_open [OF Some] by blast+
    then have "b" using rotate_rows [OF limited_ids [OF l] r] by (auto simp: target_def isOpen_def)
    then show ?thesis using rotate_limited [OF l r] Some False D op r by (simp add: startChallenge_def Let_def)
  qed
qed

lemma resend_limited:
  assumes l: "limited s t" and D: "cd_store D = S"
  shows "limited (snd (resend D s token t fr)) t"
proof (cases "openByToken D s token t")
  case (Inl e)
  then show ?thesis using l by (simp add: resend_def)
next
  case (Inr row)
  have row: "row \<in> set (rows s)" "isOpen row t"
    using Inr D find_token by (auto simp: openByToken_def split: option.splits if_splits)
  obtain b s' where r: "recordSend S s (ch_id row) (cd_hmac D (fr_code fr) (cd_key D) (ch_id row)) t (codeExpiry t (ch_createdAt row)) = (b, s')"
    by fastforce
  then show ?thesis using l send_limited [OF l row _ r] D Inr by (auto simp: resend_def underHourlyLimit_def Let_def)
qed

lemma verify_limited:
  assumes l: "limited s t" and D: "cd_store D = S"
  shows "limited (snd (verify D s token code t)) t"
proof (cases "findByTokenHash S s (cd_hashToken D token)")
  case None
  then show ?thesis using l D by (simp add: verify_def)
next
  case (Some row)
  have row: "row \<in> set (rows s)" using find_token [OF Some] by blast
  show ?thesis
  proof (cases "isOpen row t \<and> failuresSince S s (ch_userId row) (t - HOUR) < WRONG_CODES_PER_HOUR")
    case False
    then show ?thesis using l D Some by (auto simp: verify_def)
  next
    case True
    obtain b s1 where c: "claimAttempt S s (ch_id row) WRONG_CODES_PER_CHALLENGE = (b, s1)" by fastforce
    note cl = claim_limited [OF l row _ _ c]
    obtain b2 s2 where c2: "consumeRow S s1 (ch_id row) t = (b2, s2)" by fastforce
    have "limited s2 t" if b
    proof -
      let ?r = "row\<lparr>ch_attempts := ch_attempts row + 1\<rparr>"
      have "?r \<in> set (rows s1)" using cl True that by blast
      moreover have "1 \<le> ch_attempts ?r" using l row by (auto simp: limited_def withinLimits_def sane_def)
      moreover have "ch_consumedAt ?r = None" using True by (simp add: isOpen_def)
      ultimately show ?thesis using consume_limited [of s1 t ?r t b2 s2] cl True c2 by simp
    qed
    then show ?thesis using cl True Some D c c2 by (auto simp: verify_def)
  qed
qed

end

section \<open>Sequences of requests\<close>

text \<open>The calls of the service in the order the store sees them, each no earlier than the one before; the id of a new challenge is new.\<close>

inductive challengeStep :: "'s challengeDeps \<Rightarrow> ('s \<Rightarrow> challengeRow list) \<Rightarrow> 's \<Rightarrow> instant \<Rightarrow> 's \<Rightarrow> instant \<Rightarrow> bool" for D rows where
  "t \<le> at \<Longrightarrow> fr_id fr \<notin> ch_id ` set (rows s) \<Longrightarrow> challengeStep D rows s t (snd (startChallenge D s u email k at fr)) at"
| "t \<le> at \<Longrightarrow> challengeStep D rows s t (snd (resend D s token at fr)) at"
| "t \<le> at \<Longrightarrow> challengeStep D rows s t (snd (verify D s token code at)) at"
| "t \<le> at \<Longrightarrow> challengeStep D rows s t (endAll D s u at) at"

inductive challengeReachable :: "'s challengeDeps \<Rightarrow> ('s \<Rightarrow> challengeRow list) \<Rightarrow> 's \<Rightarrow> instant \<Rightarrow> bool" for D rows where
  begins: "rows s = [] \<Longrightarrow> challengeReachable D rows s t"
| continues: "challengeReachable D rows s t \<Longrightarrow> challengeStep D rows s t s' t' \<Longrightarrow> challengeReachable D rows s' t'"

lemma withinLimits_empty: "withinLimits [] t"
  by (simp add: withinLimits_def uniqueIds_def sumSends_def sumAttempts_def challenge_limits)

context challenge_store begin

lemma limited_later: "limited s t \<Longrightarrow> t \<le> t' \<Longrightarrow> limited s t'"
  unfolding limited_def by (rule withinLimits_later)

lemma step_limited:
  assumes "challengeStep D rows s t s' t'" "cd_store D = S" "limited s t"
  shows "limited s' t'"
  using assms(1)
proof cases
  case (1 fr u email k)
  then show ?thesis using start_limited limited_later assms(2,3) by blast
next
  case (2 token fr)
  then show ?thesis using resend_limited limited_later assms(2,3) by blast
next
  case (3 token code)
  then show ?thesis using verify_limited limited_later assms(2,3) by blast
next
  case (4 u)
  then show ?thesis using end_all_limited limited_later assms(2,3) by (auto simp: endAll_def)
qed

lemma reachable_limited: "challengeReachable D rows s t \<Longrightarrow> cd_store D = S \<Longrightarrow> limited s t"
proof (induction rule: challengeReachable.induct)
  case (begins s t)
  then show ?case by (simp add: limited_def withinLimits_empty)
next
  case (continues s t s' t')
  then show ?case using step_limited by blast
qed

end

section \<open>Properties\<close>

text \<open>
  C14. Whatever is asked, in whatever order: no challenge counts more than five guesses, the challenges an
  account made in the last hour hold at most ten wrong codes, and those last sent in the last hour at
  most five codes.
\<close>

theorem challenge_limits_hold:
  assumes "cd_store D = prismaStore" "challengeReachable D (\<lambda>s. s) s t"
  shows "(\<forall>r \<in> set s. 0 \<le> ch_attempts r \<and> ch_attempts r \<le> 5)
    \<and> failuresSince prismaStore s u (t - HOUR) \<le> 10 \<and> sendsSince prismaStore s u (t - HOUR) \<le> 5"
proof -
  have "withinLimits s t"
    using prisma.reachable_limited [OF assms(2,1)] by (simp add: prisma.limited_def)
  then show ?thesis
    by (simp add: prisma.failures_rows prisma.sends_rows withinLimits_def sane_def sentSince_def [abs_def] madeSince_def [abs_def]
        WRONG_CODES_PER_CHALLENGE_def CODES_PER_HOUR_def WRONG_CODES_PER_HOUR_def)
qed

definition sampleDeps :: "challengeRow list challengeDeps" where
  "sampleDeps = \<lparr>cd_store = prismaStore, cd_key = ''k'', cd_hmac = (\<lambda>code key cid. replicate 58 CHR ''0'' @ take 6 (code @ ''aaaaaa'')),
     cd_hashToken = (\<lambda>token. token)\<rparr>"

definition sampleFresh :: "string \<Rightarrow> fresh" where
  "sampleFresh n = \<lparr>fr_id = n, fr_token = ''token'' @ n, fr_code = ''123456'', fr_mailGoes = True\<rparr>"

definition sampleOpen :: "challengeRow list" where
  "sampleOpen = snd (startChallenge sampleDeps [] ''u'' ''a@b.c'' VERIFY_EMAIL 0 (sampleFresh ''1''))"

theorem challenge_limits_hold_witness:
  "failuresSince prismaStore (snd (verify sampleDeps sampleOpen ''token1'' ''000000'' 5000)) ''u'' (5000 - HOUR) \<le> 10"
proof -
  let ?s = "snd (verify sampleDeps sampleOpen ''token1'' ''000000'' 5000)"
  have "challengeReachable sampleDeps (\<lambda>s. s) [] 0" by (rule challengeReachable.begins) simp
  then have "challengeReachable sampleDeps (\<lambda>s. s) sampleOpen 0"
    unfolding sampleOpen_def by (rule challengeReachable.continues) (intro challengeStep.intros; simp)
  then have "challengeReachable sampleDeps (\<lambda>s. s) ?s 5000"
    by (rule challengeReachable.continues) (intro challengeStep.intros; simp)
  then show ?thesis using challenge_limits_hold [of sampleDeps ?s 5000 "''u''"] by (simp add: sampleDeps_def)
qed

lemma find_map_same: "(\<And>x. P (f x) = P x) \<Longrightarrow> find P (map f xs) = map_option f (find P xs)"
  by (induction xs) auto

lemma verify_prisma:
  assumes D: "cd_store D = prismaStore" and ids: "uniqueIds s"
    and row: "find (\<lambda>r. ch_tokenHash r = cd_hashToken D token) s = Some row" "isOpen row at"
    and under: "failuresSince prismaStore s (ch_userId row) (at - HOUR) < WRONG_CODES_PER_HOUR"
    and few: "ch_attempts row < WRONG_CODES_PER_CHALLENGE"
  shows "verify D s token code at =
     (if codeMatches (cd_hmac D) code (ch_codeHash row) (cd_key D) (ch_id row)
      then (Inr \<lparr>ver_userId = ch_userId row, ver_kind = ch_kind row, ver_sentTo = ch_sentTo row\<rparr>,
            map (\<lambda>r. if ch_id r = ch_id row then r\<lparr>ch_consumedAt := Some at\<rparr> else r) s)
      else (Inl WrongCode, map (\<lambda>r. if ch_id r = ch_id row then r\<lparr>ch_attempts := ch_attempts r + 1\<rparr> else r) s))"
proof -
  let ?ok = "\<lambda>r. ch_attempts r < WRONG_CODES_PER_CHALLENGE"
  have mem: "row \<in> set s" using row(1) find_mem by fast
  have t: "target (ch_id row) ok row" if "ok row" for ok using row(2) that by (simp add: target_def isOpen_def)
  have only: "target (ch_id row) ok r \<longleftrightarrow> ch_id r = ch_id row" if "r \<in> set s" "ok row" for r ok
    using that t [of ok, OF that(2)] ids mem by (auto simp: target_def uniqueIds_def distinct_map dest: inj_onD)
  define s1 where "s1 = map (\<lambda>r. if ch_id r = ch_id row then r\<lparr>ch_attempts := ch_attempts r + 1\<rparr> else r) s"
  have c: "claimAttempt prismaStore s (ch_id row) WRONG_CODES_PER_CHALLENGE = (True, s1)"
    using dbUpdate_write [OF ids, of "ch_id row" ?ok] mem t [of ?ok, OF few] only [of _ ?ok, OF _ few]
    by (auto simp: prismaStore_def dbClaimAttempt_def writeOpen_def s1_def)
  have ids1: "uniqueIds s1" using ids by (simp add: uniqueIds_def s1_def comp_def if_distrib [of ch_id] cong: if_cong)
  have s2: "consumeRow prismaStore s1 (ch_id row) at =
      (True, map (\<lambda>r. if ch_id r = ch_id row then r\<lparr>ch_consumedAt := Some at\<rparr> else r) s)"
  proof -
    have "row\<lparr>ch_attempts := ch_attempts row + 1\<rparr> \<in> set s1" using mem by (force simp: s1_def)
    then have "\<exists>r \<in> set s1. target (ch_id row) (\<lambda>_. True) r"
      by (rule bexI [rotated]) (use row(2) in \<open>simp add: target_def isOpen_def\<close>)
    moreover have "ch_consumedAt r = None" if "r \<in> set s" "ch_id r = ch_id row" for r
      using only [OF that(1), of "\<lambda>_. True"] that(2) by (simp add: target_def)
    ultimately show ?thesis
      by (simp add: prismaStore_def dbConsume_def dbUpdate_open [OF ids1] writeOpen_def target_def)
        (simp add: s1_def)
  qed
  have "findByTokenHash prismaStore s (cd_hashToken D token) = Some row" using row(1) by (simp add: prismaStore_def)
  then show ?thesis using row(2) under c s2 by (simp add: verify_def D s1_def)
qed

text \<open>
  C15. A code signs in at most once and only as it should: when \<open>verify\<close> answers with a person, the token
  was that of an open challenge of theirs with guesses left and the code matched, and every later try
  of the same token, with any code, is refused; a wrong code is counted on the challenge.
\<close>

theorem verify_single_use:
  assumes "cd_store D = prismaStore" "uniqueIds s" "verify D s token code at = (res, s')"
    and "find (\<lambda>r. ch_tokenHash r = cd_hashToken D token) s = Some row"
  shows "(\<forall>v. res = Inr v \<longrightarrow>
        isOpen row at \<and> ch_attempts row < 5 \<and> codeMatches (cd_hmac D) code (ch_codeHash row) (cd_key D) (ch_id row)
          \<and> ver_userId v = ch_userId row \<and> (\<forall>code2 at2. verify D s' token code2 at2 = (Inl SignInExpired, s')))
    \<and> (res = Inl WrongCode \<longrightarrow>
        \<not> codeMatches (cd_hmac D) code (ch_codeHash row) (cd_key D) (ch_id row)
          \<and> find (\<lambda>r. ch_tokenHash r = cd_hashToken D token) s' = Some (row\<lparr>ch_attempts := ch_attempts row + 1\<rparr>))"
proof (cases "isOpen row at \<and> failuresSince prismaStore s (ch_userId row) (at - HOUR) < WRONG_CODES_PER_HOUR
    \<and> ch_attempts row < WRONG_CODES_PER_CHALLENGE")
  case True
  let ?m = "codeMatches (cd_hmac D) code (ch_codeHash row) (cd_key D) (ch_id row)"
  note v = verify_prisma [OF assms(1,2,4), of at code, unfolded assms(3)]
  show ?thesis
  proof (cases ?m)
    case m: True
    let ?f = "\<lambda>r. if ch_id r = ch_id row then r\<lparr>ch_consumedAt := Some at\<rparr> else r"
    have r: "res = Inr \<lparr>ver_userId = ch_userId row, ver_kind = ch_kind row, ver_sentTo = ch_sentTo row\<rparr>" "s' = map ?f s"
      using v True m by simp_all
    have "find (\<lambda>r. ch_tokenHash r = cd_hashToken D token) s' = Some (row\<lparr>ch_consumedAt := Some at\<rparr>)"
      unfolding r by (subst find_map_same) (simp_all add: assms(4))
    then have "verify D s' token code2 at2 = (Inl SignInExpired, s')" for code2 at2
      by (simp add: verify_def assms(1) prismaStore_def isOpen_def)
    then show ?thesis using True m r(1) by (simp add: WRONG_CODES_PER_CHALLENGE_def)
  next
    case m: False
    let ?f = "\<lambda>r. if ch_id r = ch_id row then r\<lparr>ch_attempts := ch_attempts r + 1\<rparr> else r"
    have r: "res = Inl WrongCode" "s' = map ?f s" using v True m by simp_all
    have "find (\<lambda>r. ch_tokenHash r = cd_hashToken D token) s' = Some (row\<lparr>ch_attempts := ch_attempts row + 1\<rparr>)"
      unfolding r by (subst find_map_same) (simp_all add: assms(4))
    then show ?thesis using m r(1) by simp
  qed
next
  case False
  have "find (\<lambda>r. ch_tokenHash r = cd_hashToken D token) s = Some row" by (rule assms(4))
  moreover have "row \<in> set s" using assms(4) find_mem by fast
  moreover have "\<not> fst (claimAttempt prismaStore s (ch_id row) WRONG_CODES_PER_CHALLENGE)"
    if "isOpen row at" "\<not> ch_attempts row < WRONG_CODES_PER_CHALLENGE"
  proof -
    have "\<not> target (ch_id row) (\<lambda>r. ch_attempts r < WRONG_CODES_PER_CHALLENGE) r" if "r \<in> set s" for r
      using target_unique [OF assms(2) \<open>row \<in> set s\<close> that, of "ch_id row" "\<lambda>_. True"] \<open>isOpen row at\<close>
        \<open>\<not> ch_attempts row < _\<close> by (auto simp: target_def isOpen_def)
    then show ?thesis using dbUpdate_write [OF assms(2)] by (auto simp: prismaStore_def dbClaimAttempt_def)
  qed
  ultimately have "res = Inl SignInExpired \<or> res = Inl TooManyWrongCodesThisHour \<or> res = Inl TooManyWrongCodes"
    using False assms(3) by (auto simp: verify_def assms(1) prismaStore_def split: if_splits prod.splits)
  then show ?thesis by auto
qed

theorem verify_single_use_witness:
  "\<exists>v s'. verify sampleDeps sampleOpen ''token1'' ''123 456'' 5000 = (Inr v, s') \<and> ver_userId v = ''u''
     \<and> verify sampleDeps s' ''token1'' ''123456'' 6000 = (Inl SignInExpired, s')"
proof -
  have u: "uniqueIds sampleOpen" by code_simp
  obtain row where row: "find (\<lambda>r. ch_tokenHash r = cd_hashToken sampleDeps ''token1'') sampleOpen = Some row" "ch_userId row = ''u''"
    by (simp add: sampleOpen_def startChallenge_def startNew_def sampleDeps_def sampleFresh_def prismaStore_def dbFindOpen_def
        underHourlyLimit_def sumSends_def challenge_limits Let_def)
  obtain res s' where v: "verify sampleDeps sampleOpen ''token1'' ''123 456'' 5000 = (res, s')" by fastforce
  have "case fst (verify sampleDeps sampleOpen ''token1'' ''123 456'' 5000) of Inl _ \<Rightarrow> False | Inr _ \<Rightarrow> True" by code_simp
  then obtain w where "res = Inr w" using v by (auto split: sum.splits)
  then show ?thesis using verify_single_use [OF _ u v row(1)] v row(2) by (auto simp: sampleDeps_def)
qed

text \<open>
  The gap of a minute holds for one challenge only: after five wrong codes, signing in again within the
  minute ends the challenge and sends the account another code at once.
\<close>

fun wrongTries :: "nat \<Rightarrow> challengeRow list \<Rightarrow> challengeRow list" where
  "wrongTries 0 s = s"
| "wrongTries (Suc n) s = wrongTries n (snd (verify sampleDeps s ''token1'' ''000000'' 5000))"

definition codeSentBy :: "signInError + challengeView \<Rightarrow> bool" where
  "codeSentBy r = (case r of Inl _ \<Rightarrow> False | Inr v \<Rightarrow> cv_codeSent v)"

theorem second_code_within_the_minute:
  "codeSentBy (fst (startChallenge sampleDeps [] ''u'' ''a@b.c'' VERIFY_EMAIL 0 (sampleFresh ''1'')))
    \<and> codeSentBy (fst (startChallenge sampleDeps (wrongTries 5 sampleOpen) ''u'' ''a@b.c'' VERIFY_EMAIL 10000 (sampleFresh ''2'')))
    \<and> 10000 < RESEND_GAP_MS"
  by code_simp

end
