(* ===== verification/RefreshTokens.thy ===== *)
theory RefreshTokens
  imports Prelude
begin

text \<open>
  \<open>modules/auth/token-service.ts\<close> on its two stores (\<open>memory-refresh-token-store.ts\<close> and
  \<open>prisma-refresh-token-store.ts\<close>): issuing, spending and revoking refresh tokens. The signing and
  checking of a JWT (the package jsonwebtoken), the SHA-256 of a token and the secret box are parameters.
\<close>

section \<open>Stores\<close>

datatype rotateResult =
    Rotated ident "ident option"
  | Reused ident "ident option" instant "string option"
  | InvalidToken

record refreshRow =
  rf_userId :: ident
  rf_hash :: string
  rf_expiresAt :: instant
  rf_familyId :: "ident option"
  rf_revokedAt :: "instant option"
  rf_successorEnc :: "string option"
  rf_biometric :: bool

text \<open>The operations after \<open>revokeAllForUser\<close> may be missing from a store.\<close>

record 's tokenStore =
  saveToken :: "'s \<Rightarrow> ident \<Rightarrow> string \<Rightarrow> instant \<Rightarrow> ident option \<Rightarrow> bool \<Rightarrow> 's"
  findValid :: "'s \<Rightarrow> string \<Rightarrow> instant \<Rightarrow> ident option"
  revokeHash :: "'s \<Rightarrow> string \<Rightarrow> instant \<Rightarrow> 's"
  revokeUser :: "'s \<Rightarrow> ident \<Rightarrow> instant \<Rightarrow> 's"
  rotateHash :: "('s \<Rightarrow> string \<Rightarrow> instant \<Rightarrow> rotateResult \<times> 's) option"
  revokeFamily :: "('s \<Rightarrow> ident \<Rightarrow> instant \<Rightarrow> 's) option"
  setSuccessor :: "('s \<Rightarrow> string \<Rightarrow> string \<Rightarrow> 's) option"
  revokeBiometricKeys :: "('s \<Rightarrow> ident \<Rightarrow> instant \<Rightarrow> 's) option"
  extendBiometricKeys :: "('s \<Rightarrow> ident \<Rightarrow> instant \<Rightarrow> instant \<Rightarrow> 's) option"

definition newRow :: "ident \<Rightarrow> string \<Rightarrow> instant \<Rightarrow> ident option \<Rightarrow> bool \<Rightarrow> refreshRow" where
  "newRow u h ex fam bio = \<lparr>rf_userId = u, rf_hash = h, rf_expiresAt = ex, rf_familyId = fam, rf_revokedAt = None,
     rf_successorEnc = None, rf_biometric = bio\<rparr>"

definition updateWhere :: "(refreshRow \<Rightarrow> bool) \<Rightarrow> (refreshRow \<Rightarrow> refreshRow) \<Rightarrow> refreshRow list \<Rightarrow> refreshRow list" where
  "updateWhere P f rows = map (\<lambda>r. if P r then f r else r) rows"

definition revoked :: "instant \<Rightarrow> refreshRow \<Rightarrow> refreshRow" where
  "revoked at r = r\<lparr>rf_revokedAt := Some at\<rparr>"

definition saveRow :: "refreshRow list \<Rightarrow> ident \<Rightarrow> string \<Rightarrow> instant \<Rightarrow> ident option \<Rightarrow> bool \<Rightarrow> refreshRow list" where
  "saveRow rows u h ex fam bio = rows @ [newRow u h ex fam bio]"

definition validOwner :: "refreshRow list \<Rightarrow> string \<Rightarrow> instant \<Rightarrow> ident option" where
  "validOwner rows h at = map_option rf_userId (find (\<lambda>r. rf_hash r = h \<and> rf_revokedAt r = None \<and> rf_expiresAt r > at) rows)"

definition revokeAllOf :: "refreshRow list \<Rightarrow> ident \<Rightarrow> instant \<Rightarrow> refreshRow list" where
  "revokeAllOf rows u at = updateWhere (\<lambda>r. rf_userId r = u \<and> rf_revokedAt r = None) (revoked at) rows"

definition revokeFamilyOf :: "refreshRow list \<Rightarrow> ident \<Rightarrow> instant \<Rightarrow> refreshRow list" where
  "revokeFamilyOf rows fam at = updateWhere (\<lambda>r. rf_familyId r = Some fam \<and> rf_revokedAt r = None) (revoked at) rows"

definition revokeKeysOf :: "refreshRow list \<Rightarrow> ident \<Rightarrow> instant \<Rightarrow> refreshRow list" where
  "revokeKeysOf rows u at = updateWhere (\<lambda>r. rf_userId r = u \<and> rf_biometric r \<and> rf_revokedAt r = None) (revoked at) rows"

definition extendKeysOf :: "refreshRow list \<Rightarrow> ident \<Rightarrow> instant \<Rightarrow> instant \<Rightarrow> refreshRow list" where
  "extendKeysOf rows u ex at =
     updateWhere (\<lambda>r. rf_userId r = u \<and> rf_biometric r \<and> rf_revokedAt r = None \<and> rf_expiresAt r > at \<and> rf_expiresAt r < ex)
       (\<lambda>r. r\<lparr>rf_expiresAt := ex\<rparr>) rows"

subsection \<open>In memory: the first row of a hash is the one written\<close>

fun writeFirst :: "(refreshRow \<Rightarrow> bool) \<Rightarrow> (refreshRow \<Rightarrow> refreshRow) \<Rightarrow> refreshRow list \<Rightarrow> refreshRow list" where
  "writeFirst P f [] = []"
| "writeFirst P f (r # rs) = (if P r then f r # rs else r # writeFirst P f rs)"

definition memRevoke :: "refreshRow list \<Rightarrow> string \<Rightarrow> instant \<Rightarrow> refreshRow list" where
  "memRevoke rows h at = writeFirst (\<lambda>r. rf_hash r = h \<and> rf_revokedAt r = None) (revoked at) rows"

definition memRotate :: "refreshRow list \<Rightarrow> string \<Rightarrow> instant \<Rightarrow> rotateResult \<times> refreshRow list" where
  "memRotate rows h now =
     (case find (\<lambda>r. rf_hash r = h) rows of
        None \<Rightarrow> (InvalidToken, rows)
      | Some r \<Rightarrow>
          if rf_expiresAt r \<le> now then (InvalidToken, rows)
          else (case rf_revokedAt r of
                  None \<Rightarrow> (Rotated (rf_userId r) (rf_familyId r), writeFirst (\<lambda>r. rf_hash r = h) (revoked now) rows)
                | Some t \<Rightarrow> (Reused (rf_userId r) (rf_familyId r) t (rf_successorEnc r), rows)))"

definition memSetSuccessor :: "refreshRow list \<Rightarrow> string \<Rightarrow> string \<Rightarrow> refreshRow list" where
  "memSetSuccessor rows h enc = writeFirst (\<lambda>r. rf_hash r = h) (\<lambda>r. r\<lparr>rf_successorEnc := Some enc\<rparr>) rows"

definition memoryTokens :: "refreshRow list tokenStore" where
  "memoryTokens =
     \<lparr>saveToken = saveRow, findValid = validOwner, revokeHash = memRevoke, revokeUser = revokeAllOf,
      rotateHash = Some memRotate, revokeFamily = Some revokeFamilyOf, setSuccessor = Some memSetSuccessor,
      revokeBiometricKeys = Some revokeKeysOf, extendBiometricKeys = Some extendKeysOf\<rparr>"

subsection \<open>In the database\<close>

definition dbRevoke :: "refreshRow list \<Rightarrow> string \<Rightarrow> instant \<Rightarrow> refreshRow list" where
  "dbRevoke rows h at = updateWhere (\<lambda>r. rf_hash r = h \<and> rf_revokedAt r = None) (revoked at) rows"

definition dbRotate :: "refreshRow list \<Rightarrow> string \<Rightarrow> instant \<Rightarrow> rotateResult \<times> refreshRow list" where
  "dbRotate rows h now =
     (let P = (\<lambda>r. rf_hash r = h \<and> rf_revokedAt r = None \<and> rf_expiresAt r > now);
          count = length (filter P rows);
          rows' = updateWhere P (revoked now) rows
      in case find (\<lambda>r. rf_hash r = h) rows' of
           None \<Rightarrow> (InvalidToken, rows')
         | Some r \<Rightarrow>
             if count = 1 then (Rotated (rf_userId r) (rf_familyId r), rows')
             else (case rf_revokedAt r of
                     Some t \<Rightarrow>
                       if rf_expiresAt r > now then (Reused (rf_userId r) (rf_familyId r) t (rf_successorEnc r), rows')
                       else (InvalidToken, rows')
                   | None \<Rightarrow> (InvalidToken, rows')))"

definition dbSetSuccessor :: "refreshRow list \<Rightarrow> string \<Rightarrow> string \<Rightarrow> refreshRow list" where
  "dbSetSuccessor rows h enc = updateWhere (\<lambda>r. rf_hash r = h) (\<lambda>r. r\<lparr>rf_successorEnc := Some enc\<rparr>) rows"

definition prismaTokens :: "refreshRow list tokenStore" where
  "prismaTokens =
     \<lparr>saveToken = saveRow, findValid = validOwner, revokeHash = dbRevoke, revokeUser = revokeAllOf,
      rotateHash = Some dbRotate, revokeFamily = Some revokeFamilyOf, setSuccessor = Some dbSetSuccessor,
      revokeBiometricKeys = Some revokeKeysOf, extendBiometricKeys = Some extendKeysOf\<rparr>"

section \<open>The service\<close>

datatype tokenType = Access | Refresh

record tokenClaims =
  cl_sub :: "ident option"
  cl_type :: "tokenType option"
  cl_biometric :: bool
  cl_ver :: int
  cl_roles :: "string list"
  cl_jti :: ident

record tokenUser =
  tu_id :: ident
  tu_roles :: "string list"
  tu_tokenVersion :: "int option"

record secretBox =
  encryptBox :: "string \<Rightarrow> string"
  decryptBox :: "string \<Rightarrow> string option"

record 's tokenDeps =
  td_accessSecret :: string
  td_refreshSecret :: string
  td_accessTtl :: int
  td_refreshTtl :: int
  td_store :: "'s tokenStore"
  td_reuseGraceMs :: int
  td_box :: "secretBox option"
  td_replayWindowMs :: int
  td_sign :: "tokenClaims \<Rightarrow> string \<Rightarrow> int \<Rightarrow> string"
  td_verify :: "string \<Rightarrow> string \<Rightarrow> tokenClaims option"
  td_hash :: "string \<Rightarrow> string"

datatype refreshFailure = FInvalid | FSuperseded | FReused

datatype refreshOutcome = RefreshOk ident "ident option" "string option" | RefreshFailed refreshFailure

definition BIOMETRIC_KEY_MAX_TTL :: int where "BIOMETRIC_KEY_MAX_TTL = 365 * 24 * 3600"

definition issueAccessToken :: "'s tokenDeps \<Rightarrow> tokenUser \<Rightarrow> string" where
  "issueAccessToken D user =
     td_sign D \<lparr>cl_sub = Some (tu_id user), cl_type = Some Access, cl_biometric = False,
       cl_ver = (case tu_tokenVersion user of None \<Rightarrow> 0 | Some v \<Rightarrow> v), cl_roles = tu_roles user, cl_jti = []\<rparr>
       (td_accessSecret D) (td_accessTtl D)"

text \<open>\<open>jti\<close> and \<open>family\<close> are the random ids drawn; \<open>family\<close> is used when none is passed.\<close>

definition issueTokens :: "'s tokenDeps \<Rightarrow> 's \<Rightarrow> tokenUser \<Rightarrow> ident option \<Rightarrow> ident \<Rightarrow> ident \<Rightarrow> instant \<Rightarrow> (string \<times> string) \<times> 's" where
  "issueTokens D s user familyId jti family at =
     (let accessToken = issueAccessToken D user;
          refreshToken = td_sign D \<lparr>cl_sub = Some (tu_id user), cl_type = Some Refresh, cl_biometric = False, cl_ver = 0,
            cl_roles = [], cl_jti = jti\<rparr> (td_refreshSecret D) (td_refreshTtl D);
          expiresAt = at + td_refreshTtl D * 1000;
          s1 = saveToken (td_store D) s (tu_id user) (td_hash D refreshToken) expiresAt
                 (Some (case familyId of None \<Rightarrow> family | Some f \<Rightarrow> f)) False;
          s2 = (case extendBiometricKeys (td_store D) of None \<Rightarrow> s1 | Some ext \<Rightarrow> ext s1 (tu_id user) expiresAt at)
      in ((accessToken, refreshToken), s2))"

definition recordSuccessor :: "'s tokenDeps \<Rightarrow> 's \<Rightarrow> string \<Rightarrow> string \<Rightarrow> 's" where
  "recordSuccessor D s spent successor =
     (case (td_box D, setSuccessor (td_store D)) of
        (Some box, Some setS) \<Rightarrow> setS s (td_hash D spent) (encryptBox box successor)
      | _ \<Rightarrow> s)"

definition replayableSuccessor :: "'s tokenDeps \<Rightarrow> 's \<Rightarrow> ident \<Rightarrow> instant \<Rightarrow> string option \<Rightarrow> instant \<Rightarrow> string option" where
  "replayableSuccessor D s userId revokedAt successorEnc at =
     (case (td_box D, successorEnc) of
        (Some box, Some enc) \<Rightarrow>
          if enc = [] \<or> at - revokedAt \<ge> td_replayWindowMs D then None
          else (case decryptBox box enc of
                  None \<Rightarrow> None
                | Some successor \<Rightarrow>
                    if findValid (td_store D) s (td_hash D successor) at = Some userId then Some successor else None)
      | _ \<Rightarrow> None)"

definition verifyRefresh :: "'s tokenDeps \<Rightarrow> string \<Rightarrow> tokenClaims option" where
  "verifyRefresh D token =
     (case td_verify D token (td_refreshSecret D) of
        None \<Rightarrow> None
      | Some claims \<Rightarrow> if cl_type claims = Some Refresh then Some claims else None)"

definition refreshTokenValid :: "'s tokenDeps \<Rightarrow> 's \<Rightarrow> string \<Rightarrow> instant \<Rightarrow> bool" where
  "refreshTokenValid D s token at \<longleftrightarrow> findValid (td_store D) s (td_hash D token) at \<noteq> None"

definition issueBiometricKey :: "'s tokenDeps \<Rightarrow> 's \<Rightarrow> tokenUser \<Rightarrow> ident \<Rightarrow> ident \<Rightarrow> instant \<Rightarrow> (string \<times> string) \<times> 's" where
  "issueBiometricKey D s user jti family at =
     (let key = td_sign D \<lparr>cl_sub = Some (tu_id user), cl_type = Some Refresh, cl_biometric = True, cl_ver = 0,
            cl_roles = [], cl_jti = jti\<rparr> (td_refreshSecret D) (max (td_refreshTtl D) BIOMETRIC_KEY_MAX_TTL);
          keyId = td_hash D key
      in ((key, keyId), saveToken (td_store D) s (tu_id user) keyId (at + td_refreshTtl D * 1000) (Some family) True))"

definition revokeBiometricKey :: "'s tokenDeps \<Rightarrow> 's \<Rightarrow> ident \<Rightarrow> string \<Rightarrow> instant \<Rightarrow> 's" where
  "revokeBiometricKey D s userId keyId at =
     (if findValid (td_store D) s keyId at = Some userId then revokeHash (td_store D) s keyId at else s)"

text \<open>\<open>!claims.sub\<close> is true of a missing and of an empty subject.\<close>

definition sessionOwner :: "'s tokenDeps \<Rightarrow> 's \<Rightarrow> string \<Rightarrow> instant \<Rightarrow> ident option" where
  "sessionOwner D s token at =
     (case verifyRefresh D token of
        None \<Rightarrow> None
      | Some claims \<Rightarrow>
          (case cl_sub claims of
             None \<Rightarrow> None
           | Some sub \<Rightarrow>
               if cl_biometric claims \<or> sub = [] then None
               else if findValid (td_store D) s (td_hash D token) at = Some sub then Some sub else None))"

definition verifyBiometricKey :: "'s tokenDeps \<Rightarrow> 's \<Rightarrow> string \<Rightarrow> instant \<Rightarrow> ident option" where
  "verifyBiometricKey D s key at =
     (case verifyRefresh D key of
        None \<Rightarrow> None
      | Some claims \<Rightarrow>
          (case cl_sub claims of
             None \<Rightarrow> None
           | Some sub \<Rightarrow>
               if \<not> cl_biometric claims \<or> sub = [] then None
               else if findValid (td_store D) s (td_hash D key) at = Some sub then Some sub else None))"

text \<open>What happens to a spent token that is presented again.\<close>

definition presentedAgain :: "'s tokenDeps \<Rightarrow> 's \<Rightarrow> ident \<Rightarrow> ident option \<Rightarrow> instant \<Rightarrow> string option \<Rightarrow> instant \<Rightarrow> refreshOutcome \<times> 's" where
  "presentedAgain D s userId familyId revokedAt successorEnc at =
     (let successor = replayableSuccessor D s userId revokedAt successorEnc at
      in if successor \<noteq> None \<and> successor \<noteq> Some [] then (RefreshOk userId familyId successor, s)
         else if at - revokedAt < td_reuseGraceMs D then (RefreshFailed FSuperseded, s)
         else (RefreshFailed FReused,
               (case (familyId, revokeFamily (td_store D)) of
                  (Some fam, Some revFam) \<Rightarrow>
                    if fam = [] then revokeUser (td_store D) s userId at
                    else (case revokeBiometricKeys (td_store D) of
                            None \<Rightarrow> revFam s fam at
                          | Some rb \<Rightarrow> rb (revFam s fam at) userId at)
                | _ \<Rightarrow> revokeUser (td_store D) s userId at)))"

definition rotateRefreshToken :: "'s tokenDeps \<Rightarrow> 's \<Rightarrow> string \<Rightarrow> instant \<Rightarrow> refreshOutcome \<times> 's" where
  "rotateRefreshToken D s token at =
     (case verifyRefresh D token of
        None \<Rightarrow> (RefreshFailed FInvalid, s)
      | Some claims \<Rightarrow>
          if cl_biometric claims then (RefreshFailed FInvalid, s)
          else
            (let hash = td_hash D token
             in case rotateHash (td_store D) of
                  None \<Rightarrow>
                    (case findValid (td_store D) s hash at of
                       None \<Rightarrow> (RefreshFailed FInvalid, s)
                     | Some u \<Rightarrow>
                         if cl_sub claims = Some u then (RefreshOk u None None, revokeHash (td_store D) s hash at)
                         else (RefreshFailed FInvalid, s))
                | Some rot \<Rightarrow>
                    (case rot s hash at of
                       (InvalidToken, s') \<Rightarrow> (RefreshFailed FInvalid, s')
                     | (Rotated u fam, s') \<Rightarrow>
                         if cl_sub claims = Some u then (RefreshOk u fam None, s') else (RefreshFailed FInvalid, s')
                     | (Reused u fam revAt enc, s') \<Rightarrow>
                         if cl_sub claims = Some u then presentedAgain D s' u fam revAt enc at
                         else (RefreshFailed FInvalid, s'))))"

definition revokeRefreshToken :: "'s tokenDeps \<Rightarrow> 's \<Rightarrow> string \<Rightarrow> instant \<Rightarrow> 's" where
  "revokeRefreshToken D s token at = revokeHash (td_store D) s (td_hash D token) at"

definition revokeAllForUser :: "'s tokenDeps \<Rightarrow> 's \<Rightarrow> ident \<Rightarrow> instant \<Rightarrow> 's" where
  "revokeAllForUser D s u at = revokeUser (td_store D) s u at"

section \<open>What the service asks of a store\<close>

definition uniqueHashes :: "refreshRow list \<Rightarrow> bool" where
  "uniqueHashes rows \<longleftrightarrow> distinct (map rf_hash rows)"

text \<open>\<open>spendOf\<close> is the answer of \<open>rotate\<close> and the rows after it.\<close>

definition spendOf :: "refreshRow list \<Rightarrow> string \<Rightarrow> instant \<Rightarrow> rotateResult \<times> refreshRow list" where
  "spendOf rows h now =
     (case find (\<lambda>r. rf_hash r = h) rows of
        None \<Rightarrow> (InvalidToken, rows)
      | Some r \<Rightarrow>
          if rf_expiresAt r \<le> now then (InvalidToken, rows)
          else (case rf_revokedAt r of
                  None \<Rightarrow> (Rotated (rf_userId r) (rf_familyId r), updateWhere (\<lambda>r. rf_hash r = h) (revoked now) rows)
                | Some t \<Rightarrow> (Reused (rf_userId r) (rf_familyId r) t (rf_successorEnc r), rows)))"

locale token_store =
  fixes T :: "'s tokenStore" and rows :: "'s \<Rightarrow> refreshRow list"
    and rot :: "'s \<Rightarrow> string \<Rightarrow> instant \<Rightarrow> rotateResult \<times> 's"
    and revFam :: "'s \<Rightarrow> ident \<Rightarrow> instant \<Rightarrow> 's" and revKeys :: "'s \<Rightarrow> ident \<Rightarrow> instant \<Rightarrow> 's"
    and setSucc :: "'s \<Rightarrow> string \<Rightarrow> string \<Rightarrow> 's" and extKeys :: "'s \<Rightarrow> ident \<Rightarrow> instant \<Rightarrow> instant \<Rightarrow> 's"
  assumes ops: "rotateHash T = Some rot" "revokeFamily T = Some revFam" "revokeBiometricKeys T = Some revKeys"
      "setSuccessor T = Some setSucc" "extendBiometricKeys T = Some extKeys"
    and save_rows: "rows (saveToken T s u h ex fam bio) = rows s @ [newRow u h ex fam bio]"
    and valid_rows: "findValid T s h at = validOwner (rows s) h at"
    and revoke_rows: "uniqueHashes (rows s) \<Longrightarrow>
      rows (revokeHash T s h at) = updateWhere (\<lambda>r. rf_hash r = h \<and> rf_revokedAt r = None) (revoked at) (rows s)"
    and revoke_user_rows: "rows (revokeUser T s u at) = revokeAllOf (rows s) u at"
    and rotate_rows: "uniqueHashes (rows s) \<Longrightarrow> rot s h at = (res, s') \<Longrightarrow> spendOf (rows s) h at = (res, rows s')"
    and revoke_family_rows: "rows (revFam s g at) = revokeFamilyOf (rows s) g at"
    and revoke_keys_rows: "rows (revKeys s u at) = revokeKeysOf (rows s) u at"
    and successor_rows: "uniqueHashes (rows s) \<Longrightarrow>
      rows (setSucc s h enc) = updateWhere (\<lambda>r. rf_hash r = h) (\<lambda>r. r\<lparr>rf_successorEnc := Some enc\<rparr>) (rows s)"
    and extend_rows: "rows (extKeys s u ex at) = extendKeysOf (rows s) u ex at"

lemma updateWhere_none: "(\<And>r. r \<in> set rows \<Longrightarrow> \<not> P r) \<Longrightarrow> updateWhere P f rows = rows"
  unfolding updateWhere_def by (intro map_idI) simp

lemma writeFirst_where:
  "uniqueHashes rows \<Longrightarrow> (\<And>r. P r \<Longrightarrow> rf_hash r = h) \<Longrightarrow> writeFirst P f rows = updateWhere P f rows"
proof (induction rows)
  case Nil
  then show ?case by (simp add: updateWhere_def)
next
  case (Cons a rows)
  have "updateWhere P f rows = rows" if "P a"
    by (rule updateWhere_none) (use that Cons.prems in \<open>auto simp: uniqueHashes_def dest: image_notD\<close>)
  then show ?case using Cons by (simp add: updateWhere_def uniqueHashes_def)
qed

lemma hash_unique: "uniqueHashes rows \<Longrightarrow> r \<in> set rows \<Longrightarrow> q \<in> set rows \<Longrightarrow> rf_hash r = rf_hash q \<Longrightarrow> r = q"
  by (auto simp: uniqueHashes_def distinct_map dest: inj_onD)

lemma find_updateWhere:
  "(\<And>r. rf_hash (f r) = rf_hash r) \<Longrightarrow>
     find (\<lambda>r. rf_hash r = h) (updateWhere P f rows) = map_option (\<lambda>r. if P r then f r else r) (find (\<lambda>r. rf_hash r = h) rows)"
  by (induction rows) (auto simp: updateWhere_def)

lemma revoked_hash [simp]: "rf_hash (revoked at r) = rf_hash r"
  by (simp add: revoked_def)

lemma memRotate_spend: "uniqueHashes rows \<Longrightarrow> memRotate rows h now = spendOf rows h now"
  by (auto simp: memRotate_def spendOf_def writeFirst_where split: option.split)

lemma count_hash:
  "uniqueHashes rows \<Longrightarrow> length (filter (\<lambda>r. rf_hash r = h \<and> Q r) rows)
     = (case find (\<lambda>r. rf_hash r = h) rows of None \<Rightarrow> 0 | Some r \<Rightarrow> if Q r then 1 else 0)"
proof (induction rows)
  case Nil
  then show ?case by simp
next
  case (Cons a rows)
  show ?case
  proof (cases "rf_hash a = h")
    case True
    then have "filter (\<lambda>r. rf_hash r = h \<and> Q r) rows = []"
      using Cons.prems by (auto simp: uniqueHashes_def filter_empty_conv dest: image_notD)
    then show ?thesis using True by simp
  next
    case False
    then show ?thesis using Cons by (simp add: uniqueHashes_def)
  qed
qed

lemma where_hash:
  assumes "uniqueHashes rows"
  shows "updateWhere (\<lambda>r. rf_hash r = h \<and> Q r) f rows
     = (case find (\<lambda>r. rf_hash r = h) rows of None \<Rightarrow> rows
        | Some r \<Rightarrow> if Q r then updateWhere (\<lambda>r. rf_hash r = h) f rows else rows)"
proof (cases "find (\<lambda>r. rf_hash r = h) rows")
  case None
  then have "updateWhere (\<lambda>r. rf_hash r = h \<and> Q r) f rows = rows"
    by (intro updateWhere_none) (auto simp: find_None_iff)
  then show ?thesis using None by simp
next
  case (Some r)
  have r: "r \<in> set rows" "rf_hash r = h" using find_mem [OF Some] by auto
  have same: "Q q = Q r" if "q \<in> set rows" "rf_hash q = h" for q
    using hash_unique [OF assms that(1) r(1)] that(2) r(2) by simp
  show ?thesis
  proof (cases "Q r")
    case True
    then show ?thesis using Some same unfolding updateWhere_def by (simp cong: map_cong)
  next
    case False
    then have "updateWhere (\<lambda>r. rf_hash r = h \<and> Q r) f rows = rows"
      by (intro updateWhere_none) (use same in auto)
    then show ?thesis using Some False by simp
  qed
qed

lemma dbRotate_spend:
  assumes "uniqueHashes rows"
  shows "dbRotate rows h now = spendOf rows h now"
proof (cases "find (\<lambda>r. rf_hash r = h) rows")
  case None
  then show ?thesis by (simp add: dbRotate_def spendOf_def Let_def count_hash [OF assms] where_hash [OF assms])
next
  case (Some r)
  have r: "rf_hash r = h" using find_mem [OF Some] by blast
  show ?thesis
  proof (cases "rf_revokedAt r = None \<and> rf_expiresAt r > now")
    case True
    then show ?thesis using Some r
      by (simp add: dbRotate_def spendOf_def Let_def count_hash [OF assms] where_hash [OF assms] find_updateWhere revoked_def)
  next
    case False
    have "length (filter (\<lambda>r. rf_hash r = h \<and> rf_revokedAt r = None \<and> rf_expiresAt r > now) rows) = 0"
      "updateWhere (\<lambda>r. rf_hash r = h \<and> rf_revokedAt r = None \<and> rf_expiresAt r > now) (revoked now) rows = rows"
      using Some False unfolding count_hash [OF assms] where_hash [OF assms] by auto
    then show ?thesis using Some False by (auto simp: dbRotate_def spendOf_def Let_def split: option.split)
  qed
qed

interpretation memory_tokens: token_store memoryTokens "\<lambda>s. s" memRotate revokeFamilyOf revokeKeysOf memSetSuccessor extendKeysOf
  by unfold_locales (auto simp: memoryTokens_def saveRow_def memRevoke_def memSetSuccessor_def memRotate_spend intro: writeFirst_where)

interpretation prisma_tokens: token_store prismaTokens "\<lambda>s. s" dbRotate revokeFamilyOf revokeKeysOf dbSetSuccessor extendKeysOf
  by unfold_locales (simp_all add: prismaTokens_def saveRow_def dbRevoke_def dbSetSuccessor_def dbRotate_spend)

section \<open>Sequences of calls\<close>

text \<open>The calls of the service in any order and at any times; a new token's hash is new to the store.\<close>

inductive refreshStep :: "'s tokenDeps \<Rightarrow> ('s \<Rightarrow> refreshRow list) \<Rightarrow> 's \<Rightarrow> 's \<Rightarrow> bool" for D rows where
  issue: "td_hash D (snd (fst (issueTokens D s user familyId jti family at))) \<notin> rf_hash ` set (rows s)
      \<Longrightarrow> refreshStep D rows s (snd (issueTokens D s user familyId jti family at))"
| successor: "refreshStep D rows s (recordSuccessor D s spent successor)"
| key: "snd (fst (issueBiometricKey D s user jti family at)) \<notin> rf_hash ` set (rows s)
      \<Longrightarrow> refreshStep D rows s (snd (issueBiometricKey D s user jti family at))"
| cancel: "refreshStep D rows s (revokeBiometricKey D s userId keyId at)"
| rotate: "refreshStep D rows s (snd (rotateRefreshToken D s token at))"
| logout: "refreshStep D rows s (revokeRefreshToken D s token at)"
| everywhere: "refreshStep D rows s (revokeAllForUser D s userId at)"

text \<open>A row is later than another: the same token, never unrevoked, never ending sooner.\<close>

definition laterRow :: "refreshRow \<Rightarrow> refreshRow \<Rightarrow> bool" where
  "laterRow r r' \<longleftrightarrow> rf_hash r' = rf_hash r \<and> rf_userId r' = rf_userId r \<and> rf_familyId r' = rf_familyId r
     \<and> rf_biometric r' = rf_biometric r \<and> rf_expiresAt r \<le> rf_expiresAt r'
     \<and> (rf_revokedAt r \<noteq> None \<longrightarrow> rf_revokedAt r' = rf_revokedAt r)"

definition laterRows :: "refreshRow list \<Rightarrow> refreshRow list \<Rightarrow> bool" where
  "laterRows rows rows' \<longleftrightarrow> uniqueHashes rows' \<and> (\<forall>r \<in> set rows. \<exists>r' \<in> set rows'. laterRow r r')"

lemma laterRow_trans: "laterRow a b \<Longrightarrow> laterRow b c \<Longrightarrow> laterRow a c"
  unfolding laterRow_def by (metis order_trans)

lemma laterRows_refl: "uniqueHashes rows \<Longrightarrow> laterRows rows rows"
  by (auto simp: laterRows_def laterRow_def)

lemma laterRows_trans: "laterRows a b \<Longrightarrow> laterRows b c \<Longrightarrow> laterRows a c"
  unfolding laterRows_def by (meson laterRow_trans)

lemma laterRows_update:
  assumes "uniqueHashes rows" "\<And>r. r \<in> set rows \<Longrightarrow> P r \<Longrightarrow> laterRow r (f r)"
  shows "laterRows rows (updateWhere P f rows)"
proof -
  have "map rf_hash (updateWhere P f rows) = map rf_hash rows"
    using assms(2) by (auto simp: updateWhere_def laterRow_def)
  moreover have "\<exists>r' \<in> set (updateWhere P f rows). laterRow r r'" if "r \<in> set rows" for r
    using that assms(2) [OF that] by (intro bexI [of _ "if P r then f r else r"]) (auto simp: updateWhere_def laterRow_def)
  ultimately show ?thesis using assms(1) by (simp add: laterRows_def uniqueHashes_def)
qed

lemma laterRow_revoked: "rf_revokedAt r = None \<Longrightarrow> laterRow r (revoked at r)"
  by (simp add: laterRow_def revoked_def)

lemma laterRows_new:
  "uniqueHashes rows \<Longrightarrow> h \<notin> rf_hash ` set rows \<Longrightarrow> laterRows rows (rows @ [newRow u h ex fam bio])"
  by (auto simp: laterRows_def uniqueHashes_def newRow_def laterRow_def)

lemma spend_later:
  assumes "uniqueHashes rows" "spendOf rows h at = (res, rows')"
  shows "laterRows rows rows'"
proof (cases "find (\<lambda>r. rf_hash r = h) rows")
  case None
  then show ?thesis using assms laterRows_refl by (simp add: spendOf_def)
next
  case (Some r)
  have r: "r \<in> set rows" "rf_hash r = h" using find_mem [OF Some] by auto
  have "laterRows rows (updateWhere (\<lambda>r. rf_hash r = h) (revoked at) rows)" if "rf_revokedAt r = None"
    by (rule laterRows_update [OF assms(1)])
      (use that hash_unique [OF assms(1) _ r(1)] r(2) laterRow_revoked in auto)
  then show ?thesis using Some assms laterRows_refl by (auto simp: spendOf_def split: if_splits option.splits)
qed

context token_store begin

lemma revoke_later: "uniqueHashes (rows s) \<Longrightarrow> laterRows (rows s) (rows (revokeHash T s h at))"
  unfolding revoke_rows by (intro laterRows_update) (auto intro: laterRow_revoked)

lemma revoke_user_later: "uniqueHashes (rows s) \<Longrightarrow> laterRows (rows s) (rows (revokeUser T s u at))"
  unfolding revoke_user_rows revokeAllOf_def by (intro laterRows_update) (auto intro: laterRow_revoked)

lemma revoke_family_later: "uniqueHashes (rows s) \<Longrightarrow> laterRows (rows s) (rows (revFam s g at))"
  unfolding revoke_family_rows revokeFamilyOf_def by (intro laterRows_update) (auto intro: laterRow_revoked)

lemma revoke_keys_later: "uniqueHashes (rows s) \<Longrightarrow> laterRows (rows s) (rows (revKeys s u at))"
  unfolding revoke_keys_rows revokeKeysOf_def by (intro laterRows_update) (auto intro: laterRow_revoked)

lemma extend_later: "uniqueHashes (rows s) \<Longrightarrow> laterRows (rows s) (rows (extKeys s u ex at))"
  unfolding extend_rows extendKeysOf_def by (intro laterRows_update) (auto simp: laterRow_def)

lemma successor_later: "uniqueHashes (rows s) \<Longrightarrow> laterRows (rows s) (rows (setSucc s h enc))"
  unfolding successor_rows by (intro laterRows_update) (auto simp: laterRow_def)

lemma rotate_later: "uniqueHashes (rows s) \<Longrightarrow> rot s h at = (res, s') \<Longrightarrow> laterRows (rows s) (rows s')"
  using rotate_rows spend_later by blast

lemma later_unique: "laterRows r r' \<Longrightarrow> uniqueHashes r'"
  by (simp add: laterRows_def)

lemma presentedAgain_later:
  assumes "uniqueHashes (rows s)" "td_store D = T"
  shows "laterRows (rows s) (rows (snd (presentedAgain D s u fam t enc at)))"
proof -
  have "laterRows (rows s) (rows (revKeys (revFam s g at) u at))" for g
    using laterRows_trans [OF revoke_family_later revoke_keys_later] revoke_family_later assms(1) later_unique by blast
  then show ?thesis using laterRows_refl [OF assms(1)] revoke_user_later [OF assms(1)]
    by (auto simp: presentedAgain_def Let_def assms(2) ops split: option.split)
qed

lemma rotation_later:
  assumes "uniqueHashes (rows s)" "td_store D = T"
  shows "laterRows (rows s) (rows (snd (rotateRefreshToken D s token at)))"
proof -
  obtain res s' where r: "rot s (td_hash D token) at = (res, s')" by fastforce
  note l = rotate_later [OF assms(1) r]
  have "laterRows (rows s) (rows (snd (presentedAgain D s' u fam t enc at)))" for u fam t enc
    using laterRows_trans [OF l presentedAgain_later [OF later_unique [OF l] assms(2)]] .
  then show ?thesis using l laterRows_refl [OF assms(1)] r
    by (auto simp: rotateRefreshToken_def Let_def assms(2) ops split: option.split rotateResult.split)
qed

lemma step_later:
  assumes "refreshStep D rows s s'" "td_store D = T" "uniqueHashes (rows s)"
  shows "laterRows (rows s) (rows s')"
  using assms(1)
proof cases
  case (issue user familyId jti family at)
  let ?h = "td_hash D (snd (fst (issueTokens D s user familyId jti family at)))"
  define s1 where "s1 = saveToken T s (tu_id user) ?h (at + td_refreshTtl D * 1000)
      (Some (case familyId of None \<Rightarrow> family | Some f \<Rightarrow> f)) False"
  have l: "laterRows (rows s) (rows s1)"
    unfolding s1_def save_rows using issue(2) assms(3) by (intro laterRows_new)
  have "s' = extKeys s1 (tu_id user) (at + td_refreshTtl D * 1000) at"
    using issue(1) by (simp add: issueTokens_def Let_def s1_def assms(2) ops)
  then show ?thesis using laterRows_trans [OF l extend_later [OF later_unique [OF l]]] by simp
next
  case (successor spent succ)
  then show ?thesis using successor_later [OF assms(3)] laterRows_refl [OF assms(3)]
    by (auto simp: recordSuccessor_def assms(2) ops split: option.split)
next
  case (key user jti family at)
  then show ?thesis using laterRows_new [OF assms(3)]
    by (simp add: issueBiometricKey_def Let_def assms(2) save_rows)
next
  case (cancel userId keyId at)
  then show ?thesis using revoke_later [OF assms(3)] laterRows_refl [OF assms(3)]
    by (simp add: revokeBiometricKey_def assms(2))
next
  case (rotate token at)
  then show ?thesis using rotation_later [OF assms(3,2)] by simp
next
  case (logout token at)
  then show ?thesis using revoke_later [OF assms(3)] by (simp add: revokeRefreshToken_def assms(2))
next
  case (everywhere userId at)
  then show ?thesis using revoke_user_later [OF assms(3)] by (simp add: revokeAllForUser_def assms(2))
qed

lemma steps_later:
  assumes "(refreshStep D rows)\<^sup>*\<^sup>* s s'" "td_store D = T" "uniqueHashes (rows s)"
  shows "laterRows (rows s) (rows s')"
  using assms(1)
proof (induction rule: rtranclp_induct)
  case base
  then show ?case by (rule laterRows_refl [OF assms(3)])
next
  case (step s1 s2)
  then show ?case using laterRows_trans step_later [OF _ assms(2) later_unique] by blast
qed

end

section \<open>Properties\<close>

lemma rotate_prisma:
  assumes "td_store D = prismaTokens" "uniqueHashes s" "verifyRefresh D token = Some claims" "\<not> cl_biometric claims"
  shows "rotateRefreshToken D s token at =
     (case spendOf s (td_hash D token) at of
        (InvalidToken, s') \<Rightarrow> (RefreshFailed FInvalid, s')
      | (Rotated u fam, s') \<Rightarrow> if cl_sub claims = Some u then (RefreshOk u fam None, s') else (RefreshFailed FInvalid, s')
      | (Reused u fam revAt enc, s') \<Rightarrow>
          if cl_sub claims = Some u then presentedAgain D s' u fam revAt enc at else (RefreshFailed FInvalid, s'))"
  using assms by (simp add: rotateRefreshToken_def prismaTokens_def dbRotate_spend)

lemma rotate_refused:
  "(case verifyRefresh D token of None \<Rightarrow> True | Some claims \<Rightarrow> cl_biometric claims)
     \<Longrightarrow> rotateRefreshToken D s token at = (RefreshFailed FInvalid, s)"
  by (auto simp: rotateRefreshToken_def split: option.splits)

lemma rotate_claims:
  assumes "rotateRefreshToken D s token at = (res, s')" "res \<noteq> RefreshFailed FInvalid"
  obtains claims where "verifyRefresh D token = Some claims" "\<not> cl_biometric claims"
proof (cases "verifyRefresh D token")
  case None
  then show ?thesis using assms rotate_refused [of D token s at] by simp
next
  case (Some claims)
  then show ?thesis using assms rotate_refused [of D token s at] that by (cases "cl_biometric claims") auto
qed

lemma presentedAgain_not_fresh: "fst (presentedAgain D s u fam t enc at) \<noteq> RefreshOk u' fam' None"
  by (auto simp: presentedAgain_def Let_def)

lemma rotated_spent:
  assumes "td_store D = prismaTokens" "uniqueHashes s" "rotateRefreshToken D s token at = (RefreshOk u fam None, s')"
  shows "\<exists>r \<in> set s'. rf_hash r = td_hash D token \<and> rf_revokedAt r \<noteq> None"
proof -
  obtain claims where c: "verifyRefresh D token = Some claims" "\<not> cl_biometric claims"
    using rotate_claims [OF assms(3)] by auto
  obtain res s1 where sp1: "spendOf s (td_hash D token) at = (res, s1)" by fastforce
  have "res = Rotated u fam \<and> s' = s1"
  proof (cases res)
    case (Reused u1 f1 t1 e1)
    have "presentedAgain D s1 u1 f1 t1 e1 at \<noteq> (RefreshOk u fam None, s')"
      using presentedAgain_not_fresh [of D s1 u1 f1 t1 e1 at u fam] by auto
    then show ?thesis using assms(3) sp1 Reused unfolding rotate_prisma [OF assms(1,2) c] by (auto split: if_splits)
  qed (use assms(3) sp1 in \<open>auto simp: rotate_prisma [OF assms(1,2) c] split: if_splits\<close>)
  then have sp: "spendOf s (td_hash D token) at = (Rotated u fam, s1)" "s' = s1" using sp1 by simp_all
  then obtain r where "find (\<lambda>r. rf_hash r = td_hash D token) s = Some r" "s1 = updateWhere (\<lambda>r. rf_hash r = td_hash D token) (revoked at) s"
    by (auto simp: spendOf_def split: option.splits if_splits)
  then have "find (\<lambda>r. rf_hash r = td_hash D token) s1 = Some (revoked at r)"
    using find_mem by (fastforce simp: find_updateWhere)
  then show ?thesis using sp(2) find_mem by (fastforce simp: revoked_def)
qed

text \<open>
  C5. A refresh token is spent at most once: after it was exchanged, no later calls of any kind, at any
  times, make it exchangeable again - it is answered with its own unused successor or refused.
\<close>

theorem refresh_token_spent_once:
  assumes "td_store D = prismaTokens" "uniqueHashes s"
    and "rotateRefreshToken D s token at = (RefreshOk u fam None, s1)"
    and "(refreshStep D (\<lambda>s. s))\<^sup>*\<^sup>* s1 s2"
  shows "fst (rotateRefreshToken D s2 token at2) \<noteq> RefreshOk u2 fam2 None"
proof
  assume again: "fst (rotateRefreshToken D s2 token at2) = RefreshOk u2 fam2 None"
  have u1: "uniqueHashes s1"
    using prisma_tokens.rotation_later [OF assms(2,1), of token at] assms(3) by (simp add: laterRows_def)
  then have l: "laterRows s1 s2" using prisma_tokens.steps_later [OF assms(4,1)] by simp
  then have u2: "uniqueHashes s2" by (simp add: laterRows_def)
  obtain r where "r \<in> set s1" "rf_hash r = td_hash D token" "rf_revokedAt r \<noteq> None"
    using rotated_spent [OF assms(1-3)] by blast
  then obtain q where q: "q \<in> set s2" "rf_hash q = td_hash D token" "rf_revokedAt q \<noteq> None"
    using l unfolding laterRows_def laterRow_def by metis
  obtain s3 where "rotateRefreshToken D s2 token at2 = (RefreshOk u2 fam2 None, s3)" using again by (metis prod.collapse)
  moreover obtain claims where c: "verifyRefresh D token = Some claims" "\<not> cl_biometric claims"
    using rotate_claims [OF assms(3)] by auto
  moreover obtain q' where q': "find (\<lambda>r. rf_hash r = td_hash D token) s2 = Some q'"
    using q by (cases "find (\<lambda>r. rf_hash r = td_hash D token) s2") (auto simp: find_None_iff)
  moreover have "q' = q" using hash_unique [OF u2 _ q(1)] find_mem [OF q'] q(2) by simp
  ultimately show False
    using q(3) presentedAgain_not_fresh [of D s2 _ _ _ _ at2 u2 fam2]
    unfolding rotate_prisma [OF assms(1) u2 c] by (auto simp: spendOf_def split: if_splits) (metis fst_conv)
qed

definition sampleTokenDeps :: "refreshRow list tokenDeps" where
  "sampleTokenDeps = \<lparr>td_accessSecret = ''a'', td_refreshSecret = ''r'', td_accessTtl = 900, td_refreshTtl = 2592000,
     td_store = prismaTokens, td_reuseGraceMs = 10000,
     td_box = Some \<lparr>encryptBox = (\<lambda>s. CHR ''!'' # s), decryptBox = (\<lambda>s. case s of [] \<Rightarrow> None | _ # t \<Rightarrow> Some t)\<rparr>,
     td_replayWindowMs = 120000,
     td_sign = (\<lambda>c secret ttl. cl_jti c), td_verify = (\<lambda>t secret. Some \<lparr>cl_sub = Some ''u'', cl_type = Some Refresh,
       cl_biometric = False, cl_ver = 0, cl_roles = [], cl_jti = t\<rparr>),
     td_hash = (\<lambda>t. t)\<rparr>"

definition sampleUser :: tokenUser where
  "sampleUser = \<lparr>tu_id = ''u'', tu_roles = [], tu_tokenVersion = None\<rparr>"

text \<open>One sign-in: the token \<open>t1\<close> of the family \<open>f\<close>; then \<open>t1\<close> spent for \<open>t2\<close>.\<close>

definition signedIn :: "refreshRow list" where
  "signedIn = snd (issueTokens sampleTokenDeps [] sampleUser None ''t1'' ''f'' 0)"

definition spentOnce :: "refreshRow list" where
  "spentOnce = snd (rotateRefreshToken sampleTokenDeps signedIn ''t1'' 1000)"

definition exchanged :: "refreshRow list" where
  "exchanged = recordSuccessor sampleTokenDeps
     (snd (issueTokens sampleTokenDeps spentOnce sampleUser (Some ''f'') ''t2'' ''x'' 1000)) ''t1'' ''t2''"

lemma signedIn_unique: "uniqueHashes signedIn" by code_simp
lemma exchanged_unique: "uniqueHashes exchanged" by code_simp
lemma spentOnce_eq: "rotateRefreshToken sampleTokenDeps signedIn ''t1'' 1000 = (RefreshOk ''u'' (Some ''f'') None, spentOnce)"
proof -
  have "fst (rotateRefreshToken sampleTokenDeps signedIn ''t1'' 1000) = RefreshOk ''u'' (Some ''f'') None" by code_simp
  then show ?thesis by (simp add: spentOnce_def prod_eq_iff)
qed

lemma exchanged_steps: "(refreshStep sampleTokenDeps (\<lambda>s. s))\<^sup>*\<^sup>* spentOnce exchanged"
proof -
  let ?s = "snd (issueTokens sampleTokenDeps spentOnce sampleUser (Some ''f'') ''t2'' ''x'' 1000)"
  have "td_hash sampleTokenDeps (snd (fst (issueTokens sampleTokenDeps spentOnce sampleUser (Some ''f'') ''t2'' ''x'' 1000)))
      \<notin> set (map rf_hash spentOnce)" by code_simp
  then have "refreshStep sampleTokenDeps (\<lambda>s. s) spentOnce ?s" by (intro refreshStep.issue) simp
  moreover have "refreshStep sampleTokenDeps (\<lambda>s. s) ?s exchanged" unfolding exchanged_def by (rule refreshStep.successor)
  ultimately show ?thesis by simp
qed

theorem refresh_token_spent_once_witness:
  "fst (rotateRefreshToken sampleTokenDeps exchanged ''t1'' 2000) \<noteq> RefreshOk ''u'' (Some ''f'') None"
  by (rule refresh_token_spent_once [OF _ signedIn_unique spentOnce_eq exchanged_steps])
    (simp add: sampleTokenDeps_def)

text \<open>
  C19. What presenting a spent token does. The token's own row is spent (at \<open>t\<close>), not expired and of the person
  the token names, and its answer cannot be sent again: the replay window is over, or no successor is recorded
  that still opens and is live for that person. Then within the grace time the answer is "superseded" and
  nothing is written; after it the answer is "reused" and no token of the family is live any more and no
  fingerprint key of its owner (for a token without a family, none of the owner's tokens).
\<close>

theorem reuse_ends_the_family:
  assumes "td_store D = prismaTokens" "uniqueHashes s"
    and "verifyRefresh D token = Some claims" "\<not> cl_biometric claims" "cl_sub claims = Some (rf_userId row)"
    and "row \<in> set s" "rf_hash row = td_hash D token" "rf_revokedAt row = Some t" "at < rf_expiresAt row"
    and "at - t \<ge> td_replayWindowMs D
      \<or> (\<forall>box enc succ. td_box D = Some box \<longrightarrow> rf_successorEnc row = Some enc \<longrightarrow> decryptBox box enc = Some succ
           \<longrightarrow> validOwner s (td_hash D succ) at \<noteq> Some (rf_userId row))"
  shows "if at - t < td_reuseGraceMs D then rotateRefreshToken D s token at = (RefreshFailed FSuperseded, s)
    else fst (rotateRefreshToken D s token at) = RefreshFailed FReused
      \<and> (\<forall>r \<in> set (snd (rotateRefreshToken D s token at)).
           (case rf_familyId row of
              None \<Rightarrow> rf_userId r = rf_userId row
            | Some fam \<Rightarrow> if fam = [] then rf_userId r = rf_userId row
                        else rf_familyId r = Some fam \<or> (rf_userId r = rf_userId row \<and> rf_biometric r))
           \<longrightarrow> rf_revokedAt r \<noteq> None)"
proof -
  have "find (\<lambda>r. rf_hash r = td_hash D token) s \<noteq> None" using assms(6,7) by (auto simp: find_None_iff)
  then obtain row' where f: "find (\<lambda>r. rf_hash r = td_hash D token) s = Some row'" by blast
  then have row: "find (\<lambda>r. rf_hash r = td_hash D token) s = Some row"
    using hash_unique [OF assms(2) _ assms(6)] find_mem [OF f] assms(7) by simp
  have rot: "rotateRefreshToken D s token at = presentedAgain D s (rf_userId row) (rf_familyId row) t (rf_successorEnc row) at"
    unfolding rotate_prisma [OF assms(1-4)] using row assms(5,8,9) by (simp add: spendOf_def)
  have none: "replayableSuccessor D s (rf_userId row) t (rf_successorEnc row) at = None"
    using assms(10) by (auto simp: replayableSuccessor_def assms(1) prismaTokens_def split: option.splits)
  have rows: "snd (rotateRefreshToken D s token at) = (case rf_familyId row of
        None \<Rightarrow> revokeAllOf s (rf_userId row) at
      | Some fam \<Rightarrow> if fam = [] then revokeAllOf s (rf_userId row) at else revokeKeysOf (revokeFamilyOf s fam at) (rf_userId row) at)"
    if "\<not> at - t < td_reuseGraceMs D"
    using that unfolding rot by (auto simp: presentedAgain_def none assms(1) prismaTokens_def split: option.splits)
  have "rf_revokedAt r \<noteq> None"
    if "\<not> at - t < td_reuseGraceMs D" "r \<in> set (snd (rotateRefreshToken D s token at))"
      "case rf_familyId row of None \<Rightarrow> rf_userId r = rf_userId row
       | Some fam \<Rightarrow> if fam = [] then rf_userId r = rf_userId row else rf_familyId r = Some fam \<or> (rf_userId r = rf_userId row \<and> rf_biometric r)" for r
    using that(2,3) unfolding rows [OF that(1)]
    by (auto simp: revokeAllOf_def revokeKeysOf_def revokeFamilyOf_def updateWhere_def revoked_def split: option.splits if_splits)
  then show ?thesis unfolding rot by (simp add: presentedAgain_def none)
qed

text \<open>The token \<open>t1\<close>, spent for \<open>t2\<close> at second one, comes again after eight minutes.\<close>

theorem reuse_ends_the_family_witness:
  "fst (rotateRefreshToken sampleTokenDeps exchanged ''t1'' 500000) = RefreshFailed FReused
    \<and> filter (\<lambda>r. rf_familyId r = Some ''f'' \<and> rf_revokedAt r = None) (snd (rotateRefreshToken sampleTokenDeps exchanged ''t1'' 500000)) = []"
proof -
  have "list_ex (\<lambda>r. rf_hash r = ''t1'' \<and> rf_userId r = ''u'' \<and> rf_familyId r = Some ''f'' \<and> rf_revokedAt r = Some 1000 \<and> rf_expiresAt r = 2592000000) exchanged"
    by code_simp
  then obtain row where row: "row \<in> set exchanged" "rf_hash row = ''t1''" "rf_userId row = ''u''" "rf_familyId row = Some ''f''"
    "rf_revokedAt row = Some 1000" "rf_expiresAt row = 2592000000" by (auto simp: list_ex_iff)
  have claims: "verifyRefresh sampleTokenDeps ''t1'' = Some \<lparr>cl_sub = Some ''u'', cl_type = Some Refresh, cl_biometric = False, cl_ver = 0, cl_roles = [], cl_jti = ''t1''\<rparr>"
    by (simp add: verifyRefresh_def sampleTokenDeps_def)
  have deps: "td_store sampleTokenDeps = prismaTokens" "td_hash sampleTokenDeps ''t1'' = ''t1''" "td_replayWindowMs sampleTokenDeps = 120000"
    "td_reuseGraceMs sampleTokenDeps = 10000" by (simp_all add: sampleTokenDeps_def)
  have "fst (rotateRefreshToken sampleTokenDeps exchanged ''t1'' 500000) = RefreshFailed FReused
    \<and> (\<forall>r \<in> set (snd (rotateRefreshToken sampleTokenDeps exchanged ''t1'' 500000)). rf_familyId r = Some ''f'' \<or> (rf_userId r = ''u'' \<and> rf_biometric r) \<longrightarrow> rf_revokedAt r \<noteq> None)"
    using reuse_ends_the_family [OF deps(1) exchanged_unique claims _ _ row(1), of 1000 500000] row deps by simp
  then show ?thesis by (auto simp: filter_empty_conv)
qed

text \<open>
  C20. A lost reply can be asked for again, and only that: when a spent token is answered with a token,
  it was spent less than the replay window ago, the token is its recorded successor, still live and of
  the same person, and nothing is written.
\<close>

theorem replay_only_live_successor:
  assumes "td_store D = prismaTokens" "uniqueHashes s"
    and "rotateRefreshToken D s token at = (RefreshOk u fam (Some succ), s')"
  shows "s' = s \<and> validOwner s (td_hash D succ) at = Some u
    \<and> (\<exists>row t box enc. row \<in> set s \<and> rf_hash row = td_hash D token \<and> rf_userId row = u \<and> rf_revokedAt row = Some t
        \<and> at - t < td_replayWindowMs D \<and> td_box D = Some box \<and> rf_successorEnc row = Some enc \<and> decryptBox box enc = Some succ)"
proof -
  obtain claims where c: "verifyRefresh D token = Some claims" "\<not> cl_biometric claims"
    using rotate_claims [OF assms(3)] by auto
  obtain row where row: "find (\<lambda>r. rf_hash r = td_hash D token) s = Some row"
    using assms(3) unfolding rotate_prisma [OF assms(1,2) c] by (auto simp: spendOf_def split: option.splits)
  obtain t where t: "rf_revokedAt row = Some t" and
    p: "presentedAgain D s (rf_userId row) (rf_familyId row) t (rf_successorEnc row) at = (RefreshOk u fam (Some succ), s')"
    using assms(3) row unfolding rotate_prisma [OF assms(1,2) c] by (auto simp: spendOf_def split: option.splits if_splits)
  have r: "replayableSuccessor D s (rf_userId row) t (rf_successorEnc row) at = Some succ" "s' = s" "u = rf_userId row"
    using p by (auto simp: presentedAgain_def Let_def split: if_splits)
  then show ?thesis using find_mem [OF row] t
    by (auto simp: replayableSuccessor_def assms(1) prismaTokens_def split: option.splits if_splits)
qed

theorem replay_only_live_successor_witness:
  "\<exists>s'. rotateRefreshToken sampleTokenDeps exchanged ''t1'' 30000 = (RefreshOk ''u'' (Some ''f'') (Some ''t2''), s') \<and> s' = exchanged
     \<and> validOwner exchanged ''t2'' 30000 = Some ''u''"
proof -
  have "fst (rotateRefreshToken sampleTokenDeps exchanged ''t1'' 30000) = RefreshOk ''u'' (Some ''f'') (Some ''t2'')" by code_simp
  then obtain s' where s': "rotateRefreshToken sampleTokenDeps exchanged ''t1'' 30000 = (RefreshOk ''u'' (Some ''f'') (Some ''t2''), s')"
    by (metis prod.collapse)
  then show ?thesis using replay_only_live_successor [OF _ exchanged_unique s'] by (simp add: sampleTokenDeps_def)
qed

end
