(* ===== verification/AuthRoutes.thy ===== *)
theory AuthRoutes
  imports FirstPassword SignInChallenge RefreshTokens
begin

text \<open>
  The sign-in routes (\<open>modules/auth/auth-routes.ts\<close>) on the services of the other theories, as the server
  wires them (\<open>server.ts\<close>), and \<open>cancelInvitation\<close> of \<open>modules/users/user-service.ts\<close> with what a used
  set-password link does (\<open>modules/users/onboarding-events.ts\<close>). A route's body has been parsed; the shape
  checks of zod, the audit entries, the sockets and the phones are not modelled. Every call that changes
  data runs at once (no two requests interleave here).
\<close>

section \<open>The server's data and services\<close>

record authWorld =
  w_acc :: accounts
  w_asked :: asked
  w_challenges :: "challengeRow list"
  w_tokens :: "refreshRow list"

record authDeps =
  ad_signIn :: signInConfig
  ad_otp :: otpConfig
  ad_reset :: resetDeps
  ad_first :: firstPasswordDeps
  ad_challenges :: "challengeRow list challengeDeps"
  ad_tokens :: "refreshRow list tokenDeps"

datatype routeError =
    FromSignIn authError
  | FromChallenge SignInChallenge.signInError
  | FromOtp otpError
  | FromReset resetError
  | FromFirst firstPasswordError
  | EmailNotVerified
  | SessionExpired
  | InvalidBiometricKey

datatype routeAnswer =
    Session sessionUser string string
  | ChallengeStep challengeView
  | PasswordStep string instant
  | CodeResent resendResult
  | CodeRequest requestAnswer
  | KeyMade string string
  | LinkIs linkStatusView
  | RouteDone

type_synonym routeResult = "(routeError + routeAnswer) \<times> authWorld"

text \<open>What a request draws at random: a challenge's \<open>fresh\<close> values, ids and tokens.\<close>

record draws =
  dr_fresh :: fresh
  dr_jti :: ident
  dr_family :: ident
  dr_rowId :: ident
  dr_token :: string
  dr_codeHash :: string

definition asTokenUser :: "sessionUser \<Rightarrow> tokenUser" where
  "asTokenUser u = \<lparr>tu_id = su_id u, tu_roles = su_roles u, tu_tokenVersion = Some (su_tokenVersion u)\<rparr>"

definition mailOn :: "authDeps \<Rightarrow> bool" where
  "mailOn D = oc_mailConfigured (ad_otp D)"

definition same :: "authDeps \<Rightarrow> string \<Rightarrow> string \<Rightarrow> bool" where
  "same D = sameName (ad_signIn D)"

text \<open>The session a sign-in ends with: tokens of a family, and the time of the sign-in kept.\<close>

definition giveSession :: "authDeps \<Rightarrow> authWorld \<Rightarrow> sessionUser \<Rightarrow> draws \<Rightarrow> instant \<Rightarrow> routeResult" where
  "giveSession D w user dr at =
     (let (tokens, rows) = issueTokens (ad_tokens D) (w_tokens w) (asTokenUser user) None (dr_jti dr) (dr_family dr) at
      in (Inr (Session user (fst tokens) (snd tokens)), w\<lparr>w_tokens := rows, w_acc := recordSignIn (w_acc w) (su_id user) at\<rparr>))"

text \<open>"Choose your own password" before the session, when there is a temporary password.\<close>

definition stepOrSession :: "authDeps \<Rightarrow> authWorld \<Rightarrow> sessionUser \<Rightarrow> bool \<Rightarrow> bool \<Rightarrow> draws \<Rightarrow> instant \<Rightarrow> routeResult" where
  "stepOrSession D w user website viaEmailCode dr at =
     (case gate (ad_first D) (w_acc w) (su_id user) website viaEmailCode at of
        Inl e \<Rightarrow> (Inl (FromFirst e), w)
      | Inr (Some (ticket, ends)) \<Rightarrow> (Inr (PasswordStep ticket ends), w)
      | Inr None \<Rightarrow> giveSession D w user dr at)"

section \<open>The routes\<close>

definition routeLogin :: "authDeps \<Rightarrow> authWorld \<Rightarrow> string \<Rightarrow> string \<Rightarrow> bool \<Rightarrow> bool \<Rightarrow> draws \<Rightarrow> instant \<Rightarrow> routeResult" where
  "routeLogin D w x password acceptChallenge acceptPasswordChange dr at =
     (let (res, acc) = login (ad_signIn D) (w_acc w) x password at;
          w1 = w\<lparr>w_acc := acc\<rparr>
      in case res of
           Inl e \<Rightarrow> (Inl (FromSignIn e), w1)
         | Inr user \<Rightarrow>
             (case refuseUnusable acc (su_id user) at of
                Inl e \<Rightarrow> (Inl (FromFirst e), w1)
              | Inr _ \<Rightarrow>
                  if needsCode (mailOn D) acc (su_id user)
                  then (if \<not> acceptChallenge then (Inl EmailNotVerified, w1)
                        else (let (started, rows) = startChallenge (ad_challenges D) (w_challenges w1) (su_id user) (su_email user) VERIFY_EMAIL at (dr_fresh dr)
                              in (case started of Inl e \<Rightarrow> Inl (FromChallenge e) | Inr v \<Rightarrow> Inr (ChallengeStep v), w1\<lparr>w_challenges := rows\<rparr>)))
                  else stepOrSession D w1 user acceptPasswordChange False dr at))"

definition routeChallengeVerify :: "authDeps \<Rightarrow> authWorld \<Rightarrow> string \<Rightarrow> string \<Rightarrow> bool \<Rightarrow> draws \<Rightarrow> instant \<Rightarrow> routeResult" where
  "routeChallengeVerify D w challenge code acceptPasswordChange dr at =
     (let (res, rows) = verify (ad_challenges D) (w_challenges w) challenge code at;
          w1 = w\<lparr>w_challenges := rows\<rparr>
      in case res of
           Inl e \<Rightarrow> (Inl (FromChallenge e), w1)
         | Inr ver \<Rightarrow>
             (case getUserForSession (w_acc w1) (ver_userId ver) of
                Inl e \<Rightarrow> (Inl (FromSignIn e), w1)
              | Inr user \<Rightarrow>
                  if toLowerCase (trim (su_email user)) \<noteq> toLowerCase (trim (ver_sentTo ver)) then (Inl (FromChallenge SignInExpired), w1)
                  else (let (outcome, acc) = confirm (same D) (w_acc w1) (su_id user) (Some (ver_sentTo ver)) at;
                            w2 = w1\<lparr>w_acc := acc\<rparr>
                        in if outcome = AddressChanged \<or> outcome = NotFound then (Inl (FromChallenge SignInExpired), w2)
                           else stepOrSession D w2 user acceptPasswordChange False dr at)))"

definition routeChallengeResend :: "authDeps \<Rightarrow> authWorld \<Rightarrow> string \<Rightarrow> draws \<Rightarrow> instant \<Rightarrow> routeResult" where
  "routeChallengeResend D w challenge dr at =
     (let (res, rows) = resend (ad_challenges D) (w_challenges w) challenge at (dr_fresh dr)
      in (case res of Inl e \<Rightarrow> Inl (FromChallenge e) | Inr r \<Rightarrow> Inr (CodeResent r), w\<lparr>w_challenges := rows\<rparr>))"

definition routeRefresh :: "authDeps \<Rightarrow> authWorld \<Rightarrow> string \<Rightarrow> draws \<Rightarrow> instant \<Rightarrow> routeResult" where
  "routeRefresh D w refreshToken dr at =
     (let (spent, rows) = rotateRefreshToken (ad_tokens D) (w_tokens w) refreshToken at;
          w1 = w\<lparr>w_tokens := rows\<rparr>
      in case spent of
           RefreshFailed _ \<Rightarrow> (Inl SessionExpired, w1)
         | RefreshOk userId family replay \<Rightarrow>
             (case getUserForSession (w_acc w1) userId of
                Inl e \<Rightarrow> (Inl (FromSignIn e), w1)
              | Inr user \<Rightarrow>
                  if firstCancelled (w_acc w1) (su_id user) then (Inl SessionExpired, w1)
                  else (case replay of
                          Some successor \<Rightarrow> (Inr (Session user (issueAccessToken (ad_tokens D) (asTokenUser user)) successor), w1)
                        | None \<Rightarrow>
                            (let (tokens, rows1) = issueTokens (ad_tokens D) rows (asTokenUser user) family (dr_jti dr) (dr_family dr) at;
                                 rows2 = recordSuccessor (ad_tokens D) rows1 refreshToken (snd tokens)
                             in (Inr (Session user (fst tokens) (snd tokens)), w1\<lparr>w_tokens := rows2\<rparr>)))))"

definition routeBiometricCredential :: "authDeps \<Rightarrow> authWorld \<Rightarrow> string \<Rightarrow> draws \<Rightarrow> instant \<Rightarrow> routeResult" where
  "routeBiometricCredential D w refreshToken dr at =
     (case sessionOwner (ad_tokens D) (w_tokens w) refreshToken at of
        None \<Rightarrow> (Inl SessionExpired, w)
      | Some userId \<Rightarrow>
          (case getUserForSession (w_acc w) userId of
             Inl e \<Rightarrow> (Inl (FromSignIn e), w)
           | Inr user \<Rightarrow>
               (let (key, rows) = issueBiometricKey (ad_tokens D) (w_tokens w) (asTokenUser user) (dr_jti dr) (dr_family dr) at
                in (Inr (KeyMade (fst key) (snd key)), w\<lparr>w_tokens := rows\<rparr>))))"

definition routeBiometricRevoke :: "authDeps \<Rightarrow> authWorld \<Rightarrow> string \<Rightarrow> string \<Rightarrow> instant \<Rightarrow> routeResult" where
  "routeBiometricRevoke D w refreshToken keyId at =
     (case sessionOwner (ad_tokens D) (w_tokens w) refreshToken at of
        None \<Rightarrow> (Inl SessionExpired, w)
      | Some userId \<Rightarrow> (Inr RouteDone, w\<lparr>w_tokens := revokeBiometricKey (ad_tokens D) (w_tokens w) userId keyId at\<rparr>))"

definition routeBiometricSignIn :: "authDeps \<Rightarrow> authWorld \<Rightarrow> string \<Rightarrow> draws \<Rightarrow> instant \<Rightarrow> routeResult" where
  "routeBiometricSignIn D w credential dr at =
     (case verifyBiometricKey (ad_tokens D) (w_tokens w) credential at of
        None \<Rightarrow> (Inl InvalidBiometricKey, w)
      | Some userId \<Rightarrow>
          (case getUserForSession (w_acc w) userId of
             Inl e \<Rightarrow> (Inl (FromSignIn e), w)
           | Inr user \<Rightarrow>
               (case gate (ad_first D) (w_acc w) (su_id user) False False at of
                  Inl e \<Rightarrow> (Inl (FromFirst e), w)
                | Inr _ \<Rightarrow> giveSession D w user dr at)))"

definition routeLogout :: "authDeps \<Rightarrow> authWorld \<Rightarrow> string \<Rightarrow> instant \<Rightarrow> routeResult" where
  "routeLogout D w refreshToken at = (Inr RouteDone, w\<lparr>w_tokens := revokeRefreshToken (ad_tokens D) (w_tokens w) refreshToken at\<rparr>)"

definition routeOtpRequest :: "authDeps \<Rightarrow> authWorld \<Rightarrow> string \<Rightarrow> draws \<Rightarrow> instant \<Rightarrow> routeResult" where
  "routeOtpRequest D w x dr at =
     (let (res, st) = requestLoginOtp (ad_otp D) \<lparr>accountsOf = w_acc w, issuing = [], asked = w_asked w\<rparr> x (dr_rowId dr) (dr_codeHash dr) at
      in (case res of Inl e \<Rightarrow> Inl (FromOtp e) | Inr a \<Rightarrow> Inr (CodeRequest a), w\<lparr>w_acc := accountsOf st, w_asked := asked st\<rparr>))"

definition routeOtpVerify :: "authDeps \<Rightarrow> authWorld \<Rightarrow> string \<Rightarrow> string \<Rightarrow> bool \<Rightarrow> draws \<Rightarrow> instant \<Rightarrow> routeResult" where
  "routeOtpVerify D w x code acceptPasswordChange dr at =
     (let (res, acc) = verifyLoginOtp (ad_otp D) (w_acc w) x code at
      in case res of
           Inl e \<Rightarrow> (Inl (FromOtp e), w\<lparr>w_acc := acc\<rparr>)
         | Inr user \<Rightarrow>
             stepOrSession D (w\<lparr>w_acc := snd (confirm (same D) acc (u_id user) (Some (u_email user)) at)\<rparr>) (toSessionUser user) acceptPasswordChange True dr at)"

definition routeFirstChange :: "authDeps \<Rightarrow> authWorld \<Rightarrow> string \<Rightarrow> string \<Rightarrow> draws \<Rightarrow> instant \<Rightarrow> routeResult" where
  "routeFirstChange D w ticket password dr at =
     (let (res, acc) = changeFirst (ad_first D) (w_acc w) ticket password at;
          w1 = w\<lparr>w_acc := acc\<rparr>
      in case res of
           Inl e \<Rightarrow> (Inl (FromFirst e), w1)
         | Inr userId \<Rightarrow>
             (case getUserForSession acc userId of
                Inl e \<Rightarrow> (Inl (FromSignIn e), w1)
              | Inr user \<Rightarrow> giveSession D w1 user dr at))"

definition routeForgot :: "authDeps \<Rightarrow> authWorld \<Rightarrow> string \<Rightarrow> draws \<Rightarrow> instant \<Rightarrow> routeResult" where
  "routeForgot D w x dr at =
     (let (res, acc) = requestReset (ad_reset D) (w_acc w) [] x (dr_rowId dr) (dr_token dr) at
      in (case res of Inl e \<Rightarrow> Inl (FromReset e) | Inr _ \<Rightarrow> Inr RouteDone, w\<lparr>w_acc := acc\<rparr>))"

text \<open>A used link confirms the address and makes the account theirs.\<close>

definition linkUsed :: "authDeps \<Rightarrow> accounts \<Rightarrow> ident \<Rightarrow> instant \<Rightarrow> accounts" where
  "linkUsed D s k at = markActivated (snd (confirm (same D) s k None at)) k at"

text \<open>Ending every sign-in of a person: their refresh tokens, and sign-ins half-way through the code step.\<close>

definition revokeSessions :: "authDeps \<Rightarrow> authWorld \<Rightarrow> ident \<Rightarrow> instant \<Rightarrow> authWorld" where
  "revokeSessions D w k at =
     w\<lparr>w_tokens := revokeAllForUser (ad_tokens D) (w_tokens w) k at, w_challenges := endAll (ad_challenges D) (w_challenges w) k at\<rparr>"

fun afterReset :: "authDeps \<Rightarrow> instant \<Rightarrow> resetCall \<Rightarrow> authWorld \<Rightarrow> authWorld" where
  "afterReset D at (RevokeSessions k) w = revokeSessions D w k at"
| "afterReset D at (ForgetDevices k) w = w"
| "afterReset D at (SessionsRevoked k) w = w"

definition routeReset :: "authDeps \<Rightarrow> authWorld \<Rightarrow> string \<Rightarrow> string \<Rightarrow> instant \<Rightarrow> routeResult" where
  "routeReset D w token password at =
     (let (res, acc, calls) = resetPassword ((ad_reset D)\<lparr>rd_onLinkUsed := (\<lambda>s k p. linkUsed D s k at)\<rparr>) (w_acc w) token password at
      in (case res of Inl e \<Rightarrow> Inl (FromReset e) | Inr _ \<Rightarrow> Inr RouteDone, fold (afterReset D at) calls (w\<lparr>w_acc := acc\<rparr>)))"

definition routeLinkStatus :: "authDeps \<Rightarrow> authWorld \<Rightarrow> string \<Rightarrow> instant \<Rightarrow> routeResult" where
  "routeLinkStatus D w token at = (Inr (LinkIs (linkStatus (ad_reset D) (w_acc w) token at)), w)"

section \<open>Every route as a step\<close>

datatype authCall =
    Login string string bool bool
  | ChallengeVerify string string bool
  | ChallengeResend string
  | RefreshSession string
  | BiometricCredential string
  | BiometricRevoke string string
  | BiometricSignIn string
  | Logout string
  | OtpRequest string
  | OtpVerify string string bool
  | FirstChange string string
  | Forgot string
  | Reset string string
  | LinkStatus string

fun authStep :: "authDeps \<Rightarrow> authWorld \<Rightarrow> authCall \<Rightarrow> draws \<Rightarrow> instant \<Rightarrow> routeResult" where
  "authStep D w (Login x p c s) dr at = routeLogin D w x p c s dr at"
| "authStep D w (ChallengeVerify t c s) dr at = routeChallengeVerify D w t c s dr at"
| "authStep D w (ChallengeResend t) dr at = routeChallengeResend D w t dr at"
| "authStep D w (RefreshSession t) dr at = routeRefresh D w t dr at"
| "authStep D w (BiometricCredential t) dr at = routeBiometricCredential D w t dr at"
| "authStep D w (BiometricRevoke t k) dr at = routeBiometricRevoke D w t k at"
| "authStep D w (BiometricSignIn t) dr at = routeBiometricSignIn D w t dr at"
| "authStep D w (Logout t) dr at = routeLogout D w t at"
| "authStep D w (OtpRequest x) dr at = routeOtpRequest D w x dr at"
| "authStep D w (OtpVerify x c s) dr at = routeOtpVerify D w x c s dr at"
| "authStep D w (FirstChange t p) dr at = routeFirstChange D w t p dr at"
| "authStep D w (Forgot x) dr at = routeForgot D w x dr at"
| "authStep D w (Reset t p) dr at = routeReset D w t p at"
| "authStep D w (LinkStatus t) dr at = routeLinkStatus D w t at"

section \<open>Cancelling an invitation\<close>

datatype cancelError = UserNotFound | SignedInAlready

text \<open>\<open>unusable\<close>: the hash of the random password drawn for it.\<close>

definition cancelInvitation :: "authDeps \<Rightarrow> authWorld \<Rightarrow> ident \<Rightarrow> string \<Rightarrow> instant \<Rightarrow> (cancelError + unit) \<times> authWorld" where
  "cancelInvitation D w k unusable at =
     (case findById (w_acc w) k of
        None \<Rightarrow> (Inl UserNotFound, w)
      | Some user \<Rightarrow>
          if u_activatedAt user \<noteq> None \<or> u_lastLoginAt user \<noteq> None then (Inl SignedInAlready, w)
          else if u_cancelledAt user \<noteq> None then (Inr (), w)
          else (let (ok, acc) = cancelInvitationRow (w_acc w) k at unusable
                in if \<not> ok then (Inl SignedInAlready, w\<lparr>w_acc := acc\<rparr>)
                   else (Inr (), revokeSessions D (w\<lparr>w_acc := updateUsers (\<lambda>u. u_id u = k) (\<lambda>u. u\<lparr>u_tokenVersion := u_tokenVersion u + 1\<rparr>) acc\<rparr>) k at)))"
section \<open>An account nobody can enter\<close>

text \<open>
  \<open>barred D k w\<close>: the account's invitation is cancelled, its password is one nobody knows and is not a
  temporary one, no sign-in of theirs is half-way, and no refresh token or fingerprint key of theirs is live.
\<close>

definition unknownHash :: "authDeps \<Rightarrow> string \<Rightarrow> bool" where
  "unknownHash D h \<longleftrightarrow> (\<forall>p. \<not> verifyPassword (ad_signIn D) p h)"

definition barredUser :: "authDeps \<Rightarrow> ident \<Rightarrow> userRow \<Rightarrow> bool" where
  "barredUser D k u \<longleftrightarrow> u_id u = k \<longrightarrow> u_cancelledAt u \<noteq> None \<and> unknownHash D (u_passwordHash u)"

definition barredAcc :: "authDeps \<Rightarrow> ident \<Rightarrow> accounts \<Rightarrow> bool" where
  "barredAcc D k s \<longleftrightarrow> list_all (barredUser D k) (users s)"

definition noChallenge :: "ident \<Rightarrow> challengeRow list \<Rightarrow> bool" where
  "noChallenge k rows \<longleftrightarrow> list_all (\<lambda>r. ch_userId r = k \<longrightarrow> ch_consumedAt r \<noteq> None) rows"

definition noToken :: "ident \<Rightarrow> refreshRow list \<Rightarrow> bool" where
  "noToken k rows \<longleftrightarrow> list_all (\<lambda>r. rf_userId r = k \<longrightarrow> rf_revokedAt r \<noteq> None) rows"

definition barred :: "authDeps \<Rightarrow> ident \<Rightarrow> authWorld \<Rightarrow> bool" where
  "barred D k w \<longleftrightarrow> barredAcc D k (w_acc w) \<and> noChallenge k (w_challenges w) \<and> noToken k (w_tokens w)"

named_theorems barred_keep

subsection \<open>Writes that keep an account barred\<close>

lemma barredAcc_update [barred_keep]:
  "barredAcc D k s \<Longrightarrow> (\<And>u. P u \<Longrightarrow> barredUser D k u \<Longrightarrow> barredUser D k (f u)) \<Longrightarrow> barredAcc D k (updateUsers P f s)"
  by (auto simp: barredAcc_def list_all_iff)

lemma barredAcc_users: "users s' = users s \<Longrightarrow> barredAcc D k s' = barredAcc D k s"
  by (simp add: barredAcc_def)

lemma barredAcc_failed: "barredAcc D k s \<Longrightarrow> barredAcc D k (snd (applyFailedAttempt s i a l e))"
  by (auto simp: applyFailedAttempt_def Let_def barredUser_def intro!: barredAcc_update)

lemma barredAcc_reset: "barredAcc D k s \<Longrightarrow> barredAcc D k (resetFailedAttempts s i)"
  by (auto simp: resetFailedAttempts_def barredUser_def intro!: barredAcc_update)

lemma barredAcc_clear: "barredAcc D k s \<Longrightarrow> barredAcc D k (clearLock s i)"
  by (auto simp: clearLock_def barredUser_def intro!: barredAcc_update)

lemma barredAcc_activated: "barredAcc D k s \<Longrightarrow> barredAcc D k (markActivated s i at)"
  by (auto simp: markActivated_def barredUser_def intro!: barredAcc_update)

lemma barredAcc_signIn: "barredAcc D k s \<Longrightarrow> barredAcc D k (recordSignIn s i at)"
  by (auto simp: recordSignIn_def recordSignInAt_def barredUser_def intro!: barredAcc_update barredAcc_activated)

lemma barredAcc_verified: "barredAcc D k s \<Longrightarrow> barredAcc D k (snd (markVerified c s i at e))"
  by (auto simp: markVerified_def Let_def barredUser_def intro!: barredAcc_update barredAcc_activated)

lemma barredAcc_confirm: "barredAcc D k s \<Longrightarrow> barredAcc D k (snd (confirm c s i e at))"
  using barredAcc_verified[of D k s c i at] by (auto simp: confirm_def split: option.splits prod.splits) (metis snd_conv)+

lemma barredAcc_own: "barredAcc D k s \<Longrightarrow> (\<And>u. P u \<Longrightarrow> u_id u \<noteq> k) \<Longrightarrow> barredAcc D k (updateUsers P (ownPassword h) s)"
  by (auto simp: barredUser_def ownPassword_def intro!: barredAcc_update)

lemma barredAcc_links: "barredAcc D k s \<Longrightarrow> barredAcc D k (consumeAllLinks s i at)"
  by (simp add: barredAcc_def)

lemmas barred_accounts = barredAcc_failed barredAcc_reset barredAcc_clear barredAcc_activated barredAcc_signIn
  barredAcc_confirm barredAcc_links

subsection \<open>Writes that open no sign-in\<close>

lemma noChallenge_write: "noChallenge k rows \<Longrightarrow> (\<And>r. P r \<Longrightarrow> ch_userId (f r) = ch_userId r \<and> (ch_consumedAt (f r) = None \<longrightarrow> ch_consumedAt r = None))
   \<Longrightarrow> noChallenge k (snd (dbUpdate rows P f))"
  by (fastforce simp: noChallenge_def list_all_iff dbUpdate_def)

lemma noChallenge_start:
  assumes "cd_store C = prismaStore" "noChallenge k rows" "i \<noteq> k"
  shows "noChallenge k (snd (startChallenge C rows i e kd at fr))"
proof -
  have new: "noChallenge k (snd (startNew C rows' i kd t at fr))" if "noChallenge k rows'" for rows' t
  proof -
    let ?row = "\<lparr>ch_id = fr_id fr, ch_userId = i, ch_kind = kd, ch_tokenHash = cd_hashToken C (fr_token fr),
               ch_codeHash = cd_hmac C (fr_code fr) (cd_key C) (fr_id fr), ch_sentTo = t, ch_attempts = 0,
               ch_sends = 1, ch_lastSentAt = at, ch_expiresAt = codeExpiry at at, ch_consumedAt = None, ch_createdAt = at\<rparr>"
    have "noChallenge k (rows' @ [?row])" using that assms(3) by (simp add: noChallenge_def)
    then show ?thesis using that
      by (auto simp: startNew_def assms(1) prismaStore_def dbEnd_def Let_def intro!: noChallenge_write)
  qed
  have "noChallenge k (dbEnd rows j at)" "noChallenge k (snd (dbRotateToken rows j h))" for j h
    using assms(2) by (auto simp: dbEnd_def dbRotateToken_def intro!: noChallenge_write)
  then show ?thesis using assms(2) new
    by (auto simp: startChallenge_def assms(1) Let_def split: option.splits prod.splits)
      (metis (no_types, lifting) challengeStore.select_convs(3) challengeStore.select_convs(10) prismaStore_def snd_conv)+
qed

lemma noChallenge_verify:
  assumes "cd_store C = prismaStore" "noChallenge k rows" "verify C rows t c at = (res, rows')"
  shows "noChallenge k rows'" "res = Inr v \<Longrightarrow> ver_userId v \<noteq> k"
proof -
  have claim: "noChallenge k (snd (dbClaimAttempt r j m))" "noChallenge k (snd (dbConsume r j at))" if "noChallenge k r" for r j m
    using that by (auto simp: dbClaimAttempt_def dbConsume_def intro!: noChallenge_write)
  have p: "findByTokenHash prismaStore = (\<lambda>rows h. find (\<lambda>r. ch_tokenHash r = h) rows)" "claimAttempt prismaStore = dbClaimAttempt"
    "consumeRow prismaStore = dbConsume" by (simp_all add: prismaStore_def)
  show "noChallenge k rows'"
    using assms(2,3) claim by (auto simp: verify_def assms(1) p split: option.splits if_splits prod.splits) (metis snd_conv)+
  show "ver_userId v \<noteq> k" if ok: "res = Inr v"
  proof -
    obtain row where "find (\<lambda>r. ch_tokenHash r = cd_hashToken C t) rows = Some row" "isOpen row at" "ver_userId v = ch_userId row"
      using assms(3) ok by (auto simp: verify_def assms(1) p split: option.splits if_splits prod.splits)
    then show ?thesis using assms(2) find_mem by (fastforce simp: noChallenge_def list_all_iff isOpen_def)
  qed
qed

lemma noChallenge_resend:
  assumes "cd_store C = prismaStore" "noChallenge k rows"
  shows "noChallenge k (snd (resend C rows t at fr))"
proof -
  have "noChallenge k (snd (dbRecordSend rows j h at ex))" for j h ex
    using assms(2) by (auto simp: dbRecordSend_def intro!: noChallenge_write)
  moreover have "recordSend prismaStore = dbRecordSend" by (simp add: prismaStore_def)
  ultimately show ?thesis using assms(2)
    by (auto simp: resend_def assms(1) Let_def split: sum.splits prod.splits) (metis snd_conv)+
qed
subsection \<open>Tokens\<close>

lemma noToken_write: "noToken k rows \<Longrightarrow> (\<And>r. P r \<Longrightarrow> rf_userId (f r) = rf_userId r \<and> (rf_revokedAt (f r) = None \<longrightarrow> rf_revokedAt r = None))
   \<Longrightarrow> noToken k (updateWhere P f rows)"
  by (fastforce simp: noToken_def list_all_iff updateWhere_def)

lemma noToken_revoking [intro!]:
  "noToken k rows \<Longrightarrow> noToken k (revokeAllOf rows u at)" "noToken k rows \<Longrightarrow> noToken k (revokeFamilyOf rows g at)"
  "noToken k rows \<Longrightarrow> noToken k (revokeKeysOf rows u at)" "noToken k rows \<Longrightarrow> noToken k (extendKeysOf rows u ex at)"
  "noToken k rows \<Longrightarrow> noToken k (dbRevoke rows h at)" "noToken k rows \<Longrightarrow> noToken k (dbSetSuccessor rows h enc)"
  by (auto simp: revokeAllOf_def revokeFamilyOf_def revokeKeysOf_def extendKeysOf_def dbRevoke_def dbSetSuccessor_def revoked_def
      intro!: noToken_write)

lemma noToken_save: "noToken k rows \<Longrightarrow> u \<noteq> k \<Longrightarrow> noToken k (saveRow rows u h ex fam bio)"
  by (simp add: noToken_def saveRow_def newRow_def)

lemma noToken_owner: "noToken k rows \<Longrightarrow> validOwner rows h at \<noteq> Some k"
  by (auto simp: validOwner_def noToken_def list_all_iff dest!: find_mem)

lemma noToken_rotated: "noToken k rows \<Longrightarrow> noToken k (snd (dbRotate rows h at))"
proof -
  assume "noToken k rows"
  then have "noToken k (updateWhere (\<lambda>r. rf_hash r = h \<and> rf_revokedAt r = None \<and> rf_expiresAt r > at) (revoked at) rows)"
    by (auto simp: revoked_def intro!: noToken_write)
  then show ?thesis by (simp add: dbRotate_def Let_def split: option.splits)
qed

lemma noToken_issue: "td_store T = prismaTokens \<Longrightarrow> noToken k rows \<Longrightarrow> tu_id u \<noteq> k \<Longrightarrow> noToken k (snd (issueTokens T rows u fam jti f at))"
  by (auto simp: issueTokens_def prismaTokens_def Let_def intro!: noToken_save)

lemma noToken_key: "td_store T = prismaTokens \<Longrightarrow> noToken k rows \<Longrightarrow> tu_id u \<noteq> k \<Longrightarrow> noToken k (snd (issueBiometricKey T rows u jti f at))"
  by (simp add: issueBiometricKey_def prismaTokens_def Let_def noToken_save)

lemma noToken_successor: "td_store T = prismaTokens \<Longrightarrow> noToken k rows \<Longrightarrow> noToken k (recordSuccessor T rows a b)"
  by (auto simp: recordSuccessor_def prismaTokens_def split: option.splits)

lemma noToken_revoke: "td_store T = prismaTokens \<Longrightarrow> noToken k rows \<Longrightarrow> noToken k (revokeRefreshToken T rows a at)" "td_store T = prismaTokens \<Longrightarrow> noToken k rows \<Longrightarrow> noToken k (revokeBiometricKey T rows u a at)"
  "td_store T = prismaTokens \<Longrightarrow> noToken k rows \<Longrightarrow> noToken k (revokeAllForUser T rows u at)"
  by (auto simp: revokeRefreshToken_def revokeBiometricKey_def revokeAllForUser_def prismaTokens_def)

lemma noToken_rotate: "td_store T = prismaTokens \<Longrightarrow> noToken k rows \<Longrightarrow> noToken k (snd (rotateRefreshToken T rows t at))"
  using noToken_rotated[of k rows "td_hash T t" at]
  by (auto simp: rotateRefreshToken_def presentedAgain_def prismaTokens_def Let_def split: option.splits rotateResult.splits prod.splits)

lemma noToken_sessionOwner: "td_store T = prismaTokens \<Longrightarrow> noToken k rows \<Longrightarrow> sessionOwner T rows t at \<noteq> Some k"
  using noToken_owner[of k rows] by (auto simp: sessionOwner_def prismaTokens_def split: option.splits if_splits)

lemma noToken_biometric: "td_store T = prismaTokens \<Longrightarrow> noToken k rows \<Longrightarrow> verifyBiometricKey T rows t at \<noteq> Some k"
  using noToken_owner[of k rows] by (auto simp: verifyBiometricKey_def prismaTokens_def split: option.splits if_splits)

subsection \<open>The services let a barred account do nothing\<close>

lemma barred_user: "barredAcc D k s \<Longrightarrow> u \<in> set (users s) \<Longrightarrow> u_id u = k \<Longrightarrow> u_cancelledAt u \<noteq> None \<and> unknownHash D (u_passwordHash u)"
  by (auto simp: barredAcc_def list_all_iff barredUser_def)

lemma barred_login:
  assumes "barredAcc D k s" "login (ad_signIn D) s x p at = (res, s')"
  shows "barredAcc D k s'" "res = Inr u \<Longrightarrow> su_id u \<noteq> k"
proof -
  have keep: "barredAcc D k s1" "barredAcc D k (resetFailedAttempts s1 j)" if "applyFailedAttempt s i a l e = (b, s1)" for i a l e b s1 j
    using barredAcc_failed[OF assms(1), of i a l e] that barredAcc_reset[of D k s1 j] by simp_all
  show "barredAcc D k s'"
    using assms keep by (auto simp: login_def Let_def split: option.splits if_splits prod.splits)
  show "su_id u \<noteq> k" if ok: "res = Inr u"
  proof -
    obtain v where v: "findByIdentifier (sameName (ad_signIn D)) s x = Some v" "verifyPassword (ad_signIn D) p (u_passwordHash v)" "u = toSessionUser v"
      using assms(2) ok by (auto simp: login_def Let_def split: option.splits if_splits prod.splits)
    then show ?thesis using barred_user[OF assms(1) findByIdentifier_mem[OF v(1)]] by (auto simp: unknownHash_def toSessionUser_def)
  qed
qed

lemma getUserForSession_id: "getUserForSession s i = Inr u \<Longrightarrow> su_id u = i"
  by (auto simp: getUserForSession_def findById_def findUser_def toSessionUser_def split: option.splits if_splits dest!: find_mem)

lemma barred_active: "barredAcc D k s \<Longrightarrow> findActiveByIdentifier c s x = Some u \<Longrightarrow> u_id u \<noteq> k"
  by (auto simp: findActiveByIdentifier_def findUser_def mayEnter_def dest!: find_mem dest: barred_user)

lemma barred_isActive: "barredAcc D k s \<Longrightarrow> isActive s i \<Longrightarrow> i \<noteq> k"
proof
  assume b: "barredAcc D k s" and a: "isActive s i" and i: "i = k"
  have "filter (\<lambda>u. u_id u = i \<and> mayEnter u) (users s) = []"
    using barred_user[OF b] i by (auto simp: filter_empty_conv mayEnter_def)
  then show False using a by (simp add: isActive_def countUsers_def)
qed

lemma barred_codes: "users (accountsOf (snd (requestLoginOtp C st x i h at))) = users (accountsOf st)"
  using request_accounts[of C st x i h at]
  by (auto simp: issueNow_def createLoginOtp_def issueOtp_def Let_def)

lemma barred_verifyOtp:
  assumes "barredAcc D k s" "verifyLoginOtp C s x c at = (res, s')"
  shows "barredAcc D k s'" "res = Inr u \<Longrightarrow> u_id u \<noteq> k"
proof -
  have w: "users (snd (claimOtpAttempt r i m)) = users r" "users (snd (consumeOtp r i at)) = users r" for r i m
    by (simp_all add: claimOtpAttempt_def consumeOtp_def writeOtp_def)
  have "users s' = users s \<or> (\<exists>i. users s' = users (clearLock s i))"
    using assms(2) by (auto simp: verifyLoginOtp_def claimOtpAttempt_def consumeOtp_def writeOtp_def clearLock_def Let_def split: option.splits if_splits)
  then show "barredAcc D k s'" using assms(1) barredAcc_clear[OF assms(1)] by (auto simp: barredAcc_def)
  show "u_id u \<noteq> k" if ok: "res = Inr u"
    using assms(2) ok barred_active[OF assms(1)] by (auto simp: verifyLoginOtp_def Let_def split: option.splits if_splits prod.splits)
qed

lemma barred_complete: "barredAcc D k s \<Longrightarrow> i \<noteq> k \<Longrightarrow> barredAcc D k (snd (completeOwn s i e h at))"
  by (auto simp: completeOwn_def Let_def intro!: barredAcc_own barredAcc_links barredAcc_activated)

lemma barred_change:
  assumes "barredAcc D k s" "changeFirst F s t p at = (res, s')"
  shows "barredAcc D k s'" "res = Inr i \<Longrightarrow> i \<noteq> k"
proof -
  have no: "tb_userId b \<noteq> k" if "firstState s (tb_userId b) = Some st" "\<not> fp_cancelled st" for b st
    using firstState_Some[OF that(1)] barred_user[OF assms(1)] that(2) by metis
  have keep: "barredAcc D k s1" if "completeOwn s (tb_userId b) e h at = (d, s1)" "firstState s (tb_userId b) = Some st" "\<not> fp_cancelled st" for b e h d s1 st
    using barred_complete[OF assms(1) no[OF that(2,3)], of e h at] that(1) by simp
  show "barredAcc D k s'"
    using assms by (auto simp: changeFirst_def Let_def split: option.splits if_splits prod.splits intro: keep)
  show "i \<noteq> k" if ok: "res = Inr i"
    using assms(2) ok no by (auto simp: changeFirst_def Let_def split: option.splits if_splits prod.splits)
qed
lemma barred_linkUsed: "barredAcc D k s \<Longrightarrow> barredAcc D k (linkUsed E s i at)"
  by (simp add: linkUsed_def barred_accounts)

lemma barred_reset:
  assumes "barredAcc D k s" "\<And>s i p. barredAcc D k s \<Longrightarrow> barredAcc D k (rd_onLinkUsed R s i p)" "resetPassword R s t p at = (res, s', calls)"
  shows "barredAcc D k s'"
proof -
  have w: "users s1 = users s" if "consumeLink s j at = (b, s1)" for j b s1
    using that by (auto simp: consumeLink_def writeOtp_def)
  have "barredAcc D k (setPasswordAndUnlock s1 i h)" if "consumeLink s j at = (b, s1)" "isActive s i" for j b s1 i h
    using barredAcc_users[OF w[OF that(1)]] assms(1) barred_isActive[OF assms(1) that(2)]
    by (auto simp: setPasswordAndUnlock_def intro!: barredAcc_own)
  then show ?thesis
    using assms(1,3) assms(2) barredAcc_users[OF w] barredAcc_links
    by (auto simp: resetPassword_def Let_def split: option.splits if_splits prod.splits)
qed

lemma barred_requestReset: "users (snd (requestReset R s b x i t at)) = users s"
  by (auto simp: requestReset_def issueReset_def createResetLink_def issueOtp_def Let_def split: option.splits)

text \<open>The answers that let \<open>k\<close> in, or on to the next step.\<close>

definition letsIn :: "ident \<Rightarrow> routeError + routeAnswer \<Rightarrow> bool" where
  "letsIn k res \<longleftrightarrow> (case res of Inr (Session user a r) \<Rightarrow> su_id user = k | _ \<Rightarrow> False)"

definition wired :: "authDeps \<Rightarrow> bool" where
  "wired D \<longleftrightarrow> cd_store (ad_challenges D) = prismaStore \<and> td_store (ad_tokens D) = prismaTokens"

definition shut :: "authDeps \<Rightarrow> ident \<Rightarrow> routeResult \<Rightarrow> bool" where
  "shut D k r \<longleftrightarrow> barred D k (snd r) \<and> \<not> letsIn k (fst r)"

lemma shutI: "r = (res, w) \<Longrightarrow> barred D k w \<Longrightarrow> \<not> letsIn k res \<Longrightarrow> shut D k r"
  by (simp add: shut_def)

lemma letsIn_simps [simp]:
  "\<not> letsIn k (Inl e)" "letsIn k (Inr (Session u a b)) = (su_id u = k)" "\<not> letsIn k (Inr (ChallengeStep v))"
  "\<not> letsIn k (Inr (PasswordStep x y))" "\<not> letsIn k (Inr (CodeResent q))" "\<not> letsIn k (Inr (CodeRequest c))"
  "\<not> letsIn k (Inr (KeyMade x z))" "\<not> letsIn k (Inr (LinkIs l))" "\<not> letsIn k (Inr RouteDone)"
  by (simp_all add: letsIn_def)

lemma shut_give:
  assumes "wired D" "barred D k w" "su_id u \<noteq> k"
  shows "shut D k (giveSession D w u dr at)"
  using assms noToken_issue[of "ad_tokens D" k "w_tokens w" "asTokenUser u"]
  by (auto simp: shut_def giveSession_def wired_def barred_def asTokenUser_def Let_def barred_accounts split: prod.splits)
    (metis snd_conv)

lemma shut_step:
  assumes "wired D" "barred D k w" "su_id u \<noteq> k"
  shows "shut D k (stepOrSession D w u s v dr at)"
  using assms shut_give[OF assms] by (auto simp: stepOrSession_def shut_def split: sum.splits option.splits)

lemma shut_login:
  assumes "wired D" "barred D k w"
  shows "shut D k (routeLogin D w x p c s dr at)"
proof -
  obtain res acc where l: "login (ad_signIn D) (w_acc w) x p at = (res, acc)" by fastforce
  have b: "barred D k (w\<lparr>w_acc := acc\<rparr>)" and u: "\<And>u. res = Inr u \<Longrightarrow> su_id u \<noteq> k"
    using barred_login[OF _ l] assms(2) by (auto simp: barred_def)
  have "noChallenge k (snd (startChallenge (ad_challenges D) (w_challenges w) (su_id u) e kd at fr))" if "res = Inr u" for u e kd fr
    using assms u[OF that] by (intro noChallenge_start) (auto simp: wired_def barred_def)
  then show ?thesis unfolding routeLogin_def l using b u shut_step[OF assms(1) b]
    by (auto simp: shut_def Let_def barred_def split: sum.splits prod.splits) (metis snd_conv)+
qed

lemma shut_challengeVerify:
  assumes "wired D" "barred D k w"
  shows "shut D k (routeChallengeVerify D w t c s dr at)"
proof -
  obtain res rows where v: "verify (ad_challenges D) (w_challenges w) t c at = (res, rows)" by fastforce
  have n: "noChallenge k rows" "\<And>v. res = Inr v \<Longrightarrow> ver_userId v \<noteq> k"
    using noChallenge_verify[OF _ _ v] assms by (auto simp: wired_def barred_def)
  have b1: "barred D k (w\<lparr>w_challenges := rows\<rparr>)" using assms(2) n(1) by (simp add: barred_def)
  have b2: "barred D k (w\<lparr>w_challenges := rows, w_acc := snd (confirm c' (w_acc w) i e at)\<rparr>)" for c' i e
    using assms(2) n(1) by (simp add: barred_def barred_accounts)
  have u: "su_id u \<noteq> k" if "res = Inr v" "getUserForSession s' (ver_userId v) = Inr u" for u v s'
    using n(2)[OF that(1)] getUserForSession_id[OF that(2)] by simp
  show ?thesis unfolding routeChallengeVerify_def v
    using b1 b2 u shut_step[OF assms(1) b2]
    by (auto simp: shut_def Let_def split: sum.splits prod.splits) (metis snd_conv)+
qed

lemma shut_resend: "wired D \<Longrightarrow> barred D k w \<Longrightarrow> shut D k (routeChallengeResend D w t dr at)"
  using noChallenge_resend[of "ad_challenges D" k "w_challenges w" t at "dr_fresh dr"]
  by (auto simp: routeChallengeResend_def wired_def barred_def shut_def split: prod.splits sum.splits)

lemma shut_refresh:
  assumes "wired D" "barred D k w"
  shows "shut D k (routeRefresh D w t dr at)"
proof -
  obtain spent rows where r: "rotateRefreshToken (ad_tokens D) (w_tokens w) t at = (spent, rows)" by fastforce
  have n: "noToken k rows" using noToken_rotate[of "ad_tokens D" k "w_tokens w" t at] r assms by (simp add: wired_def barred_def)
  then have b: "barred D k (w\<lparr>w_tokens := rows\<rparr>)" using assms(2) by (simp add: barred_def)
  have c: "su_id u \<noteq> k" if u: "getUserForSession (w_acc w) i = Inr u" "\<not> firstCancelled (w_acc w) (su_id u)" for u i
  proof
    assume k: "su_id u = k"
    have "findUser (w_acc w) (\<lambda>v. u_id v = k) \<noteq> None"
      using u(1) k getUserForSession_id[OF u(1)]
      by (auto simp: getUserForSession_def findById_def findUser_def find_None_iff split: option.splits dest: find_mem)
    then obtain v where v: "findUser (w_acc w) (\<lambda>v. u_id v = k) = Some v" by auto
    then have "v \<in> set (users (w_acc w))" "u_id v = k" using find_mem unfolding findUser_def by fast+
    then have "u_cancelledAt v \<noteq> None" using barred_user assms(2) unfolding barred_def by blast
    then show False using u(2) v k by (simp add: firstCancelled_def firstState_def)
  qed
  have i: "barred D k (w\<lparr>w_tokens := recordSuccessor (ad_tokens D) rows1 x y\<rparr>)"
    if "issueTokens (ad_tokens D) rows (asTokenUser u) f j g at = (ts, rows1)" "su_id u \<noteq> k" for u f j g ts rows1 x y
    using noToken_issue[of "ad_tokens D" k rows "asTokenUser u" f j g at] that n assms noToken_successor[of "ad_tokens D" k rows1 x y]
    by (simp add: wired_def barred_def asTokenUser_def)
  show ?thesis unfolding routeRefresh_def r using b c i
    by (auto simp: shut_def Let_def split: sum.splits prod.splits refreshOutcome.splits option.splits)
qed

lemma shut_biometric:
  assumes "wired D" "barred D k w"
  shows "shut D k (routeBiometricCredential D w t dr at)" "shut D k (routeBiometricRevoke D w t i at)"
    "shut D k (routeBiometricSignIn D w t dr at)" "shut D k (routeLogout D w t at)"
proof -
  have T: "td_store (ad_tokens D) = prismaTokens" and n: "noToken k (w_tokens w)" using assms by (auto simp: wired_def barred_def)
  have key: "barred D k (w\<lparr>w_tokens := snd (issueBiometricKey (ad_tokens D) (w_tokens w) (asTokenUser u) j f at)\<rparr>)" if "su_id u \<noteq> k" for u j f
    using noToken_key[OF T n] that assms(2) by (simp add: barred_def asTokenUser_def)
  have own: "su_id u \<noteq> k" if "sessionOwner (ad_tokens D) (w_tokens w) t at = Some i" "getUserForSession s i = Inr u" for i s u
    using noToken_sessionOwner[OF T n, of t at] getUserForSession_id[OF that(2)] that(1) by auto
  show "shut D k (routeBiometricCredential D w t dr at)"
    unfolding routeBiometricCredential_def using key own assms(2)
    by (auto simp: shut_def Let_def split: option.splits sum.splits prod.splits) (metis snd_conv)
  show "shut D k (routeBiometricRevoke D w t i at)" "shut D k (routeLogout D w t at)"
    using noToken_revoke[OF T n] assms(2) by (auto simp: routeBiometricRevoke_def routeLogout_def shut_def barred_def split: option.splits)
  have "su_id u \<noteq> k" if "verifyBiometricKey (ad_tokens D) (w_tokens w) t at = Some i" "getUserForSession s i = Inr u" for i s u
    using noToken_biometric[OF T n, of t at] getUserForSession_id[OF that(2)] that(1) by auto
  then show "shut D k (routeBiometricSignIn D w t dr at)"
    unfolding routeBiometricSignIn_def using assms(2) shut_give[OF assms]
    by (auto simp: shut_def split: option.splits sum.splits)
qed

lemma shut_otp:
  assumes "wired D" "barred D k w"
  shows "shut D k (routeOtpRequest D w x dr at)" "shut D k (routeOtpVerify D w x c s dr at)"
proof -
  have "users (accountsOf (snd (requestLoginOtp (ad_otp D) \<lparr>accountsOf = w_acc w, issuing = [], asked = w_asked w\<rparr> x i h at))) = users (w_acc w)" for i h
    using barred_codes[of "ad_otp D" "\<lparr>accountsOf = w_acc w, issuing = [], asked = w_asked w\<rparr>" x i h at] by simp
  then show "shut D k (routeOtpRequest D w x dr at)" using assms(2)
    by (auto simp: routeOtpRequest_def shut_def barred_def barredAcc_def split: prod.splits sum.splits) (metis snd_conv)+
  obtain res acc where v: "verifyLoginOtp (ad_otp D) (w_acc w) x c at = (res, acc)" by fastforce
  have a: "barredAcc D k acc" "\<And>u. res = Inr u \<Longrightarrow> u_id u \<noteq> k" using barred_verifyOtp[OF _ v, of D k] assms(2) by (simp_all add: barred_def)
  have b: "barred D k (w\<lparr>w_acc := acc\<rparr>)" "barred D k (w\<lparr>w_acc := snd (confirm c' acc i e at)\<rparr>)" for c' i e
    using assms(2) a(1) by (simp_all add: barred_def barred_accounts)
  show "shut D k (routeOtpVerify D w x c s dr at)"
    unfolding routeOtpVerify_def v using a(2) b(1) shut_step[OF assms(1) b(2)]
    by (auto simp: shut_def Let_def toSessionUser_def split: sum.splits)
qed

lemma shut_passwords:
  assumes "wired D" "barred D k w"
  shows "shut D k (routeFirstChange D w t p dr at)" "shut D k (routeForgot D w x dr at)" "shut D k (routeReset D w t p at)"
proof -
  obtain res acc where v: "changeFirst (ad_first D) (w_acc w) t p at = (res, acc)" by fastforce
  have a: "barred D k (w\<lparr>w_acc := acc\<rparr>)" "\<And>i. res = Inr i \<Longrightarrow> i \<noteq> k" using barred_change[OF _ v, of D k] assms(2) by (simp_all add: barred_def)
  show "shut D k (routeFirstChange D w t p dr at)"
    unfolding routeFirstChange_def v using a shut_give[OF assms(1) a(1)] getUserForSession_id
    by (auto simp: shut_def Let_def split: sum.splits)
  show "shut D k (routeForgot D w x dr at)" using assms(2) barred_requestReset
    by (auto simp: routeForgot_def shut_def barred_def barredAcc_def split: prod.splits sum.splits) (metis snd_conv)+
  have rv: "barred D k (afterReset D at cl w')" if "barred D k w'" for cl w'
    using that assms(1) noToken_revoke(3)[of "ad_tokens D" k "w_tokens w'"]
    by (cases cl) (auto simp: revokeSessions_def wired_def barred_def endAll_def prismaStore_def intro!: noChallenge_write)
  have "barred D k (fold (afterReset D at) calls w')" if "barred D k w'" for calls w'
    using that rv by (induction calls arbitrary: w') auto
  moreover have "barred D k (w\<lparr>w_acc := acc\<rparr>)"
    if "resetPassword ((ad_reset D)\<lparr>rd_onLinkUsed := (\<lambda>s k p. linkUsed D s k at)\<rparr>) (w_acc w) t p at = (res, acc, calls)" for res acc calls
    using barred_reset[OF _ _ that, of D k] assms(2) barred_linkUsed[of D k _ D] by (simp add: barred_def)
  ultimately show "shut D k (routeReset D w t p at)"
    by (auto simp: routeReset_def shut_def split: prod.splits sum.splits)
qed

lemma shut_every_route: "wired D \<Longrightarrow> barred D k w \<Longrightarrow> shut D k (authStep D w call dr at)"
  by (cases call) (simp_all add: shut_login shut_challengeVerify shut_resend shut_refresh shut_biometric shut_otp shut_passwords
      routeLinkStatus_def shut_def[of D k "(Inr (LinkIs _), _)"])
section \<open>Properties\<close>

text \<open>A run of calls, and everything they answered.\<close>

primrec answers :: "(authCall \<times> draws \<times> instant) list \<Rightarrow> authDeps \<Rightarrow> authWorld \<Rightarrow> (routeError + routeAnswer) list" where
  "answers [] D w = []"
| "answers (c # cs) D w = (let r = authStep D w (fst c) (fst (snd c)) (snd (snd c)) in fst r # answers cs D (snd r))"

lemma answers_shut: "wired D \<Longrightarrow> barred D k w \<Longrightarrow> list_all (\<lambda>res. \<not> letsIn k res) (answers cs D w)"
proof (induction cs arbitrary: w)
  case (Cons c cs)
  have "shut D k (authStep D w (fst c) (fst (snd c)) (snd (snd c)))" by (rule shut_every_route[OF Cons.prems])
  then show ?case using Cons.IH[OF Cons.prems(1)] by (simp add: shut_def Let_def)
qed simp

lemma noToken_ended: "noToken k (revokeAllOf rows k at)"
  by (induction rows) (simp_all add: noToken_def revokeAllOf_def updateWhere_def revoked_def)

lemma noChallenge_ended:
  "noChallenge k (snd (dbUpdate rows (\<lambda>r. ch_userId r = k \<and> ch_consumedAt r = None) (\<lambda>r. r\<lparr>ch_consumedAt := Some at\<rparr>)))"
  by (induction rows) (simp_all add: noChallenge_def dbUpdate_def)

lemma cancel_bars:
  assumes w: "wired D" and ids: "uniqueUserIds (w_acc w)" and h: "unknownHash D unusable"
    and open': "\<And>u. findById (w_acc w) k = Some u \<Longrightarrow> u_cancelledAt u = None" and c: "cancelInvitation D w k unusable at = (Inr (), w')"
  shows "barred D k w'"
proof -
  obtain u where u: "findById (w_acc w) k = Some u" "u_activatedAt u = None" "u_lastLoginAt u = None"
    using c by (auto simp: cancelInvitation_def split: option.splits if_splits)
  let ?P = "\<lambda>v. u_id v = k \<and> u_deletedAt v = None \<and> u_activatedAt v = None \<and> u_lastLoginAt v = None"
  let ?f = "\<lambda>v. v\<lparr>u_cancelledAt := Some at, u_passwordHash := unusable, u_mustChange := False, u_tempSetAt := None, u_tempSetBy := None, u_tempExpiresAt := None\<rparr>"
  have m: "u \<in> set (users (w_acc w))" "u_id u = k" "u_deletedAt u = None"
    using u(1) by (auto simp: findById_def findUser_def dest!: find_mem)
  obtain acc where acc: "cancelInvitationRow (w_acc w) k at unusable = (True, acc)"
    and w': "w' = revokeSessions D (w\<lparr>w_acc := updateUsers (\<lambda>u. u_id u = k) (\<lambda>u. u\<lparr>u_tokenVersion := u_tokenVersion u + 1\<rparr>) acc\<rparr>) k at"
    using c u open'[OF u(1)] by (auto simp: cancelInvitation_def Let_def split: prod.splits if_splits)
  have rows: "users acc = map (\<lambda>v. if ?P v then ?f v else v) (users (w_acc w))"
    using acc by (auto simp: cancelInvitationRow_def Let_def split: if_splits)
  have each: "barredUser D k (if ?P v then ?f v else v)" if v: "v \<in> set (users (w_acc w))" for v
  proof (cases "u_id v = k")
    case True
    then have "v = u" using uniqueUserIds_row[OF ids m(1) v] m(2) by simp
    then show ?thesis using u(2,3) m h by (simp add: barredUser_def)
  qed (simp add: barredUser_def)
  have "barredAcc D k acc" unfolding barredAcc_def rows list_all_iff set_map ball_simps using each by (rule ballI)
  then have "barredAcc D k (updateUsers (\<lambda>u. u_id u = k) (\<lambda>u. u\<lparr>u_tokenVersion := u_tokenVersion u + 1\<rparr>) acc)"
    by (rule barredAcc_update) (simp add: barredUser_def)
  then have "barredAcc D k (w_acc w')" unfolding w' by (simp add: revokeSessions_def)
  moreover have "noToken k (w_tokens w')" using w unfolding w'
    by (simp add: revokeSessions_def wired_def revokeAllForUser_def prismaTokens_def noToken_ended)
  moreover have "noChallenge k (w_challenges w')" using w unfolding w'
    by (simp add: revokeSessions_def wired_def endAll_def prismaStore_def noChallenge_ended)
  ultimately show ?thesis by (simp add: barred_def)
qed

text \<open>
  C3. A cancelled invitation is no way in. Once an administrator has cancelled someone's invitation (and
  the random password it was given is one nobody can type), no sequence of calls of the sign-in routes by
  anyone, with any passwords, codes, links, tickets, tokens and keys, at any instants, ever answers with a
  session of that account: not by password, emailed code or challenge opened before, not by a refresh
  token or fingerprint key, not by a set-password link, Forgot password or the temporary password's step.
\<close>

theorem cancelled_invitation_no_way_in:
  assumes "wired D" "uniqueUserIds (w_acc w)" "unknownHash D unusable"
    and "\<And>u. findById (w_acc w) k = Some u \<Longrightarrow> u_cancelledAt u = None"
    and "cancelInvitation D w k unusable at = (Inr (), w')"
  shows "list_all (\<lambda>res. \<not> letsIn k res) (answers calls D w')"
  by (rule answers_shut[OF assms(1) cancel_bars[OF assms]])

definition sampleWired :: authDeps where
  "sampleWired = \<lparr>ad_signIn = sampleSignIn\<lparr>verifyPassword := (\<lambda>p h. p = h \<and> h \<noteq> ''!'')\<rparr>, ad_otp = sampleOtp, ad_reset = sampleReset, ad_first = sampleFirst,
     ad_challenges = sampleDeps, ad_tokens = sampleTokenDeps\<rparr>"

definition sampleWorld :: authWorld where
  "sampleWorld = \<lparr>w_acc = sampleLinks, w_asked = [], w_challenges = [], w_tokens = []\<rparr>"

definition sampleDraws :: draws where
  "sampleDraws = \<lparr>dr_fresh = \<lparr>fr_id = ''c'', fr_token = ''ct'', fr_code = ''123456'', fr_mailGoes = True\<rparr>, dr_jti = ''j'', dr_family = ''f'',
     dr_rowId = ''o9'', dr_token = ''tok9'', dr_codeHash = ''654321''\<rparr>"

definition sampleCalls :: "(authCall \<times> draws \<times> instant) list" where
  "sampleCalls = [(Login ''ann'' ''pw'' True True, sampleDraws, 300000), (Reset ''tok1'' ''new-pass1'', sampleDraws, 301000),
     (OtpRequest ''ann'', sampleDraws, 302000), (OtpVerify ''ann'' ''654321'' True, sampleDraws, 303000), (Login ''bob'' ''pw'' True True, sampleDraws, 304000)]"

theorem cancelled_invitation_no_way_in_witness:
  "list_all (\<lambda>res. \<not> letsIn ''u'' res) (answers sampleCalls sampleWired (snd (cancelInvitation sampleWired sampleWorld ''u'' ''!'' 250000)))
   \<and> list_ex (letsIn ''u'') (answers [(Reset ''tok1'' ''new-pass1'', sampleDraws, 300000), (Login ''ann'' ''new-pass1'' True True, sampleDraws, 301000),
       (ChallengeVerify ''ct'' ''123456'' True, sampleDraws, 302000)] sampleWired sampleWorld)"
proof
  have w: "wired sampleWired" by (simp add: wired_def sampleWired_def sampleDeps_def sampleTokenDeps_def)
  have i: "uniqueUserIds (w_acc sampleWorld)" by code_simp
  have h: "unknownHash sampleWired ''!''" by (simp add: unknownHash_def sampleWired_def)
  have "map_option u_cancelledAt (findById (w_acc sampleWorld) ''u'') = Some None" by code_simp
  then have o': "\<And>u. findById (w_acc sampleWorld) ''u'' = Some u \<Longrightarrow> u_cancelledAt u = None" by simp
  have "fst (cancelInvitation sampleWired sampleWorld ''u'' ''!'' 250000) = Inr ()" by code_simp
  then have c: "cancelInvitation sampleWired sampleWorld ''u'' ''!'' 250000 = (Inr (), snd (cancelInvitation sampleWired sampleWorld ''u'' ''!'' 250000))"
    by (metis prod.collapse)
  show "list_all (\<lambda>res. \<not> letsIn ''u'' res) (answers sampleCalls sampleWired (snd (cancelInvitation sampleWired sampleWorld ''u'' ''!'' 250000)))"
    by (rule cancelled_invitation_no_way_in[OF w i h o' c])
  show "list_ex (letsIn ''u'') (answers [(Reset ''tok1'' ''new-pass1'', sampleDraws, 300000), (Login ''ann'' ''new-pass1'' True True, sampleDraws, 301000),
       (ChallengeVerify ''ct'' ''123456'' True, sampleDraws, 302000)] sampleWired sampleWorld)"
    by code_simp
qed

end
