(* ===== verification/Idempotency.thy ===== *)
theory Idempotency
  imports JsText
begin

text \<open>
  \<open>lib/idempotency.ts\<close>: POSTs that may be sent again under one \<open>Idempotency-Key\<close>. Both stores, and the three
  hooks as the steps a request takes (each call of the store is a step of its own, so the steps of
  several requests interleave as their awaits do; each call may fail, with or without its effect). The
  draw that decides on the clean-up inside \<open>reserve\<close> comes with the step. A run lies within one day, the
  time a reserved row is kept.
\<close>

section \<open>Stores\<close>

record idemRow =
  id_userId :: ident
  id_key :: string
  id_method :: string
  id_path :: string
  id_statusCode :: int
  id_responseBody :: string
  id_createdAt :: instant

definition PENDING_STATUS :: int where "PENDING_STATUS = 0"
definition IDEMPOTENCY_RETENTION_MS :: int where "IDEMPOTENCY_RETENTION_MS = 24 * 60 * 60 * 1000"
definition MAX_KEY_LENGTH :: nat where "MAX_KEY_LENGTH = 128"

record 's idemStore =
  findKey :: "'s \<Rightarrow> ident \<Rightarrow> string \<Rightarrow> idemRow option"
  reserveKey :: "'s \<Rightarrow> ident \<Rightarrow> string \<Rightarrow> string \<Rightarrow> string \<Rightarrow> instant \<Rightarrow> bool \<Rightarrow> bool \<times> 's"
  completeKey :: "'s \<Rightarrow> ident \<Rightarrow> string \<Rightarrow> int \<Rightarrow> string \<Rightarrow> 's"
  releaseKey :: "'s \<Rightarrow> ident \<Rightarrow> string \<Rightarrow> 's"
  purgeOlderThan :: "'s \<Rightarrow> instant \<Rightarrow> 's"

definition reservedRow :: "ident \<Rightarrow> string \<Rightarrow> string \<Rightarrow> string \<Rightarrow> instant \<Rightarrow> idemRow" where
  "reservedRow u k m p at = \<lparr>id_userId = u, id_key = k, id_method = m, id_path = p, id_statusCode = PENDING_STATUS,
     id_responseBody = [], id_createdAt = at\<rparr>"

definition isRow :: "ident \<Rightarrow> string \<Rightarrow> idemRow \<Rightarrow> bool" where
  "isRow u k r \<longleftrightarrow> id_userId r = u \<and> id_key r = k"

subsection \<open>In the database (a unique index on user and key)\<close>

definition dbFindKey :: "idemRow list \<Rightarrow> ident \<Rightarrow> string \<Rightarrow> idemRow option" where
  "dbFindKey rows u k = find (isRow u k) rows"

definition dbPurge :: "idemRow list \<Rightarrow> instant \<Rightarrow> idemRow list" where
  "dbPurge rows cutoff = filter (\<lambda>r. \<not> id_createdAt r < cutoff) rows"

text \<open>\<open>cleans\<close>: the random draw was below 0.02, so rows a day old are deleted too.\<close>

definition dbReserve :: "idemRow list \<Rightarrow> ident \<Rightarrow> string \<Rightarrow> string \<Rightarrow> string \<Rightarrow> instant \<Rightarrow> bool \<Rightarrow> bool \<times> idemRow list" where
  "dbReserve rows u k m p at cleans =
     (if list_ex (isRow u k) rows then (False, rows)
      else let rows' = rows @ [reservedRow u k m (take 191 p) at]
           in (True, if cleans then dbPurge rows' (at - IDEMPOTENCY_RETENTION_MS) else rows'))"

definition dbComplete :: "idemRow list \<Rightarrow> ident \<Rightarrow> string \<Rightarrow> int \<Rightarrow> string \<Rightarrow> idemRow list" where
  "dbComplete rows u k status body =
     map (\<lambda>r. if isRow u k r then r\<lparr>id_statusCode := status, id_responseBody := body\<rparr> else r) rows"

definition dbRelease :: "idemRow list \<Rightarrow> ident \<Rightarrow> string \<Rightarrow> idemRow list" where
  "dbRelease rows u k = filter (\<lambda>r. \<not> (isRow u k r \<and> id_statusCode r = PENDING_STATUS)) rows"

definition prismaIdempotency :: "idemRow list idemStore" where
  "prismaIdempotency = \<lparr>findKey = dbFindKey, reserveKey = dbReserve, completeKey = dbComplete, releaseKey = dbRelease, purgeOlderThan = dbPurge\<rparr>"

subsection \<open>In memory (a map from user and key joined by a zero character)\<close>

type_synonym memRows = "(string \<times> idemRow) list"

definition rowId :: "ident \<Rightarrow> string \<Rightarrow> string" where
  "rowId u k = u @ CHR 0x00 # k"

definition memFindKey :: "memRows \<Rightarrow> ident \<Rightarrow> string \<Rightarrow> idemRow option" where
  "memFindKey rows u k = map_of rows (rowId u k)"

definition memReserve :: "memRows \<Rightarrow> ident \<Rightarrow> string \<Rightarrow> string \<Rightarrow> string \<Rightarrow> instant \<Rightarrow> bool \<Rightarrow> bool \<times> memRows" where
  "memReserve rows u k m p at cleans =
     (case map_of rows (rowId u k) of
        Some _ \<Rightarrow> (False, rows)
      | None \<Rightarrow> (True, rows @ [(rowId u k, reservedRow u k m p at)]))"

definition memComplete :: "memRows \<Rightarrow> ident \<Rightarrow> string \<Rightarrow> int \<Rightarrow> string \<Rightarrow> memRows" where
  "memComplete rows u k status body =
     map (\<lambda>(i, r). (i, if i = rowId u k then r\<lparr>id_statusCode := status, id_responseBody := body\<rparr> else r)) rows"

definition memRelease :: "memRows \<Rightarrow> ident \<Rightarrow> string \<Rightarrow> memRows" where
  "memRelease rows u k =
     (case map_of rows (rowId u k) of
        None \<Rightarrow> rows
      | Some r \<Rightarrow> if id_statusCode r = PENDING_STATUS then filter (\<lambda>e. fst e \<noteq> rowId u k) rows else rows)"

definition memPurge :: "memRows \<Rightarrow> instant \<Rightarrow> memRows" where
  "memPurge rows cutoff = filter (\<lambda>e. \<not> id_createdAt (snd e) < cutoff) rows"

definition memoryIdempotency :: "memRows idemStore" where
  "memoryIdempotency = \<lparr>findKey = memFindKey, reserveKey = memReserve, completeKey = memComplete, releaseKey = memRelease, purgeOlderThan = memPurge\<rparr>"

section \<open>The hooks\<close>

definition contains :: "string \<Rightarrow> string \<Rightarrow> bool" where
  "contains pat s \<longleftrightarrow> list_ex (\<lambda>i. take (length pat) (drop i s) = pat) [0..<length s + 1]"

record request =
  rq_method :: string
  rq_header :: "string option"
  rq_userId :: "ident option"
  rq_url :: string

definition keyOf :: "request \<Rightarrow> string" where
  "keyOf r = (case rq_header r of None \<Rightarrow> [] | Some raw \<Rightarrow> trim raw)"

definition pathOf :: "request \<Rightarrow> string" where
  "pathOf r = takeWhile (\<lambda>c. c \<noteq> CHR ''?'') (rq_url r)"

datatype payload = NoPayload | TextPayload string | OtherPayload

text \<open>
  Where a request is: before or between the two calls of the store in round \<open>n\<close> of the loop; in the route's
  handler (holding the key or not); at the call of the store in \<open>onSend\<close> or \<open>onResponse\<close>, its
  \<open>idempotency\<close> cleared already; or ended. \<open>Unsaved\<close> is a request whose call of the store failed without its
  effect while the key was reserved for it, \<open>Failed\<close> one that failed with nothing left reserved.
\<close>

datatype ending =
    KeyTooLong
  | KeyReusedForOther
  | StillInProgress
  | Replayed int "string option"
  | Answered int payload
  | Aborted
  | Failed
  | Unsaved

datatype phase = Looking nat | Claiming nat | Running bool | Sending int string payload | LettingGo | Ended ending

definition enter :: "request \<Rightarrow> phase" where
  "enter r =
     (if rq_method r \<noteq> ''POST'' then Running False
      else if keyOf r = [] then Running False
      else if length (keyOf r) > MAX_KEY_LENGTH then Ended KeyTooLong
      else if rq_userId r = None \<or> rq_userId r = Some [] then Running False
      else Looking 0)"

definition userOf :: "request \<Rightarrow> ident" where
  "userOf r = (case rq_userId r of None \<Rightarrow> [] | Some u \<Rightarrow> u)"

definition look :: "'s idemStore \<Rightarrow> 's \<Rightarrow> request \<Rightarrow> nat \<Rightarrow> phase" where
  "look S s r n =
     (case findKey S s (userOf r) (keyOf r) of
        None \<Rightarrow> Claiming n
      | Some row \<Rightarrow>
          Ended (if id_method row \<noteq> rq_method r \<or> id_path row \<noteq> take 191 (pathOf r) then KeyReusedForOther
                 else if id_statusCode row = PENDING_STATUS then StillInProgress
                 else if id_statusCode row = 204 \<or> id_responseBody row = [] then Replayed (id_statusCode row) None
                 else Replayed (id_statusCode row) (Some (id_responseBody row))))"

definition claim :: "'s idemStore \<Rightarrow> 's \<Rightarrow> request \<Rightarrow> nat \<Rightarrow> instant \<Rightarrow> bool \<Rightarrow> phase \<times> 's" where
  "claim S s r n at cleans =
     (case reserveKey S s (userOf r) (keyOf r) (rq_method r) (pathOf r) at cleans of
        (True, s') \<Rightarrow> (Running True, s')
      | (False, s') \<Rightarrow> (if n + 1 < 2 then Looking (n + 1) else Running False, s'))"

definition onSend :: "'s idemStore \<Rightarrow> 's \<Rightarrow> request \<Rightarrow> int \<Rightarrow> string \<Rightarrow> payload \<Rightarrow> 's" where
  "onSend S s r status contentType pl =
     (if status \<ge> 500 then releaseKey S s (userOf r) (keyOf r)
      else (case pl of
              NoPayload \<Rightarrow> completeKey S s (userOf r) (keyOf r) status []
            | OtherPayload \<Rightarrow> releaseKey S s (userOf r) (keyOf r)
            | TextPayload t \<Rightarrow>
                if t = [] then completeKey S s (userOf r) (keyOf r) status []
                else if contains ''json'' contentType \<and> contains (CHR 0x22 # ''temporaryPassword'' @ [CHR 0x22]) t
                then releaseKey S s (userOf r) (keyOf r)
                else if contains ''json'' contentType then completeKey S s (userOf r) (keyOf r) status t
                else releaseKey S s (userOf r) (keyOf r)))"

definition onResponse :: "'s idemStore \<Rightarrow> 's \<Rightarrow> request \<Rightarrow> 's" where
  "onResponse S s r = releaseKey S s (userOf r) (keyOf r)"

section \<open>Requests side by side\<close>

text \<open>
  What happens next to a request: its next call of the store returns or fails (\<open>took\<close>: after its effect), its
  handler answers, or its connection is lost.
\<close>

datatype event = Advance instant bool | Fails bool instant bool | Answer int string payload | ConnectionLost

fun act :: "'s idemStore \<Rightarrow> 's \<Rightarrow> request \<Rightarrow> phase \<Rightarrow> event \<Rightarrow> (phase \<times> 's) option" where
  "act S s r (Looking n) (Advance at cleans) = Some (look S s r n, s)"
| "act S s r (Looking n) (Fails took at cleans) = Some (Ended Failed, s)"
| "act S s r (Claiming n) (Advance at cleans) = Some (claim S s r n at cleans)"
| "act S s r (Claiming n) (Fails took at cleans) =
     Some (if took then (case reserveKey S s (userOf r) (keyOf r) (rq_method r) (pathOf r) at cleans of
                           (reserved, s') \<Rightarrow> (Ended (if reserved then Unsaved else Failed), s'))
           else (Ended Failed, s))"
| "act S s r (Running holds) (Answer status ct pl) =
     (if 100 \<le> status then Some (if holds then Sending status ct pl else Ended (Answered status pl), s) else None)"
| "act S s r (Running holds) ConnectionLost = Some (if holds then LettingGo else Ended Aborted, s)"
| "act S s r (Sending status ct pl) (Advance at cleans) = Some (Ended (Answered status pl), onSend S s r status ct pl)"
| "act S s r (Sending status ct pl) (Fails took at cleans) =
     Some (if took then (Ended Failed, onSend S s r status ct pl) else (Ended Unsaved, s))"
| "act S s r LettingGo (Advance at cleans) = Some (Ended Aborted, onResponse S s r)"
| "act S s r LettingGo (Fails took at cleans) = Some (if took then (Ended Failed, onResponse S s r) else (Ended Unsaved, s))"
| "act S s r p e = None"

text \<open>The key is reserved for this request.\<close>

fun owns :: "phase \<Rightarrow> bool" where
  "owns (Running holds) = holds"
| "owns (Sending status ct pl) = True"
| "owns LettingGo = True"
| "owns (Ended e) = (e = Unsaved)"
| "owns p = False"

text \<open>An answer's status is an HTTP status (never the 0 of a reserved row).\<close>

fun sendable :: "phase \<Rightarrow> bool" where
  "sendable (Sending status ct pl) = (100 \<le> status)"
| "sendable p = True"

fun onDay :: "instant \<Rightarrow> event \<Rightarrow> bool" where
  "onDay t0 (Advance at cleans) = (t0 \<le> at \<and> at \<le> t0 + IDEMPOTENCY_RETENTION_MS)"
| "onDay t0 (Fails took at cleans) = (t0 \<le> at \<and> at \<le> t0 + IDEMPOTENCY_RETENTION_MS)"
| "onDay t0 e = True"

text \<open>One step of request number \<open>i\<close>; a run is a list of steps on the day that begins at \<open>t0\<close>.\<close>

definition stepOne :: "'s idemStore \<Rightarrow> request list \<Rightarrow> nat \<times> event \<Rightarrow> 's \<times> phase list \<Rightarrow> ('s \<times> phase list) option" where
  "stepOne S rs ie w =
     (if fst ie < length rs \<and> fst ie < length (snd w)
      then map_option (\<lambda>(p, s'). (s', (snd w)[fst ie := p])) (act S (fst w) (rs ! fst ie) (snd w ! fst ie) (snd ie))
      else None)"

inductive reaches :: "'s idemStore \<Rightarrow> request list \<Rightarrow> instant \<Rightarrow> 's \<Rightarrow> 's \<times> phase list \<Rightarrow> bool" for S rs t0 s0 where
  start: "reaches S rs t0 s0 (s0, map enter rs)"
| step: "reaches S rs t0 s0 w \<Longrightarrow> onDay t0 (snd ie) \<Longrightarrow> stepOne S rs ie w = Some w' \<Longrightarrow> reaches S rs t0 s0 w'"

fun runSteps :: "'s idemStore \<Rightarrow> request list \<Rightarrow> (nat \<times> event) list \<Rightarrow> 's \<times> phase list \<Rightarrow> ('s \<times> phase list) option" where
  "runSteps S rs [] w = Some w"
| "runSteps S rs (e # es) w = (case stepOne S rs e w of None \<Rightarrow> None | Some w' \<Rightarrow> runSteps S rs es w')"

lemma runSteps_reaches:
  "reaches S rs t0 s0 w \<Longrightarrow> list_all (onDay t0 \<circ> snd) es \<Longrightarrow> runSteps S rs es w = Some w' \<Longrightarrow> reaches S rs t0 s0 w'"
proof (induction es arbitrary: w)
  case (Cons e es)
  then show ?case by (auto split: option.splits intro: reaches.step)
qed simp

section \<open>What the hooks ask of a store\<close>

text \<open>
  \<open>rows s u k\<close> is the row of a user and key; \<open>plain u\<close> says the store tells that user's keys apart from all
  others (the one in memory does for ids without a zero character); \<open>kept\<close> is what it keeps of a path, and
  \<open>wf\<close> what holds of its rows (the unique index of the database). A reservation may delete rows a day old.
\<close>

definition isPending :: "idemRow option \<Rightarrow> bool" where
  "isPending row \<longleftrightarrow> (case row of None \<Rightarrow> False | Some r \<Rightarrow> id_statusCode r = PENDING_STATUS)"

locale idem_store =
  fixes S :: "'s idemStore" and rows :: "'s \<Rightarrow> ident \<Rightarrow> string \<Rightarrow> idemRow option" and plain :: "ident \<Rightarrow> bool"
    and kept :: "string \<Rightarrow> string" and wf :: "'s \<Rightarrow> bool"
  assumes find_row: "plain u \<Longrightarrow> findKey S s u k = rows s u k"
    and reserve_answer: "wf s \<Longrightarrow> plain u \<Longrightarrow> reserveKey S s u k m p at cleans = (b, s') \<Longrightarrow> wf s' \<and> b = (rows s u k = None)"
    and reserve_new: "wf s \<Longrightarrow> plain u \<Longrightarrow> reserveKey S s u k m p at cleans = (True, s') \<Longrightarrow>
      rows s' u k = Some (reservedRow u k m (kept p) at)"
    and reserve_rest: "wf s \<Longrightarrow> plain u \<Longrightarrow> plain u' \<Longrightarrow> reserveKey S s u k m p at cleans = (b, s') \<Longrightarrow> \<not> (b \<and> u' = u \<and> k' = k) \<Longrightarrow>
      rows s' u' k' = rows s u' k'
      \<or> (rows s' u' k' = None \<and> (\<exists>r. rows s u' k' = Some r \<and> id_createdAt r < at - IDEMPOTENCY_RETENTION_MS))"
    and complete_row: "plain u \<Longrightarrow> plain u' \<Longrightarrow> rows (completeKey S s u k status body) u' k' =
      (if u' = u \<and> k' = k then map_option (\<lambda>r. r\<lparr>id_statusCode := status, id_responseBody := body\<rparr>) (rows s u k) else rows s u' k')"
    and complete_wf: "wf s \<Longrightarrow> wf (completeKey S s u k status body)"
    and release_row: "wf s \<Longrightarrow> plain u \<Longrightarrow> plain u' \<Longrightarrow> rows (releaseKey S s u k) u' k' =
      (if u' = u \<and> k' = k then (case rows s u k of None \<Rightarrow> None | Some r \<Rightarrow> if id_statusCode r = PENDING_STATUS then None else Some r) else rows s u' k')"
    and release_wf: "wf s \<Longrightarrow> wf (releaseKey S s u k)"
begin

text \<open>The requests a key is reserved for.\<close>

definition holders :: "request list \<Rightarrow> phase list \<Rightarrow> ident \<Rightarrow> string \<Rightarrow> nat set" where
  "holders rs ps u k = {i. i < length rs \<and> i < length ps \<and> owns (ps ! i) \<and> userOf (rs ! i) = u \<and> keyOf (rs ! i) = k}"

text \<open>A reserved row has one owner, no other row has any, and it was reserved on the day of the run.\<close>

definition ownedRow :: "request list \<Rightarrow> instant \<Rightarrow> 's \<Rightarrow> phase list \<Rightarrow> ident \<Rightarrow> string \<Rightarrow> bool" where
  "ownedRow rs t0 s ps u k \<longleftrightarrow>
     (if isPending (rows s u k)
      then (\<exists>i. holders rs ps u k = {i}) \<and> (\<exists>r. rows s u k = Some r \<and> t0 \<le> id_createdAt r \<and> id_createdAt r \<le> t0 + IDEMPOTENCY_RETENTION_MS)
      else holders rs ps u k = {})"

definition ok :: "request list \<Rightarrow> instant \<Rightarrow> 's \<times> phase list \<Rightarrow> bool" where
  "ok rs t0 w \<longleftrightarrow> wf (fst w) \<and> length (snd w) = length rs \<and> list_all sendable (snd w)
     \<and> (\<forall>u k. plain u \<longrightarrow> ownedRow rs t0 (fst w) (snd w) u k)"

lemma okD:
  assumes "ok rs t0 (s, ps)"
  shows "wf s" "length ps = length rs" "plain u \<Longrightarrow> ownedRow rs t0 s ps u k" "list_all sendable ps"
  using assms by (simp_all add: ok_def)

lemma holders_update:
  assumes "i < length ps" "length ps = length rs"
  shows "holders rs (ps[i := p]) u k =
    (if owns p \<and> userOf (rs ! i) = u \<and> keyOf (rs ! i) = k then insert i (holders rs ps u k) else holders rs ps u k - {i})"
  using assms by (auto simp: holders_def nth_list_update split: if_splits)

lemma holders_other:
  assumes "i < length ps" "length ps = length rs" "\<not> (userOf (rs ! i) = u \<and> keyOf (rs ! i) = k)"
  shows "holders rs (ps[i := p]) u k = holders rs ps u k"
  using assms(3) unfolding holders_update[OF assms(1,2)] by (auto simp: holders_def)

text \<open>What a step may do to the row of its own key: nothing, give it up, or take it.\<close>

definition fairStep :: "request \<Rightarrow> instant \<Rightarrow> 's \<Rightarrow> 's \<Rightarrow> phase \<Rightarrow> phase \<Rightarrow> bool" where
  "fairStep r t0 s s' q p \<longleftrightarrow>
     (let row = rows s (userOf r) (keyOf r); row' = rows s' (userOf r) (keyOf r)
      in (owns p = owns q \<and> (row' = row \<or> \<not> isPending row \<and> \<not> isPending row'))
       \<or> (owns q \<and> \<not> owns p \<and> \<not> isPending row')
       \<or> (\<not> owns q \<and> owns p \<and> \<not> isPending row
          \<and> (\<exists>n. row' = Some n \<and> id_statusCode n = PENDING_STATUS \<and> t0 \<le> id_createdAt n \<and> id_createdAt n \<le> t0 + IDEMPOTENCY_RETENTION_MS)))"

lemma ok_change:
  assumes ok: "ok rs t0 (s, ps)" and i: "i < length rs" and wf: "wf s'" and sp: "sendable p"
    and others: "\<And>u k. plain u \<Longrightarrow> \<not> (userOf (rs ! i) = u \<and> keyOf (rs ! i) = k) \<Longrightarrow> rows s' u k = rows s u k \<or> (rows s' u k = None \<and> \<not> isPending (rows s u k))"
    and mine: "fairStep (rs ! i) t0 s s' (ps ! i) p"
  shows "ok rs t0 (s', ps[i := p])"
proof -
  note len = okD(2)[OF ok]
  note i' = i[folded len]
  have "ownedRow rs t0 s' (ps[i := p]) u k" if u: "plain u" for u k
  proof (cases "userOf (rs ! i) = u \<and> keyOf (rs ! i) = k")
    case False
    show ?thesis using others[OF u False] okD(3)[OF ok u, of k] unfolding ownedRow_def holders_other[OF i' len False]
      by (auto simp: isPending_def)
  next
    case True
    have before: "ownedRow rs t0 s ps u k" by (rule okD(3)[OF ok u])
    have mem: "i \<in> holders rs ps u k \<longleftrightarrow> owns (ps ! i)" using i len True by (simp add: holders_def)
    have up: "holders rs (ps[i := p]) u k = (if owns p then insert i (holders rs ps u k) else holders rs ps u k - {i})"
      using True by (simp add: holders_update[OF i' len])
    consider (same) "owns p = owns (ps ! i)" "rows s' u k = rows s u k \<or> \<not> isPending (rows s u k) \<and> \<not> isPending (rows s' u k)"
      | (gives) "owns (ps ! i)" "\<not> owns p" "\<not> isPending (rows s' u k)"
      | (takes) n where "\<not> owns (ps ! i)" "owns p" "\<not> isPending (rows s u k)" "rows s' u k = Some n" "id_statusCode n = PENDING_STATUS"
          "t0 \<le> id_createdAt n" "id_createdAt n \<le> t0 + IDEMPOTENCY_RETENTION_MS"
      using mine True unfolding fairStep_def Let_def by blast
    then show ?thesis
    proof cases
      case same
      then have "holders rs (ps[i := p]) u k = holders rs ps u k" unfolding up using mem by auto
      then show ?thesis using same(2) before by (auto simp: ownedRow_def)
    next
      case gives
      have "holders rs ps u k = {i}" using before gives(1) mem by (auto simp: ownedRow_def split: if_splits)
      then show ?thesis using gives by (simp add: ownedRow_def up)
    next
      case takes
      have "holders rs ps u k = {}" using before takes(3) by (simp add: ownedRow_def)
      then show ?thesis using takes by (simp add: ownedRow_def up isPending_def)
    qed
  qed
  moreover have "list_all sendable (ps[i := p])" using okD(4)[OF ok] sp by (auto simp: list_all_iff dest: set_update_subset_insert[THEN subsetD])
  ultimately show ?thesis using wf len by (simp add: ok_def)
qed

lemma onSend_cases:
  "onSend S s r status ct pl = releaseKey S s (userOf r) (keyOf r) \<or> (\<exists>body. onSend S s r status ct pl = completeKey S s (userOf r) (keyOf r) status body)"
  by (cases pl) (auto simp: onSend_def)

text \<open>Each store call at the end of a request frees its key and touches no other row.\<close>

definition freed :: "request \<Rightarrow> 's \<Rightarrow> 's \<Rightarrow> bool" where
  "freed r s s' \<longleftrightarrow> wf s' \<and> \<not> isPending (rows s' (userOf r) (keyOf r))
     \<and> (\<forall>u k. plain u \<longrightarrow> \<not> (userOf r = u \<and> keyOf r = k) \<longrightarrow> rows s' u k = rows s u k)"

lemma release_frees: "wf s \<Longrightarrow> plain (userOf r) \<Longrightarrow> freed r s (releaseKey S s (userOf r) (keyOf r))"
  unfolding freed_def by (auto simp: release_wf release_row isPending_def split: option.splits)

lemma complete_frees: "wf s \<Longrightarrow> plain (userOf r) \<Longrightarrow> 100 \<le> status \<Longrightarrow> freed r s (completeKey S s (userOf r) (keyOf r) status body)"
  unfolding freed_def by (auto simp: complete_wf complete_row isPending_def PENDING_STATUS_def split: option.splits)

lemma onSend_frees:
  assumes "wf s" "plain (userOf r)" "100 \<le> status"
  shows "freed r s (onSend S s r status ct pl)"
  using onSend_cases[of s r status ct pl] release_frees[OF assms(1,2)] complete_frees[OF assms] by auto

lemma ok_freed:
  assumes "ok rs t0 (s, ps)" "i < length rs" "owns (ps ! i)" "\<not> owns p" "freed (rs ! i) s s'"
  shows "ok rs t0 (s', ps[i := p])"
proof (rule ok_change[OF assms(1,2)])
  show "wf s'" using assms(5) by (simp add: freed_def)
  show "sendable p" using assms(4) by (cases p) simp_all
  show "rows s' u k = rows s u k \<or> (rows s' u k = None \<and> \<not> isPending (rows s u k))" if "plain u" "\<not> (userOf (rs ! i) = u \<and> keyOf (rs ! i) = k)" for u k
    using assms(5) that by (simp add: freed_def)
  have "\<not> isPending (rows s' (userOf (rs ! i)) (keyOf (rs ! i)))" using assms(5) unfolding freed_def by blast
  then show "fairStep (rs ! i) t0 s s' (ps ! i) p" unfolding fairStep_def Let_def using assms(3,4) by blast
qed

lemma ok_same:
  assumes "ok rs t0 (s, ps)" "i < length rs" "owns p = owns (ps ! i)" "sendable p"
  shows "ok rs t0 (s, ps[i := p])"
  by (rule ok_change[OF assms(1,2) okD(1)[OF assms(1)] assms(4)]) (simp_all add: fairStep_def assms(3))

text \<open>A reservation takes the key of a request when it is free, and deletes no row reserved on this day.\<close>

lemma ok_reserved:
  assumes ok: "ok rs t0 (s, ps)" and i: "i < length rs" "\<not> owns (ps ! i)" and pl: "plain (userOf (rs ! i))"
    and day: "t0 \<le> at" "at \<le> t0 + IDEMPOTENCY_RETENTION_MS"
    and r: "reserveKey S s (userOf (rs ! i)) (keyOf (rs ! i)) (rq_method (rs ! i)) (pathOf (rs ! i)) at cleans = (b, s')" and p: "owns p = b" "sendable p"
  shows "ok rs t0 (s', ps[i := p])"
proof -
  note wf = okD(1)[OF ok]
  have rest: "rows s' u k = rows s u k \<or> (rows s' u k = None \<and> \<not> isPending (rows s u k))"
    if u: "plain u" "\<not> (b \<and> u = userOf (rs ! i) \<and> k = keyOf (rs ! i))" for u k
  proof -
    have "\<not> isPending (rows s u k)" if "rows s u k = Some row" "id_createdAt row < at - IDEMPOTENCY_RETENTION_MS" for row
    proof
      assume "isPending (rows s u k)"
      then have "t0 \<le> id_createdAt row" using okD(3)[OF ok u(1), of k] that(1) unfolding ownedRow_def by simp
      then show False using that(2) day by simp
    qed
    then show ?thesis using reserve_rest[OF wf pl u(1) r u(2)] by blast
  qed
  show ?thesis
  proof (rule ok_change[OF ok i(1)])
    show "wf s'" using reserve_answer[OF wf pl r] by blast
    show "sendable p" by (rule p(2))
    show "rows s' u k = rows s u k \<or> (rows s' u k = None \<and> \<not> isPending (rows s u k))"
      if "plain u" "\<not> (userOf (rs ! i) = u \<and> keyOf (rs ! i) = k)" for u k
    proof (rule rest[OF that(1)])
      show "\<not> (b \<and> u = userOf (rs ! i) \<and> k = keyOf (rs ! i))" using that(2) by auto
    qed
    show "fairStep (rs ! i) t0 s s' (ps ! i) p"
    proof (cases b)
      case True
      then have "reserveKey S s (userOf (rs ! i)) (keyOf (rs ! i)) (rq_method (rs ! i)) (pathOf (rs ! i)) at cleans = (True, s')" using r by simp
      define n where "n = reservedRow (userOf (rs ! i)) (keyOf (rs ! i)) (rq_method (rs ! i)) (kept (pathOf (rs ! i))) at"
      have "rows s' (userOf (rs ! i)) (keyOf (rs ! i)) = Some n" unfolding n_def by (rule reserve_new[OF wf pl \<open>reserveKey S s _ _ _ _ at cleans = (True, s')\<close>])
      moreover have "id_statusCode n = PENDING_STATUS" "t0 \<le> id_createdAt n" "id_createdAt n \<le> t0 + IDEMPOTENCY_RETENTION_MS"
        using day by (simp_all add: n_def reservedRow_def)
      moreover have "\<not> isPending (rows s (userOf (rs ! i)) (keyOf (rs ! i)))"
        using reserve_answer[OF wf pl r] unfolding isPending_def using True by simp
      moreover have "owns p" using p(1) True by simp
      ultimately show ?thesis using i(2) unfolding fairStep_def Let_def by blast
    next
      case False
      then have "rows s' (userOf (rs ! i)) (keyOf (rs ! i)) = rows s (userOf (rs ! i)) (keyOf (rs ! i))
          \<or> (\<not> isPending (rows s (userOf (rs ! i)) (keyOf (rs ! i))) \<and> \<not> isPending (rows s' (userOf (rs ! i)) (keyOf (rs ! i))))"
        using rest[OF pl, of "keyOf (rs ! i)"] by (auto simp: isPending_def)
      moreover have "owns p = owns (ps ! i)" using p(1) False i(2) by simp
      ultimately show ?thesis unfolding fairStep_def Let_def by blast
    qed
  qed
qed

lemma ok_step:
  assumes ok: "ok rs t0 w" and pl: "\<And>r. r \<in> set rs \<Longrightarrow> plain (userOf r)" and day: "onDay t0 (snd ie)" and st: "stepOne S rs ie w = Some w'"
  shows "ok rs t0 w'"
proof -
  obtain s ps i e where w: "w = (s, ps)" and ie: "ie = (i, e)" by (cases w, cases ie)
  note okw = ok[unfolded w]
  note wf = okD(1)[OF okw]
  have i: "i < length rs" using st by (simp add: stepOne_def ie split: if_splits)
  then have pi: "plain (userOf (rs ! i))" using pl nth_mem by blast
  obtain p s' where a: "act S s (rs ! i) (ps ! i) e = Some (p, s')" and w': "w' = (s', ps[i := p])"
    using st by (auto simp: stepOne_def w ie split: if_splits)
  note same = ok_same[OF okw i] and free = ok_freed[OF okw i]
  note gone = release_frees[OF wf pi] and sent = onSend_frees[OF wf pi]
  show ?thesis unfolding w'
  proof (cases "ps ! i")
    case (Looking n)
    have "s' = s \<and> \<not> owns p \<and> sendable p" using a unfolding Looking by (cases e) (auto simp: look_def split: option.splits if_splits)
    then show "ok rs t0 (s', ps[i := p])" using same Looking by simp
  next
    case (Claiming n)
    have none: "\<not> owns (ps ! i)" using Claiming by simp
    show "ok rs t0 (s', ps[i := p])"
    proof (cases e)
      case (Advance at cleans)
      obtain b where b: "reserveKey S s (userOf (rs ! i)) (keyOf (rs ! i)) (rq_method (rs ! i)) (pathOf (rs ! i)) at cleans = (b, s')" "owns p = b" "sendable p"
        using a unfolding Claiming Advance by (auto simp: claim_def split: prod.splits bool.splits if_splits)
      show ?thesis using day by (intro ok_reserved[OF okw i none pi _ _ b]) (simp_all add: ie Advance)
    next
      case (Fails took at cleans)
      show ?thesis
      proof (cases took)
        case True
        obtain b where b: "reserveKey S s (userOf (rs ! i)) (keyOf (rs ! i)) (rq_method (rs ! i)) (pathOf (rs ! i)) at cleans = (b, s')" "owns p = b" "sendable p"
          using a True unfolding Claiming Fails by (auto split: prod.splits)
        show ?thesis using day by (intro ok_reserved[OF okw i none pi _ _ b]) (simp_all add: ie Fails)
      next
        case False
        then show ?thesis using a same Claiming unfolding Fails by auto
      qed
    qed (use a Claiming in simp_all)
  next
    case (Running h)
    have "s' = s \<and> owns p = h \<and> sendable p" using a unfolding Running by (cases e) (auto split: if_splits)
    then show "ok rs t0 (s', ps[i := p])" using same Running by simp
  next
    case (Sending status ct pl)
    show "ok rs t0 (s', ps[i := p])"
    proof (cases "owns p")
      case True
      then have "s' = s \<and> sendable p" using a unfolding Sending by (cases e) (auto split: if_splits)
      then show ?thesis using same True Sending by simp
    next
      case False
      then have "s' = onSend S s (rs ! i) status ct pl" using a unfolding Sending by (cases e) (auto split: if_splits)
      moreover have "sendable (ps ! i)" using okD(2,4)[OF okw] i by (simp add: list_all_length)
      then have "100 \<le> status" using Sending by simp
      with calculation show ?thesis using free[OF _ False] sent Sending by simp
    qed
  next
    case LettingGo
    show "ok rs t0 (s', ps[i := p])"
    proof (cases "owns p")
      case True
      then have "s' = s \<and> sendable p" using a unfolding LettingGo by (cases e) (auto split: if_splits)
      then show ?thesis using same True LettingGo by simp
    next
      case False
      then have "s' = releaseKey S s (userOf (rs ! i)) (keyOf (rs ! i))" using a unfolding LettingGo by (cases e) (auto simp: onResponse_def split: if_splits)
      then show ?thesis using free[OF _ False gone] LettingGo by simp
    qed
  next
    case (Ended x)
    then show "ok rs t0 (s', ps[i := p])" using a by (cases e) auto
  qed
qed

lemma ok_start:
  assumes "wf s0" "\<And>u k. plain u \<Longrightarrow> \<not> isPending (rows s0 u k)"
  shows "ok rs t0 (s0, map enter rs)"
proof -
  have no: "\<not> owns (enter r) \<and> sendable (enter r)" for r by (simp add: enter_def)
  then have "holders rs (map enter rs) u k = {}" for u k by (auto simp: holders_def)
  then show ?thesis using assms no by (simp add: ok_def ownedRow_def list_all_iff)
qed

lemma reaches_ok:
  assumes "reaches S rs t0 s0 w" "\<And>r. r \<in> set rs \<Longrightarrow> plain (userOf r)" "wf s0" "\<And>u k. plain u \<Longrightarrow> \<not> isPending (rows s0 u k)"
  shows "ok rs t0 w"
  using assms(1)
proof (induction rule: reaches.induct)
  case start
  show ?case by (rule ok_start[OF assms(3,4)])
next
  case (step w ie w')
  show ?case by (rule ok_step[OF step.IH assms(2) step.hyps(2,3)])
qed

end

section \<open>The two stores\<close>

definition onePerKey :: "idemRow list \<Rightarrow> bool" where
  "onePerKey rows \<longleftrightarrow> distinct (map (\<lambda>r. (id_userId r, id_key r)) rows)"

lemma find_filter_other: "(\<And>r. P r \<Longrightarrow> \<not> Q r) \<Longrightarrow> find P (filter (\<lambda>r. \<not> (Q r \<and> R r)) rows) = find P rows"
  by (induction rows) auto

lemma find_snoc: "find P (xs @ [x]) = (case find P xs of None \<Rightarrow> if P x then Some x else None | Some y \<Rightarrow> Some y)"
  by (induction xs) auto

lemma find_none_iff: "find P xs = None \<longleftrightarrow> \<not> list_ex P xs"
  by (induction xs) auto

lemma find_kept:
  assumes "onePerKey rows"
  shows "find (isRow u k) (filter P rows) = (case find (isRow u k) rows of None \<Rightarrow> None | Some r \<Rightarrow> if P r then Some r else None)"
  using assms
proof (induction rows)
  case (Cons r rows)
  show ?case
  proof (cases "isRow u k r")
    case True
    then have "\<not> isRow u k r'" if "r' \<in> set rows" for r'
      using Cons.prems that by (auto simp: onePerKey_def isRow_def image_iff)
    then have "find (isRow u k) (filter P rows) = None" by (auto simp: find_None_iff)
    then show ?thesis using True by simp
  next
    case False
    then show ?thesis using Cons by (simp add: onePerKey_def)
  qed
qed simp

lemma onePerKey_filter: "onePerKey rows \<Longrightarrow> onePerKey (filter P rows)"
  by (simp add: onePerKey_def distinct_map_filter)

lemma find_isRow: "find (isRow u k) rows = Some r \<Longrightarrow> isRow u k r"
  by (simp add: find_Some_iff) blast

lemma dbRelease_row:
  assumes "onePerKey rows"
  shows "find (isRow u' k') (dbRelease rows u k) =
    (if u' = u \<and> k' = k then (case find (isRow u k) rows of None \<Rightarrow> None | Some r \<Rightarrow> if id_statusCode r = PENDING_STATUS then None else Some r)
     else find (isRow u' k') rows)"
  by (auto simp: dbRelease_def find_kept[OF assms] isRow_def split: option.splits dest: find_isRow)

lemma dbReserve_new:
  assumes "find (isRow u k) rows = None"
  shows "find (isRow u' k') (rows @ [reservedRow u k m p at]) = (if u' = u \<and> k' = k then Some (reservedRow u k m p at) else find (isRow u' k') rows)"
  using assms by (auto simp: find_snoc isRow_def reservedRow_def split: option.splits)

lemma onePerKey_new: "onePerKey rows \<Longrightarrow> find (isRow u k) rows = None \<Longrightarrow> onePerKey (rows @ [reservedRow u k m p at])"
  by (auto simp: onePerKey_def reservedRow_def find_None_iff isRow_def)

lemma dbReserve_answer:
  assumes "onePerKey s" "dbReserve s u k m p at cleans = (b, s')"
  shows "onePerKey s' \<and> b = (find (isRow u k) s = None)"
proof (cases "find (isRow u k) s")
  case None
  then have "b \<and> s' = (if cleans then dbPurge (s @ [reservedRow u k m (take 191 p) at]) (at - IDEMPOTENCY_RETENTION_MS) else s @ [reservedRow u k m (take 191 p) at])"
    using assms(2) by (simp add: dbReserve_def find_none_iff Let_def)
  then show ?thesis using None onePerKey_new[OF assms(1) None] by (simp only: dbPurge_def onePerKey_filter if_True if_False split: if_split) simp
next
  case (Some r)
  then have "list_ex (isRow u k) s" using find_none_iff[of "isRow u k" s] by simp
  then show ?thesis using assms Some by (simp add: dbReserve_def)
qed

lemma dbReserve_row:
  assumes "onePerKey s" "dbReserve s u k m p at cleans = (b, s')"
  shows "find (isRow u' k') s' =
    (if b \<and> u' = u \<and> k' = k then Some (reservedRow u k m (take 191 p) at)
     else if b \<and> cleans
     then (case find (isRow u' k') s of None \<Rightarrow> None | Some r \<Rightarrow> if id_createdAt r < at - IDEMPOTENCY_RETENTION_MS then None else Some r)
     else find (isRow u' k') s)"
proof (cases "find (isRow u k) s")
  case None
  define w where "w = s @ [reservedRow u k m (take 191 p) at]"
  have w: "onePerKey w" "find (isRow u' k') w = (if u' = u \<and> k' = k then Some (reservedRow u k m (take 191 p) at) else find (isRow u' k') s)"
    unfolding w_def by (rule onePerKey_new[OF assms(1) None] dbReserve_new[OF None])+
  have s': "b" "s' = (if cleans then dbPurge w (at - IDEMPOTENCY_RETENTION_MS) else w)"
    using assms(2) None by (auto simp: dbReserve_def find_none_iff Let_def w_def)
  have at: "id_createdAt (reservedRow u k m (take 191 p) at) = at" by (simp add: reservedRow_def)
  show ?thesis
  proof (cases "u' = u \<and> k' = k")
    case True
    then show ?thesis using s' w(2) at by (simp add: dbPurge_def find_kept[OF w(1)] IDEMPOTENCY_RETENTION_MS_def)
  next
    case False
    then have "find (isRow u' k') w = find (isRow u' k') s" using w(2) by argo
    then show ?thesis using s' unfolding if_not_P[OF False] by (simp add: dbPurge_def find_kept[OF w(1)] False split: option.splits)
  qed
next
  case (Some r)
  then have "list_ex (isRow u k) s" using find_none_iff[of "isRow u k" s] by simp
  then show ?thesis using assms(2) by (simp add: dbReserve_def)
qed

lemma isRow_written: "isRow u k (r\<lparr>id_statusCode := status, id_responseBody := body\<rparr>) = isRow u k r"
  by (simp add: isRow_def)

lemma isRow_both: "isRow u k r \<Longrightarrow> isRow u' k' r \<Longrightarrow> u' = u \<and> k' = k"
  by (simp add: isRow_def)

lemma dbComplete_row: "find (isRow u' k') (dbComplete rows u k status body) =
   (if u' = u \<and> k' = k then map_option (\<lambda>r. r\<lparr>id_statusCode := status, id_responseBody := body\<rparr>) (find (isRow u k) rows) else find (isRow u' k') rows)"
  by (induction rows) (auto simp: dbComplete_def isRow_written dest: isRow_both)

interpretation prismaIdem: idem_store prismaIdempotency "\<lambda>s u k. find (isRow u k) s" "\<lambda>u. True" "take 191" onePerKey
proof
  fix s :: "idemRow list" and u k u' k' m p :: string and at status :: int and body :: string and b cleans s'
  show "findKey prismaIdempotency s u k = find (isRow u k) s" by (simp add: prismaIdempotency_def dbFindKey_def)
  show "find (isRow u' k') (completeKey prismaIdempotency s u k status body) =
      (if u' = u \<and> k' = k then map_option (\<lambda>r. r\<lparr>id_statusCode := status, id_responseBody := body\<rparr>) (find (isRow u k) s) else find (isRow u' k') s)"
    by (simp only: prismaIdempotency_def idemStore.select_convs dbComplete_row)
  assume wf: "onePerKey s"
  show "onePerKey s' \<and> b = (find (isRow u k) s = None)" if "reserveKey prismaIdempotency s u k m p at cleans = (b, s')"
    using that dbReserve_answer[OF wf] by (simp add: prismaIdempotency_def)
  show "find (isRow u k) s' = Some (reservedRow u k m (take 191 p) at)" if "reserveKey prismaIdempotency s u k m p at cleans = (True, s')"
    using that dbReserve_row[OF wf, of u k m p at cleans True s' u k] by (simp add: prismaIdempotency_def)
  show "find (isRow u' k') s' = find (isRow u' k') s
      \<or> (find (isRow u' k') s' = None \<and> (\<exists>r. find (isRow u' k') s = Some r \<and> id_createdAt r < at - IDEMPOTENCY_RETENTION_MS))"
    if "reserveKey prismaIdempotency s u k m p at cleans = (b, s')" "\<not> (b \<and> u' = u \<and> k' = k)"
    using that(2) dbReserve_row[OF wf that(1)[unfolded prismaIdempotency_def idemStore.select_convs], of u' k']
    by (auto split: option.splits if_splits)
  show "onePerKey (completeKey prismaIdempotency s u k status body)"
  proof -
    have "map (\<lambda>r. (id_userId r, id_key r)) (dbComplete s u k status body) = map (\<lambda>r. (id_userId r, id_key r)) s"
      by (simp add: dbComplete_def)
    then show ?thesis using wf by (simp only: onePerKey_def prismaIdempotency_def idemStore.select_convs)
  qed
  show "find (isRow u' k') (releaseKey prismaIdempotency s u k) =
      (if u' = u \<and> k' = k then (case find (isRow u k) s of None \<Rightarrow> None | Some r \<Rightarrow> if id_statusCode r = PENDING_STATUS then None else Some r)
       else find (isRow u' k') s)"
    by (simp only: prismaIdempotency_def idemStore.select_convs dbRelease_row[OF wf])
  show "onePerKey (releaseKey prismaIdempotency s u k)"
    using onePerKey_filter[OF wf] by (simp add: prismaIdempotency_def dbRelease_def)
qed

definition noZero :: "string \<Rightarrow> bool" where
  "noZero u \<longleftrightarrow> CHR 0x00 \<notin> set u"

lemma rowId_eq: "noZero u \<Longrightarrow> noZero u' \<Longrightarrow> rowId u k = rowId u' k' \<longleftrightarrow> u = u' \<and> k = k'"
proof (induction u arbitrary: u')
  case Nil
  then show ?case by (cases u') (auto simp: rowId_def noZero_def)
next
  case (Cons c u)
  then show ?case by (cases u') (auto simp: rowId_def noZero_def)
qed

lemma map_of_complete: "map_of (memComplete rows u k status body) i =
   (if i = rowId u k then map_option (\<lambda>r. r\<lparr>id_statusCode := status, id_responseBody := body\<rparr>) (map_of rows i) else map_of rows i)"
  by (induction rows) (auto simp: memComplete_def)

lemma map_of_filter_key: "map_of (filter (\<lambda>e. fst e \<noteq> j) rows) i = (if i = j then None else map_of rows i)"
  by (induction rows) auto

lemma memReserve_row:
  assumes "noZero u" "noZero u'" "memReserve s u k m p at cleans = (b, s')"
  shows "b = (map_of s (rowId u k) = None)"
    and "map_of s' (rowId u' k') = (if b \<and> u' = u \<and> k' = k then Some (reservedRow u k m p at) else map_of s (rowId u' k'))"
  using assms(3) rowId_eq[OF assms(2,1), of k' k] by (auto simp: memReserve_def map_add_def split: option.splits)

interpretation memoryIdem: idem_store memoryIdempotency "\<lambda>s u k. map_of s (rowId u k)" noZero "\<lambda>p. p" "\<lambda>s. True"
proof
  fix s :: memRows and u k u' k' m p :: string and at status :: int and body :: string and b cleans s'
  assume u: "noZero u"
  show "findKey memoryIdempotency s u k = map_of s (rowId u k)" by (simp add: memoryIdempotency_def memFindKey_def)
  note row = memReserve_row[OF u, of _ s k m p at cleans]
  show "True \<and> b = (map_of s (rowId u k) = None)" if "reserveKey memoryIdempotency s u k m p at cleans = (b, s')"
    using row(1)[OF u, of b s'] that by (simp add: memoryIdempotency_def)
  show "map_of s' (rowId u k) = Some (reservedRow u k m p at)" if "reserveKey memoryIdempotency s u k m p at cleans = (True, s')"
    using row(2)[OF u, of True s' k] that by (simp add: memoryIdempotency_def)
  assume u': "noZero u'"
  show "map_of s' (rowId u' k') = map_of s (rowId u' k')
      \<or> (map_of s' (rowId u' k') = None \<and> (\<exists>r. map_of s (rowId u' k') = Some r \<and> id_createdAt r < at - IDEMPOTENCY_RETENTION_MS))"
    if "reserveKey memoryIdempotency s u k m p at cleans = (b, s')" "\<not> (b \<and> u' = u \<and> k' = k)"
    using row(2)[OF u', of b s' k'] that by (simp add: memoryIdempotency_def)
  show "map_of (completeKey memoryIdempotency s u k status body) (rowId u' k') =
      (if u' = u \<and> k' = k then map_option (\<lambda>r. r\<lparr>id_statusCode := status, id_responseBody := body\<rparr>) (map_of s (rowId u k)) else map_of s (rowId u' k'))"
    using u u' by (auto simp: memoryIdempotency_def map_of_complete rowId_eq)
  show "map_of (releaseKey memoryIdempotency s u k) (rowId u' k') =
      (if u' = u \<and> k' = k then (case map_of s (rowId u k) of None \<Rightarrow> None | Some r \<Rightarrow> if id_statusCode r = PENDING_STATUS then None else Some r)
       else map_of s (rowId u' k'))"
    using u u' by (auto simp: memoryIdempotency_def memRelease_def map_of_filter_key rowId_eq split: option.splits)
qed simp_all

section \<open>Properties\<close>

definition sampleRequest :: request where
  "sampleRequest = \<lparr>rq_method = ''POST'', rq_header = Some '' k1 '', rq_userId = Some ''u'', rq_url = ''/tasks?x=1''\<rparr>"

definition json :: string where "json = ''application/json''"

lemma prisma_reaches_ok:
  assumes "reaches prismaIdempotency rs t0 s0 (s, ps)" "onePerKey s0" "list_all (\<lambda>r. id_statusCode r \<noteq> PENDING_STATUS) s0"
  shows "prismaIdem.ok rs t0 (s, ps)"
proof -
  have "\<not> isPending (find (isRow u k) s0)" for u k
    using assms(3) find_mem by (fastforce simp: isPending_def list_all_iff split: option.splits)
  then show ?thesis using prismaIdem.reaches_ok[OF assms(1)] assms(2) by blast
qed

lemma prisma_holders:
  assumes "prismaIdem.ok rs t0 (s, ps)"
  shows "i \<in> prismaIdem.holders rs ps u k \<longleftrightarrow> i < length rs \<and> owns (ps ! i) \<and> userOf (rs ! i) = u \<and> keyOf (rs ! i) = k"
  using prismaIdem.okD(2)[OF assms] by (auto simp: prismaIdem.holders_def)

text \<open>
  C2. However the steps of any number of requests interleave within a day, and whichever calls of the store
  fail: a user's key is reserved in the store exactly when some request owns it -- one that is in its
  handler with the key, is at the store call that ends it, or whose own call failed with the row in place
  -- and never do two requests own one key. So a request that answers with a server error, with a body that
  is not kept, or whose connection is lost leaves no reserved row once its call of the store has returned,
  and two requests that carry one key are never both in their handlers with it.
\<close>

theorem one_request_holds_a_key:
  assumes "reaches prismaIdempotency rs t0 s0 (s, ps)" "onePerKey s0" "list_all (\<lambda>r. id_statusCode r \<noteq> PENDING_STATUS) s0"
  shows "((\<exists>row. find (isRow u k) s = Some row \<and> id_statusCode row = PENDING_STATUS)
       \<longleftrightarrow> (\<exists>i < length rs. owns (ps ! i) \<and> userOf (rs ! i) = u \<and> keyOf (rs ! i) = k))
    \<and> (\<forall>i < length rs. \<forall>j < length rs. owns (ps ! i) \<and> owns (ps ! j)
         \<and> userOf (rs ! i) = userOf (rs ! j) \<and> keyOf (rs ! i) = keyOf (rs ! j) \<longrightarrow> i = j)"
proof -
  note ok = prisma_reaches_ok[OF assms]
  note mem = prisma_holders[OF ok] and own = prismaIdem.okD(3)[OF ok TrueI]
  have "(\<exists>row. find (isRow u k) s = Some row \<and> id_statusCode row = PENDING_STATUS) \<longleftrightarrow> prismaIdem.holders rs ps u k \<noteq> {}"
    using own[of u k] by (auto simp: prismaIdem.ownedRow_def isPending_def split: if_splits option.splits)
  also have "\<dots> \<longleftrightarrow> (\<exists>i < length rs. owns (ps ! i) \<and> userOf (rs ! i) = u \<and> keyOf (rs ! i) = k)" using mem by blast
  finally have 1: "(\<exists>row. find (isRow u k) s = Some row \<and> id_statusCode row = PENDING_STATUS)
       \<longleftrightarrow> (\<exists>i < length rs. owns (ps ! i) \<and> userOf (rs ! i) = u \<and> keyOf (rs ! i) = k)" .
  have "i = j" if "i < length rs" "j < length rs" "owns (ps ! i)" "owns (ps ! j)" "userOf (rs ! i) = userOf (rs ! j)" "keyOf (rs ! i) = keyOf (rs ! j)" for i j
  proof -
    have "i \<in> prismaIdem.holders rs ps (userOf (rs ! j)) (keyOf (rs ! j))" "j \<in> prismaIdem.holders rs ps (userOf (rs ! j)) (keyOf (rs ! j))"
      using that by (simp_all add: mem)
    then show ?thesis using own[of "userOf (rs ! j)" "keyOf (rs ! j)"] by (auto simp: prismaIdem.ownedRow_def split: if_splits)
  qed
  then show ?thesis using 1 by blast
qed

definition twoAlike :: "(idemRow list \<times> phase list) option" where
  "twoAlike = runSteps prismaIdempotency [sampleRequest, sampleRequest]
     [(0, Advance 1 False), (1, Advance 1 False), (0, Advance 2 True), (1, Advance 3 False), (1, Advance 4 False)]
     ([], map enter [sampleRequest, sampleRequest])"

theorem one_request_holds_a_key_witness:
  "\<exists>s ps. twoAlike = Some (s, ps) \<and> ps = [Running True, Ended StillInProgress] \<and> (\<exists>row. find (isRow ''u'' ''k1'') s = Some row \<and> id_statusCode row = PENDING_STATUS)"
proof -
  have "map_option snd twoAlike = Some [Running True, Ended StillInProgress]" by code_simp
  then obtain s where s: "twoAlike = Some (s, [Running True, Ended StillInProgress])" by auto
  have "reaches prismaIdempotency [sampleRequest, sampleRequest] 0 [] (s, [Running True, Ended StillInProgress])"
    by (rule runSteps_reaches[OF reaches.start _ s[unfolded twoAlike_def]]) (simp add: IDEMPOTENCY_RETENTION_MS_def)
  note here = one_request_holds_a_key[OF this, of "''u''" "''k1''"]
  have "userOf sampleRequest = ''u''" "keyOf sampleRequest = ''k1''" by code_simp+
  then have "\<exists>row. find (isRow ''u'' ''k1'') s = Some row \<and> id_statusCode row = PENDING_STATUS"
    using here by (auto simp: onePerKey_def less_Suc_eq)
  then show ?thesis using s by auto
qed

text \<open>
  C24. A key that no request owns is never stuck. In every state the requests can reach, failed calls of the
  store included, when nobody owns the key a retry carries the retry is not told to wait: it is given the
  stored answer (or told the key was used for another request), or its next two steps reserve the key and
  run it.
\<close>

theorem retry_is_never_stuck:
  assumes "reaches prismaIdempotency rs t0 s0 (s, ps)" "onePerKey s0" "list_all (\<lambda>r. id_statusCode r \<noteq> PENDING_STATUS) s0"
    and "\<And>i. i < length rs \<Longrightarrow> owns (ps ! i) \<Longrightarrow> \<not> (userOf (rs ! i) = userOf r \<and> keyOf (rs ! i) = keyOf r)"
  shows "(\<exists>status body. look prismaIdempotency s r 0 = Ended (Replayed status body) \<and> status \<noteq> PENDING_STATUS)
    \<or> look prismaIdempotency s r 0 = Ended KeyReusedForOther
    \<or> (look prismaIdempotency s r 0 = Claiming 0 \<and> fst (claim prismaIdempotency s r 0 at cleans) = Running True)"
proof -
  note ok = prisma_reaches_ok[OF assms(1-3)]
  have "prismaIdem.holders rs ps (userOf r) (keyOf r) = {}" using assms(4) prisma_holders[OF ok] by blast
  then have no: "\<not> isPending (find (isRow (userOf r) (keyOf r)) s)"
    using prismaIdem.okD(3)[OF ok TrueI, of "userOf r" "keyOf r"] by (auto simp: prismaIdem.ownedRow_def split: if_splits)
  have f: "findKey prismaIdempotency s (userOf r) (keyOf r) = find (isRow (userOf r) (keyOf r)) s" by (rule prismaIdem.find_row) simp
  show ?thesis
  proof (cases "find (isRow (userOf r) (keyOf r)) s")
    case None
    then have "fst (reserveKey prismaIdempotency s (userOf r) (keyOf r) (rq_method r) (pathOf r) at cleans)"
      using prismaIdem.reserve_answer[OF prismaIdem.okD(1)[OF ok] TrueI] by (metis prod.collapse)
    then show ?thesis using None by (auto simp: look_def f claim_def split: prod.splits)
  next
    case (Some row)
    then show ?thesis using no by (simp add: look_def f isPending_def)
  qed
qed

text \<open>One request reserved the key, answered with a server error and released it; another lost its connection.\<close>

definition failedOnce_run :: "(idemRow list \<times> phase list) option" where
  "failedOnce_run = runSteps prismaIdempotency [sampleRequest, sampleRequest]
     [(0, Advance 1 False), (0, Advance 2 False), (0, Answer 500 json (TextPayload ''x'')), (0, Advance 3 False),
      (1, Advance 4 False), (1, Advance 5 False), (1, ConnectionLost), (1, Advance 6 False)]
     ([], map enter [sampleRequest, sampleRequest])"

theorem retry_is_never_stuck_witness:
  "\<exists>s. failedOnce_run = Some (s, [Ended (Answered 500 (TextPayload ''x'')), Ended Aborted])
    \<and> look prismaIdempotency s sampleRequest 0 = Claiming 0 \<and> fst (claim prismaIdempotency s sampleRequest 0 7 False) = Running True"
proof -
  let ?ps = "[Ended (Answered 500 (TextPayload ''x'')), Ended Aborted]"
  have s: "failedOnce_run = Some ([], ?ps)" by code_simp
  have run: "reaches prismaIdempotency [sampleRequest, sampleRequest] 0 [] ([], ?ps)"
    by (rule runSteps_reaches[OF reaches.start _ s[unfolded failedOnce_run_def]]) (simp add: IDEMPOTENCY_RETENTION_MS_def)
  have look: "look prismaIdempotency [] sampleRequest 0 = Claiming 0" by code_simp
  have none: "\<not> owns (?ps ! i)" if "i < length [sampleRequest, sampleRequest]" for i using that by (auto simp: less_Suc_eq)
  have "onePerKey []" "list_all (\<lambda>r. id_statusCode r \<noteq> PENDING_STATUS) []" by (simp_all add: onePerKey_def)
  from retry_is_never_stuck[OF run this, of sampleRequest 7 False] none look show ?thesis unfolding s by simp
qed

text \<open>
  C40. What a failed call of the store leaves behind. A request whose reservation was made but whose reserving
  call failed, or whose completing or releasing call failed, keeps its key reserved although it has ended:
  whatever else happens on that day, every request that comes with the key is refused, and runs only after a
  clean-up of the rows a day older than any of the run.
\<close>

theorem failed_call_keeps_the_key:
  assumes "reaches prismaIdempotency rs t0 s0 (s, ps)" "onePerKey s0" "list_all (\<lambda>r. id_statusCode r \<noteq> PENDING_STATUS) s0"
    and "i < length rs" "ps ! i = Ended Unsaved" "userOf r = userOf (rs ! i)" "keyOf r = keyOf (rs ! i)"
  shows "look prismaIdempotency s r n \<in> {Ended StillInProgress, Ended KeyReusedForOther}
    \<and> (t0 + IDEMPOTENCY_RETENTION_MS < cutoff \<longrightarrow> look prismaIdempotency (dbPurge s cutoff) r n = Claiming n)"
proof -
  note ok = prisma_reaches_ok[OF assms(1-3)]
  have "i \<in> prismaIdem.holders rs ps (userOf r) (keyOf r)" using assms(4-7) prisma_holders[OF ok] by simp
  then obtain row where row: "find (isRow (userOf r) (keyOf r)) s = Some row" "id_statusCode row = PENDING_STATUS" "id_createdAt row \<le> t0 + IDEMPOTENCY_RETENTION_MS"
    using prismaIdem.okD(3)[OF ok TrueI, of "userOf r" "keyOf r"] by (auto simp: prismaIdem.ownedRow_def isPending_def split: if_splits)
  have f: "findKey prismaIdempotency s' (userOf r) (keyOf r) = find (isRow (userOf r) (keyOf r)) s'" for s' by (rule prismaIdem.find_row) simp
  have "find (isRow (userOf r) (keyOf r)) (dbPurge s cutoff) = None" if "t0 + IDEMPOTENCY_RETENTION_MS < cutoff"
    using row that by (simp add: dbPurge_def find_kept[OF prismaIdem.okD(1)[OF ok]])
  then show ?thesis using row by (simp add: look_def f)
qed

definition unsavedRun :: "(idemRow list \<times> phase list) option" where
  "unsavedRun = runSteps prismaIdempotency [sampleRequest]
     [(0, Advance 1 False), (0, Advance 2 False), (0, Answer 500 json (TextPayload ''x'')), (0, Fails False 3 False)]
     ([], map enter [sampleRequest])"

theorem failed_call_keeps_the_key_witness:
  "\<exists>s. unsavedRun = Some (s, [Ended Unsaved]) \<and> look prismaIdempotency s sampleRequest 0 \<in> {Ended StillInProgress, Ended KeyReusedForOther}
    \<and> look prismaIdempotency (dbPurge s 86400001) sampleRequest 0 = Claiming 0"
proof -
  have "map_option snd unsavedRun = Some [Ended Unsaved]" by code_simp
  then obtain s where s: "unsavedRun = Some (s, [Ended Unsaved])" by auto
  have run: "reaches prismaIdempotency [sampleRequest] 0 [] (s, [Ended Unsaved])"
    by (rule runSteps_reaches[OF reaches.start _ s[unfolded unsavedRun_def]]) (simp add: IDEMPOTENCY_RETENTION_MS_def)
  have "onePerKey []" "list_all (\<lambda>r. id_statusCode r \<noteq> PENDING_STATUS) []" by (simp_all add: onePerKey_def)
  from failed_call_keeps_the_key[OF run this, of 0 sampleRequest 0 86400001] show ?thesis using s by (auto simp: IDEMPOTENCY_RETENTION_MS_def)
qed

section \<open>A limit of the two rounds\<close>


end
