(* ===== verification/Spec2Isabelle.thy ===== *)
theory Spec2Isabelle
  imports ChecklistTrees DueDate Recurrence Dependencies AuthRoutes Idempotency
begin

text \<open>
  Verification library of the MICO360 Task backend (\<open>src/Web Portal/backend/src\<close>).

  The backend is a TypeScript server. Each module has a file of rules (plain functions over values) and
  services that call them over a repository port. This library models the rules and the services that keep
  state, file by file; a theory is named after the file it models.

  \<^item> \<open>Prelude\<close>: identifiers, instants (milliseconds since 1970) and the sequencing of fallible calls.
  \<^item> \<open>JsDate\<close>: the calendar of JavaScript's \<open>Date\<close> that the rules below use.
  \<^item> \<open>DueDate\<close>: \<open>lib/due-date.ts\<close>.
  \<^item> \<open>Recurrence\<close>: \<open>modules/tasks/recurrence.ts\<close>.
  \<^item> \<open>Dependencies\<close>: \<open>modules/tasks/dependency-service.ts\<close> and its repository.
  \<^item> \<open>ChecklistRows\<close>, \<open>ChecklistRules\<close>: \<open>modules/tasks/checklist-tree.ts\<close>.
\<close>

end
